(* ===== verification/Prelude.thy ===== *)
theory Prelude
  imports Complex_Main
begin

text \<open>
  Shared vocabulary of the development: the collections of simplification facts the component
  theories add to, the vector operations of Rust's \<^verbatim>\<open>Vec\<close> on HOL lists (positional insertion and
  removal, first position of a value, checked reads), facts on share vectors (positive numbers
  that sum to one), and the theory of parent forests: a partial parent function that is acyclic
  and bounded, on which every upward walk of the compositor ends.
\<close>

section \<open>Collections of facts\<close>

named_theorems vec_simps "reading the vector operations"
named_theorems arena_simps "what an arena operation leaves in each field"
named_theorems frame_simps "fields an operation does not write"

section \<open>Vector operations\<close>

text \<open>
  \<open>insert_at\<close> is \<^verbatim>\<open>Vec::insert\<close> and \<open>remove_at\<close> is \<^verbatim>\<open>Vec::remove\<close> at an index in range;
  \<open>position\<close> is \<^verbatim>\<open>iter().position(|x| *x == v)\<close>; \<open>vec_get\<close> is \<^verbatim>\<open>slice::get\<close>.
\<close>

definition insert_at :: "nat \<Rightarrow> 'a \<Rightarrow> 'a list \<Rightarrow> 'a list" where
  "insert_at i x xs = take i xs @ x # drop i xs"

definition remove_at :: "nat \<Rightarrow> 'a list \<Rightarrow> 'a list" where
  "remove_at i xs = take i xs @ drop (Suc i) xs"

fun position :: "'a \<Rightarrow> 'a list \<Rightarrow> nat option" where
  "position v [] = None"
| "position v (x # xs) = (if x = v then Some 0 else map_option Suc (position v xs))"

definition vec_get :: "'a list \<Rightarrow> nat \<Rightarrow> 'a option" where
  "vec_get xs i = (if i < length xs then Some (xs ! i) else None)"

fun find_map :: "('a \<Rightarrow> 'b option) \<Rightarrow> 'a list \<Rightarrow> 'b option" where
  "find_map f [] = None"
| "find_map f (x # xs) = (case f x of Some y \<Rightarrow> Some y | None \<Rightarrow> find_map f xs)"

definition or_else :: "'a option \<Rightarrow> 'a option \<Rightarrow> 'a option" where
  "or_else a b = (case a of Some x \<Rightarrow> Some x | None \<Rightarrow> b)"

definition unwrap_or :: "'a option \<Rightarrow> 'a \<Rightarrow> 'a" where
  "unwrap_or a d = (case a of Some x \<Rightarrow> x | None \<Rightarrow> d)"

definition retain_ne :: "'a \<Rightarrow> 'a list \<Rightarrow> 'a list" where
  "retain_ne v xs = filter (\<lambda>x. x \<noteq> v) xs"

lemma or_else_simps [simp]: "or_else (Some x) b = Some x" "or_else None b = b"
  by (simp_all add: or_else_def)

lemma unwrap_or_simps [simp]: "unwrap_or (Some x) d = x" "unwrap_or None d = d"
  by (simp_all add: unwrap_or_def)

lemma or_else_eq_None [simp]: "or_else a b = None \<longleftrightarrow> a = None \<and> b = None"
  by (cases a) simp_all

lemma or_else_SomeE:
  assumes "or_else a b = Some x"
  obtains "a = Some x" | "a = None" "b = Some x"
  using assms by (cases a) auto

lemma length_insert_at [simp, vec_simps]: "length (insert_at i x xs) = Suc (length xs)"
  by (simp add: insert_at_def)

lemma set_insert_at [simp, vec_simps]: "set (insert_at i x xs) = insert x (set xs)"
  unfolding insert_at_def using append_take_drop_id [of i xs] set_append
  by (metis Un_insert_right list.simps(15))

lemma distinct_insert_at [simp]:
  "distinct (insert_at i x xs) \<longleftrightarrow> x \<notin> set xs \<and> distinct xs"
proof -
  have "distinct (ys @ x # zs) \<longleftrightarrow> distinct (x # ys @ zs)" for ys zs
    by auto
  then show ?thesis by (simp only: insert_at_def append_take_drop_id) simp
qed

lemma sum_list_insert_at [simp, vec_simps]:
  "sum_list (insert_at i (x::real) xs) = x + sum_list xs"
proof -
  have "sum_list (take i xs) + sum_list (drop i xs) = sum_list xs"
    by (metis append_take_drop_id sum_list_append)
  then show ?thesis by (simp add: insert_at_def)
qed

lemma insert_at_ne [simp]: "insert_at i x xs \<noteq> []"
  by (simp add: insert_at_def)

lemma length_remove_at [simp, vec_simps]:
  "i < length xs \<Longrightarrow> length (remove_at i xs) = length xs - 1"
  by (simp add: remove_at_def)

lemma set_remove_at_subset: "set (remove_at i xs) \<subseteq> set xs"
  unfolding remove_at_def using set_take_subset set_drop_subset by fastforce

lemma distinct_remove_at [simp]: "distinct xs \<Longrightarrow> distinct (remove_at i xs)"
proof (cases "i < length xs")
  case True
  assume "distinct xs"
  then have "distinct (take i xs @ xs ! i # drop (Suc i) xs)"
    using True by (simp add: id_take_nth_drop [symmetric])
  then show ?thesis by (simp add: remove_at_def)
qed (simp add: remove_at_def)

lemma set_remove_at [simp, vec_simps]:
  assumes "distinct xs" "i < length xs"
  shows "set (remove_at i xs) = set xs - {xs ! i}"
proof -
  have xs: "xs = take i xs @ xs ! i # drop (Suc i) xs"
    using assms(2) by (rule id_take_nth_drop)
  have "xs ! i \<notin> set (take i xs) \<union> set (drop (Suc i) xs)"
    using assms(1) xs by (metis UnE distinct.simps(2) distinct_append disjoint_iff list.set_intros(1))
  moreover have "set xs = insert (xs ! i) (set (take i xs) \<union> set (drop (Suc i) xs))"
    using arg_cong [OF xs, of set] by simp
  ultimately show ?thesis by (auto simp: remove_at_def)
qed

lemma sum_list_remove_at [simp, vec_simps]:
  assumes "i < length xs"
  shows "sum_list (remove_at i xs) = sum_list xs - (xs ! i :: real)"
proof -
  have "xs = take i xs @ xs ! i # drop (Suc i) xs"
    using assms by (rule id_take_nth_drop)
  then have "sum_list xs = sum_list (take i xs) + (xs ! i + sum_list (drop (Suc i) xs))"
    by (metis sum_list.Cons sum_list_append)
  then show ?thesis by (simp add: remove_at_def)
qed

lemma sum_list_update_real:
  "k < length ps \<Longrightarrow> sum_list (ps[k := v]) = sum_list ps - ps ! k + (v::real)"
  by (induction ps arbitrary: k) (auto split: nat.splits)

lemma position_Some:
  "position v xs = Some i \<Longrightarrow> i < length xs \<and> xs ! i = v"
  by (induction xs arbitrary: i) (auto split: if_splits)

lemma position_None [simp]: "position v xs = None \<longleftrightarrow> v \<notin> set xs"
  by (induction xs) auto

lemma position_ex: "v \<in> set xs \<Longrightarrow> \<exists>i. position v xs = Some i"
  using position_None by fastforce

lemma position_nth: "distinct xs \<Longrightarrow> i < length xs \<Longrightarrow> position (xs ! i) xs = Some i"
  by (induction xs arbitrary: i) (auto simp: nth_Cons split: nat.splits)

lemma vec_get_eq_Some [simp]: "vec_get xs i = Some x \<longleftrightarrow> i < length xs \<and> xs ! i = x"
  by (simp add: vec_get_def)

lemma vec_get_eq_None [simp]: "vec_get xs i = None \<longleftrightarrow> length xs \<le> i"
  by (simp add: vec_get_def linorder_not_less)

lemma find_map_SomeE:
  assumes "find_map f xs = Some y"
  obtains x where "x \<in> set xs" "f x = Some y"
  using assms by (induction xs) (auto split: option.splits)

lemma find_map_None [simp]: "find_map f xs = None \<longleftrightarrow> (\<forall>x\<in>set xs. f x = None)"
  by (induction xs) (auto split: option.splits)

lemma set_retain_ne [simp]: "set (retain_ne v xs) = set xs - {v}"
  by (auto simp: retain_ne_def)

lemma distinct_retain_ne [simp]: "distinct xs \<Longrightarrow> distinct (retain_ne v xs)"
  by (simp add: retain_ne_def)

lemma retain_ne_id [simp]: "v \<notin> set xs \<Longrightarrow> retain_ne v xs = xs"
  by (simp add: retain_ne_def filter_id_conv) blast

lemma find_SomeD: "List.find P xs = Some x \<Longrightarrow> P x \<and> x \<in> set xs"
  by (auto simp: find_Some_iff)

section \<open>Share vectors\<close>

text \<open>
  A split stores one share per child. Shares are positive and, when there is a child, sum to
  one. The scaling lemmas below are the arithmetic of every insertion, removal and resize.
\<close>

definition shares :: "real list \<Rightarrow> bool" where
  "shares ps \<longleftrightarrow> (\<forall>x\<in>set ps. 0 < x) \<and> (ps \<noteq> [] \<longrightarrow> sum_list ps = 1)"

lemma shares_Nil [simp]: "shares []"
  by (simp add: shares_def)

lemma shares_single [simp]: "shares [x] \<longleftrightarrow> x = 1"
  by (auto simp: shares_def)

lemma shares_halves [simp]: "shares [1/2, 1/2]"
  by (simp add: shares_def)

lemma shares_pos: "shares ps \<Longrightarrow> x \<in> set ps \<Longrightarrow> 0 < x"
  by (simp add: shares_def)

lemma sum_list_pos:
  "ps \<noteq> [] \<Longrightarrow> (\<forall>x\<in>set ps. 0 < (x::real)) \<Longrightarrow> 0 < sum_list ps"
proof (induction ps)
  case (Cons a ps)
  then show ?case by (cases "ps = []") auto
qed simp

lemma sum_list_map_divide: "sum_list (map (\<lambda>x. x / (c::real)) ps) = sum_list ps / c"
  by (induction ps) (simp_all add: add_divide_distrib)

lemma sum_list_map_mult: "sum_list (map (\<lambda>x. x * (c::real)) ps) = sum_list ps * c"
  by (induction ps) (simp_all add: distrib_right)

lemma sum_list_const_real: "sum_list (map (\<lambda>_. c) xs) = real (length xs) * (c::real)"
  by (induction xs) (simp_all add: algebra_simps)

lemma shares_normalize:
  assumes "\<forall>x\<in>set ps. 0 < x"
  shows "shares (map (\<lambda>x. x / sum_list ps) ps)"
proof (cases "ps = []")
  case False
  then have "0 < sum_list ps" using assms by (rule sum_list_pos)
  with assms show ?thesis by (auto simp: shares_def sum_list_map_divide)
qed simp

lemma shares_equal:
  "shares (map (\<lambda>_. 1 / real (length ps)) ps)"
  by (cases "ps = []") (auto simp: shares_def sum_list_const_real)

lemma shares_insert_scaled:
  assumes "shares ps" "0 < q" "q < 1 \<or> ps = []" "ps = [] \<Longrightarrow> q = 1"
  shows "shares (insert_at i q (map (\<lambda>x. x * (1 - q)) ps))"
proof (cases "ps = []")
  case True
  with assms show ?thesis by (simp add: insert_at_def)
next
  case False
  with assms have "q < 1" "sum_list ps = 1" "\<forall>x\<in>set ps. 0 < x" by (auto simp: shares_def)
  then show ?thesis
    using assms(2) by (auto simp: shares_def sum_list_map_mult)
qed

lemma shares_nth: "shares ps \<Longrightarrow> i < length ps \<Longrightarrow> 0 < ps ! i"
  by (simp add: shares_def)

lemma nth_mem_le_sum:
  "(\<forall>x\<in>set ps. 0 < (x::real)) \<Longrightarrow> i < length ps \<Longrightarrow> ps ! i \<le> sum_list ps"
proof (induction ps arbitrary: i)
  case (Cons a ps)
  show ?case
  proof (cases i)
    case 0
    moreover have "0 \<le> sum_list ps"
      using Cons.prems by (intro sum_list_nonneg) (simp add: less_imp_le)
    ultimately show ?thesis by simp
  next
    case (Suc j)
    then have "ps ! j \<le> sum_list ps" using Cons by simp
    then show ?thesis using Cons.prems Suc by auto
  qed
qed simp

section \<open>Parent forests\<close>

text \<open>
  \<open>up_path\<close> is the shape of every upward walk in the compositor: the node, its parent, and so
  on, at most \<open>k\<close> steps. In a parent forest the walk from any node visits distinct nodes below
  the bound, so a budget above the bound always reaches a node without a parent: the walks of
  the model, which carry such a budget, never run out of it.
\<close>

fun up_path :: "nat \<Rightarrow> (nat \<Rightarrow> nat option) \<Rightarrow> nat \<Rightarrow> nat list" where
  "up_path 0 par x = []"
| "up_path (Suc k) par x =
     x # (case par x of None \<Rightarrow> [] | Some p \<Rightarrow> up_path k par p)"

definition up_edges :: "(nat \<Rightarrow> nat option) \<Rightarrow> (nat \<times> nat) set" where
  "up_edges par = {(c, p). par c = Some p}"

lemma up_edges_iff [simp]: "(c, p) \<in> up_edges par \<longleftrightarrow> par c = Some p"
  by (simp add: up_edges_def)

lemma up_path_reach: "y \<in> set (up_path k par x) \<Longrightarrow> (x, y) \<in> (up_edges par)\<^sup>*"
proof (induction k arbitrary: x)
  case (Suc k)
  show ?case
  proof (cases "y = x")
    case False
    with Suc.prems obtain p where p: "par x = Some p" "y \<in> set (up_path k par p)"
      by (cases "par x") auto
    then have "(p, y) \<in> (up_edges par)\<^sup>*" using Suc.IH by blast
    moreover have "(x, p) \<in> up_edges par" using p by simp
    ultimately show ?thesis by (rule converse_rtrancl_into_rtrancl [rotated])
  qed simp
qed simp

lemma up_path_relpow:
  "(x, y) \<in> up_edges par ^^ n \<Longrightarrow> n < length (up_path (Suc n) par x)"
proof (induction n arbitrary: x)
  case (Suc n)
  from Suc.prems obtain p where p: "par x = Some p" "(p, y) \<in> up_edges par ^^ n"
    by (metis relpow_Suc_E2 up_edges_iff)
  then show ?case using Suc.IH [OF p(2)] by simp
qed simp

text \<open>
  The interface of the upward walks: the states \<open>ok\<close> accepts have a parent function \<open>par\<close> whose
  nodes lie below \<open>bound\<close> and whose links are acyclic.
\<close>

locale parent_forest =
  fixes ok :: "'s \<Rightarrow> bool" and par :: "'s \<Rightarrow> nat \<Rightarrow> nat option" and bound :: "'s \<Rightarrow> nat"
  assumes par_bound: "ok s \<Longrightarrow> par s c = Some p \<Longrightarrow> c < bound s \<and> p < bound s"
    and par_acyclic: "ok s \<Longrightarrow> acyclic (up_edges (par s))"
begin

lemma no_self_loop: "ok s \<Longrightarrow> par s c = Some p \<Longrightarrow> (p, c) \<notin> (up_edges (par s))\<^sup>*"
  using par_acyclic [of s] unfolding acyclic_def
  by (metis rtrancl_into_trancl2 up_edges_iff)

lemma up_path_distinct: "ok s \<Longrightarrow> distinct (up_path k (par s) x)"
proof (induction k arbitrary: x)
  case (Suc k)
  have "x \<notin> set (up_path k (par s) p)" if "par s x = Some p" for p
    using no_self_loop [OF Suc.prems that] up_path_reach by blast
  with Suc show ?case by (auto split: option.splits)
qed simp

lemma up_path_bound:
  "ok s \<Longrightarrow> y \<in> set (up_path k (par s) x) \<Longrightarrow> y = x \<or> y < bound s"
proof (induction k arbitrary: x)
  case (Suc k)
  then show ?case using par_bound by (fastforce split: option.splits)
qed simp

lemma up_path_length:
  assumes "ok s"
  shows "length (up_path k (par s) x) \<le> Suc (bound s)"
proof -
  have "set (up_path k (par s) x) \<subseteq> insert x {..<bound s}"
    using up_path_bound [OF assms] by auto
  then have "card (set (up_path k (par s) x)) \<le> card (insert x {..<bound s})"
    by (rule card_mono [rotated]) simp
  also have "\<dots> \<le> Suc (bound s)"
    by (metis card_insert_le_m1 card_lessThan diff_Suc_1 le_refl zero_less_Suc)
  finally show ?thesis
    by (simp add: distinct_card [OF up_path_distinct [OF assms]])
qed

lemma up_path_full_aux:
  "length (up_path k (par s) x) < k \<Longrightarrow> par s (last (up_path k (par s) x)) = None"
proof (induction k arbitrary: x)
  case (Suc k)
  show ?case
  proof (cases "par s x")
    case (Some p)
    with Suc.prems have len: "length (up_path k (par s) p) < k" by simp
    then have "up_path k (par s) p \<noteq> []" by (cases k) auto
    with Some Suc.IH [OF len] show ?thesis by simp
  qed simp
qed simp

lemma up_path_full:
  "ok s \<Longrightarrow> Suc (bound s) < k \<Longrightarrow> par s (last (up_path k (par s) x)) = None"
  using up_path_full_aux up_path_length by (meson le_less_trans)

lemma up_path_complete_aux:
  "length (up_path k (par s) x) < k \<Longrightarrow> (x, y) \<in> (up_edges (par s))\<^sup>* \<Longrightarrow>
     y \<in> set (up_path k (par s) x)"
proof (induction k arbitrary: x)
  case (Suc k)
  from Suc.prems(2) show ?case
  proof (cases rule: converse_rtranclE)
    case (step p)
    then have p: "par s x = Some p" by simp
    then have "length (up_path k (par s) p) < k" using Suc.prems(1) by simp
    from Suc.IH [OF this step(2)] p show ?thesis by simp
  qed simp
qed simp

lemma up_path_set:
  assumes "ok s" "Suc (bound s) < k"
  shows "set (up_path k (par s) x) = {y. (x, y) \<in> (up_edges (par s))\<^sup>*}"
proof -
  have len: "length (up_path k (par s) x) < k"
    using assms up_path_length by (meson le_less_trans)
  show ?thesis
  proof (intro set_eqI iffI)
    fix y assume "y \<in> set (up_path k (par s) x)"
    then show "y \<in> {y. (x, y) \<in> (up_edges (par s))\<^sup>*}" using up_path_reach by simp
  next
    fix y assume "y \<in> {y. (x, y) \<in> (up_edges (par s))\<^sup>*}"
    then show "y \<in> set (up_path k (par s) x)" using up_path_complete_aux [OF len] by simp
  qed
qed

text \<open>No chain of parent links is longer than the bound, so downward walks end too.\<close>

lemma relpow_bound:
  assumes "ok s" "(x, y) \<in> up_edges (par s) ^^ n"
  shows "n \<le> bound s"
  using up_path_relpow [OF assms(2)] up_path_length [OF assms(1), of "Suc n" x] by linarith

lemma reach_relpow:
  assumes "ok s" "(x, y) \<in> (up_edges (par s))\<^sup>*"
  obtains n where "n \<le> bound s" "(x, y) \<in> up_edges (par s) ^^ n"
  using assms by (metis relpow_bound rtrancl_imp_relpow)

end

text \<open>Edges that only shortcut or drop old ones keep the forest acyclic.\<close>

lemma acyclic_shortcut:
  assumes "acyclic r" "s \<subseteq> r\<^sup>+"
  shows "acyclic s"
proof -
  have "s\<^sup>+ \<subseteq> r\<^sup>+"
    using assms(2) by (metis trancl_id trancl_mono_subset trans_trancl)
  with assms(1) show ?thesis by (auto simp: acyclic_def)
qed

end
