(* ===== verification/Tree_Model.thy ===== *)
theory Tree_Model
  imports Prelude
begin

text \<open>
  The data of the tiling engine (\<^verbatim>\<open>src/layout/tiling_tree/{node,mod,state}.rs\<close>): node identifiers,
  layouts, the arena node, the per-container metadata, pending fullscreen modes, an interactive
  resize, the layout options the tree reads, and the tree itself as one record with a field per
  field of \<^verbatim>\<open>struct TilingTree\<close>.

  Conventions of the whole development.
  \<^item> \<^verbatim>\<open>HashMap<NodeId, _>\<close> is a partial function on identifiers, \<^verbatim>\<open>HashSet<NodeId>\<close> a set.
  \<^item> \<^verbatim>\<open>f64\<close> is an exact real number: shares and rectangles are computed without rounding, and the
    NaN and infinity branches of the source are reported where they occur.
  \<^item> \<^verbatim>\<open>NODE_ID_COUNTER\<close> is the field \<open>next_id\<close>, the next identifier to be handed out.
  \<^item> A failed \<^verbatim>\<open>expect\<close>, \<^verbatim>\<open>unreachable!\<close> or index out of range sets the field \<open>panicked\<close>; the
    invariant proofs show that no operation sets it from a well-formed tree.
  \<^item> The field \<open>phys_ceil\<close> stands for the \<^verbatim>\<open>smithay\<close> rounding \<^verbatim>\<open>to_physical_precise_ceil(scale)\<close> and
    back to logical units, applied to one coordinate; it is a parameter of the model.
  \<^item> A \<^verbatim>\<open>Tile\<close> is the record of the values its accessors return to the tree; the calls the tree
    makes on tiles (resize requests, move animations, configuration) are appended to
    \<open>tile_calls\<close>, the log of what the tree asked of the tile layer.
\<close>

type_synonym nid = nat
type_synonym wid = nat

datatype layout = SplitH | SplitV | Tabbed | Stacked

datatype direction = DLeft | DRight | DUp | DDown

datatype fullscreen_mode = FsWorkspace | FsGlobal

datatype edge = TOP | BOTTOM | LEFT | RIGHT

type_synonym resize_edge = "edge set"

datatype sizing_mode = SmNormal | SmMaximized | SmFullscreen

datatype focus_wrapping = FwYes | FwNo | FwForce | FwWorkspace

datatype workspace_layout = WlDefault | WlStacking | WlTabbed

datatype default_orientation = DoHorizontal | DoVertical | DoAuto

datatype hide_edge_borders = HebNone | HebVertical | HebHorizontal | HebBoth

datatype smart_borders = SbOff | SbOn | SbNoGaps

datatype preset_size = Proportion real | Fixed int

datatype size_change = SetFixed int | SetProportion real | AdjustFixed int | AdjustProportion real

datatype insert_target = Focused | TNode nid | MoveDestination

record rect =
  loc_x :: real
  loc_y :: real
  size_w :: real
  size_h :: real

definition rect_default :: rect where
  "rect_default = \<lparr>loc_x = 0, loc_y = 0, size_w = 0, size_h = 0\<rparr>"

record struts =
  strut_left :: real
  strut_right :: real
  strut_top :: real
  strut_bottom :: real

record split_meta =
  previous_layout :: "layout option"
  title_format :: "string option"
  sticky :: bool

definition split_meta_default :: split_meta where
  "split_meta_default = \<lparr>previous_layout = None, title_format = None, sticky = False\<rparr>"

record tile =
  window_id :: wid
  pending_sizing_mode :: sizing_mode
  focus_timestamp :: "nat option"
  win_title :: string
  win_marks :: "string list"
  has_sway_titlebar :: bool
  configured_border_width :: real

datatype tree_node =
  Split layout "nid list" "real list" split_meta
| Leaf tile

record node =
  parent :: "nid option"
  node_value :: tree_node

record pending_mode =
  pm_fullscreen :: "fullscreen_mode option"
  pm_maximized :: bool

definition pending_mode_default :: pending_mode where
  "pending_mode_default = \<lparr>pm_fullscreen = None, pm_maximized = False\<rparr>"

record resize_axis =
  ax_horizontal :: bool
  ax_first :: nid
  ax_second :: nid
  ax_initial_first :: real
  ax_initial_second :: real
  ax_size :: real
  ax_sign :: real

record interactive_resize =
  ir_window :: wid
  ir_target :: nid
  ir_axes :: "resize_axis list"
  ir_edges :: resize_edge

record options =
  opt_focus_wrapping :: focus_wrapping
  opt_workspace_layout :: workspace_layout
  opt_default_orientation :: default_orientation
  opt_gaps :: real
  opt_struts :: struts
  opt_outer_gaps_configured :: bool
  opt_hide_edge_borders :: hide_edge_borders
  opt_smart_borders :: smart_borders
  opt_draw_uncovered_top_border :: bool
  opt_preset_column_widths :: "preset_size list"
  opt_preset_window_heights :: "preset_size list"

text \<open>
  What the tree asks of its tiles. \<open>RequestWindowSizes tr an\<close> is \<^verbatim>\<open>request_window_sizes_with\<close>
  with a transaction given or not and the animation flag; \<open>AnimateGeometryChanges skip\<close> animates
  every leaf whose box moved, except \<open>skip\<close>.
\<close>

datatype tile_call =
  UpdateConfig wid
| ClearTiledContentSize wid
| AnimateGeometryChanges "nid option"
| RequestWindowSizes bool bool

record tree =
  nodes :: "nid \<Rightarrow> node option"
  tree_root :: nid
  focus :: "nid option"
  ipc_stale_nodes :: "nid set"
  last_entered_by :: "nid \<Rightarrow> nid option"
  has_had_tile :: bool
  empty_representation_layout :: "layout option"
  focus_history :: "nid list"
  pending_modes :: "nid \<Rightarrow> pending_mode option"
  mapped_under_fullscreen :: "nid set"
  moved_under_fullscreen :: "nid \<Rightarrow> rect option"
  ipc_focus_follows_history :: bool
  fullscreen_tile_slot :: bool
  fullscreen_arrived :: bool
  fullscreen_layout_wrappers :: "nid set"
  pre_layout_ipc_rects :: "nid \<Rightarrow> rect option"
  interactive_resize_st :: "interactive_resize option"
  tab_indicators :: "nid set"
  tab_active :: "nid \<Rightarrow> nid option"
  view_w :: real
  view_h :: real
  parent_area :: rect
  gaps_to_edge :: bool
  has_resident_root :: bool
  scale :: real
  titlebar_height :: real
  phys_ceil :: "real \<Rightarrow> real \<Rightarrow> real"
  options_of :: options
  gaps :: real
  preserved_auto_layout :: "layout option"
  next_id :: nat
  panicked :: bool
  tile_calls :: "tile_call list"

section \<open>Enumerations\<close>

text \<open>Layouts and edges are finite, so statements over all of them can be evaluated.\<close>

instantiation layout :: enum
begin

definition "enum_class.enum = [SplitH, SplitV, Tabbed, Stacked]"
definition "enum_class.enum_all P \<longleftrightarrow> P SplitH \<and> P SplitV \<and> P Tabbed \<and> P Stacked"
definition "enum_class.enum_ex P \<longleftrightarrow> P SplitH \<or> P SplitV \<or> P Tabbed \<or> P Stacked"

instance
proof
  have UNIV_layout: "(UNIV :: layout set) = {SplitH, SplitV, Tabbed, Stacked}"
    using layout.exhaust by auto
  show "(UNIV :: layout set) = set enum_class.enum"
    by (simp add: enum_layout_def UNIV_layout)
  show "distinct (enum_class.enum :: layout list)"
    by (simp add: enum_layout_def)
  show "enum_class.enum_all P \<longleftrightarrow> Ball UNIV P" for P :: "layout \<Rightarrow> bool"
    by (simp add: enum_all_layout_def UNIV_layout)
  show "enum_class.enum_ex P \<longleftrightarrow> Bex UNIV P" for P :: "layout \<Rightarrow> bool"
    by (simp add: enum_ex_layout_def UNIV_layout)
qed

end

instantiation edge :: enum
begin

definition "enum_class.enum = [TOP, BOTTOM, LEFT, RIGHT]"
definition "enum_class.enum_all P \<longleftrightarrow> P TOP \<and> P BOTTOM \<and> P LEFT \<and> P RIGHT"
definition "enum_class.enum_ex P \<longleftrightarrow> P TOP \<or> P BOTTOM \<or> P LEFT \<or> P RIGHT"

instance
proof
  have U: "(UNIV :: edge set) = {TOP, BOTTOM, LEFT, RIGHT}" using edge.exhaust by auto
  show "(UNIV :: edge set) = set enum_class.enum" by (simp add: enum_edge_def U)
  show "distinct (enum_class.enum :: edge list)" by (simp add: enum_edge_def)
  show "enum_class.enum_all P \<longleftrightarrow> Ball UNIV P" for P :: "edge \<Rightarrow> bool" by (simp add: enum_all_edge_def U)
  show "enum_class.enum_ex P \<longleftrightarrow> Bex UNIV P" for P :: "edge \<Rightarrow> bool" by (simp add: enum_ex_edge_def U)
qed

end

section \<open>Small operations of the data types\<close>

definition axis :: "direction \<Rightarrow> layout" where
  "axis d = (case d of DLeft \<Rightarrow> SplitH | DRight \<Rightarrow> SplitH | DUp \<Rightarrow> SplitV | DDown \<Rightarrow> SplitV)"

definition is_backwards :: "direction \<Rightarrow> bool" where
  "is_backwards d \<longleftrightarrow> d = DLeft \<or> d = DUp"

definition is_fullscreen :: "sizing_mode \<Rightarrow> bool" where
  "is_fullscreen m \<longleftrightarrow> m = SmFullscreen"

definition is_maximized :: "sizing_mode \<Rightarrow> bool" where
  "is_maximized m \<longleftrightarrow> m = SmMaximized"

definition intersects :: "resize_edge \<Rightarrow> resize_edge \<Rightarrow> bool" where
  "intersects a b \<longleftrightarrow> a \<inter> b \<noteq> {}"

abbreviation linear :: "layout \<Rightarrow> bool" where
  "linear l \<equiv> l = SplitH \<or> l = SplitV"

abbreviation strip_layout :: "layout \<Rightarrow> bool" where
  "strip_layout l \<equiv> l = Tabbed \<or> l = Stacked"

lemma not_linear: "\<not> linear l \<longleftrightarrow> strip_layout l"
  by (cases l) auto

section \<open>Reading the arena\<close>

text \<open>
  The lookups the source writes as \<^verbatim>\<open>self.nodes.get(&id).and_then(|node| node.parent)\<close> and as a
  \<^verbatim>\<open>let Some(Node { value: TreeNode::Split { .. }, .. }) = self.nodes.get(&id)\<close> pattern, and the
  writes through \<^verbatim>\<open>get_mut\<close>.
\<close>

definition parent_of :: "tree \<Rightarrow> nid \<Rightarrow> nid option" where
  "parent_of t i = (case nodes t i of Some n \<Rightarrow> parent n | None \<Rightarrow> None)"

definition value_of :: "tree \<Rightarrow> nid \<Rightarrow> tree_node option" where
  "value_of t i = map_option node_value (nodes t i)"

definition get_split :: "tree \<Rightarrow> nid \<Rightarrow> (layout \<times> nid list \<times> real list \<times> split_meta) option" where
  "get_split t i = (case value_of t i of
      Some (Split l cs ps m) \<Rightarrow> Some (l, cs, ps, m) | _ \<Rightarrow> None)"

definition children_of :: "tree \<Rightarrow> nid \<Rightarrow> nid list option" where
  "children_of t i = map_option (\<lambda>(l, cs, ps, m). cs) (get_split t i)"

definition percents_of :: "tree \<Rightarrow> nid \<Rightarrow> real list option" where
  "percents_of t i = map_option (\<lambda>(l, cs, ps, m). ps) (get_split t i)"

definition layout_of :: "tree \<Rightarrow> nid \<Rightarrow> layout option" where
  "layout_of t i = map_option (\<lambda>(l, cs, ps, m). l) (get_split t i)"

definition contains_key :: "tree \<Rightarrow> nid \<Rightarrow> bool" where
  "contains_key t i \<longleftrightarrow> nodes t i \<noteq> None"

definition set_value :: "tree \<Rightarrow> nid \<Rightarrow> tree_node \<Rightarrow> tree" where
  "set_value t i v = t\<lparr>nodes := (nodes t)(i := map_option (\<lambda>n. n\<lparr>node_value := v\<rparr>) (nodes t i))\<rparr>"

definition set_parent :: "tree \<Rightarrow> nid \<Rightarrow> nid option \<Rightarrow> tree" where
  "set_parent t i p = t\<lparr>nodes := (nodes t)(i := map_option (\<lambda>n. n\<lparr>parent := p\<rparr>) (nodes t i))\<rparr>"

definition panic :: "tree \<Rightarrow> tree" where
  "panic t = t\<lparr>panicked := True\<rparr>"

text \<open>\<^verbatim>\<open>nodes.get_mut(&id).expect(..).parent = p\<close>: a missing node panics.\<close>

definition expect_set_parent :: "tree \<Rightarrow> nid \<Rightarrow> nid option \<Rightarrow> tree" where
  "expect_set_parent t i p = (if contains_key t i then set_parent t i p else panic t)"

definition log_call :: "tree \<Rightarrow> tile_call \<Rightarrow> tree" where
  "log_call t c = t\<lparr>tile_calls := tile_calls t @ [c]\<rparr>"

definition request_window_sizes_with :: "tree \<Rightarrow> bool \<Rightarrow> bool \<Rightarrow> tree" where
  "request_window_sizes_with t tr an = log_call t (RequestWindowSizes tr an)"

definition request_window_sizes :: "tree \<Rightarrow> tree" where
  "request_window_sizes t = request_window_sizes_with t False False"

definition animate_geometry_changes :: "tree \<Rightarrow> nid option \<Rightarrow> tree" where
  "animate_geometry_changes t skip = log_call t (AnimateGeometryChanges skip)"

lemma get_split_eq_Some:
  "get_split t i = Some (l, cs, ps, m) \<longleftrightarrow>
     (\<exists>n. nodes t i = Some n \<and> node_value n = Split l cs ps m)"
  by (auto simp: get_split_def value_of_def split: option.splits tree_node.splits)

lemma get_split_of_value:
  "nodes t i = Some n \<Longrightarrow> node_value n = Split l cs ps m \<Longrightarrow> get_split t i = Some (l, cs, ps, m)"
  by (simp add: get_split_eq_Some)

lemma children_of_eq_Some:
  "children_of t i = Some cs \<longleftrightarrow> (\<exists>l ps m. get_split t i = Some (l, cs, ps, m))"
  by (auto simp: children_of_def)

section \<open>A new tree\<close>

definition default_layout :: "default_orientation \<Rightarrow> real \<Rightarrow> real \<Rightarrow> layout" where
  "default_layout orient vw vh = (case orient of
      DoHorizontal \<Rightarrow> SplitH
    | DoVertical \<Rightarrow> SplitV
    | DoAuto \<Rightarrow> (if vh > vw then SplitV else SplitH))"

definition new_tree ::
  "nat \<Rightarrow> real \<Rightarrow> real \<Rightarrow> rect \<Rightarrow> bool \<Rightarrow> real \<Rightarrow> real \<Rightarrow> (real \<Rightarrow> real \<Rightarrow> real) \<Rightarrow> options \<Rightarrow> tree" where
  "new_tree counter vw vh area to_edge sc tb_height snap opts =
     \<lparr>nodes = (\<lambda>_. None)(counter := Some \<lparr>parent = None,
         node_value = Split (default_layout (opt_default_orientation opts) vw vh) [] []
           split_meta_default\<rparr>),
      tree_root = counter, focus = None, ipc_stale_nodes = {}, last_entered_by = (\<lambda>_. None),
      has_had_tile = False, empty_representation_layout = None, focus_history = [],
      pending_modes = (\<lambda>_. None), mapped_under_fullscreen = {},
      moved_under_fullscreen = (\<lambda>_. None), ipc_focus_follows_history = False,
      fullscreen_tile_slot = False, fullscreen_arrived = False,
      fullscreen_layout_wrappers = {}, pre_layout_ipc_rects = (\<lambda>_. None),
      interactive_resize_st = None, tab_indicators = {}, tab_active = (\<lambda>_. None),
      view_w = vw, view_h = vh, parent_area = area, gaps_to_edge = to_edge,
      has_resident_root = False, scale = sc, titlebar_height = tb_height, phys_ceil = snap,
      options_of = opts,
      gaps = opt_gaps opts, preserved_auto_layout = None,
      next_id = Suc counter, panicked = False, tile_calls = []\<rparr>"

end
