(* ===== verification/Arena.thy ===== *)
theory Arena
  imports Tree_Model
begin

text \<open>
  The arena of the tiling tree (\<^verbatim>\<open>src/layout/tiling_tree/arena.rs\<close>): allocation and removal of
  nodes with their entries in the side tables, insertion and removal of children with the
  share arithmetic of each, and the upward and downward walks. The source's walks follow
  parent or child links until they end; here they carry a budget of \<open>walk_fuel\<close> steps, one more
  than any walk of a well-formed arena can use (theory \<open>Forest\<close>).
\<close>

section \<open>Operations\<close>

definition alloc :: "tree \<Rightarrow> node \<Rightarrow> tree \<times> nid" where
  "alloc t n = (t\<lparr>nodes := (nodes t)(next_id t \<mapsto> n), next_id := Suc (next_id t)\<rparr>, next_id t)"

definition insert_with_id :: "tree \<Rightarrow> nid \<Rightarrow> node \<Rightarrow> tree \<times> nid" where
  "insert_with_id t old_id n =
     (if nodes t old_id = None then (t\<lparr>nodes := (nodes t)(old_id \<mapsto> n)\<rparr>, old_id) else alloc t n)"

text \<open>
  Every table of the \<^verbatim>\<open>side_tables!\<close> macro forgets the node; \<open>tab_active\<close> and \<open>last_entered_by\<close>
  also forget the entries whose value is the node.
\<close>

definition forget_key :: "nid \<Rightarrow> (nid \<Rightarrow> 'v option) \<Rightarrow> nid \<Rightarrow> 'v option" where
  "forget_key i tbl = tbl(i := None)"

definition retain_values_ne :: "nid \<Rightarrow> (nid \<Rightarrow> nid option) \<Rightarrow> nid \<Rightarrow> nid option" where
  "retain_values_ne i tbl = (\<lambda>k. if tbl k = Some i then None else tbl k)"

definition forget_side_tables :: "tree \<Rightarrow> nid \<Rightarrow> tree" where
  "forget_side_tables t i = t\<lparr>
     focus_history := retain_ne i (focus_history t),
     ipc_stale_nodes := ipc_stale_nodes t - {i},
     last_entered_by := forget_key i (last_entered_by t),
     pending_modes := forget_key i (pending_modes t),
     mapped_under_fullscreen := mapped_under_fullscreen t - {i},
     moved_under_fullscreen := forget_key i (moved_under_fullscreen t),
     fullscreen_layout_wrappers := fullscreen_layout_wrappers t - {i},
     pre_layout_ipc_rects := forget_key i (pre_layout_ipc_rects t),
     tab_indicators := tab_indicators t - {i},
     tab_active := forget_key i (tab_active t)\<rparr>"

definition remove_node :: "tree \<Rightarrow> nid \<Rightarrow> tree \<times> node option" where
  "remove_node t i = (case nodes t i of
      None \<Rightarrow> (t, None)
    | Some n \<Rightarrow>
        (let t1 = forget_side_tables (t\<lparr>nodes := (nodes t)(i := None)\<rparr>) i;
             t2 = t1\<lparr>tab_active := retain_values_ne i (tab_active t1)\<rparr>;
             t3 = t2\<lparr>last_entered_by := retain_values_ne i (last_entered_by t2)\<rparr>
         in (t3, Some n)))"

definition insert_child_at :: "tree \<Rightarrow> nid \<Rightarrow> nid \<Rightarrow> nat \<Rightarrow> tree" where
  "insert_child_at t p c index =
     (if nodes t c = None then t
      else case get_split t p of
        None \<Rightarrow> t
      | Some (l, cs, ps, m) \<Rightarrow>
          (let percent = 1 / real (length cs + 1);
               ps1 = map (\<lambda>x. x * (1 - percent)) ps;
               cs' = insert_at (min index (length cs)) c cs;
               ps' = insert_at (min index (length ps1)) percent ps1
           in expect_set_parent (set_value t p (Split l cs' ps' m)) c (Some p)))"

definition insert_child :: "tree \<Rightarrow> nid \<Rightarrow> nid \<Rightarrow> nid option \<Rightarrow> tree" where
  "insert_child t p c after = (case value_of t p of
      None \<Rightarrow> t
    | Some (Split l cs ps m) \<Rightarrow>
        (let index = (case Option.bind after (\<lambda>a. position a cs) of
                        None \<Rightarrow> length cs | Some k \<Rightarrow> k + 1)
         in insert_child_at t p c index)
    | Some (Leaf _) \<Rightarrow> t)"

definition share_as_fresh :: "tree \<Rightarrow> nid \<Rightarrow> nid list \<Rightarrow> tree" where
  "share_as_fresh t p fresh = (case get_split t p of
      None \<Rightarrow> t
    | Some (l, cs, ps, m) \<Rightarrow>
        (let olds = filter (\<lambda>(c, x). c \<notin> set fresh) (zip cs ps);
             share = (if length olds = 0 then 1 else sum_list (map snd olds) / real (length olds));
             ps1 = map (\<lambda>(c, x). if c \<in> set fresh then share else x) (zip cs ps)
                     @ drop (length cs) ps;
             total = sum_list ps1;
             ps2 = (if total > 0 then map (\<lambda>x. x / total) ps1 else ps1)
         in set_value t p (Split l cs ps2 m)))"

definition set_child_percent :: "tree \<Rightarrow> nid \<Rightarrow> nid \<Rightarrow> real \<Rightarrow> tree" where
  "set_child_percent t p c percent = (case get_split t p of
      None \<Rightarrow> t
    | Some (l, cs, ps, m) \<Rightarrow> (case position c cs of
          None \<Rightarrow> t
        | Some k \<Rightarrow> (if k < length ps then set_value t p (Split l cs (ps[k := percent]) m) else t)))"

definition insert_existing_child :: "tree \<Rightarrow> nid \<Rightarrow> nid \<Rightarrow> nat \<Rightarrow> nid \<Rightarrow> tree" where
  "insert_existing_child t p c index split_share_of =
     (if nodes t c = None then t
      else case get_split t p of
        None \<Rightarrow> t
      | Some (l, cs, ps, m) \<Rightarrow> (case position split_share_of cs of
            None \<Rightarrow> t
          | Some k \<Rightarrow>
              (if k < length ps then
                 (let percent = ps ! k / 2;
                      j = min index (length cs);
                      cs' = insert_at j c cs;
                      ps' = insert_at j percent (ps[k := percent])
                  in expect_set_parent (set_value t p (Split l cs' ps' m)) c (Some p))
               else t)))"

definition rescale :: "real list \<Rightarrow> real list" where
  "rescale ps = (let total = sum_list ps in
     if total > 0 then map (\<lambda>x. x / total) ps
     else if ps \<noteq> [] then map (\<lambda>_. 1 / real (length ps)) ps
     else ps)"

definition remove_child :: "tree \<Rightarrow> nid \<Rightarrow> nid \<Rightarrow> tree" where
  "remove_child t p c = (case get_split t p of
      None \<Rightarrow> t
    | Some (l, cs, ps, m) \<Rightarrow> (case position c cs of
          None \<Rightarrow> t
        | Some k \<Rightarrow>
            (if k < length ps
             then set_value t p (Split l (remove_at k cs) (rescale (remove_at k ps)) m)
             else panic t)))"

definition child_index :: "tree \<Rightarrow> nid \<Rightarrow> nid \<Rightarrow> nat option" where
  "child_index t p c = (case children_of t p of None \<Rightarrow> None | Some cs \<Rightarrow> position c cs)"

definition child_at :: "tree \<Rightarrow> nid \<Rightarrow> nat \<Rightarrow> nid option" where
  "child_at t p k = (case children_of t p of None \<Rightarrow> None | Some cs \<Rightarrow> vec_get cs k)"

definition split_len :: "tree \<Rightarrow> nid \<Rightarrow> nat option" where
  "split_len t i = map_option length (children_of t i)"

definition detach_subtree_only :: "tree \<Rightarrow> nid \<Rightarrow> tree \<times> nid option" where
  "detach_subtree_only t i = (case parent_of t i of
      None \<Rightarrow> (t, None)
    | Some p \<Rightarrow>
        (let t1 = remove_child t p i
         in if nodes t1 i = None then (t1, None) else (set_parent t1 i None, Some p)))"

definition root_children :: "tree \<Rightarrow> nid list option" where
  "root_children t = children_of t (tree_root t)"

definition tile_at :: "tree \<Rightarrow> nid \<Rightarrow> tile option" where
  "tile_at t i = (case value_of t i of Some (Leaf w) \<Rightarrow> Some w | _ \<Rightarrow> None)"

abbreviation is_leaf :: "tree \<Rightarrow> nid \<Rightarrow> bool" where
  "is_leaf t i \<equiv> tile_at t i \<noteq> None"

definition is_split :: "tree \<Rightarrow> nid \<Rightarrow> bool" where
  "is_split t i \<longleftrightarrow> get_split t i \<noteq> None"

section \<open>Walks\<close>

definition walk_fuel :: "tree \<Rightarrow> nat" where
  "walk_fuel t = Suc (Suc (next_id t))"

fun root_branch_loop :: "nat \<Rightarrow> tree \<Rightarrow> nid \<Rightarrow> nid option" where
  "root_branch_loop 0 t i = None"
| "root_branch_loop (Suc k) t i = (case parent_of t i of
      None \<Rightarrow> None
    | Some p \<Rightarrow> (if p = tree_root t then Some i else root_branch_loop k t p))"

definition root_branch :: "tree \<Rightarrow> nid \<Rightarrow> nid option" where
  "root_branch t i = root_branch_loop (walk_fuel t) t i"

fun contains_node_loop :: "nat \<Rightarrow> tree \<Rightarrow> nid \<Rightarrow> nid \<Rightarrow> bool" where
  "contains_node_loop 0 t a i = False"
| "contains_node_loop (Suc k) t a i =
     (if i = a then True
      else case parent_of t i of None \<Rightarrow> False | Some p \<Rightarrow> contains_node_loop k t a p)"

definition contains_node :: "tree \<Rightarrow> nid \<Rightarrow> nid \<Rightarrow> bool" where
  "contains_node t a i = contains_node_loop (walk_fuel t) t a i"

fun collect_leaf_ids :: "nat \<Rightarrow> tree \<Rightarrow> nid \<Rightarrow> nid list" where
  "collect_leaf_ids 0 t i = []"
| "collect_leaf_ids (Suc k) t i = (case value_of t i of
      None \<Rightarrow> []
    | Some (Leaf _) \<Rightarrow> [i]
    | Some (Split l cs ps m) \<Rightarrow> concat (map (collect_leaf_ids k t) cs))"

definition leaf_ids_in :: "tree \<Rightarrow> nid \<Rightarrow> nid list" where
  "leaf_ids_in t i = collect_leaf_ids (walk_fuel t) t i"

fun first_leaf_in_loop :: "nat \<Rightarrow> tree \<Rightarrow> nid \<Rightarrow> nid option" where
  "first_leaf_in_loop 0 t i = None"
| "first_leaf_in_loop (Suc k) t i = (case value_of t i of
      None \<Rightarrow> None
    | Some (Leaf _) \<Rightarrow> Some i
    | Some (Split l cs ps m) \<Rightarrow> find_map (first_leaf_in_loop k t) cs)"

definition first_leaf_in :: "tree \<Rightarrow> nid \<Rightarrow> nid option" where
  "first_leaf_in t i = first_leaf_in_loop (walk_fuel t) t i"

definition first_leaf :: "tree \<Rightarrow> nid option" where
  "first_leaf t = first_leaf_in t (tree_root t)"

fun collect_depth_first :: "nat \<Rightarrow> tree \<Rightarrow> nid \<Rightarrow> nid list" where
  "collect_depth_first 0 t i = []"
| "collect_depth_first (Suc k) t i = (case value_of t i of
      None \<Rightarrow> []
    | Some (Leaf _) \<Rightarrow> [i]
    | Some (Split l cs ps m) \<Rightarrow> i # concat (map (collect_depth_first k t) cs))"

definition iter_depth_first :: "tree \<Rightarrow> nid list" where
  "iter_depth_first t = collect_depth_first (walk_fuel t) t (tree_root t)"

text \<open>\<^verbatim>\<open>windows()\<close> pairs each leaf, in depth-first order, with the window it shows.\<close>

definition windows :: "tree \<Rightarrow> (nid \<times> wid) list" where
  "windows t = List.map_filter (\<lambda>i. map_option (\<lambda>w. (i, window_id w)) (tile_at t i))
     (iter_depth_first t)"

definition node_for_window :: "tree \<Rightarrow> wid \<Rightarrow> nid option" where
  "node_for_window t w = find_map (\<lambda>(i, v). if v = w then Some i else None) (windows t)"

end
