(* ===== verification/Forest.thy ===== *)
theory Forest
  imports Arena
begin

text \<open>
  The structural invariant of the arena and what each primitive of \<open>Arena\<close> does to it.
  \<open>forest D E t\<close> says that parent and child links agree, that the links are acyclic, that every
  split has one positive share per child summing to one, that the only nodes without a parent
  are the root and the nodes of \<open>D\<close> (subtrees an operation has detached), and that the only
  splits without children are the root and those in \<open>E\<close> (containers an operation has emptied
  and will reap). A tree at rest satisfies \<open>forest {} {}\<close>.
\<close>

section \<open>Reading after a write\<close>

lemma nodes_set_value [simp]: "nodes (set_value t i v) j =
   (if j = i then map_option (\<lambda>n. n\<lparr>node_value := v\<rparr>) (nodes t i) else nodes t j)"
  by (simp add: set_value_def)

lemma nodes_set_parent [simp]: "nodes (set_parent t i p) j =
   (if j = i then map_option (\<lambda>n. n\<lparr>parent := p\<rparr>) (nodes t i) else nodes t j)"
  by (simp add: set_parent_def)

lemma contains_set_value [simp]: "contains_key (set_value t i v) j = contains_key t j"
  by (simp add: contains_key_def)

lemma contains_set_parent [simp]: "contains_key (set_parent t i p) j = contains_key t j"
  by (simp add: contains_key_def)

lemma parent_of_set_value [simp]: "parent_of (set_value t i v) j = parent_of t j"
  by (simp add: parent_of_def split: option.splits)

lemma parent_of_set_parent [simp]: "parent_of (set_parent t i p) j =
   (if j = i \<and> contains_key t i then p else parent_of t j)"
  by (auto simp: parent_of_def contains_key_def split: option.splits)

definition split_of :: "tree_node \<Rightarrow> (layout \<times> nid list \<times> real list \<times> split_meta) option" where
  "split_of v = (case v of Split l cs ps m \<Rightarrow> Some (l, cs, ps, m) | Leaf _ \<Rightarrow> None)"

lemma split_of_simps [simp]:
  "split_of (Split l cs ps m) = Some (l, cs, ps, m)" "split_of (Leaf w) = None"
  by (simp_all add: split_of_def)

lemma get_split_set_value [simp]: "get_split (set_value t i v) j =
   (if j = i \<and> contains_key t i then split_of v else get_split t j)"
  by (auto simp: get_split_def value_of_def contains_key_def split_of_def
      split: option.splits tree_node.splits)

lemma get_split_set_parent [simp]: "get_split (set_parent t i p) j = get_split t j"
  by (simp add: get_split_def value_of_def split: option.splits)

lemma tile_at_set_parent [simp]: "tile_at (set_parent t i p) j = tile_at t j"
  by (simp add: tile_at_def value_of_def split: option.splits)

lemma tile_at_set_value [simp]: "tile_at (set_value t i v) j =
   (if j = i \<and> contains_key t i then (case v of Leaf w \<Rightarrow> Some w | _ \<Rightarrow> None) else tile_at t j)"
  by (auto simp: tile_at_def value_of_def contains_key_def split: option.splits)

lemma get_split_contains: "get_split t i = Some s \<Longrightarrow> contains_key t i"
  by (auto simp: get_split_def value_of_def contains_key_def split: option.splits)

lemma parent_of_contains: "parent_of t i = Some p \<Longrightarrow> contains_key t i"
  by (auto simp: parent_of_def contains_key_def split: option.splits)

lemma tile_at_contains: "tile_at t i = Some w \<Longrightarrow> contains_key t i"
  by (auto simp: tile_at_def value_of_def contains_key_def split: option.splits)

lemma leaf_not_split: "tile_at t i = Some w \<Longrightarrow> get_split t i = None"
  by (auto simp: tile_at_def get_split_def split: option.splits tree_node.splits)

lemma split_not_leaf: "get_split t i = Some s \<Longrightarrow> tile_at t i = None"
  by (auto simp: tile_at_def get_split_def split: option.splits tree_node.splits)

lemma node_cases:
  assumes "contains_key t i"
  obtains (split) l cs ps m where "value_of t i = Some (Split l cs ps m)"
      "get_split t i = Some (l, cs, ps, m)" "tile_at t i = None"
    | (leaf) w where "value_of t i = Some (Leaf w)" "get_split t i = None" "tile_at t i = Some w"
proof -
  from assms obtain n where n: "nodes t i = Some n" by (auto simp: contains_key_def)
  show ?thesis
    using that n by (cases "node_value n") (auto simp: value_of_def get_split_def tile_at_def)
qed

lemma value_of_split: "get_split t i = Some (l, cs, ps, m) \<Longrightarrow> value_of t i = Some (Split l cs ps m)"
  by (auto simp: get_split_def split: option.splits tree_node.splits)

lemma value_of_leaf: "tile_at t i = Some w \<Longrightarrow> value_of t i = Some (Leaf w)"
  by (auto simp: tile_at_def split: option.splits tree_node.splits)

lemma value_of_absent: "value_of t i = None \<longleftrightarrow> \<not> contains_key t i"
  by (simp add: value_of_def contains_key_def)

lemma nodes_absent: "nodes t i = None \<longleftrightarrow> \<not> contains_key t i"
  by (simp add: contains_key_def)

lemma tree_root_set [simp]:
  "tree_root (set_value t i v) = tree_root t" "tree_root (set_parent t i p) = tree_root t"
  "next_id (set_value t i v) = next_id t" "next_id (set_parent t i p) = next_id t"
  "panicked (set_value t i v) = panicked t" "panicked (set_parent t i p) = panicked t"
  by (simp_all add: set_value_def set_parent_def)

section \<open>The invariant\<close>

definition linked :: "tree \<Rightarrow> bool" where
  "linked t \<longleftrightarrow>
     (\<forall>p l cs ps m. get_split t p = Some (l, cs, ps, m) \<longrightarrow>
        distinct cs \<and> (\<forall>c\<in>set cs. parent_of t c = Some p) \<and> length ps = length cs \<and> shares ps) \<and>
     (\<forall>c p. parent_of t c = Some p \<longrightarrow>
        (\<exists>l cs ps m. get_split t p = Some (l, cs, ps, m) \<and> c \<in> set cs))"

definition tops :: "tree \<Rightarrow> nid set" where
  "tops t = {i. contains_key t i \<and> parent_of t i = None}"

definition empties :: "tree \<Rightarrow> nid set" where
  "empties t = {i. \<exists>l ps m. get_split t i = Some (l, [], ps, m)}"

definition forest :: "nid set \<Rightarrow> nid set \<Rightarrow> tree \<Rightarrow> bool" where
  "forest D E t \<longleftrightarrow>
     (\<forall>i. contains_key t i \<longrightarrow> i < next_id t) \<and>
     is_split t (tree_root t) \<and> tree_root t \<notin> D \<and>
     tops t = insert (tree_root t) D \<and>
     linked t \<and> acyclic (up_edges (parent_of t)) \<and>
     empties t \<subseteq> insert (tree_root t) E"

lemma forest_bound: "forest D E t \<Longrightarrow> contains_key t i \<Longrightarrow> i < next_id t"
  by (simp add: forest_def)

lemma forest_root: "forest D E t \<Longrightarrow> is_split t (tree_root t)"
  by (simp add: forest_def)

lemma forest_root_parent: "forest D E t \<Longrightarrow> parent_of t (tree_root t) = None"
  by (auto simp: forest_def tops_def)

lemma forest_splitD:
  assumes "forest D E t" "get_split t p = Some (l, cs, ps, m)"
  shows "distinct cs" "\<And>c. c \<in> set cs \<Longrightarrow> parent_of t c = Some p" "length ps = length cs" "shares ps"
  using assms unfolding forest_def linked_def by blast+

lemma forest_parentD:
  assumes "forest D E t" "parent_of t c = Some p"
  obtains l cs ps m where "get_split t p = Some (l, cs, ps, m)" "c \<in> set cs"
  using assms unfolding forest_def linked_def by blast

lemma forest_acyclic: "forest D E t \<Longrightarrow> acyclic (up_edges (parent_of t))"
  by (simp add: forest_def)

lemma forest_top: "forest D E t \<Longrightarrow> contains_key t i \<Longrightarrow> parent_of t i = None \<Longrightarrow>
    i = tree_root t \<or> i \<in> D"
  unfolding forest_def tops_def by blast

lemma forest_detached: "forest D E t \<Longrightarrow> d \<in> D \<Longrightarrow> contains_key t d \<and> parent_of t d = None"
  unfolding forest_def tops_def by blast

lemma forest_empty: "forest D E t \<Longrightarrow> get_split t i = Some (l, [], ps, m) \<Longrightarrow>
    i = tree_root t \<or> i \<in> E"
  unfolding forest_def empties_def by blast

lemma forest_mono: "forest D E t \<Longrightarrow> E \<subseteq> E' \<Longrightarrow> forest D E' t"
  by (auto simp: forest_def)

lemma forest_root_split:
  assumes "forest D E t"
  obtains l cs ps m where "get_split t (tree_root t) = Some (l, cs, ps, m)"
  using forest_root [OF assms] by (auto simp: is_split_def)

lemma forestI:
  assumes "\<And>i. contains_key t i \<Longrightarrow> i < next_id t"
    and "is_split t (tree_root t)" "tree_root t \<notin> D" "tops t = insert (tree_root t) D"
    and "\<And>p l cs ps m. get_split t p = Some (l, cs, ps, m) \<Longrightarrow>
        distinct cs \<and> (\<forall>c\<in>set cs. parent_of t c = Some p) \<and> length ps = length cs \<and> shares ps"
    and "\<And>c p. parent_of t c = Some p \<Longrightarrow> \<exists>l cs ps m. get_split t p = Some (l, cs, ps, m) \<and> c \<in> set cs"
    and "acyclic (up_edges (parent_of t))"
    and "\<And>i l ps m. get_split t i = Some (l, [], ps, m) \<Longrightarrow> i = tree_root t \<or> i \<in> E"
  shows "forest D E t"
  using assms unfolding forest_def linked_def empties_def by blast

text \<open>The structure depends on four readings of the state only.\<close>

lemma forest_cong:
  assumes "nodes t' = nodes t" "tree_root t' = tree_root t" "next_id t' = next_id t"
  shows "forest D E t' \<longleftrightarrow> forest D E t"
proof -
  have "contains_key t' = contains_key t" "parent_of t' = parent_of t" "get_split t' = get_split t"
    using assms(1) by (simp_all add: fun_eq_iff contains_key_def parent_of_def get_split_def value_of_def)
  then show ?thesis
    using assms(2,3) by (simp add: forest_def linked_def tops_def empties_def is_split_def)
qed

text \<open>The parent links of a forest are a parent forest, so the walks of the arena end.\<close>

definition arena_ok :: "tree \<Rightarrow> bool" where
  "arena_ok t \<longleftrightarrow> (\<exists>D E. forest D E t)"

lemma arena_okI: "forest D E t \<Longrightarrow> arena_ok t"
  by (auto simp: arena_ok_def)

interpretation links: parent_forest arena_ok parent_of next_id
proof
  fix t c p assume "arena_ok t" and c: "parent_of t c = Some p"
  then obtain D E where F: "forest D E t" by (auto simp: arena_ok_def)
  from F c obtain l cs ps m where "get_split t p = Some (l, cs, ps, m)" by (rule forest_parentD)
  then show "c < next_id t \<and> p < next_id t"
    using F c by (meson forest_bound get_split_contains parent_of_contains)
next
  fix t assume "arena_ok t"
  then show "acyclic (up_edges (parent_of t))" using forest_acyclic by (auto simp: arena_ok_def)
qed

abbreviation below :: "tree \<Rightarrow> nid \<Rightarrow> nid \<Rightarrow> bool" where
  "below t i a \<equiv> (i, a) \<in> (up_edges (parent_of t))\<^sup>*"

lemma forest_unique_split:
  assumes "forest D E t" "get_split t p = Some (l, cs, ps, m)" "c \<in> set cs"
    "get_split t q = Some (l', cs', ps', m')" "c \<in> set cs'"
  shows "p = q"
  using forest_splitD(2) [OF assms(1,2) assms(3)] forest_splitD(2) [OF assms(1,4) assms(5)] by simp

lemma child_contains:
  assumes "forest D E t" "get_split t p = Some (l, cs, ps, m)" "c \<in> set cs"
  shows "contains_key t c"
  using forest_splitD(2) [OF assms] by (rule parent_of_contains)

lemma child_neq_parent:
  assumes "forest D E t" "parent_of t c = Some p"
  shows "c \<noteq> p"
  using links.no_self_loop [OF arena_okI [OF assms(1)] assms(2)] by auto

lemma below_antisym:
  assumes "forest D E t" "below t a b" "below t b a"
  shows "a = b"
  using forest_acyclic [OF assms(1)] assms(2,3) unfolding acyclic_def
  by (meson rtranclD trancl_rtrancl_trancl)

lemma below_contains: "below t i a \<Longrightarrow> contains_key t i \<Longrightarrow> forest D E t \<Longrightarrow> contains_key t a"
proof (induction rule: rtrancl_induct)
  case (step y z)
  then have "parent_of t y = Some z" by simp
  with step.prems(2) obtain l cs ps m where "get_split t z = Some (l, cs, ps, m)"
    by (rule forest_parentD)
  then show ?case by (rule get_split_contains)
qed

lemma below_root_iff:
  assumes "forest D E t"
  shows "below t (tree_root t) a \<longleftrightarrow> a = tree_root t"
  using forest_root_parent [OF assms] by (auto elim: converse_rtranclE)

lemma below_top:
  assumes "parent_of t i = None"
  shows "below t i a \<longleftrightarrow> a = i"
  using assms by (auto elim: converse_rtranclE)

section \<open>Containment\<close>

text \<open>
  \<^verbatim>\<open>contains_node\<close> decides the ancestor relation: on a well-formed arena its loop never runs out
  of budget.
\<close>

lemma contains_node_loop_path:
  "contains_node_loop k t a i \<longleftrightarrow> a \<in> set (up_path k (parent_of t) i)"
  by (induction k arbitrary: i) (auto split: option.splits)

lemma contains_node_iff:
  assumes "forest D E t"
  shows "contains_node t a i \<longleftrightarrow> below t i a"
proof -
  have "Suc (next_id t) < walk_fuel t" by (simp add: walk_fuel_def)
  from links.up_path_set [OF arena_okI [OF assms] this, of i]
  show ?thesis by (simp add: contains_node_def contains_node_loop_path)
qed

lemma below_total:
  assumes "below t i a" "below t i b"
  shows "below t a b \<or> below t b a"
  using assms
proof (induction rule: converse_rtrancl_induct)
  case base
  then show ?case by simp
next
  case (step x y)
  from step.prems show ?case
  proof (cases rule: converse_rtranclE)
    case base
    then show ?thesis using step.hyps by (meson converse_rtrancl_into_rtrancl)
  next
    case (step z)
    then have "z = y" using \<open>(x, y) \<in> up_edges (parent_of t)\<close> by simp
    with step(2) \<open>below t y b \<Longrightarrow> below t a b \<or> below t b a\<close> show ?thesis by blast
  qed
qed

lemma below_reaches_top:
  assumes "forest D E t" "contains_key t i"
  obtains r where "below t i r" "contains_key t r" "parent_of t r = None"
proof -
  let ?r = "last (up_path (walk_fuel t) (parent_of t) i)"
  have "up_path (walk_fuel t) (parent_of t) i \<noteq> []" by (simp add: walk_fuel_def)
  then have "?r \<in> set (up_path (walk_fuel t) (parent_of t) i)" by (rule last_in_set)
  then have b: "below t i ?r" by (rule up_path_reach)
  moreover have "parent_of t ?r = None"
    by (rule links.up_path_full [OF arena_okI [OF assms(1)]]) (simp add: walk_fuel_def)
  moreover have "contains_key t ?r" using b assms(2,1) by (rule below_contains)
  ultimately show ?thesis using that by blast
qed

lemma below_root:
  assumes "forest {} E t" "contains_key t i"
  shows "below t i (tree_root t)"
proof -
  obtain r where "below t i r" "contains_key t r" "parent_of t r = None"
    using below_reaches_top [OF assms] .
  then show ?thesis using forest_top [OF assms(1)] by blast
qed

end
