(* ===== verification/Surgery.thy ===== *)
theory Surgery
  imports Forest
begin

text \<open>
  Surgery on forests. The structure of an arena is three readings: which identifiers are
  present, the parent of each, the split each holds. Every tree operation is a short sequence
  of the steps below (allocate, attach, detach, relabel, delete, wrap, splice, swap); each
  lemma says that the step keeps a forest a forest, so the operations of the later theories
  only have to show which step they are.
\<close>

type_synonym split_data = "layout \<times> nid list \<times> real list \<times> split_meta"

definition aforest :: "nid \<Rightarrow> nat \<Rightarrow> nid set \<Rightarrow> nid set \<Rightarrow> (nid \<Rightarrow> bool) \<Rightarrow> (nid \<Rightarrow> nid option) \<Rightarrow>
    (nid \<Rightarrow> split_data option) \<Rightarrow> bool" where
  "aforest r b D E K P S \<longleftrightarrow>
     (\<forall>i. K i \<longrightarrow> i < b) \<and> (\<forall>i. P i \<noteq> None \<longrightarrow> K i) \<and> (\<forall>i. S i \<noteq> None \<longrightarrow> K i) \<and>
     S r \<noteq> None \<and> r \<notin> D \<and> {i. K i \<and> P i = None} = insert r D \<and>
     (\<forall>p l cs ps m. S p = Some (l, cs, ps, m) \<longrightarrow>
        distinct cs \<and> (\<forall>c\<in>set cs. P c = Some p) \<and> length ps = length cs \<and> shares ps) \<and>
     (\<forall>c p. P c = Some p \<longrightarrow> (\<exists>l cs ps m. S p = Some (l, cs, ps, m) \<and> c \<in> set cs)) \<and>
     acyclic (up_edges P) \<and>
     (\<forall>i l ps m. S i = Some (l, [], ps, m) \<longrightarrow> i = r \<or> i \<in> E)"

lemma forest_iff:
  "forest D E t \<longleftrightarrow>
     aforest (tree_root t) (next_id t) D E (contains_key t) (parent_of t) (get_split t)"
proof -
  have a: "\<forall>i. parent_of t i \<noteq> None \<longrightarrow> contains_key t i"
    and b: "\<forall>i. get_split t i \<noteq> None \<longrightarrow> contains_key t i"
    using parent_of_contains get_split_contains by blast+
  have e: "{i. \<exists>l ps m. get_split t i = Some (l, [], ps, m)} \<subseteq> insert (tree_root t) E \<longleftrightarrow>
      (\<forall>i l ps m. get_split t i = Some (l, [], ps, m) \<longrightarrow> i = tree_root t \<or> i \<in> E)"
    by blast
  show ?thesis
    unfolding forest_def aforest_def linked_def tops_def empties_def is_split_def e
    by (rule iffI; elim conjE; insert a b; intro conjI; assumption)
qed

text \<open>The tests a surgery lemma needs, one fact each.\<close>

lemma aforestD:
  assumes "aforest r b D E K P S"
  shows "K i \<Longrightarrow> i < b" "P i = Some p \<Longrightarrow> K i" "S i = Some s \<Longrightarrow> K i" "S r \<noteq> None" "r \<notin> D"
    "K i \<Longrightarrow> P i = None \<Longrightarrow> i = r \<or> i \<in> D" "d \<in> D \<Longrightarrow> K d" "d \<in> D \<Longrightarrow> P d = None" "P r = None" "K r"
    "S p = Some (l, cs, ps, m) \<Longrightarrow> distinct cs"
    "S p = Some (l, cs, ps, m) \<Longrightarrow> c \<in> set cs \<Longrightarrow> P c = Some p"
    "S p = Some (l, cs, ps, m) \<Longrightarrow> length ps = length cs"
    "S p = Some (l, cs, ps, m) \<Longrightarrow> shares ps"
    "P c = Some p \<Longrightarrow> \<exists>l cs ps m. S p = Some (l, cs, ps, m) \<and> c \<in> set cs"
    "acyclic (up_edges P)" "S i = Some (l, [], ps, m) \<Longrightarrow> i = r \<or> i \<in> E"
  using assms unfolding aforest_def by blast+

lemma aforest_tops: "aforest r b D E K P S \<Longrightarrow> {i. K i \<and> P i = None} = insert r D"
  unfolding aforest_def by (elim conjE) assumption

lemma aforestI:
  assumes "\<And>i. K i \<Longrightarrow> i < b" "\<And>i p. P i = Some p \<Longrightarrow> K i" "\<And>i s. S i = Some s \<Longrightarrow> K i"
    "S r \<noteq> None" "r \<notin> D" "{i. K i \<and> P i = None} = insert r D"
    "\<And>p l cs ps m. S p = Some (l, cs, ps, m) \<Longrightarrow>
        distinct cs \<and> (\<forall>c\<in>set cs. P c = Some p) \<and> length ps = length cs \<and> shares ps"
    "\<And>c p. P c = Some p \<Longrightarrow> \<exists>l cs ps m. S p = Some (l, cs, ps, m) \<and> c \<in> set cs"
    "acyclic (up_edges P)" "\<And>i l ps m. S i = Some (l, [], ps, m) \<Longrightarrow> i = r \<or> i \<in> E"
  shows "aforest r b D E K P S"
  using assms unfolding aforest_def by blast

lemma aforest_mono:
  assumes F: "aforest r b D E K P S" and E: "E \<subseteq> E'"
  shows "aforest r b D E' K P S"
proof -
  have e: "\<forall>i l ps m. S i = Some (l, [], ps, m) \<longrightarrow> i = r \<or> i \<in> E'"
    using aforestD(17) [OF F] E by blast
  show ?thesis
    by (insert F e, unfold aforest_def, elim conjE, intro conjI; assumption)
qed

lemma aforest_no_loop:
  assumes "aforest r b D E K P S" "P c = Some p"
  shows "(p, c) \<notin> (up_edges P)\<^sup>*"
  using aforestD(16) [OF assms(1)] assms(2) unfolding acyclic_def
  by (metis rtrancl_into_trancl2 up_edges_iff)

lemma up_edges_upd_None: "up_edges (P(c := None)) \<subseteq> up_edges P"
  by (auto simp: up_edges_def split: if_splits)

lemma up_edges_upd_Some:
  "P c = None \<Longrightarrow> up_edges (P(c := Some p)) = insert (c, p) (up_edges P)"
  by (auto simp: up_edges_def split: if_splits)

subsection \<open>Attach, detach, relabel, delete, allocate\<close>

lemma aforest_relabel:
  assumes F: "aforest r b D E K P S" and p: "S p = Some (l, cs, ps, m)"
    and cs': "distinct cs'" "set cs' = set cs" "length ps' = length cs'" "shares ps'"
  shows "aforest r b D E K P (S(p := Some (l', cs', ps', m')))"
proof -
  have ne: "cs' = [] \<Longrightarrow> cs = []" using cs'(2) by auto
  show ?thesis
  proof (rule aforestI)
    fix c q assume "P c = Some q"
    then obtain lq csq psq mq where "S q = Some (lq, csq, psq, mq)" "c \<in> set csq"
      using aforestD(15) [OF F] by blast
    then show "\<exists>l cs ps m. (S(p := Some (l', cs', ps', m'))) q = Some (l, cs, ps, m) \<and> c \<in> set cs"
      using p cs'(2) by (cases "q = p") simp_all
  next
    fix q lq csq psq mq assume "(S(p := Some (l', cs', ps', m'))) q = Some (lq, csq, psq, mq)"
    then show "distinct csq \<and> (\<forall>c\<in>set csq. P c = Some q) \<and> length psq = length csq \<and> shares psq"
      using aforestD(11-14) [OF F] p cs' by (auto split: if_splits)
  next
    fix i lq psq mq assume "(S(p := Some (l', cs', ps', m'))) i = Some (lq, [], psq, mq)"
    then show "i = r \<or> i \<in> E" using aforestD(17) [OF F] p ne by (auto split: if_splits)
  next
    show "{i. K i \<and> P i = None} = insert r D" by (rule aforest_tops [OF F])
  next
    fix i s assume "(S(p := Some (l', cs', ps', m'))) i = Some s"
    then show "K i" using aforestD(3) [OF F] p by (auto split: if_splits)
  next
    fix i q
    show "K i \<Longrightarrow> i < b" by (rule aforestD(1) [OF F])
    show "P i = Some q \<Longrightarrow> K i" by (rule aforestD(2) [OF F])
    show "acyclic (up_edges P)" by (rule aforestD(16) [OF F])
    show "r \<notin> D" by (rule aforestD(5) [OF F])
    show "(S(p := Some (l', cs', ps', m'))) r \<noteq> None" using aforestD(4) [OF F] by auto
  qed
qed

lemma aforest_attach:
  assumes F: "aforest r b D E K P S" and p: "S p = Some (l, cs, ps, m)"
    and c: "c \<in> D" "(p, c) \<notin> (up_edges P)\<^sup>*"
    and cs': "distinct cs'" "set cs' = insert c (set cs)" "length ps' = length cs'" "shares ps'"
  shows "aforest r b (D - {c}) (E - {p}) K (P(c := Some p)) (S(p := Some (l', cs', ps', m')))"
    (is "aforest _ _ _ _ _ ?P ?S")
proof (rule aforestI)
  have cN: "P c = None" "K c" "c \<noteq> r" using aforestD(5,7,8) [OF F] c(1) by auto
  show "acyclic (up_edges ?P)"
    using aforestD(16) [OF F] c(2) cN(1) by (simp add: up_edges_upd_Some)
  show "?S r \<noteq> None" using aforestD(4) [OF F] by auto
  show "r \<notin> D - {c}" using aforestD(5) [OF F] by blast
  have "{i. K i \<and> P i = None} = insert r D" by (rule aforest_tops [OF F])
  then show "{i. K i \<and> ?P i = None} = insert r (D - {c})" using cN by auto
  fix i q s
  show "K i \<Longrightarrow> i < b" by (rule aforestD(1) [OF F])
  show "?P i = Some q \<Longrightarrow> K i" using aforestD(2) [OF F] cN by (auto split: if_splits)
  show "?S i = Some s \<Longrightarrow> K i" using aforestD(3) [OF F] p by (auto split: if_splits)
next
  fix q lq csq psq mq assume s: "?S q = Some (lq, csq, psq, mq)"
  have cnot: "c \<notin> set csq" if "S q = Some (lq, csq, psq, mq)"
    using aforestD(12) [OF F that] aforestD(8) [OF F c(1)] by auto
  show "distinct csq \<and> (\<forall>c\<in>set csq. ?P c = Some q) \<and> length psq = length csq \<and> shares psq"
  proof (cases "q = p")
    case True
    then show ?thesis using s cs' aforestD(12) [OF F p] by auto
  next
    case False
    then have q: "S q = Some (lq, csq, psq, mq)" using s by simp
    show ?thesis using cnot aforestD(11-14) [OF F q] q False by auto
  qed
next
  fix x q assume x: "?P x = Some q"
  show "\<exists>l cs ps m. ?S q = Some (l, cs, ps, m) \<and> x \<in> set cs"
  proof (cases "x = c")
    case True
    then show ?thesis using x cs'(2) by simp
  next
    case False
    then obtain lq csq psq mq where "S q = Some (lq, csq, psq, mq)" "x \<in> set csq"
      using aforestD(15) [OF F] x by force
    then show ?thesis using p cs'(2) False by (cases "q = p") simp_all
  qed
next
  fix i lq psq mq assume "?S i = Some (lq, [], psq, mq)"
  then show "i = r \<or> i \<in> E - {p}" using aforestD(17) [OF F] cs'(2) by (auto split: if_splits)
qed

lemma aforest_detach:
  assumes F: "aforest r b D E K P S" and p: "S p = Some (l, cs, ps, m)"
    and c: "P c = Some p"
    and cs': "distinct cs'" "set cs' = set cs - {c}" "length ps' = length cs'" "shares ps'"
  shows "aforest r b (insert c D) (insert p E) K (P(c := None)) (S(p := Some (l', cs', ps', m')))"
    (is "aforest _ _ _ _ _ ?P ?S")
proof (rule aforestI)
  have cr: "c \<noteq> r" "K c" using aforestD(2,9) [OF F] c by auto
  show "acyclic (up_edges ?P)"
    using aforestD(16) [OF F] up_edges_upd_None by (rule acyclic_subset)
  show "?S r \<noteq> None" using aforestD(4) [OF F] by auto
  show "r \<notin> insert c D" using aforestD(5) [OF F] cr by blast
  have "{i. K i \<and> P i = None} = insert r D" by (rule aforest_tops [OF F])
  then show "{i. K i \<and> ?P i = None} = insert r (insert c D)" using cr by auto
  fix i q s
  show "K i \<Longrightarrow> i < b" by (rule aforestD(1) [OF F])
  show "?P i = Some q \<Longrightarrow> K i" using aforestD(2) [OF F] by (auto split: if_splits)
  show "?S i = Some s \<Longrightarrow> K i" using aforestD(3) [OF F] p by (auto split: if_splits)
next
  fix q lq csq psq mq assume s: "?S q = Some (lq, csq, psq, mq)"
  have cnot: "c \<notin> set csq" if "S q = Some (lq, csq, psq, mq)" "q \<noteq> p"
    using aforestD(12) [OF F that(1)] c that(2) by auto
  show "distinct csq \<and> (\<forall>c\<in>set csq. ?P c = Some q) \<and> length psq = length csq \<and> shares psq"
  proof (cases "q = p")
    case True
    then show ?thesis using s cs' aforestD(12) [OF F p] by auto
  next
    case False
    then have q: "S q = Some (lq, csq, psq, mq)" using s by simp
    show ?thesis using cnot aforestD(11-14) [OF F q] q False by auto
  qed
next
  fix x q assume x: "?P x = Some q"
  then have xc: "x \<noteq> c" "P x = Some q" by (auto split: if_splits)
  then obtain lq csq psq mq where "S q = Some (lq, csq, psq, mq)" "x \<in> set csq"
    using aforestD(15) [OF F] by blast
  then show "\<exists>l cs ps m. ?S q = Some (l, cs, ps, m) \<and> x \<in> set cs"
    using p cs'(2) xc by (cases "q = p") simp_all
next
  fix i lq psq mq assume "?S i = Some (lq, [], psq, mq)"
  then show "i = r \<or> i \<in> insert p E" using aforestD(17) [OF F] by (auto split: if_splits)
qed

lemma aforest_delete:
  assumes F: "aforest r b D E K P S" and d: "d \<in> D"
    and no_child: "\<And>l cs ps m. S d = Some (l, cs, ps, m) \<Longrightarrow> cs = []"
  shows "aforest r b (D - {d}) (E - {d}) (K(d := False)) P (S(d := None))"
proof (rule aforestI)
  have dr: "d \<noteq> r" "P d = None" "K d" using aforestD(5,7,8) [OF F] d by auto
  show "acyclic (up_edges P)" by (rule aforestD(16) [OF F])
  show "(S(d := None)) r \<noteq> None" using aforestD(4) [OF F] dr by auto
  show "r \<notin> D - {d}" using aforestD(5) [OF F] by blast
  have "{i. K i \<and> P i = None} = insert r D" by (rule aforest_tops [OF F])
  then show "{i. (K(d := False)) i \<and> P i = None} = insert r (D - {d})" using dr by auto
  fix i q s
  show "(K(d := False)) i \<Longrightarrow> i < b" using aforestD(1) [OF F] by (auto split: if_splits)
  show "P i = Some q \<Longrightarrow> (K(d := False)) i" using aforestD(2) [OF F] dr by auto
  show "(S(d := None)) i = Some s \<Longrightarrow> (K(d := False)) i"
    using aforestD(3) [OF F] by (auto split: if_splits)
next
  fix q lq csq psq mq assume "(S(d := None)) q = Some (lq, csq, psq, mq)"
  then show "distinct csq \<and> (\<forall>c\<in>set csq. P c = Some q) \<and> length psq = length csq \<and> shares psq"
    using aforestD(11-14) [OF F] by (auto split: if_splits)
next
  fix x q assume x: "P x = Some q"
  then obtain l cs ps m where "S q = Some (l, cs, ps, m)" "x \<in> set cs"
    using aforestD(15) [OF F] by blast
  then show "\<exists>l cs ps m. (S(d := None)) q = Some (l, cs, ps, m) \<and> x \<in> set cs"
    using no_child by (cases "q = d") auto
next
  fix i lq psq mq assume "(S(d := None)) i = Some (lq, [], psq, mq)"
  then show "i = r \<or> i \<in> E - {d}" using aforestD(17) [OF F] by (auto split: if_splits)
qed

lemma aforest_alloc:
  assumes F: "aforest r b D E K P S" and i: "\<not> K i" "i < b'" "b \<le> b'"
    and s: "s = None \<or> (\<exists>l m. s = Some (l, [], [], m) \<and> i \<in> E)"
  shows "aforest r b' (insert i D) E (K(i := True)) P (S(i := s))"
proof (rule aforestI)
  have ir: "i \<noteq> r" "P i = None" "S i = None" "i \<notin> D"
    using aforestD(2,3) [OF F, of i] aforestD(7,10) [OF F] i(1) by (cases "P i"; cases "S i"; blast)+
  show "acyclic (up_edges P)" by (rule aforestD(16) [OF F])
  show "(S(i := s)) r \<noteq> None" using aforestD(4) [OF F] ir by auto
  show "r \<notin> insert i D" using aforestD(5) [OF F] ir by blast
  have "{i. K i \<and> P i = None} = insert r D" by (rule aforest_tops [OF F])
  then show "{j. (K(i := True)) j \<and> P j = None} = insert r (insert i D)" using ir by auto
  fix j q s'
  show "(K(i := True)) j \<Longrightarrow> j < b'" using aforestD(1) [OF F, of j] i by (auto split: if_splits)
  show "P j = Some q \<Longrightarrow> (K(i := True)) j" using aforestD(2) [OF F] by auto
  show "(S(i := s)) j = Some s' \<Longrightarrow> (K(i := True)) j"
    using aforestD(3) [OF F] by (auto split: if_splits)
next
  fix q lq csq psq mq assume "(S(i := s)) q = Some (lq, csq, psq, mq)"
  then show "distinct csq \<and> (\<forall>c\<in>set csq. P c = Some q) \<and> length psq = length csq \<and> shares psq"
    using aforestD(11-14) [OF F] s by (auto split: if_splits)
next
  fix x q assume "P x = Some q"
  then obtain l cs ps m where S: "S q = Some (l, cs, ps, m)" "x \<in> set cs"
    using aforestD(15) [OF F] by blast
  moreover have "q \<noteq> i" using aforestD(3) [OF F S(1)] i(1) by auto
  ultimately show "\<exists>l cs ps m. (S(i := s)) q = Some (l, cs, ps, m) \<and> x \<in> set cs" by auto
next
  fix j lq psq mq assume "(S(i := s)) j = Some (lq, [], psq, mq)"
  then show "j = r \<or> j \<in> E" using aforestD(17) [OF F] s by (auto split: if_splits)
qed

subsection \<open>Acyclicity of the composed steps\<close>

lemma reach_no_entry:
  assumes "(a, b) \<in> r\<^sup>*" "a \<noteq> w" "\<And>x. (x, w) \<notin> r"
  shows "b \<noteq> w"
  using assms by (metis rtranclE)

lemma reach_drop_source:
  assumes "(a, b) \<in> (insert (w, p) r)\<^sup>*" "a \<noteq> w" "\<And>x. (x, w) \<notin> r" "p \<noteq> w"
  shows "(a, b) \<in> r\<^sup>*"
  using assms(1)
proof (induction rule: rtrancl_induct)
  case (step y z)
  have "y \<noteq> w" using reach_no_entry [OF step.IH assms(2,3)] .
  then have "(y, z) \<in> r" using step.hyps(2) by auto
  with step.IH show ?case by (rule rtrancl_into_rtrancl)
qed simp

lemma reach_into:
  assumes "(w, x) \<in> (r \<union> C \<times> {w})\<^sup>*" "\<And>c. c \<in> C \<Longrightarrow> (w, c) \<notin> r\<^sup>*"
  shows "(w, x) \<in> r\<^sup>*"
  using assms(1)
proof (induction rule: rtrancl_induct)
  case (step y z)
  then have "y \<notin> C" using assms(2) by blast
  then have "(y, z) \<in> r" using step.hyps(2) by auto
  with step.IH show ?case by (rule rtrancl_into_rtrancl)
qed simp

lemma acyclic_into:
  assumes "acyclic r" "finite C" "\<And>c. c \<in> C \<Longrightarrow> (w, c) \<notin> r\<^sup>*"
  shows "acyclic (r \<union> C \<times> {w})"
  using assms(2,3)
proof (induction C rule: finite_induct)
  case empty
  then show ?case using assms(1) by simp
next
  case (insert c C)
  have "(w, c) \<notin> (r \<union> C \<times> {w})\<^sup>*"
    using reach_into [of w c r C] insert.prems by blast
  moreover have "acyclic (r \<union> C \<times> {w})" using insert by blast
  moreover have "r \<union> (Set.insert c C) \<times> {w} = Set.insert (c, w) (r \<union> C \<times> {w})" by auto
  ultimately show ?case by simp
qed

subsection \<open>Wrapping a node and wrapping the root's children\<close>

lemma aforest_wrap:
  assumes F: "aforest r b D E K P S" and p: "S p = Some (l, cs, ps, m)" and c: "P c = Some p"
    and w: "\<not> K w" "w < b'" "b \<le> b'"
    and cs': "distinct cs'" "set cs' = insert w (set cs - {c})" "length ps' = length cs'" "shares ps'"
  shows "aforest r b' D E (K(w := True)) (P(w := Some p, c := Some w))
           (S(w := Some (lw, [c], [1], mw), p := Some (l', cs', ps', m')))"
proof -
  let ?eqs = "map (\<lambda>_. 1 / real (length (remove1 c cs))) (remove1 c cs)"
  have pK: "K p" using p by (rule aforestD(3) [OF F])
  have cK: "K c" using c by (rule aforestD(2) [OF F])
  have ne: "w \<noteq> p" "w \<noteq> c" "c \<noteq> p" "w \<notin> D"
    using w(1) pK cK aforestD(7) [OF F] aforest_no_loop [OF F c] by auto
  have noP: "P x \<noteq> Some w" for x
    using aforestD(15) [OF F, of x w] aforestD(3) [OF F, of w] w(1) by blast
  have cD: "c \<notin> D" using aforestD(8) [OF F] c by fastforce
  have dcs: "distinct cs" by (rule aforestD(11) [OF F p])
  have F1: "aforest r b (insert c D) (insert p E) K (P(c := None))
      (S(p := Some (l, remove1 c cs, ?eqs, m)))"
    by (rule aforest_detach [OF F p c]) (use dcs shares_equal in auto)
  then have "aforest r b (insert c D) (insert w (insert p E)) K (P(c := None))
      (S(p := Some (l, remove1 c cs, ?eqs, m)))"
    by (rule aforest_mono) blast
  then have F2: "aforest r b' (insert w (insert c D)) (insert w (insert p E)) (K(w := True))
      (P(c := None)) ((S(p := Some (l, remove1 c cs, ?eqs, m)))(w := Some (lw, [], [], mw)))"
    by (rule aforest_alloc) (use w in auto)
  have r1: "(p, w) \<notin> (up_edges (P(c := None)))\<^sup>*"
  proof
    assume "(p, w) \<in> (up_edges (P(c := None)))\<^sup>*"
    then have "w \<noteq> w" by (rule reach_no_entry) (use ne noP in auto)
    then show False by simp
  qed
  have cs2: "set cs' = insert w (set (remove1 c cs))" using cs'(2) dcs by simp
  have F3: "aforest r b' (insert w (insert c D) - {w}) (insert w (insert p E) - {p}) (K(w := True))
      (P(c := None, w := Some p))
      ((S(p := Some (l, remove1 c cs, ?eqs, m)))(w := Some (lw, [], [], mw),
         p := Some (l', cs', ps', m')))"
    by (rule aforest_attach [OF F2 _ _ r1]) (simp_all add: ne ne(1) [symmetric] cs'(1,3,4) cs2)
  have wN: "P w = None" using w(1) aforestD(2) [OF F] by (cases "P w") auto
  have up: "up_edges (P(c := None, w := Some p)) = insert (w, p) (up_edges (P(c := None)))"
    by (rule up_edges_upd_Some) (use ne wN in auto)
  have r2: "(w, c) \<notin> (up_edges (P(c := None, w := Some p)))\<^sup>*"
  proof
    assume "(w, c) \<in> (up_edges (P(c := None, w := Some p)))\<^sup>*"
    then obtain y where "(w, y) \<in> up_edges (P(c := None, w := Some p))"
      "(y, c) \<in> (up_edges (P(c := None, w := Some p)))\<^sup>*"
      using ne by (metis converse_rtranclE)
    then have "(p, c) \<in> (insert (w, p) (up_edges (P(c := None))))\<^sup>*"
      using up by (auto simp: up_edges_def)
    then have "(p, c) \<in> (up_edges (P(c := None)))\<^sup>*"
      by (rule reach_drop_source) (use ne noP in auto)
    then have "(p, c) \<in> (up_edges P)\<^sup>*" using rtrancl_mono [OF up_edges_upd_None] by blast
    then show False using aforest_no_loop [OF F c] by blast
  qed
  have w2: "((S(p := Some (l, remove1 c cs, ?eqs, m)))(w := Some (lw, [], [], mw),
         p := Some (l', cs', ps', m'))) w = Some (lw, [], [], mw)" by (simp add: ne)
  have F4: "aforest r b' (insert w (insert c D) - {w} - {c}) (insert w (insert p E) - {p} - {w})
      (K(w := True)) (P(c := None, w := Some p, c := Some w))
      ((S(p := Some (l, remove1 c cs, ?eqs, m)))(w := Some (lw, [], [], mw),
         p := Some (l', cs', ps', m'), w := Some (lw, [c], [1], mw)))"
    by (rule aforest_attach [OF F3 w2 _ r2]) (simp_all add: ne ne(2) [symmetric])
  have "insert w (insert c D) - {w} - {c} = D" using ne cD by auto
  moreover have "P(c := None, w := Some p, c := Some w) = P(w := Some p, c := Some w)"
    using ne by (auto simp: fun_eq_iff)
  moreover have "(S(p := Some (l, remove1 c cs, ?eqs, m)))(w := Some (lw, [], [], mw),
         p := Some (l', cs', ps', m'), w := Some (lw, [c], [1], mw)) =
      S(w := Some (lw, [c], [1], mw), p := Some (l', cs', ps', m'))"
    using ne by (auto simp: fun_eq_iff)
  ultimately have "aforest r b' D (insert w (insert p E) - {p} - {w}) (K(w := True))
     (P(w := Some p, c := Some w)) (S(w := Some (lw, [c], [1], mw), p := Some (l', cs', ps', m')))"
    using F4 by (simp only:)
  then show ?thesis by (rule aforest_mono) blast
qed

lemma aforest_wrap_root:
  assumes F: "aforest r b D E K P S" and root: "S r = Some (l, cs, ps, m)" and ne: "cs \<noteq> []"
    and w: "\<not> K w" "w < b'" "b \<le> b'"
  shows "aforest r b' D E (K(w := True))
           (\<lambda>i. if i = w then Some r else if i \<in> set cs then Some w else P i)
           (S(w := Some (lw, cs, ps, mw), r := Some (l', [w], [1], m')))"
    (is "aforest _ _ _ _ _ ?P ?S")
proof (rule aforestI)
  have rK: "K r" by (rule aforestD(10) [OF F])
  have wr: "w \<noteq> r" "w \<notin> D" using rK w(1) aforestD(7) [OF F] by auto
  have csP: "P c = Some r" if "c \<in> set cs" for c using aforestD(12) [OF F root that] .
  have wcs: "w \<notin> set cs" using csP aforestD(2) [OF F] w(1) by blast
  have wN: "P w = None" using w(1) aforestD(2) [OF F] by (cases "P w") auto
  have noP: "P x \<noteq> Some w" for x
    using aforestD(15) [OF F, of x w] aforestD(3) [OF F, of w] w(1) by blast
  have rN: "P r = None" by (rule aforestD(9) [OF F])
  have up: "up_edges (P(w := Some r)) = insert (w, r) (up_edges P)"
    using wN by (rule up_edges_upd_Some)
  have rout: "(r, x) \<in> (up_edges P)\<^sup>* \<Longrightarrow> x = r" for x
    using rN by (auto elim: converse_rtranclE)
  have ac: "acyclic (up_edges (P(w := Some r)))"
    using up aforestD(16) [OF F] rout wr by auto
  have out: "(w, c) \<notin> (up_edges (P(w := Some r)))\<^sup>*" if c: "c \<in> set cs" for c
  proof
    assume "(w, c) \<in> (up_edges (P(w := Some r)))\<^sup>*"
    then have "(r, c) \<in> (up_edges (P(w := Some r)))\<^sup>*"
      using wcs c by (auto elim: converse_rtranclE)
    then have "c = r" using rN wr by (auto elim: converse_rtranclE split: if_splits)
    then show False using csP [OF c] rN by simp
  qed
  have "up_edges ?P \<subseteq> up_edges (P(w := Some r)) \<union> set cs \<times> {w}"
    using wcs by (auto simp: up_edges_def split: if_splits)
  then show "acyclic (up_edges ?P)"
    using acyclic_into [OF ac finite_set out] acyclic_subset by blast
  show "?S r \<noteq> None" by simp
  show "r \<notin> D" by (rule aforestD(5) [OF F])
  have csr: "r \<notin> set cs" using csP rN by auto
  have t: "{i. K i \<and> P i = None} = insert r D" by (rule aforest_tops [OF F])
  have csN: "P i \<noteq> None" if "i \<in> set cs" for i using csP that by auto
  show "{i. (K(w := True)) i \<and> ?P i = None} = insert r D"
  proof (rule set_eqI)
    fix i
    have "i \<in> insert r D \<longleftrightarrow> K i \<and> P i = None" using t by auto
    then show "i \<in> {i. (K(w := True)) i \<and> ?P i = None} \<longleftrightarrow> i \<in> insert r D"
      using csN [of i] wr w(1) by auto
  qed
  fix i q s
  show "(K(w := True)) i \<Longrightarrow> i < b'" using aforestD(1) [OF F, of i] w by (auto split: if_splits)
  show "?P i = Some q \<Longrightarrow> (K(w := True)) i"
    using aforestD(2) [OF F, of i] csP [of i] by (auto split: if_splits)
  show "?S i = Some s \<Longrightarrow> (K(w := True)) i"
    using aforestD(3) [OF F, of i] rK by (auto split: if_splits)
  fix lq csq psq mq
  have split_ok: "distinct csq \<and> (\<forall>c\<in>set csq. ?P c = Some q) \<and> length psq = length csq \<and> shares psq"
    if q: "S q = Some (lq, csq, psq, mq)" "q \<noteq> r" "q \<noteq> w"
  proof -
    have "c \<noteq> w \<and> c \<notin> set cs" if "c \<in> set csq" for c
      using aforestD(12) [OF F q(1) that] csP [of c] q(2) wN by auto
    then show ?thesis using aforestD(11-14) [OF F q(1)] by auto
  qed
  show "?S q = Some (lq, csq, psq, mq) \<Longrightarrow>
     distinct csq \<and> (\<forall>c\<in>set csq. ?P c = Some q) \<and> length psq = length csq \<and> shares psq"
    using split_ok aforestD(11,13,14) [OF F root] wcs wr by (cases "q = r"; cases "q = w") auto
  show "?S i = Some (lq, [], psq, mq) \<Longrightarrow> i = r \<or> i \<in> E"
    using aforestD(17) [OF F, of i] ne by (auto split: if_splits)
  fix x assume x: "?P x = Some q"
  show "\<exists>l cs ps m. ?S q = Some (l, cs, ps, m) \<and> x \<in> set cs"
  proof (cases "x = w \<or> x \<in> set cs")
    case True
    then show ?thesis
    proof
      assume "x = w"
      then show ?thesis using x wr by auto
    next
      assume "x \<in> set cs"
      then have "q = w" using x wcs by (auto split: if_splits)
      then show ?thesis using \<open>x \<in> set cs\<close> wr by simp
    qed
  next
    case False
    then have Pq: "P x = Some q" using x by simp
    then obtain lq csq psq mq where q: "S q = Some (lq, csq, psq, mq)" "x \<in> set csq"
      using aforestD(15) [OF F] by blast
    have "q \<noteq> r" using q root False by auto
    moreover have "q \<noteq> w" using Pq noP by blast
    ultimately show ?thesis using q by simp
  qed
qed

subsection \<open>Splicing a chain of containers out\<close>

text \<open>
  The children \<open>gs\<close> of a chain \<open>R\<close> of containers whose top is \<open>q\<close> take \<open>q\<close>'s place below \<open>p\<close>,
  and the chain leaves the arena.
\<close>

lemma aforest_splice:
  assumes F: "aforest r b D E K P S" and p: "S p = Some (l, cs, ps, m)"
    and R: "p \<notin> R" "r \<notin> R" "D \<inter> R = {}" "q \<in> R"
    and up: "\<And>i. i \<in> R \<Longrightarrow> \<exists>a. P i = Some a \<and> (a \<in> R \<or> a = p \<and> i = q)"
    and down: "\<And>i l cs ps m. i \<in> R \<Longrightarrow> S i = Some (l, cs, ps, m) \<Longrightarrow> set cs \<subseteq> R \<union> set gs"
    and gs: "\<And>g. g \<in> set gs \<Longrightarrow> g \<notin> R \<and> (\<exists>a\<in>R. P g = Some a) \<and> (g, p) \<in> (up_edges P)\<^sup>+"
    and cs': "distinct cs'" "set cs' = (set cs - {q}) \<union> set gs" "length ps' = length cs'" "shares ps'"
      "cs' = [] \<Longrightarrow> p = r \<or> p \<in> E"
  shows "aforest r b D E (\<lambda>i. K i \<and> i \<notin> R)
           (\<lambda>i. if i \<in> R then None else if i \<in> set gs then Some p else P i)
           (\<lambda>i. if i \<in> R then None else if i = p then Some (l', cs', ps', m') else S i)"
    (is "aforest _ _ _ _ ?K ?P ?S")
proof (rule aforestI)
  have gR: "g \<notin> R" if "g \<in> set gs" for g using gs [OF that] by blast
  have "up_edges ?P \<subseteq> (up_edges P)\<^sup>+"
    using gs by (auto simp: up_edges_def split: if_splits)
  then show "acyclic (up_edges ?P)" by (rule acyclic_shortcut [OF aforestD(16) [OF F]])
  show "?S r \<noteq> None" using aforestD(4) [OF F] R by auto
  show "r \<notin> D" by (rule aforestD(5) [OF F])
  have gN: "P g \<noteq> None" if "g \<in> set gs" for g using gs [OF that] by auto
  have RN: "P i \<noteq> None" if "i \<in> R" for i using up [OF that] by auto
  have t: "{i. K i \<and> P i = None} = insert r D" by (rule aforest_tops [OF F])
  show "{i. ?K i \<and> ?P i = None} = insert r D"
  proof (rule set_eqI)
    fix i
    have "i \<in> insert r D \<Longrightarrow> i \<notin> R" using R by auto
    moreover have "i \<in> insert r D \<longleftrightarrow> K i \<and> P i = None" using t by auto
    ultimately show "i \<in> {i. ?K i \<and> ?P i = None} \<longleftrightarrow> i \<in> insert r D"
      using gN [of i] by auto
  qed
  fix i a s
  show "?K i \<Longrightarrow> i < b" using aforestD(1) [OF F, of i] by blast
  show "?P i = Some a \<Longrightarrow> ?K i"
    using aforestD(2) [OF F, of i] gs [of i] by (auto split: if_splits)
  show "?S i = Some s \<Longrightarrow> ?K i"
    using aforestD(3) [OF F, of i] aforestD(3) [OF F p] by (auto split: if_splits)
  fix lq csq psq mq
  show "distinct csq \<and> (\<forall>c\<in>set csq. ?P c = Some a) \<and> length psq = length csq \<and> shares psq"
    if s: "?S a = Some (lq, csq, psq, mq)"
  proof (cases "a = p")
    case True
    have "?P c = Some p" if c: "c \<in> set cs'" for c
    proof (cases "c \<in> set gs")
      case True
      then show ?thesis using gR by simp
    next
      case False
      then have "c \<in> set cs" "c \<noteq> q" using c cs'(2) by auto
      moreover from this have "P c = Some p" using aforestD(12) [OF F p] by blast
      moreover have "c \<notin> R" using up [of c] calculation R(1) by auto
      ultimately show ?thesis using False by simp
    qed
    then show ?thesis using True s R(1) cs' by simp
  next
    case False
    then have a: "S a = Some (lq, csq, psq, mq)" "a \<notin> R" using s by (auto split: if_splits)
    have "c \<notin> R \<and> c \<notin> set gs" if c: "c \<in> set csq" for c
      using aforestD(12) [OF F a(1) c] up [of c] gs [of c] a(2) False by auto
    then show ?thesis using aforestD(11-14) [OF F a(1)] by auto
  qed
  show "?S i = Some (lq, [], psq, mq) \<Longrightarrow> i = r \<or> i \<in> E"
    using aforestD(17) [OF F, of i] cs'(5) by (auto split: if_splits)
  fix x assume x: "?P x = Some a"
  show "\<exists>l cs ps m. ?S a = Some (l, cs, ps, m) \<and> x \<in> set cs"
  proof (cases "x \<in> set gs")
    case True
    then show ?thesis using x R(1) cs'(2) gR by auto
  next
    case False
    then have xa: "x \<notin> R" "P x = Some a" using x by (auto split: if_splits)
    then obtain lq csq psq mq where a: "S a = Some (lq, csq, psq, mq)" "x \<in> set csq"
      using aforestD(15) [OF F] by blast
    have aR: "a \<notin> R" using down [OF _ a(1)] a(2) xa(1) False by blast
    show ?thesis
    proof (cases "a = p")
      case True
      then have "x \<in> set cs'" using a p xa(1) R(4) cs'(2) by auto
      then show ?thesis using True R(1) by simp
    next
      case False
      then show ?thesis using a aR by simp
    qed
  qed
qed

subsection \<open>Exchanging two subtrees\<close>

lemma aforest_swap:
  assumes F: "aforest r b D E K P S"
    and a: "P a = Some p" and c: "P c = Some q" and inc: "(a, c) \<notin> (up_edges P)\<^sup>*" "(c, a) \<notin> (up_edges P)\<^sup>*"
    and S': "\<And>i. S' i = (case S i of Some (l, cs, ps, m) \<Rightarrow>
        Some (l, map (\<lambda>x. if x = a then c else if x = c then a else x) cs, ps, m) | None \<Rightarrow> None)"
  shows "aforest r b D E K (P(a := Some q, c := Some p)) S'"
    (is "aforest _ _ _ _ _ ?P _")
proof (rule aforestI)
  let ?f = "\<lambda>x. if x = a then c else if x = c then a else x"
  have ne: "a \<noteq> c" using inc by auto
  have finj: "inj ?f" using ne by (auto simp: inj_on_def split: if_splits)
  have K: "K a" "K c" using aforestD(2) [OF F] a c by auto
  have loops: "(p, a) \<notin> (up_edges P)\<^sup>*" "(q, c) \<notin> (up_edges P)\<^sup>*"
    using aforest_no_loop [OF F a] aforest_no_loop [OF F c] by auto
  have paths: "(p, c) \<notin> (up_edges P)\<^sup>*" "(q, a) \<notin> (up_edges P)\<^sup>*"
    using inc a c by (meson converse_rtrancl_into_rtrancl up_edges_iff)+
  let ?Q = "P(a := None, c := None)"
  have sub: "up_edges ?Q \<subseteq> up_edges P" by (auto simp: up_edges_def split: if_splits)
  have ac0: "acyclic (up_edges ?Q)" using aforestD(16) [OF F] sub by (rule acyclic_subset)
  have e1: "up_edges (?Q(a := Some q)) = insert (a, q) (up_edges ?Q)"
    by (rule up_edges_upd_Some) (simp add: ne)
  have qa: "(q, a) \<notin> (up_edges ?Q)\<^sup>*" using paths rtrancl_mono [OF sub] by blast
  have ac1: "acyclic (up_edges (?Q(a := Some q)))" using e1 ac0 qa by simp
  have e2: "up_edges (?Q(a := Some q, c := Some p)) =
      insert (c, p) (up_edges (?Q(a := Some q)))"
    by (rule up_edges_upd_Some) (simp add: ne [symmetric])
  have pc: "(p, c) \<notin> (up_edges (?Q(a := Some q)))\<^sup>*"
  proof
    assume "(p, c) \<in> (up_edges (?Q(a := Some q)))\<^sup>*"
    then consider "(p, c) \<in> (up_edges ?Q)\<^sup>*" | "(p, a) \<in> (up_edges ?Q)\<^sup>*"
      unfolding e1 rtrancl_insert by auto
    then show False using paths(1) loops(1) rtrancl_mono [OF sub] by cases blast+
  qed
  have eq: "?Q(a := Some q, c := Some p) = ?P" by (rule ext) simp
  show "acyclic (up_edges ?P)" using e2 ac1 pc unfolding eq by simp
  show "S' r \<noteq> None" using aforestD(4) [OF F] S' by (auto split: option.splits)
  show "r \<notin> D" by (rule aforestD(5) [OF F])
  have t: "{i. K i \<and> P i = None} = insert r D" by (rule aforest_tops [OF F])
  have "{i. K i \<and> ?P i = None} = {i. K i \<and> P i = None}" using a c by auto
  then show "{i. K i \<and> ?P i = None} = insert r D" using t by simp
  fix i x s
  show "K i \<Longrightarrow> i < b" by (rule aforestD(1) [OF F])
  show "?P i = Some x \<Longrightarrow> K i" using aforestD(2) [OF F, of i] K by (auto split: if_splits)
  show "S' i = Some s \<Longrightarrow> K i" using aforestD(3) [OF F, of i] S' by (auto split: option.splits)
  fix lq csq psq mq
  show "S' i = Some (lq, [], psq, mq) \<Longrightarrow> i = r \<or> i \<in> E"
    using aforestD(17) [OF F, of i] S' by (auto split: option.splits)
  have Pf: "?P (?f y) = Some x" if "S x = Some (l0, cs0, ps0, m0)" "y \<in> set cs0" for y l0 cs0 ps0 m0
    using aforestD(12) [OF F that] a c ne by auto
  show "distinct csq \<and> (\<forall>c\<in>set csq. ?P c = Some x) \<and> length psq = length csq \<and> shares psq"
    if s: "S' x = Some (lq, csq, psq, mq)"
  proof -
    obtain cs0 where x: "S x = Some (lq, cs0, psq, mq)" "csq = map ?f cs0"
      using s S' by (auto split: option.splits)
    have "distinct csq"
      using aforestD(11) [OF F x(1)] finj x(2) by (simp only: distinct_map) (blast intro: inj_on_subset)
    moreover have "\<forall>c\<in>set csq. ?P c = Some x"
      unfolding x(2) set_map ball_simps using Pf [OF x(1)] by blast
    moreover have "length psq = length csq" "shares psq"
      using aforestD(13,14) [OF F x(1)] x(2) by simp_all
    ultimately show ?thesis by blast
  qed
  fix y assume y: "?P y = Some x"
  show "\<exists>l cs ps m. S' x = Some (l, cs, ps, m) \<and> y \<in> set cs"
  proof -
    have "P (?f y) = Some x" using y a c ne by (auto split: if_splits)
    then obtain l0 cs0 ps0 m0 where x: "S x = Some (l0, cs0, ps0, m0)" "?f y \<in> set cs0"
      using aforestD(15) [OF F] by blast
    have "y = ?f (?f y)"
      by (cases "y = a"; cases "y = c") (simp_all add: ne ne [symmetric])
    then have "y \<in> set (map ?f cs0)" unfolding set_map using x(2) by (rule image_eqI)
    moreover have "S' x = Some (l0, map ?f cs0, ps0, m0)" using S' [of x] x(1) by simp
    ultimately show ?thesis by blast
  qed
qed

end
