(* ===== verification/Arena_Laws.thy ===== *)
theory Arena_Laws
  imports Surgery
begin

text \<open>
  What the arena operations keep. For each primitive of \<open>Arena\<close>: the structure it leaves
  (readings of parents and splits), that it keeps the forest invariant, that it does not panic
  on a forest, and that it leaves the side tables alone. The side tables are compared through
  \<open>strip\<close>, the state without its arena.
\<close>

section \<open>Frames\<close>

definition strip :: "tree \<Rightarrow> tree" where
  "strip t = t\<lparr>nodes := (\<lambda>_. None), next_id := 0, panicked := False, tile_calls := []\<rparr>"

lemma strip_fieldsD:
  assumes "strip t' = strip t"
  shows "tree_root t' = tree_root t" "focus t' = focus t" "focus_history t' = focus_history t"
    "ipc_stale_nodes t' = ipc_stale_nodes t" "last_entered_by t' = last_entered_by t"
    "pending_modes t' = pending_modes t" "mapped_under_fullscreen t' = mapped_under_fullscreen t"
    "moved_under_fullscreen t' = moved_under_fullscreen t"
    "fullscreen_layout_wrappers t' = fullscreen_layout_wrappers t"
    "pre_layout_ipc_rects t' = pre_layout_ipc_rects t" "tab_indicators t' = tab_indicators t"
    "tab_active t' = tab_active t" "interactive_resize_st t' = interactive_resize_st t"
    "has_resident_root t' = has_resident_root t" "options_of t' = options_of t"
  using arg_cong [OF assms, of tree_root]
    arg_cong [OF assms, of focus]
    arg_cong [OF assms, of focus_history]
    arg_cong [OF assms, of ipc_stale_nodes]
    arg_cong [OF assms, of last_entered_by]
    arg_cong [OF assms, of pending_modes]
    arg_cong [OF assms, of mapped_under_fullscreen]
    arg_cong [OF assms, of moved_under_fullscreen]
    arg_cong [OF assms, of fullscreen_layout_wrappers]
    arg_cong [OF assms, of pre_layout_ipc_rects]
    arg_cong [OF assms, of tab_indicators]
    arg_cong [OF assms, of tab_active]
    arg_cong [OF assms, of interactive_resize_st]
    arg_cong [OF assms, of has_resident_root]
    arg_cong [OF assms, of options_of]
  by (simp_all add: strip_def)

lemma strip_set_value [simp, frame_simps]: "strip (set_value t i v) = strip t"
  by (simp add: strip_def set_value_def)

lemma strip_set_parent [simp, frame_simps]: "strip (set_parent t i p) = strip t"
  by (simp add: strip_def set_parent_def)

lemma strip_panic [simp, frame_simps]: "strip (panic t) = strip t"
  by (simp add: strip_def panic_def)

lemma strip_log_call [simp, frame_simps]: "strip (log_call t c) = strip t"
  by (simp add: strip_def log_call_def)

lemma strip_expect_set_parent [simp, frame_simps]: "strip (expect_set_parent t i p) = strip t"
  by (simp add: expect_set_parent_def)

lemma strip_alloc [simp, frame_simps]: "strip (fst (alloc t n)) = strip t"
  by (simp add: strip_def alloc_def)

lemma strip_insert_child_at [simp, frame_simps]: "strip (insert_child_at t p c k) = strip t"
  by (simp add: insert_child_at_def Let_def split: option.splits prod.splits)

lemma strip_insert_child [simp, frame_simps]: "strip (insert_child t p c a) = strip t"
  by (simp add: insert_child_def Let_def split: option.splits tree_node.splits)

lemma strip_insert_existing_child [simp, frame_simps]:
  "strip (insert_existing_child t p c k s) = strip t"
  by (simp add: insert_existing_child_def Let_def split: option.splits prod.splits)

lemma strip_remove_child [simp, frame_simps]: "strip (remove_child t p c) = strip t"
  by (simp add: remove_child_def Let_def split: option.splits prod.splits)

lemma strip_share_as_fresh [simp, frame_simps]: "strip (share_as_fresh t p fs) = strip t"
  by (simp add: share_as_fresh_def Let_def split: option.splits prod.splits)

lemma strip_set_child_percent [simp, frame_simps]: "strip (set_child_percent t p c x) = strip t"
  by (simp add: set_child_percent_def split: option.splits prod.splits)

lemma strip_detach [simp, frame_simps]: "strip (fst (detach_subtree_only t i)) = strip t"
  by (simp add: detach_subtree_only_def Let_def split: option.splits)

section \<open>Calls to the tile layer leave the arena alone\<close>

lemma log_call_reads [simp]:
  "nodes (log_call t c) = nodes t" "tree_root (log_call t c) = tree_root t"
  "next_id (log_call t c) = next_id t" "panicked (log_call t c) = panicked t"
  "focus (log_call t c) = focus t" "focus_history (log_call t c) = focus_history t"
  "pending_modes (log_call t c) = pending_modes t"
  "has_resident_root (log_call t c) = has_resident_root t"
  by (simp_all add: log_call_def)

lemma forest_log_call [simp]: "forest D E (log_call t c) \<longleftrightarrow> forest D E t"
  by (rule forest_cong) simp_all

lemma contains_log_call [simp]: "contains_key (log_call t c) = contains_key t"
  by (simp add: fun_eq_iff contains_key_def)

section \<open>Share vectors of the operations\<close>

lemma shares_insert_even:
  assumes "shares ps"
  shows "shares (insert_at i (1 / real (length ps + 1)) (map (\<lambda>x. x * (1 - 1 / real (length ps + 1))) ps))"
  using assms by (rule shares_insert_scaled) auto

lemma shares_split_half:
  assumes "shares ps" "k < length ps"
  shows "shares (insert_at j (ps ! k / 2) (ps[k := ps ! k / 2]))"
proof -
  have "0 < ps ! k" using assms by (rule shares_nth)
  moreover have "sum_list (ps[k := ps ! k / 2]) = sum_list ps - ps ! k / 2"
    using assms(2) by (simp add: sum_list_update_real)
  moreover have "set (ps[k := ps ! k / 2]) \<subseteq> insert (ps ! k / 2) (set ps)"
    by (rule set_update_subset_insert)
  moreover have "ps \<noteq> []" using assms(2) by auto
  ultimately show ?thesis using assms(1) by (auto simp: shares_def)
qed

lemma shares_rescale:
  assumes "\<forall>x\<in>set ps. 0 < x"
  shows "shares (rescale ps)"
proof (cases "ps = []")
  case False
  then have "0 < sum_list ps" using assms by (rule sum_list_pos)
  then show ?thesis using shares_normalize [OF assms] by (simp add: rescale_def Let_def)
qed (simp add: rescale_def)

lemma length_rescale [simp]: "length (rescale ps) = length ps"
  by (simp add: rescale_def Let_def)

lemma shares_rescale_remove: "shares ps \<Longrightarrow> shares (rescale (remove_at k ps))"
  by (rule shares_rescale) (use set_remove_at_subset in \<open>fastforce simp: shares_def\<close>)

section \<open>Attaching and detaching\<close>

lemma expect_set_parent_present [simp]:
  "contains_key t i \<Longrightarrow> expect_set_parent t i p = set_parent t i p"
  by (simp add: expect_set_parent_def)

definition attached_shares :: "real list \<Rightarrow> nat \<Rightarrow> real list" where
  "attached_shares ps k = insert_at (min k (length ps)) (1 / real (length ps + 1))
     (map (\<lambda>x. x * (1 - 1 / real (length ps + 1))) ps)"

lemma insert_child_at_eq:
  assumes "get_split t p = Some (l, cs, ps, m)" "contains_key t c" "length ps = length cs"
  shows "insert_child_at t p c k =
    set_parent (set_value t p (Split l (insert_at (min k (length cs)) c cs) (attached_shares ps k) m))
      c (Some p)"
  using assms by (simp add: insert_child_at_def Let_def attached_shares_def nodes_absent)

lemma insert_child_at_forest:
  assumes F: "forest D E t" and p: "get_split t p = Some (l, cs, ps, m)" and c: "c \<in> D"
    and nb: "\<not> below t p c"
  shows "forest (D - {c}) (E - {p}) (insert_child_at t p c k)"
    and "panicked (insert_child_at t p c k) = panicked t"
    and "contains_key (insert_child_at t p c k) i = contains_key t i"
    and "parent_of (insert_child_at t p c k) = (parent_of t)(c := Some p)"
    and "get_split (insert_child_at t p c k) =
          (get_split t)(p := Some (l, insert_at (min k (length cs)) c cs, attached_shares ps k, m))"
    and "tile_at (insert_child_at t p c k) = tile_at t"
proof -
  have len: "length ps = length cs" "shares ps" "distinct cs" by (rule forest_splitD [OF F p])+
  have cK: "contains_key t c" "parent_of t c = None" using forest_detached [OF F c] by auto
  have pK: "contains_key t p" using p by (rule get_split_contains)
  have ccs: "c \<notin> set cs" using forest_splitD(2) [OF F p] cK by auto
  note eq = insert_child_at_eq [OF p cK(1) len(1), of k]
  show par: "parent_of (insert_child_at t p c k) = (parent_of t)(c := Some p)"
    using cK by (auto simp: eq fun_eq_iff)
  show spl: "get_split (insert_child_at t p c k) =
          (get_split t)(p := Some (l, insert_at (min k (length cs)) c cs, attached_shares ps k, m))"
    using pK by (auto simp: eq fun_eq_iff)
  show con: "contains_key (insert_child_at t p c k) i = contains_key t i" for i by (simp add: eq)
  show "panicked (insert_child_at t p c k) = panicked t" by (simp add: eq)
  show "tile_at (insert_child_at t p c k) = tile_at t"
    using split_not_leaf [OF p] by (simp add: eq fun_eq_iff)
  have "shares (attached_shares ps k)"
    unfolding attached_shares_def by (rule shares_insert_even [OF len(2)])
  then have "aforest (tree_root t) (next_id t) (D - {c}) (E - {p}) (contains_key t)
      ((parent_of t)(c := Some p))
      ((get_split t)(p := Some (l, insert_at (min k (length cs)) c cs, attached_shares ps k, m)))"
    by (intro aforest_attach [OF F [unfolded forest_iff] p c nb])
      (use len ccs in \<open>simp_all add: attached_shares_def\<close>)
  then show "forest (D - {c}) (E - {p}) (insert_child_at t p c k)"
    unfolding forest_iff par spl con by (simp add: eq)
qed

lemma insert_child_eq:
  assumes "get_split t p = Some (l, cs, ps, m)"
  shows "insert_child t p c after = insert_child_at t p c
     (case Option.bind after (\<lambda>a. position a cs) of None \<Rightarrow> length cs | Some k \<Rightarrow> k + 1)"
  by (simp add: insert_child_def value_of_split [OF assms])

lemma remove_child_eq:
  assumes F: "forest D E t" and c: "parent_of t c = Some p" and p: "get_split t p = Some (l, cs, ps, m)"
  obtains k where "k < length cs" "cs ! k = c" "position c cs = Some k"
    "remove_child t p c = set_value t p (Split l (remove_at k cs) (rescale (remove_at k ps)) m)"
proof -
  obtain l' cs' ps' m' where "get_split t p = Some (l', cs', ps', m')" "c \<in> set cs'"
    using F c by (rule forest_parentD)
  then have "c \<in> set cs" using p by simp
  then obtain k where k: "position c cs = Some k" using position_ex by fast
  then have "k < length cs \<and> cs ! k = c" by (rule position_Some)
  moreover have "length ps = length cs" by (rule forest_splitD(3) [OF F p])
  ultimately show ?thesis using k p by (intro that [of k]) (simp_all add: remove_child_def)
qed

lemma detach_forest:
  assumes F: "forest D E t" and c: "parent_of t c = Some p"
  shows "forest (insert c D) (insert p E) (fst (detach_subtree_only t c))"
    and "snd (detach_subtree_only t c) = Some p"
    and "panicked (fst (detach_subtree_only t c)) = panicked t"
    and "contains_key (fst (detach_subtree_only t c)) i = contains_key t i"
    and "parent_of (fst (detach_subtree_only t c)) = (parent_of t)(c := None)"
    and "\<exists>l cs ps m k. get_split t p = Some (l, cs, ps, m) \<and> k < length cs \<and> cs ! k = c \<and>
          get_split (fst (detach_subtree_only t c)) =
            (get_split t)(p := Some (l, remove_at k cs, rescale (remove_at k ps), m))"
    and "tile_at (fst (detach_subtree_only t c)) = tile_at t"
proof -
  obtain l cs ps m where p: "get_split t p = Some (l, cs, ps, m)" using F c by (rule forest_parentD)
  obtain k where k: "k < length cs" "cs ! k = c" "position c cs = Some k"
    "remove_child t p c = set_value t p (Split l (remove_at k cs) (rescale (remove_at k ps)) m)"
    using F c p by (rule remove_child_eq)
  have cK: "contains_key t c" using c by (rule parent_of_contains)
  have pK: "contains_key t p" using p by (rule get_split_contains)
  have len: "length ps = length cs" "shares ps" "distinct cs" by (rule forest_splitD [OF F p])+
  have eq: "detach_subtree_only t c =
      (set_parent (set_value t p (Split l (remove_at k cs) (rescale (remove_at k ps)) m)) c None, Some p)"
    using c cK k(4) by (auto simp: detach_subtree_only_def Let_def nodes_absent)
  show "snd (detach_subtree_only t c) = Some p" by (simp add: eq)
  show "panicked (fst (detach_subtree_only t c)) = panicked t" by (simp add: eq)
  show con: "contains_key (fst (detach_subtree_only t c)) i = contains_key t i" for i
    by (simp add: eq)
  show par: "parent_of (fst (detach_subtree_only t c)) = (parent_of t)(c := None)"
    using cK by (auto simp: eq fun_eq_iff)
  have spl: "get_split (fst (detach_subtree_only t c)) =
      (get_split t)(p := Some (l, remove_at k cs, rescale (remove_at k ps), m))"
    using pK by (auto simp: eq fun_eq_iff)
  then show "\<exists>l cs ps m k. get_split t p = Some (l, cs, ps, m) \<and> k < length cs \<and> cs ! k = c \<and>
          get_split (fst (detach_subtree_only t c)) =
            (get_split t)(p := Some (l, remove_at k cs, rescale (remove_at k ps), m))"
    using p k by blast
  show "tile_at (fst (detach_subtree_only t c)) = tile_at t"
    using split_not_leaf [OF p] by (simp add: eq fun_eq_iff)
  have "aforest (tree_root t) (next_id t) (insert c D) (insert p E) (contains_key t)
      ((parent_of t)(c := None))
      ((get_split t)(p := Some (l, remove_at k cs, rescale (remove_at k ps), m)))"
    by (intro aforest_detach [OF F [unfolded forest_iff] p c])
      (use len k shares_rescale_remove in simp_all)
  then show "forest (insert c D) (insert p E) (fst (detach_subtree_only t c))"
    unfolding forest_iff par spl con by (simp add: eq)
qed

section \<open>Removing a node\<close>

lemma remove_node_absent: "\<not> contains_key t i \<Longrightarrow> remove_node t i = (t, None)"
  by (simp add: remove_node_def contains_key_def)

lemma remove_node_reads:
  assumes "contains_key t i"
  shows "nodes (fst (remove_node t i)) = (nodes t)(i := None)"
    "snd (remove_node t i) = nodes t i"
    "tree_root (fst (remove_node t i)) = tree_root t"
    "next_id (fst (remove_node t i)) = next_id t"
    "panicked (fst (remove_node t i)) = panicked t"
    "focus (fst (remove_node t i)) = focus t"
    "has_resident_root (fst (remove_node t i)) = has_resident_root t"
    "interactive_resize_st (fst (remove_node t i)) = interactive_resize_st t"
    "focus_history (fst (remove_node t i)) = retain_ne i (focus_history t)"
    "pending_modes (fst (remove_node t i)) = (pending_modes t)(i := None)"
  using assms by (auto simp: remove_node_def contains_key_def Let_def forget_side_tables_def forget_key_def)

lemma remove_node_structure:
  assumes "contains_key t i"
  shows "contains_key (fst (remove_node t i)) = (contains_key t)(i := False)"
    "parent_of (fst (remove_node t i)) = (parent_of t)(i := None)"
    "get_split (fst (remove_node t i)) = (get_split t)(i := None)"
    "tile_at (fst (remove_node t i)) = (tile_at t)(i := None)"
  by (auto simp: fun_eq_iff contains_key_def parent_of_def get_split_def tile_at_def value_of_def
      remove_node_reads [OF assms])

lemma remove_node_forest:
  assumes F: "forest D E t" and d: "d \<in> D"
    and no_child: "\<And>l cs ps m. get_split t d = Some (l, cs, ps, m) \<Longrightarrow> cs = []"
  shows "forest (D - {d}) (E - {d}) (fst (remove_node t d))"
proof -
  have d': "contains_key t d" "parent_of t d = None" using forest_detached [OF F d] by auto
  have "(parent_of t)(d := None) = parent_of t" using d'(2) by auto
  then show ?thesis
    using aforest_delete [OF F [unfolded forest_iff] d no_child]
    by (simp add: forest_iff remove_node_structure [OF d'(1)] remove_node_reads [OF d'(1)])
qed

text \<open>
  The source removes a leaf or an emptied split from the arena first and from its parent second;
  the two orders agree.
\<close>

lemma remove_node_set_value:
  "p \<noteq> i \<Longrightarrow> remove_node (set_value t p v) i =
     (set_value (fst (remove_node t i)) p v, snd (remove_node t i))"
  by (auto simp: remove_node_def set_value_def forget_side_tables_def Let_def fun_upd_twist
      split: option.splits)

lemma remove_node_set_parent:
  "contains_key t i \<Longrightarrow> fst (remove_node (set_parent t i q) i) = fst (remove_node t i)"
  by (auto simp: remove_node_def set_parent_def forget_side_tables_def Let_def contains_key_def)

lemma delete_child_eq:
  assumes F: "forest D E t" and c: "parent_of t c = Some p"
  shows "remove_child (fst (remove_node t c)) p c =
     fst (remove_node (fst (detach_subtree_only t c)) c)"
proof -
  obtain l cs ps m where p: "get_split t p = Some (l, cs, ps, m)" using F c by (rule forest_parentD)
  obtain k where k: "k < length cs" "cs ! k = c" "position c cs = Some k"
    "remove_child t p c = set_value t p (Split l (remove_at k cs) (rescale (remove_at k ps)) m)"
    using F c p by (rule remove_child_eq)
  have cK: "contains_key t c" using c by (rule parent_of_contains)
  have ne: "p \<noteq> c" using child_neq_parent [OF F c] by simp
  have len: "length ps = length cs" by (rule forest_splitD(3) [OF F p])
  have "get_split (fst (remove_node t c)) p = Some (l, cs, ps, m)"
    using p ne by (simp add: remove_node_structure [OF cK])
  then have "remove_child (fst (remove_node t c)) p c =
      set_value (fst (remove_node t c)) p (Split l (remove_at k cs) (rescale (remove_at k ps)) m)"
    using k len by (simp add: remove_child_def)
  moreover have "fst (detach_subtree_only t c) = set_parent (remove_child t p c) c None"
    using c cK k(4) by (simp add: detach_subtree_only_def Let_def nodes_absent)
  ultimately show ?thesis
    using k(4) cK ne by (simp add: remove_node_set_parent remove_node_set_value)
qed

lemma delete_child_forest:
  assumes F: "forest D E t" and c: "parent_of t c = Some p"
    and no_child: "\<forall>cs. children_of t c = Some cs \<longrightarrow> cs = []"
  defines "t' \<equiv> remove_child (fst (remove_node t c)) p c"
  shows "forest D (insert p (E - {c})) t'"
    "contains_key t' = (contains_key t)(c := False)"
    "parent_of t' = (parent_of t)(c := None)"
    "tile_at t' = (tile_at t)(c := None)"
    "panicked t' = panicked t"
    "\<exists>l cs ps m k. get_split t p = Some (l, cs, ps, m) \<and> k < length cs \<and> cs ! k = c \<and>
       get_split t' = (get_split t)(p := Some (l, remove_at k cs, rescale (remove_at k ps), m), c := None)"
    "strip t' = strip (fst (remove_node t c))" "next_id t' = next_id t"
proof -
  let ?d = "fst (detach_subtree_only t c)"
  note det = detach_forest [OF F c]
  have ne: "p \<noteq> c" using child_neq_parent [OF F c] by simp
  have cK: "contains_key t c" using c by (rule parent_of_contains)
  have cD: "c \<notin> D" using forest_detached [OF F] c by auto
  have eq: "t' = fst (remove_node ?d c)" unfolding t'_def by (rule delete_child_eq [OF F c])
  have K: "contains_key ?d c" using det(4) cK by simp
  note st = remove_node_structure [OF K] and rd = remove_node_reads [OF K]
  obtain l cs ps m k where s: "get_split t p = Some (l, cs, ps, m)" "k < length cs" "cs ! k = c"
    "get_split ?d = (get_split t)(p := Some (l, remove_at k cs, rescale (remove_at k ps), m))"
    using det(6) by blast
  have "forest (insert c D - {c}) (insert p E - {c}) t'"
    unfolding eq by (rule remove_node_forest [OF det(1)]) (use s(4) ne no_child in \<open>auto simp: children_of_def\<close>)
  then show "forest D (insert p (E - {c})) t'" using cD ne by (simp add: insert_Diff_if)
  show "contains_key t' = (contains_key t)(c := False)"
    using det(4) by (simp add: eq st fun_eq_iff)
  show "parent_of t' = (parent_of t)(c := None)" using det(5) by (simp add: eq st fun_eq_iff)
  show "tile_at t' = (tile_at t)(c := None)" using det(7) by (simp add: eq st)
  show "panicked t' = panicked t" using det(3) by (simp add: eq rd)
  show "\<exists>l cs ps m k. get_split t p = Some (l, cs, ps, m) \<and> k < length cs \<and> cs ! k = c \<and>
       get_split t' = (get_split t)(p := Some (l, remove_at k cs, rescale (remove_at k ps), m), c := None)"
    using s by (auto simp: eq st)
  show "strip t' = strip (fst (remove_node t c))" by (simp add: t'_def)
  have "next_id ?d = next_id t"
    by (simp add: detach_subtree_only_def remove_child_def Let_def panic_def split: option.splits)
  then show "next_id t' = next_id t" by (simp add: eq rd)
qed

section \<open>Relabelling a split\<close>

text \<open>
  Writes that keep a split's set of children: a new layout, new metadata, new shares, a new order.
\<close>

lemma set_value_reads:
  "contains_key (set_value t i v) = contains_key t" "parent_of (set_value t i v) = parent_of t"
  by (simp_all add: fun_eq_iff)

lemma relabel_forest:
  assumes F: "forest D E t" and p: "get_split t p = Some (l, cs, ps, m)"
    and "distinct cs'" "set cs' = set cs" "length ps' = length cs'" "shares ps'"
  shows "forest D E (set_value t p (Split l' cs' ps' m'))"
proof -
  have "contains_key t p" using p by (rule get_split_contains)
  then have "get_split (set_value t p (Split l' cs' ps' m')) = (get_split t)(p := Some (l', cs', ps', m'))"
    by (simp add: fun_eq_iff)
  then show ?thesis
    using aforest_relabel [OF F [unfolded forest_iff] p assms(3-6), of l' m']
    by (simp add: forest_iff set_value_reads)
qed

lemma relabel_tiles:
  "get_split t p = Some s \<Longrightarrow> tile_at (set_value t p (Split l' cs' ps' m')) = tile_at t"
  using split_not_leaf by (fastforce simp: fun_eq_iff)

end
