(* ===== verification/Walks.thy ===== *)
theory Walks
  imports Arena_Laws
begin

text \<open>
  The downward walks of the arena. On a well-formed arena \<open>collect_depth_first\<close> lists exactly
  the nodes at or below a node, each once; \<open>collect_leaf_ids\<close> lists its leaves; \<open>first_leaf_in\<close>
  finds a leaf exactly when there is one; and when no split is empty there always is one. The
  last sections read \<open>windows\<close> and \<open>node_for_window\<close> as the set of leaves.
\<close>

section \<open>Depth-first order\<close>

lemma relpow_child:
  assumes F: "forest D E t" and a: "get_split t a = Some (l, cs, ps, m)"
  shows "(i, a) \<in> up_edges (parent_of t) ^^ Suc n \<longleftrightarrow>
     (\<exists>c\<in>set cs. (i, c) \<in> up_edges (parent_of t) ^^ n)"
proof
  assume "(i, a) \<in> up_edges (parent_of t) ^^ Suc n"
  then obtain c where c: "(i, c) \<in> up_edges (parent_of t) ^^ n" "parent_of t c = Some a" by auto
  from F c(2) obtain l' cs' ps' m' where "get_split t a = Some (l', cs', ps', m')" "c \<in> set cs'"
    by (rule forest_parentD)
  then show "\<exists>c\<in>set cs. (i, c) \<in> up_edges (parent_of t) ^^ n" using a c(1) by auto
next
  assume "\<exists>c\<in>set cs. (i, c) \<in> up_edges (parent_of t) ^^ n"
  then obtain c where c: "c \<in> set cs" "(i, c) \<in> up_edges (parent_of t) ^^ n" by auto
  moreover have "(c, a) \<in> up_edges (parent_of t)" using forest_splitD(2) [OF F a c(1)] by simp
  ultimately show "(i, a) \<in> up_edges (parent_of t) ^^ Suc n" by auto
qed

lemma relpow_leaf:
  assumes F: "forest D E t" and a: "get_split t a = None"
  shows "(i, a) \<notin> up_edges (parent_of t) ^^ Suc n"
proof
  assume "(i, a) \<in> up_edges (parent_of t) ^^ Suc n"
  then obtain c where "parent_of t c = Some a" by auto
  with F obtain l cs ps m where "get_split t a = Some (l, cs, ps, m)" by (rule forest_parentD)
  with a show False by simp
qed

lemma relpow_less_Suc:
  "(\<exists>n<Suc k. (i, a) \<in> R ^^ n) \<longleftrightarrow> i = a \<or> (\<exists>n<k. (i, a) \<in> R ^^ Suc n)"
  using less_Suc_eq_0_disj by (auto simp: less_Suc_eq_0_disj simp del: relpow.simps(2))

lemma mem_collect_depth_first:
  assumes F: "forest D E t"
  shows "contains_key t a \<Longrightarrow> i \<in> set (collect_depth_first k t a) \<longleftrightarrow>
     (\<exists>n<k. (i, a) \<in> up_edges (parent_of t) ^^ n)"
proof (induction k arbitrary: a)
  case (Suc k)
  from Suc.prems show ?case
  proof (cases rule: node_cases)
    case (split l cs ps m)
    have "i \<in> set (collect_depth_first k t c) \<longleftrightarrow> (\<exists>n<k. (i, c) \<in> up_edges (parent_of t) ^^ n)"
      if "c \<in> set cs" for c
      using Suc.IH child_contains [OF F split(2) that] .
    then show ?thesis
      unfolding relpow_less_Suc relpow_child [OF F split(2)] using split(1) by auto
  next
    case (leaf w)
    then show ?thesis unfolding relpow_less_Suc using relpow_leaf [OF F leaf(2)] by auto
  qed
qed simp

lemma below_relpow:
  assumes F: "forest D E t"
  shows "below t i a \<longleftrightarrow> (\<exists>n<walk_fuel t. (i, a) \<in> up_edges (parent_of t) ^^ n)"
proof
  assume "below t i a"
  then obtain n where "n \<le> next_id t" "(i, a) \<in> up_edges (parent_of t) ^^ n"
    by (rule links.reach_relpow [OF arena_okI [OF F]])
  then show "\<exists>n<walk_fuel t. (i, a) \<in> up_edges (parent_of t) ^^ n"
    by (auto simp: walk_fuel_def intro!: exI [of _ n])
qed (auto intro: relpow_imp_rtrancl)

theorem set_collect_depth_first:
  assumes "forest D E t" "contains_key t a"
  shows "set (collect_depth_first (walk_fuel t) t a) = {i. below t i a}"
  using mem_collect_depth_first [OF assms] below_relpow [OF assms(1)] by auto

lemma collect_below:
  assumes "forest D E t" "contains_key t a" "i \<in> set (collect_depth_first k t a)"
  shows "below t i a"
  using assms mem_collect_depth_first [OF assms(1,2)] by (auto intro: relpow_imp_rtrancl)

lemma siblings_disjoint:
  assumes F: "forest D E t" and a: "get_split t a = Some (l, cs, ps, m)"
    and c: "c \<in> set cs" "d \<in> set cs" "c \<noteq> d" and i: "below t i c"
  shows "\<not> below t i d"
proof
  assume "below t i d"
  with i have "below t c d \<or> below t d c" by (rule below_total)
  then obtain x y where xy: "x \<in> set cs" "y \<in> set cs" "x \<noteq> y" "below t x y" using c by blast
  from xy(4) show False
  proof (cases rule: converse_rtranclE)
    case (step z)
    then have "z = a" using forest_splitD(2) [OF F a xy(1)] by simp
    then have "below t a y" using step by simp
    moreover have "parent_of t y = Some a" by (rule forest_splitD(2) [OF F a xy(2)])
    ultimately show False using links.no_self_loop [OF arena_okI [OF F]] by blast
  qed (use xy in simp)
qed

lemma distinct_concat_map:
  assumes "distinct xs" "\<And>x. x \<in> set xs \<Longrightarrow> distinct (f x)"
    and "\<And>x y. x \<in> set xs \<Longrightarrow> y \<in> set xs \<Longrightarrow> x \<noteq> y \<Longrightarrow> set (f x) \<inter> set (f y) = {}"
  shows "distinct (concat (map f xs))"
  using assms by (induction xs) auto

lemma distinct_collect:
  assumes F: "forest D E t"
  shows "contains_key t a \<Longrightarrow> distinct (collect_depth_first k t a)"
proof (induction k arbitrary: a)
  case (Suc k)
  from Suc.prems show ?case
  proof (cases rule: node_cases)
    case (split l cs ps m)
    have K: "contains_key t c" if "c \<in> set cs" for c using child_contains [OF F split(2) that] .
    have "distinct (concat (map (collect_depth_first k t) cs))"
    proof (rule distinct_concat_map)
      show "distinct cs" by (rule forest_splitD(1) [OF F split(2)])
      show "distinct (collect_depth_first k t c)" if "c \<in> set cs" for c using Suc.IH K that by blast
      show "set (collect_depth_first k t c) \<inter> set (collect_depth_first k t d) = {}"
        if "c \<in> set cs" "d \<in> set cs" "c \<noteq> d" for c d
        using siblings_disjoint [OF F split(2) that] collect_below [OF F K [OF that(1)]]
          collect_below [OF F K [OF that(2)]] by blast
    qed
    moreover have "a \<notin> set (collect_depth_first k t c)" if "c \<in> set cs" for c
      using collect_below [OF F K [OF that]] links.no_self_loop [OF arena_okI [OF F]]
        forest_splitD(2) [OF F split(2) that] by blast
    ultimately show ?thesis using split(1) by auto
  qed simp
qed simp

theorem iter_depth_first_all:
  assumes "forest {} E t"
  shows "set (iter_depth_first t) = {i. contains_key t i}" "distinct (iter_depth_first t)"
proof -
  have r: "contains_key t (tree_root t)"
    using assms by (rule forest_root_split) (rule get_split_contains)
  show "distinct (iter_depth_first t)"
    unfolding iter_depth_first_def by (rule distinct_collect [OF assms r])
  have "below t i (tree_root t) \<Longrightarrow> contains_key t i" for i
    using r by (metis converse_rtranclE parent_of_contains up_edges_iff)
  then show "set (iter_depth_first t) = {i. contains_key t i}"
    unfolding iter_depth_first_def set_collect_depth_first [OF assms r]
    using below_root [OF assms] by auto
qed

section \<open>Leaves\<close>

lemma collect_leaf_ids_filter:
  "collect_leaf_ids k t a = filter (\<lambda>i. tile_at t i \<noteq> None) (collect_depth_first k t a)"
proof (induction k arbitrary: a)
  case (Suc k)
  have eq: "collect_leaf_ids k t = (\<lambda>a. filter (\<lambda>i. tile_at t i \<noteq> None) (collect_depth_first k t a))"
    using Suc by (simp add: fun_eq_iff)
  show ?case
  proof (cases "contains_key t a")
    case True
    then show ?thesis by (cases rule: node_cases) (simp_all add: eq filter_concat comp_def)
  qed (simp add: value_of_absent [symmetric])
qed simp

theorem set_leaf_ids_in:
  assumes "forest D E t" "contains_key t a"
  shows "set (leaf_ids_in t a) = {i. is_leaf t i \<and> below t i a}" "distinct (leaf_ids_in t a)"
  using set_collect_depth_first [OF assms] distinct_collect [OF assms]
  by (auto simp: leaf_ids_in_def collect_leaf_ids_filter)

lemma find_map_concat:
  "find_map (\<lambda>x. case f x of [] \<Rightarrow> None | y # _ \<Rightarrow> Some y) xs =
     (case concat (map f xs) of [] \<Rightarrow> None | y # _ \<Rightarrow> Some y)"
proof (induction xs)
  case (Cons x xs)
  then show ?case by (cases "f x") simp_all
qed simp

lemma first_leaf_in_loop_eq:
  "first_leaf_in_loop k t a = (case collect_leaf_ids k t a of [] \<Rightarrow> None | i # _ \<Rightarrow> Some i)"
proof (induction k arbitrary: a)
  case (Suc k)
  have eq: "first_leaf_in_loop k t = (\<lambda>x. case collect_leaf_ids k t x of [] \<Rightarrow> None | y # _ \<Rightarrow> Some y)"
    using Suc by (simp add: fun_eq_iff)
  show ?case
    by (simp add: eq find_map_concat split: option.splits tree_node.splits)
qed simp

lemma first_leaf_in_eq:
  "first_leaf_in t a = (case leaf_ids_in t a of [] \<Rightarrow> None | i # _ \<Rightarrow> Some i)"
  by (simp add: first_leaf_in_def leaf_ids_in_def first_leaf_in_loop_eq)

lemma first_leaf_in_Some:
  assumes "forest D E t" "contains_key t a" "first_leaf_in t a = Some i"
  shows "is_leaf t i" "below t i a"
  using set_leaf_ids_in(1) [OF assms(1,2)] assms(3)
  by (auto simp: first_leaf_in_eq split: list.splits)

lemma first_leaf_in_None:
  assumes "forest D E t" "contains_key t a"
  shows "first_leaf_in t a = None \<longleftrightarrow> (\<forall>i. below t i a \<longrightarrow> tile_at t i = None)"
proof (cases "leaf_ids_in t a")
  case (Cons i xs)
  then have "is_leaf t i \<and> below t i a" using set_leaf_ids_in(1) [OF assms] by auto
  then show ?thesis using Cons by (auto simp: first_leaf_in_eq)
qed (use set_leaf_ids_in(1) [OF assms] in \<open>auto simp: first_leaf_in_eq\<close>)

text \<open>Below every node that is not an emptied split there is a leaf.\<close>

lemma leaf_below_aux:
  assumes F: "forest D E t" and E: "\<And>i. i \<in> E \<Longrightarrow> \<not> below t i a"
  shows "contains_key t a \<Longrightarrow> a \<noteq> tree_root t \<or> children_of t a \<noteq> Some [] \<Longrightarrow>
     \<exists>i. is_leaf t i \<and> below t i a"
  using E
proof (induction "next_id t - card {b. below t a b}" arbitrary: a rule: less_induct)
  case less
  have fin: "finite {b. below t a b}" if "contains_key t a" for a
  proof (rule finite_subset)
    show "{b. below t a b} \<subseteq> {..<next_id t}"
      using below_contains [OF _ that F] forest_bound [OF F] by auto
  qed simp
  from less.prems(1) show ?case
  proof (cases rule: node_cases)
    case (split l cs ps m)
    have "cs \<noteq> []"
    proof
      assume "cs = []"
      then have "a = tree_root t \<or> a \<in> E" using forest_empty [OF F] split(2) by blast
      moreover have "a \<notin> E" using less.prems(3) by blast
      moreover have "children_of t a = Some []" using split(2) \<open>cs = []\<close> by (simp add: children_of_def)
      ultimately show False using less.prems(2) by blast
    qed
    then obtain c where c: "c \<in> set cs" by (cases cs) auto
    have pc: "parent_of t c = Some a" by (rule forest_splitD(2) [OF F split(2) c])
    have cK: "contains_key t c" using pc by (rule parent_of_contains)
    have ca: "below t c a" using pc by (simp add: r_into_rtrancl)
    have sub: "{b. below t c b} = insert c {b. below t a b}"
      using pc by (auto elim: converse_rtranclE intro: converse_rtrancl_into_rtrancl)
    have "c \<notin> {b. below t a b}" using links.no_self_loop [OF arena_okI [OF F] pc] by simp
    then have card: "card {b. below t c b} = Suc (card {b. below t a b})"
      unfolding sub using fin [OF less.prems(1)] by simp
    have "card {b. below t c b} \<le> card {..<next_id t}"
      by (rule card_mono) (use below_contains [OF _ cK F] forest_bound [OF F] in auto)
    then have lt: "next_id t - card {b. below t c b} < next_id t - card {b. below t a b}"
      using card by simp
    have "c \<noteq> tree_root t" using pc forest_root_parent [OF F] by auto
    moreover have "\<not> below t i c" if "i \<in> E" for i
      using less.prems(3) [OF that] ca by (meson rtrancl_trans)
    ultimately obtain i where "is_leaf t i" "below t i c" using less.hyps [OF lt cK] by blast
    then show ?thesis using ca by (meson rtrancl_trans)
  qed auto
qed

lemma leaf_below:
  assumes "forest D {} t" "contains_key t a" "a \<noteq> tree_root t"
  obtains i where "is_leaf t i" "below t i a"
  using leaf_below_aux [OF assms(1) _ assms(2)] assms(3) by blast

definition leaves :: "tree \<Rightarrow> nid set" where
  "leaves t = {i. tile_at t i \<noteq> None}"

lemma no_leaves_iff:
  assumes F: "forest {} {} t"
  shows "leaves t = {} \<longleftrightarrow> children_of t (tree_root t) = Some []"
proof
  obtain l cs ps m where r: "get_split t (tree_root t) = Some (l, cs, ps, m)"
    using F by (rule forest_root_split)
  assume "leaves t = {}"
  then show "children_of t (tree_root t) = Some []"
    using leaf_below_aux [OF F, of "tree_root t"] get_split_contains [OF r] by (auto simp: leaves_def)
next
  assume c: "children_of t (tree_root t) = Some []"
  show "leaves t = {}"
  proof (rule ccontr)
    assume "leaves t \<noteq> {}"
    then obtain i where i: "tile_at t i \<noteq> None" by (auto simp: leaves_def)
    then have K: "contains_key t i" using tile_at_contains by blast
    have "below t i (tree_root t)" using F K by (rule below_root)
    then show False
    proof (cases rule: rtranclE)
      case base
      then show ?thesis using i c by (auto simp: children_of_def dest: split_not_leaf)
    next
      case (step y)
      then have "parent_of t y = Some (tree_root t)" by simp
      with F show ?thesis using c by (auto elim!: forest_parentD simp: children_of_def)
    qed
  qed
qed

section \<open>Windows\<close>

lemma windows_eq:
  "windows t = map (\<lambda>i. (i, window_id (the (tile_at t i))))
     (filter (\<lambda>i. tile_at t i \<noteq> None) (iter_depth_first t))"
  by (auto simp: windows_def map_filter_def intro!: map_cong filter_cong)

lemma windows_mem:
  assumes "forest {} E t"
  shows "(i, w) \<in> set (windows t) \<longleftrightarrow> (\<exists>x. tile_at t i = Some x \<and> window_id x = w)"
  using iter_depth_first_all(1) [OF assms] tile_at_contains [of t i]
  by (auto simp: windows_eq image_iff)

lemma windows_empty_iff:
  assumes "forest {} E t"
  shows "windows t = [] \<longleftrightarrow> leaves t = {}"
  using iter_depth_first_all(1) [OF assms] tile_at_contains [of t]
  by (fastforce simp: windows_eq leaves_def filter_empty_conv)

lemma node_for_window_Some:
  assumes "forest {} E t" "node_for_window t w = Some i"
  obtains x where "tile_at t i = Some x" "window_id x = w" "contains_key t i"
proof -
  from assms(2) obtain a b where p: "(a, b) \<in> set (windows t)" "a = i" "b = w"
    unfolding node_for_window_def by (auto elim!: find_map_SomeE split: if_splits)
  then have "(i, w) \<in> set (windows t)" by simp
  then show ?thesis using that windows_mem [OF assms(1)] tile_at_contains by blast
qed

lemma node_for_window_None:
  assumes "forest {} E t"
  shows "node_for_window t w = None \<longleftrightarrow> (\<forall>i x. tile_at t i = Some x \<longrightarrow> window_id x \<noteq> w)"
proof -
  have "node_for_window t w = None \<longleftrightarrow> (\<forall>i. (i, w) \<notin> set (windows t))"
    unfolding node_for_window_def by auto
  then show ?thesis using windows_mem [OF assms] by auto
qed

end
