(* ===== verification/Focus_Core.thy ===== *)
theory Focus_Core
  imports Walks
begin

text \<open>
  The focus stack and the pending modes: the operations every other component calls
  (\<^verbatim>\<open>set_focus_id\<close>, \<^verbatim>\<open>shown_child_in\<close>, \<^verbatim>\<open>focused_child_in\<close>, \<^verbatim>\<open>focused_leaf_in\<close> of \<^verbatim>\<open>focus.rs\<close>;
  \<^verbatim>\<open>set_pending_fullscreen\<close>, \<^verbatim>\<open>fullscreen_node\<close>, \<^verbatim>\<open>fullscreen_mode\<close> of \<^verbatim>\<open>fullscreen.rs\<close>;
  \<^verbatim>\<open>cancel_resize_for\<close> of \<^verbatim>\<open>configure.rs\<close>), and the invariant \<open>inv\<close> of the whole tree state with
  the parts an operation may break on its way.

  \<^verbatim>\<open>fullscreen_node\<close> takes the first fullscreen entry of a hash map; the model takes the one with
  the least identifier, which is the same node because the invariant allows only one.
\<close>

section \<open>Operations\<close>

definition fullscreen_mode :: "tree \<Rightarrow> nid \<Rightarrow> fullscreen_mode option" where
  "fullscreen_mode t i = Option.bind (pending_modes t i) pm_fullscreen"

definition fullscreen_node :: "tree \<Rightarrow> nid option" where
  "fullscreen_node t = List.find (\<lambda>i. fullscreen_mode t i \<noteq> None) [0..<next_id t]"

definition set_pending_fullscreen :: "tree \<Rightarrow> nid \<Rightarrow> fullscreen_mode option \<Rightarrow> tree" where
  "set_pending_fullscreen t i fs = (case pending_modes t i of
      Some mode \<Rightarrow> t\<lparr>pending_modes := (pending_modes t)(i \<mapsto> mode\<lparr>pm_fullscreen := fs\<rparr>)\<rparr>
    | None \<Rightarrow>
        (if fs \<noteq> None
         then t\<lparr>pending_modes := (pending_modes t)(i \<mapsto> pending_mode_default\<lparr>pm_fullscreen := fs\<rparr>)\<rparr>
         else t))"

definition cancel_resize_for :: "tree \<Rightarrow> nid \<Rightarrow> tree" where
  "cancel_resize_for t i = (case interactive_resize_st t of
      None \<Rightarrow> t
    | Some r \<Rightarrow>
        (if ir_target r = i \<or> list_ex (\<lambda>ax. ax_first ax = i \<or> ax_second ax = i) (ir_axes r)
         then t\<lparr>interactive_resize_st := None\<rparr> else t))"

fun ancestors_loop :: "nat \<Rightarrow> tree \<Rightarrow> nid option \<Rightarrow> nid list" where
  "ancestors_loop 0 t a = []"
| "ancestors_loop (Suc k) t a = (case a of
      None \<Rightarrow> []
    | Some p \<Rightarrow> (if p = tree_root t then [] else p # ancestors_loop k t (parent_of t p)))"

definition focus_ancestors :: "tree \<Rightarrow> nid \<Rightarrow> nid list" where
  "focus_ancestors t i = ancestors_loop (walk_fuel t) t (parent_of t i)"

definition set_focus_id :: "tree \<Rightarrow> nid option \<Rightarrow> tree" where
  "set_focus_id t f = (let u = t\<lparr>focus := f, ipc_focus_follows_history := False\<rparr> in
     case f of
       None \<Rightarrow> u
     | Some i \<Rightarrow>
         (let ancestors = focus_ancestors u i;
              history = filter (\<lambda>c. c \<noteq> i \<and> c \<notin> set ancestors) (focus_history u);
              (history', entered) = fold (\<lambda>a (h, e).
                  (a # h, if tile_at u i \<noteq> None then e(a \<mapsto> i) else e))
                ancestors (history, last_entered_by u)
          in u\<lparr>focus_history := i # history', last_entered_by := entered,
               ipc_stale_nodes := {c \<in> ipc_stale_nodes u. \<not> contains_node u c i}\<rparr>))"

definition focused_child_in :: "tree \<Rightarrow> nid \<Rightarrow> nid option" where
  "focused_child_in t p = (case children_of t p of
      None \<Rightarrow> None
    | Some cs \<Rightarrow>
        or_else (find_map (\<lambda>f. List.find (\<lambda>c. contains_node t c f) cs) (focus_history t))
          (vec_get cs 0))"

definition shown_child_in :: "tree \<Rightarrow> nid \<Rightarrow> nid option" where
  "shown_child_in t p = (case children_of t p of
      None \<Rightarrow> None
    | Some cs \<Rightarrow>
        or_else (Option.bind (focus t) (\<lambda>f. List.find (\<lambda>c. contains_node t c f) cs))
          (focused_child_in t p))"

definition focused_leaf_in :: "tree \<Rightarrow> nid \<Rightarrow> nid option" where
  "focused_leaf_in t i =
     or_else (List.find (\<lambda>c. tile_at t c \<noteq> None \<and> contains_node t i c) (focus_history t))
       (first_leaf_in t i)"

section \<open>The invariant\<close>

text \<open>
  \<open>side_ok\<close>: every identifier in a side table is in the arena, and the focus history has no
  duplicates. \<open>modes_ok\<close>: only leaves are maximized and at most one node is fullscreen.
  \<open>focus_in X\<close>: the focused node is in the arena, or is one of \<open>X\<close>, the nodes an operation has
  just removed. \<open>inv\<close>: a tree at rest.
\<close>

definition side_ok :: "tree \<Rightarrow> bool" where
  "side_ok t \<longleftrightarrow>
     distinct (focus_history t) \<and> (\<forall>i\<in>set (focus_history t). contains_key t i) \<and>
     (\<forall>i\<in>ipc_stale_nodes t. contains_key t i) \<and>
     (\<forall>i v. last_entered_by t i = Some v \<longrightarrow> contains_key t i \<and> contains_key t v) \<and>
     (\<forall>i m. pending_modes t i = Some m \<longrightarrow> contains_key t i) \<and>
     (\<forall>i\<in>mapped_under_fullscreen t. contains_key t i) \<and>
     (\<forall>i r. moved_under_fullscreen t i = Some r \<longrightarrow> contains_key t i) \<and>
     (\<forall>i\<in>fullscreen_layout_wrappers t. contains_key t i) \<and>
     (\<forall>i r. pre_layout_ipc_rects t i = Some r \<longrightarrow> contains_key t i) \<and>
     (\<forall>i\<in>tab_indicators t. contains_key t i) \<and>
     (\<forall>i v. tab_active t i = Some v \<longrightarrow> contains_key t i \<and> contains_key t v)"

definition modes_ok :: "tree \<Rightarrow> bool" where
  "modes_ok t \<longleftrightarrow>
     (\<forall>i m. pending_modes t i = Some m \<longrightarrow> pm_maximized m \<longrightarrow> is_leaf t i) \<and>
     (\<forall>i j. fullscreen_mode t i \<noteq> None \<longrightarrow> fullscreen_mode t j \<noteq> None \<longrightarrow> i = j)"

definition focus_in :: "nid set \<Rightarrow> tree \<Rightarrow> bool" where
  "focus_in X t \<longleftrightarrow> (\<forall>f. focus t = Some f \<longrightarrow> contains_key t f \<or> f \<in> X)"

definition wft :: "nid set \<Rightarrow> nid set \<Rightarrow> tree \<Rightarrow> bool" where
  "wft D E t \<longleftrightarrow> forest D E t \<and> side_ok t \<and> modes_ok t \<and> \<not> panicked t"

definition inv :: "tree \<Rightarrow> bool" where
  "inv t \<longleftrightarrow> wft {} {} t \<and> focus_in {} t \<and> (focus t = None \<longleftrightarrow> leaves t = {})"

text \<open>\<open>steady\<close>: the tile of every node and whether something is focused stay as they were.\<close>

definition steady :: "tree \<Rightarrow> tree \<Rightarrow> bool" where
  "steady t t' \<longleftrightarrow> tile_at t' = tile_at t \<and> tree_root t' = tree_root t \<and>
     (focus t' = None \<longleftrightarrow> focus t = None) \<and> next_id t \<le> next_id t'"

lemma steady_refl [simp]: "steady t t"
  by (simp add: steady_def)

lemma steady_trans [trans]: "steady t u \<Longrightarrow> steady u v \<Longrightarrow> steady t v"
  by (auto simp: steady_def)

lemma steadyD:
  assumes "steady t t'"
  shows "tile_at t' = tile_at t" "tree_root t' = tree_root t" "focus t' = None \<longleftrightarrow> focus t = None"
    "leaves t' = leaves t" "next_id t \<le> next_id t'"
  using assms by (auto simp: steady_def leaves_def)

lemma wfD:
  assumes "wft D E t"
  shows "forest D E t" "side_ok t" "modes_ok t" "\<not> panicked t"
  using assms by (auto simp: wft_def)

lemma invD:
  assumes "inv t"
  shows "wft {} {} t" "focus_in {} t" "focus t = None \<longleftrightarrow> leaves t = {}" "forest {} {} t"
    "side_ok t" "modes_ok t" "\<not> panicked t"
  using assms by (auto simp: inv_def wft_def)

lemma inv_step:
  assumes "inv t" "steady t t'" "wft {} {} t'" "focus_in {} t'"
  shows "inv t'"
  using assms steadyD [OF assms(2)] by (auto simp: inv_def)

lemma side_okD:
  assumes "side_ok t"
  shows "distinct (focus_history t)" "i \<in> set (focus_history t) \<Longrightarrow> contains_key t i"
    "pending_modes t i = Some m \<Longrightarrow> contains_key t i"
    "i \<in> ipc_stale_nodes t \<Longrightarrow> contains_key t i"
    "last_entered_by t i = Some v \<Longrightarrow> contains_key t i \<and> contains_key t v"
    "i \<in> mapped_under_fullscreen t \<Longrightarrow> contains_key t i"
    "moved_under_fullscreen t i = Some r \<Longrightarrow> contains_key t i"
    "i \<in> fullscreen_layout_wrappers t \<Longrightarrow> contains_key t i"
    "pre_layout_ipc_rects t i = Some r \<Longrightarrow> contains_key t i"
    "i \<in> tab_indicators t \<Longrightarrow> contains_key t i"
    "tab_active t i = Some v \<Longrightarrow> contains_key t i \<and> contains_key t v"
  using assms unfolding side_ok_def by blast+

lemma side_ok_cong:
  assumes S: "strip t' = strip t" and K: "\<And>i. contains_key t i \<Longrightarrow> contains_key t' i"
    and ok: "side_ok t"
  shows "side_ok t'"
  using ok K unfolding side_ok_def strip_fieldsD [OF S] by blast

lemma modes_ok_cong:
  assumes "pending_modes t' = pending_modes t" "\<And>i. is_leaf t i \<Longrightarrow> is_leaf t' i" "modes_ok t"
  shows "modes_ok t'"
  using assms unfolding modes_ok_def fullscreen_mode_def by metis

lemma modes_ok_leaf: "modes_ok t \<Longrightarrow> pending_modes t i = Some m \<Longrightarrow> pm_maximized m \<Longrightarrow> is_leaf t i"
  by (auto simp: modes_ok_def)

lemma modes_ok_unique:
  "modes_ok t \<Longrightarrow> fullscreen_mode t i = Some a \<Longrightarrow> fullscreen_mode t j = Some b \<Longrightarrow> i = j"
  unfolding modes_ok_def by blast

text \<open>An arena write that keeps the keys and the tiles keeps the rest of the invariant.\<close>

lemma wf_frame:
  assumes "wft D E t" "forest D' E' t'" "strip t' = strip t" "panicked t' = panicked t"
    and "\<And>i. contains_key t i \<Longrightarrow> contains_key t' i" "\<And>i. is_leaf t i \<Longrightarrow> is_leaf t' i"
  shows "wft D' E' t'"
  using assms side_ok_cong [OF assms(3)] modes_ok_cong [OF strip_fieldsD(6) [OF assms(3)] assms(6)]
  by (auto simp: wft_def)

lemma relabel_wft:
  assumes W: "wft D E t" and p: "get_split t p = Some (l, cs, ps, m)"
    and "distinct cs'" "set cs' = set cs" "length ps' = length cs'" "shares ps'"
  shows "wft D E (set_value t p (Split l' cs' ps' m'))"
  by (rule wf_frame [OF W relabel_forest [OF wfD(1) [OF W] p assms(3-6)]])
    (simp_all add: set_value_reads relabel_tiles [OF p])

lemma focus_in_frame:
  assumes "focus_in X t" "focus t' = focus t" "\<And>i. contains_key t i \<Longrightarrow> contains_key t' i"
  shows "focus_in X t'"
  using assms by (auto simp: focus_in_def)

lemma wf_log_call [simp]: "wft D E (log_call t c) \<longleftrightarrow> wft D E t"
proof -
  have "wft D E t'" if "wft D E t" "nodes t' = nodes t" "strip t' = strip t" "panicked t' = panicked t"
    "next_id t' = next_id t" for t t'
  proof (rule wf_frame [OF that(1) _ that(3,4)])
    show "forest D E t'" using wfD(1) [OF that(1)] forest_cong [OF that(2) strip_fieldsD(1) [OF that(3)] that(5)] by simp
  qed (use that(2) in \<open>simp_all add: contains_key_def tile_at_def value_of_def\<close>)
  note * = this
  show ?thesis using * [of t "log_call t c"] * [of "log_call t c" t] by auto
qed

lemma focus_in_log_call [simp]: "focus_in X (log_call t c) \<longleftrightarrow> focus_in X t"
  by (simp add: focus_in_def)

lemma tile_at_log_call [simp]: "tile_at (log_call t c) = tile_at t"
  by (simp add: fun_eq_iff tile_at_def value_of_def)

lemma steady_log_call [simp]: "steady t (log_call t c)"
  by (simp add: steady_def)

lemma inv_log_call [simp]: "inv (log_call t c) \<longleftrightarrow> inv t"
  by (simp add: inv_def leaves_def)

lemma calls_are_log:
  "request_window_sizes t = log_call t (RequestWindowSizes False False)"
  "request_window_sizes_with t a b = log_call t (RequestWindowSizes a b)"
  "animate_geometry_changes t s = log_call t (AnimateGeometryChanges s)"
  by (simp_all add: request_window_sizes_def request_window_sizes_with_def
      animate_geometry_changes_def)

section \<open>Reading the state after a focus change\<close>

lemma ancestors_loop_path:
  "ancestors_loop k t a =
     (case a of None \<Rightarrow> [] | Some p \<Rightarrow> takeWhile (\<lambda>x. x \<noteq> tree_root t) (up_path k (parent_of t) p))"
  by (induction k arbitrary: a) (auto split: option.splits)

lemma focus_ancestors_set:
  assumes F: "forest D E t"
  shows "set (focus_ancestors t i) = {a. (i, a) \<in> (up_edges (parent_of t))\<^sup>+ \<and> a \<noteq> tree_root t}"
proof (cases "parent_of t i")
  case (Some p)
  have up: "set (up_path (walk_fuel t) (parent_of t) p) = {a. below t p a}"
    by (rule links.up_path_set [OF arena_okI [OF F]]) (simp add: walk_fuel_def)
  have "y \<in> set (takeWhile (\<lambda>x. x \<noteq> tree_root t) (up_path k (parent_of t) q)) \<longleftrightarrow>
      y \<in> set (up_path k (parent_of t) q) \<and> y \<noteq> tree_root t" for y k q
    using forest_root_parent [OF F]
    by (induction k arbitrary: q) (auto split: option.splits if_splits)
  then have "set (focus_ancestors t i) = {a. below t p a \<and> a \<noteq> tree_root t}"
    using Some up by (auto simp: focus_ancestors_def ancestors_loop_path)
  moreover have "(i, a) \<in> (up_edges (parent_of t))\<^sup>+ \<longleftrightarrow> below t p a" for a
    using Some by (metis option.inject rtrancl_into_trancl2 tranclD up_edges_iff)
  ultimately show ?thesis by simp
next
  case None
  then have "(i, a) \<notin> (up_edges (parent_of t))\<^sup>+" for a by (auto dest: tranclD)
  with None show ?thesis by (simp add: focus_ancestors_def ancestors_loop_path)
qed

lemma focus_ancestors_distinct: "forest D E t \<Longrightarrow> distinct (focus_ancestors t i)"
  using links.up_path_distinct [OF arena_okI]
  by (auto simp: focus_ancestors_def ancestors_loop_path split: option.splits intro!: distinct_takeWhile)

lemma focus_ancestors_props:
  assumes F: "forest D E t" and a: "a \<in> set (focus_ancestors t i)"
  shows "a \<noteq> i" "contains_key t a" "below t i a" "a \<noteq> tree_root t"
proof -
  have tr: "(i, a) \<in> (up_edges (parent_of t))\<^sup>+" "a \<noteq> tree_root t"
    using a focus_ancestors_set [OF F] by auto
  then show "below t i a" "a \<noteq> tree_root t" by auto
  show "a \<noteq> i" using tr(1) forest_acyclic [OF F] by (auto simp: acyclic_def)
  from tr(1) obtain p where "parent_of t i = Some p" by (auto dest: tranclD)
  then have "contains_key t i" by (rule parent_of_contains)
  with \<open>below t i a\<close> show "contains_key t a" using F by (rule below_contains)
qed

lemma focus_ancestors_frame [simp]:
  "focus_ancestors (t\<lparr>focus := f, ipc_focus_follows_history := b\<rparr>) = focus_ancestors t"
proof -
  have "ancestors_loop k (t\<lparr>focus := f, ipc_focus_follows_history := b\<rparr>) a = ancestors_loop k t a" for k a
    by (induction k arbitrary: a) (auto simp: parent_of_def split: option.splits)
  then show ?thesis by (simp add: fun_eq_iff focus_ancestors_def walk_fuel_def parent_of_def)
qed

lemma fold_history:
  "fold (\<lambda>a (h, e). (a # h, if b then e(a \<mapsto> i) else e)) xs (h, e) =
     (rev xs @ h, \<lambda>x. if b \<and> x \<in> set xs then Some i else e x)"
  by (induction xs arbitrary: h e) (auto simp: fun_eq_iff)

lemma set_focus_id_None: "set_focus_id t None = t\<lparr>focus := None, ipc_focus_follows_history := False\<rparr>"
  by (simp add: set_focus_id_def)

lemma set_focus_id_Some:
  "set_focus_id t (Some i) = t\<lparr>focus := Some i, ipc_focus_follows_history := False,
     focus_history := i # rev (focus_ancestors t i) @
       filter (\<lambda>c. c \<noteq> i \<and> c \<notin> set (focus_ancestors t i)) (focus_history t),
     last_entered_by := (\<lambda>x. if tile_at t i \<noteq> None \<and> x \<in> set (focus_ancestors t i)
       then Some i else last_entered_by t x),
     ipc_stale_nodes := {c \<in> ipc_stale_nodes t. \<not> contains_node t c i}\<rparr>"
proof -
  let ?u = "t\<lparr>focus := Some i, ipc_focus_follows_history := False\<rparr>"
  have "tile_at ?u i = tile_at t i" by (simp add: tile_at_def value_of_def)
  moreover have "contains_node_loop k ?u c j = contains_node_loop k t c j" for k c j
    by (induction k arbitrary: j) (auto simp: parent_of_def split: option.splits)
  then have "contains_node ?u = contains_node t" by (simp add: fun_eq_iff contains_node_def walk_fuel_def)
  ultimately show ?thesis by (simp add: set_focus_id_def fold_history Let_def cong: if_cong)
qed

lemma set_focus_id_reads [simp, frame_simps]:
  "nodes (set_focus_id t f) = nodes t" "tree_root (set_focus_id t f) = tree_root t"
  "next_id (set_focus_id t f) = next_id t" "panicked (set_focus_id t f) = panicked t"
  "focus (set_focus_id t f) = f" "pending_modes (set_focus_id t f) = pending_modes t"
  "has_resident_root (set_focus_id t f) = has_resident_root t"
  "interactive_resize_st (set_focus_id t f) = interactive_resize_st t"
  "options_of (set_focus_id t f) = options_of t"
  by (cases f; simp add: set_focus_id_None set_focus_id_Some)+

lemma set_focus_id_structure [simp, frame_simps]:
  "contains_key (set_focus_id t f) = contains_key t" "parent_of (set_focus_id t f) = parent_of t"
  "get_split (set_focus_id t f) = get_split t" "tile_at (set_focus_id t f) = tile_at t"
  by (simp_all add: fun_eq_iff contains_key_def parent_of_def get_split_def tile_at_def value_of_def)

lemma forest_set_focus_id [simp]: "forest D E (set_focus_id t f) \<longleftrightarrow> forest D E t"
  by (rule forest_cong) simp_all

lemma leaves_set_focus_id [simp]: "leaves (set_focus_id t f) = leaves t"
  by (simp add: leaves_def)

lemma set_focus_id_history:
  assumes F: "forest D E t"
  shows "set (focus_history (set_focus_id t (Some i))) =
    insert i (set (focus_ancestors t i) \<union> set (focus_history t))"
  by (auto simp: set_focus_id_Some)

lemma side_ok_set_focus_id:
  assumes F: "forest D E t" and ok: "side_ok t" and f: "\<And>i. f = Some i \<Longrightarrow> contains_key t i"
  shows "side_ok (set_focus_id t f)"
proof (cases f)
  case None
  then show ?thesis using ok by (simp add: set_focus_id_None side_ok_def contains_key_def)
next
  case (Some i)
  then have i: "contains_key t i" using f by simp
  note anc = focus_ancestors_props [OF F, of _ i]
  have K: "contains_key (set_focus_id t f) = contains_key t" by simp
  have "distinct (focus_history (set_focus_id t f))"
    using Some side_okD(1) [OF ok] focus_ancestors_distinct [OF F, of i] anc(1)
    by (auto simp: set_focus_id_Some)
  moreover have "\<forall>j\<in>set (focus_history (set_focus_id t f)). contains_key t j"
    using Some i side_okD(2) [OF ok] anc(2) set_focus_id_history [OF F, of i] by auto
  moreover have "\<forall>j v. last_entered_by (set_focus_id t f) j = Some v \<longrightarrow> contains_key t j \<and> contains_key t v"
    using Some i side_okD(5) [OF ok] anc(2) by (auto simp: set_focus_id_Some split: if_splits)
  moreover have "\<forall>j\<in>ipc_stale_nodes (set_focus_id t f). contains_key t j"
    using Some side_okD(4) [OF ok] by (auto simp: set_focus_id_Some)
  ultimately show ?thesis
    using ok Some unfolding side_ok_def K by (simp add: set_focus_id_Some)
qed

lemma wf_set_focus_id:
  assumes "wft D E t" "\<And>i. f = Some i \<Longrightarrow> contains_key t i"
  shows "wft D E (set_focus_id t f)"
  using assms side_ok_set_focus_id [OF wfD(1,2) [OF assms(1)] assms(2)]
    modes_ok_cong [of "set_focus_id t f" t]
  by (auto simp: wft_def)

lemma focus_in_set_focus_id:
  "(\<And>i. f = Some i \<Longrightarrow> contains_key t i) \<Longrightarrow> focus_in X (set_focus_id t f)"
  by (auto simp: focus_in_def)

lemma steady_set_focus_id:
  "(f = None \<longleftrightarrow> focus t = None) \<Longrightarrow> steady t (set_focus_id t f)"
  by (simp add: steady_def)

lemma inv_set_focus_id:
  assumes "inv t" "contains_key t i" "focus t \<noteq> None"
  shows "inv (set_focus_id t (Some i))"
  using assms wf_set_focus_id [of "{}" "{}" t "Some i"] focus_in_set_focus_id [of "Some i" t "{}"]
  by (auto simp: inv_def)

section \<open>The focused leaf and the shown child\<close>

lemma focused_leaf_in_props:
  assumes F: "forest D E t" and i: "contains_key t i" and f: "focused_leaf_in t i = Some l"
  shows "is_leaf t l" "below t l i" "contains_key t l"
proof -
  have "is_leaf t l \<and> below t l i"
    using f unfolding focused_leaf_in_def
  proof (rule or_else_SomeE)
    assume "List.find (\<lambda>c. tile_at t c \<noteq> None \<and> contains_node t i c) (focus_history t) = Some l"
    then show ?thesis using contains_node_iff [OF F] by (auto dest: find_SomeD)
  next
    assume "first_leaf_in t i = Some l"
    then show ?thesis using first_leaf_in_Some [OF F i] by blast
  qed
  then show "is_leaf t l" "below t l i" "contains_key t l" using tile_at_contains by auto
qed

lemma focused_leaf_in_None:
  assumes "forest D E t" "contains_key t i" "focused_leaf_in t i = None"
  shows "\<not> (is_leaf t l \<and> below t l i)"
  using assms first_leaf_in_None [OF assms(1,2)] by (auto simp: focused_leaf_in_def)

lemma focused_leaf_in_ex:
  assumes "forest D {} t" "contains_key t i" "i \<noteq> tree_root t"
  obtains l where "focused_leaf_in t i = Some l"
  using leaf_below [OF assms] focused_leaf_in_None [OF assms(1,2)] by (metis option.exhaust)

lemma focused_leaf_in_root:
  assumes "forest {} E t"
  shows "focused_leaf_in t (tree_root t) = None \<longleftrightarrow> leaves t = {}"
proof -
  have r: "contains_key t (tree_root t)"
    using assms by (rule forest_root_split) (rule get_split_contains)
  show ?thesis
  proof
    assume "focused_leaf_in t (tree_root t) = None"
    then show "leaves t = {}"
      using focused_leaf_in_None [OF assms r] below_root [OF assms] tile_at_contains
      by (fastforce simp: leaves_def)
  next
    assume "leaves t = {}"
    then show "focused_leaf_in t (tree_root t) = None"
      using focused_leaf_in_props(1) [OF assms r]
      by (cases "focused_leaf_in t (tree_root t)") (auto simp: leaves_def)
  qed
qed

lemma focused_child_in_props:
  assumes "focused_child_in t p = Some c"
  shows "\<exists>cs. children_of t p = Some cs \<and> c \<in> set cs"
  using assms unfolding focused_child_in_def
  by (auto split: option.splits elim!: or_else_SomeE find_map_SomeE dest: find_SomeD)

lemma shown_child_in_props:
  assumes "shown_child_in t p = Some c"
  shows "\<exists>cs. children_of t p = Some cs \<and> c \<in> set cs"
  using assms focused_child_in_props [of t p c] unfolding shown_child_in_def
  by (auto split: option.splits Option.bind_splits elim!: or_else_SomeE dest: find_SomeD)

section \<open>Fullscreen\<close>

lemma fullscreen_node_Some:
  assumes "fullscreen_node t = Some i"
  shows "fullscreen_mode t i \<noteq> None"
  using assms find_SomeD unfolding fullscreen_node_def by fastforce

text \<open>The least fullscreen identifier is the only one: any iteration order finds the same node.\<close>

lemma fullscreen_node_unique:
  assumes "wft D E t"
  shows "fullscreen_node t = Some i \<longleftrightarrow> fullscreen_mode t i \<noteq> None"
proof
  assume i: "fullscreen_mode t i \<noteq> None"
  then obtain m where "pending_modes t i = Some m" by (auto simp: fullscreen_mode_def split: Option.bind_splits)
  then have "contains_key t i" using side_okD(3) [OF wfD(2) [OF assms]] by blast
  then have "i \<in> set [0..<next_id t]" using forest_bound [OF wfD(1) [OF assms]] by simp
  then obtain j where j: "fullscreen_node t = Some j"
    using i unfolding fullscreen_node_def by (metis (mono_tags, lifting) find_None_iff option.exhaust)
  then have "fullscreen_mode t j \<noteq> None" by (rule fullscreen_node_Some)
  with i modes_ok_unique [OF wfD(3) [OF assms]] j show "fullscreen_node t = Some i" by blast
qed (rule fullscreen_node_Some)

lemma fullscreen_node_contains:
  assumes "wft D E t" "fullscreen_node t = Some i"
  shows "contains_key t i"
  using fullscreen_node_Some [OF assms(2)] side_okD(3) [OF wfD(2) [OF assms(1)]]
  by (auto simp: fullscreen_mode_def split: Option.bind_splits)

lemma set_pending_fullscreen_reads [simp, frame_simps]:
  "nodes (set_pending_fullscreen t i m) = nodes t" "focus (set_pending_fullscreen t i m) = focus t"
  "tree_root (set_pending_fullscreen t i m) = tree_root t"
  "next_id (set_pending_fullscreen t i m) = next_id t"
  "panicked (set_pending_fullscreen t i m) = panicked t"
  "focus_history (set_pending_fullscreen t i m) = focus_history t"
  "has_resident_root (set_pending_fullscreen t i m) = has_resident_root t"
  "interactive_resize_st (set_pending_fullscreen t i m) = interactive_resize_st t"
  by (simp_all add: set_pending_fullscreen_def split: option.splits)

lemma set_pending_fullscreen_structure [simp, frame_simps]:
  "contains_key (set_pending_fullscreen t i m) = contains_key t"
  "parent_of (set_pending_fullscreen t i m) = parent_of t"
  "get_split (set_pending_fullscreen t i m) = get_split t"
  "tile_at (set_pending_fullscreen t i m) = tile_at t"
  by (simp_all add: fun_eq_iff contains_key_def parent_of_def get_split_def tile_at_def value_of_def)

lemma forest_set_pending [simp]: "forest D E (set_pending_fullscreen t i m) \<longleftrightarrow> forest D E t"
  by (rule forest_cong) simp_all

lemma fullscreen_mode_set_pending [simp]:
  "fullscreen_mode (set_pending_fullscreen t i m) = (fullscreen_mode t)(i := m)"
  by (auto simp: fun_eq_iff fullscreen_mode_def set_pending_fullscreen_def split: option.splits)

lemma side_ok_set_pending:
  "side_ok t \<Longrightarrow> contains_key t i \<Longrightarrow> side_ok (set_pending_fullscreen t i m)"
  by (cases "pending_modes t i")
    (auto simp: side_ok_def set_pending_fullscreen_def contains_key_def split: if_splits)

lemma modes_ok_set_pending:
  assumes "modes_ok t" "m = None \<or> (\<forall>j. j \<noteq> i \<longrightarrow> fullscreen_mode t j = None)"
  shows "modes_ok (set_pending_fullscreen t i m)"
proof -
  have "pm_maximized mode \<longrightarrow> is_leaf t j"
    if "pending_modes (set_pending_fullscreen t i m) j = Some mode" for j mode
    using that modes_ok_leaf [OF assms(1)]
    by (cases "pending_modes t i")
      (auto simp: set_pending_fullscreen_def pending_mode_default_def split: if_splits)
  moreover have "j = k"
    if "fullscreen_mode (set_pending_fullscreen t i m) j \<noteq> None"
      "fullscreen_mode (set_pending_fullscreen t i m) k \<noteq> None" for j k
    using assms(2)
  proof
    assume "m = None"
    with that have "fullscreen_mode t j \<noteq> None" "fullscreen_mode t k \<noteq> None" by (auto split: if_splits)
    then show ?thesis using modes_ok_unique [OF assms(1)] by blast
  next
    assume other: "\<forall>j. j \<noteq> i \<longrightarrow> fullscreen_mode t j = None"
    have "x = i" if "fullscreen_mode (set_pending_fullscreen t i m) x \<noteq> None" for x
      using that other by (cases "x = i") simp_all
    with that show ?thesis by blast
  qed
  ultimately show ?thesis
    unfolding modes_ok_def set_pending_fullscreen_structure by blast
qed

end
