(* ===== verification/Geometry.thy ===== *)
theory Geometry
  imports Focus_Core
begin

text \<open>
  The geometry pass (\<^verbatim>\<open>src/layout/tiling_tree/geometry.rs\<close> and the parts of \<^verbatim>\<open>configure.rs\<close> that
  feed it): from the tree and its options to the box, content, IPC rectangle, titlebar and
  borders of every node. Recursive passes carry the budget of the tree walks and receive
  themselves, one level lower, as an argument.
\<close>

section \<open>Data\<close>

record decorated_corners =
  top_left :: bool
  top_right :: bool
  bottom_right :: bool
  bottom_left :: bool

definition corners_ALL :: decorated_corners where
  "corners_ALL = \<lparr>top_left = True, top_right = True, bottom_right = True, bottom_left = True\<rparr>"

definition corners_NONE :: decorated_corners where
  "corners_NONE = \<lparr>top_left = False, top_right = False, bottom_right = False, bottom_left = False\<rparr>"

record titlebar =
  tb_target :: wid
  tb_rect :: rect
  tb_ipc_rect :: rect
  tb_title :: string
  tb_marks :: "string list"
  tb_visible :: bool

record geometry =
  leaf_boxes :: "nid \<Rightarrow> rect option"
  leaf_contents :: "nid \<Rightarrow> rect option"
  leaf_ipc_rects :: "nid \<Rightarrow> rect option"
  ipc_nodes :: "nid \<Rightarrow> rect option"
  tiled_ipc_nodes :: "nid \<Rightarrow> rect option"
  titlebars :: "nid \<Rightarrow> titlebar option"
  titlebar_leaves :: "nid \<Rightarrow> nid option"
  titlebar_attached :: "nid set"
  titlebar_owned_by_parent :: "nid set"
  border_edges_of :: "nid \<Rightarrow> resize_edge option"
  border_visible :: "nid set"
  border_corners :: "nid \<Rightarrow> decorated_corners option"
  titlebar_corners :: "nid \<Rightarrow> decorated_corners option"
  uncovered_top_borders :: "nid \<Rightarrow> rect list option"

definition geometry_default :: geometry where
  "geometry_default = \<lparr>leaf_boxes = (\<lambda>_. None), leaf_contents = (\<lambda>_. None),
     leaf_ipc_rects = (\<lambda>_. None), ipc_nodes = (\<lambda>_. None), tiled_ipc_nodes = (\<lambda>_. None),
     titlebars = (\<lambda>_. None), titlebar_leaves = (\<lambda>_. None), titlebar_attached = {},
     titlebar_owned_by_parent = {}, border_edges_of = (\<lambda>_. None), border_visible = {},
     border_corners = (\<lambda>_. None), titlebar_corners = (\<lambda>_. None),
     uncovered_top_borders = (\<lambda>_. None)\<rparr>"

record assign_context =
  cx_tree :: tree
  cx_gaps :: real
  cx_titlebar_height :: real
  cx_fullscreen :: "nid set"
  cx_mapped_under_fullscreen :: "nid set"
  cx_workspace_area :: rect
  cx_gaps_to_edge :: bool
  cx_hide_edge_borders :: hide_edge_borders
  cx_smart_borders :: smart_borders
  cx_only_visible_view :: bool
  cx_draw_uncovered_top_border :: bool

record assignment =
  as_id :: nid
  as_rect :: rect
  as_covering_titlebar :: "rect option"
  as_decorated_by_parent :: bool
  as_decorated_corners :: decorated_corners
  as_suppress_gaps :: bool
  as_ipc_origin :: "real \<times> real"

section \<open>Rectangles and shares\<close>

definition mk_rect :: "real \<Rightarrow> real \<Rightarrow> real \<Rightarrow> real \<Rightarrow> rect" where
  "mk_rect x y w h = \<lparr>loc_x = x, loc_y = y, size_w = w, size_h = h\<rparr>"

definition drop_titlebars :: "geometry \<Rightarrow> (nid \<Rightarrow> bool) \<Rightarrow> geometry" where
  "drop_titlebars g d = g\<lparr>
     titlebars := (\<lambda>i. if d i then None else titlebars g i),
     titlebar_leaves := (\<lambda>i. if d i then None else titlebar_leaves g i),
     titlebar_attached := {i \<in> titlebar_attached g. \<not> d i},
     titlebar_owned_by_parent := {i \<in> titlebar_owned_by_parent g. \<not> d i}\<rparr>"

definition is_strip_entry :: "tree \<Rightarrow> nid \<Rightarrow> bool" where
  "is_strip_entry t i = (case parent_of t i of
      None \<Rightarrow> False
    | Some p \<Rightarrow> (case layout_of t p of Some l \<Rightarrow> strip_layout l | None \<Rightarrow> False))"

fun subtree_has_visible_leaf :: "nat \<Rightarrow> tree \<Rightarrow> nid \<Rightarrow> nid set \<Rightarrow> bool" where
  "subtree_has_visible_leaf 0 t i visible = False"
| "subtree_has_visible_leaf (Suc k) t i visible = (case value_of t i of
      Some (Leaf w) \<Rightarrow> i \<in> visible
    | Some (Split l cs ps m) \<Rightarrow> list_ex (\<lambda>c. subtree_has_visible_leaf k t c visible) cs
    | None \<Rightarrow> False)"

definition apply_struts :: "(real \<Rightarrow> real \<Rightarrow> real) \<Rightarrow> rect \<Rightarrow> real \<Rightarrow> struts \<Rightarrow> rect" where
  "apply_struts snap area sc st =
     (let w = max (size_w area - strut_left st - strut_right st) 0;
          x = loc_x area + strut_left st;
          h = max (size_h area - strut_top st - strut_bottom st) 0;
          y = loc_y area + strut_top st;
          lx = snap sc x;
          ly = snap sc y;
          dw = min w (max (lx - x) 0);
          dh = min h (max (ly - y) 0)
      in mk_rect lx ly (max (w - dw) 0) (max (h - dh) 0))"

definition working_area :: "tree \<Rightarrow> rect" where
  "working_area t = apply_struts (phys_ceil t) (parent_area t) (scale t) (opt_struts (options_of t))"

definition visible_shares :: "nid set \<Rightarrow> nid list \<Rightarrow> real list \<Rightarrow> real list" where
  "visible_shares mapped cs ps =
     (if mapped = {} then ps
      else let visible_total = sum_list (map snd (filter (\<lambda>(c, p). c \<notin> mapped) (zip cs ps)))
           in map (\<lambda>(c, p). if c \<in> mapped then 0 else p / visible_total) (zip cs ps))"

definition child_corners ::
  "decorated_corners \<Rightarrow> nat \<Rightarrow> nat \<Rightarrow> layout \<Rightarrow> bool \<Rightarrow> decorated_corners" where
  "child_corners parent_corners index len l suppress =
     (if \<not> suppress then corners_ALL
      else let is_first = (index = 0); is_last = (index + 1 = len) in
        if l = SplitH
        then parent_corners\<lparr>top_left := top_left parent_corners \<and> is_first,
               bottom_left := bottom_left parent_corners \<and> is_first,
               top_right := top_right parent_corners \<and> is_last,
               bottom_right := bottom_right parent_corners \<and> is_last\<rparr>
        else parent_corners\<lparr>top_left := top_left parent_corners \<and> is_first,
               top_right := top_right parent_corners \<and> is_first,
               bottom_left := bottom_left parent_corners \<and> is_last,
               bottom_right := bottom_right parent_corners \<and> is_last\<rparr>)"

text \<open>\<^verbatim>\<open>axis_extent\<close> is unreachable on tabbed and stacked layouts; the model answers the height.\<close>

definition axis_extent :: "layout \<Rightarrow> rect \<Rightarrow> real" where
  "axis_extent l r = (if l = SplitH then size_w r else size_h r)"

definition MIN_SANE_W :: real where "MIN_SANE_W = 100"
definition MIN_SANE_H :: real where "MIN_SANE_H = 60"

definition split_gap :: "real \<Rightarrow> real \<Rightarrow> nat \<Rightarrow> real \<Rightarrow> real" where
  "split_gap requested extent n minimum =
     (let separators = n - 1 in
      if separators = 0 then 0
      else let total = min (requested * real separators) (max (extent - minimum * real n) 0)
           in real_of_int \<lfloor>total / real separators\<rfloor>)"

definition subtract_horizontal :: "rect \<Rightarrow> rect option \<Rightarrow> rect list" where
  "subtract_horizontal r covered = (case covered of
      None \<Rightarrow> [r]
    | Some c \<Rightarrow>
        (let covered_left = max (loc_x c) (loc_x r);
             covered_right = min (loc_x c + size_w c) (loc_x r + size_w r)
         in if covered_left \<ge> covered_right then [r]
            else let left = covered_left - loc_x r;
                     right = loc_x r + size_w r - covered_right
                 in filter (\<lambda>part. size_w part > 0)
                      [mk_rect (loc_x r) (loc_y r) left (size_h r),
                       mk_rect covered_right (loc_y r) right (size_h r)]))"

definition content_rect :: "rect \<Rightarrow> resize_edge \<Rightarrow> real \<Rightarrow> real \<Rightarrow> rect" where
  "content_rect r edges width tp =
     (let left = (if LEFT \<in> edges then width else 0);
          right = (if RIGHT \<in> edges then width else 0);
          bottom = (if BOTTOM \<in> edges then width else 0)
      in mk_rect (loc_x r + left) (loc_y r + tp)
           (max (size_w r - left - right) 0) (max (size_h r - tp - bottom) 0))"

definition border_edges :: "assign_context \<Rightarrow> rect \<Rightarrow> resize_edge" where
  "border_edges cx r =
     (let area = cx_workspace_area cx;
          hide = cx_hide_edge_borders cx;
          vertical = (hide = HebVertical \<or> hide = HebBoth);
          horizontal = (hide = HebHorizontal \<or> hide = HebBoth);
          edges = {e. e = LEFT \<and> (vertical \<longrightarrow> loc_x r \<noteq> loc_x area) \<or>
                      e = RIGHT \<and> (vertical \<longrightarrow> loc_x r + size_w r \<noteq> loc_x area + size_w area) \<or>
                      e = TOP \<and> (horizontal \<longrightarrow> loc_y r \<noteq> loc_y area) \<or>
                      e = BOTTOM \<and> (horizontal \<longrightarrow> loc_y r + size_h r \<noteq> loc_y area + size_h area)};
          smart = (cx_smart_borders cx = SbOn \<or> cx_smart_borders cx = SbNoGaps \<and> \<not> cx_gaps_to_edge cx)
      in if smart \<and> cx_only_visible_view cx then {} else edges)"

section \<open>Titles\<close>

fun starts_with :: "string \<Rightarrow> string \<Rightarrow> bool" where
  "starts_with [] s = True"
| "starts_with (c # cs) [] = False"
| "starts_with (c # cs) (d # ds) = (c = d \<and> starts_with cs ds)"

function str_replace :: "string \<Rightarrow> string \<Rightarrow> string \<Rightarrow> string" where
  "str_replace pat rep s =
     (if s = [] then []
      else if pat \<noteq> [] \<and> starts_with pat s then rep @ str_replace pat rep (drop (length pat) s)
      else hd s # str_replace pat rep (tl s))"
  by pat_completeness auto
termination
proof (relation "measure (\<lambda>(pat, rep, s). length s)")
  show "((pat, rep, drop (length pat) s), pat, rep, s) \<in> measure (\<lambda>(pat, rep, s). length s)"
    if "s \<noteq> []" "pat \<noteq> [] \<and> starts_with pat s" for pat rep s :: string
    using that by (cases s; cases pat) simp_all
  show "((pat, rep, tl s), pat, rep, s) \<in> measure (\<lambda>(pat, rep, s). length s)"
    if "s \<noteq> []" for pat rep s :: string
    using that by (cases s) simp_all
qed simp

declare str_replace.simps [simp del]

definition format_representation :: "string option \<Rightarrow> string \<Rightarrow> string" where
  "format_representation fmt repr = (case fmt of
      None \<Rightarrow> repr
    | Some f \<Rightarrow> (if f = ''%title'' then repr else str_replace ''%title'' repr f))"

fun join_words :: "string list \<Rightarrow> string" where
  "join_words [] = []"
| "join_words [x] = x"
| "join_words (x # y # xs) = x @ '' '' @ join_words (y # xs)"

definition layout_prefix :: "layout \<Rightarrow> string" where
  "layout_prefix l = (case l of SplitH \<Rightarrow> ''H'' | SplitV \<Rightarrow> ''V'' | Tabbed \<Rightarrow> ''T'' | Stacked \<Rightarrow> ''S'')"

fun tree_representation :: "nat \<Rightarrow> tree \<Rightarrow> layout \<Rightarrow> nid list \<Rightarrow> string" where
  "tree_representation 0 t l cs = []"
| "tree_representation (Suc k) t l cs =
     layout_prefix l @ ''['' @
       join_words (List.map_filter (\<lambda>c. case value_of t c of
           None \<Rightarrow> None
         | Some (Leaf w) \<Rightarrow> Some (win_title w)
         | Some (Split l' cs' ps' m') \<Rightarrow>
             Some (format_representation (title_format m') (tree_representation k t l' cs'))) cs)
     @ '']''"

fun first_window :: "nat \<Rightarrow> tree \<Rightarrow> nid \<Rightarrow> (nid \<times> wid \<times> string) option" where
  "first_window 0 t i = None"
| "first_window (Suc k) t i = (case value_of t i of
      None \<Rightarrow> None
    | Some (Leaf w) \<Rightarrow> Some (i, window_id w, win_title w)
    | Some (Split l cs ps m) \<Rightarrow> (case cs of
        [] \<Rightarrow> None
      | c # _ \<Rightarrow> (case first_window k t c of
          None \<Rightarrow> None
        | Some (leaf, target, _) \<Rightarrow>
            Some (leaf, target,
              format_representation (title_format m) (tree_representation (walk_fuel t) t l cs)))))"

section \<open>Assigning boxes\<close>

definition record_uncovered_top_border ::
  "nid \<Rightarrow> rect \<Rightarrow> real \<Rightarrow> rect option \<Rightarrow> geometry \<Rightarrow> geometry" where
  "record_uncovered_top_border i r width covering g =
     (let tp = mk_rect (loc_x r) (loc_y r - width) (size_w r) width;
          uncovered = subtract_horizontal tp covering
      in if uncovered = [] then g
         else g\<lparr>uncovered_top_borders := (uncovered_top_borders g)(i \<mapsto> uncovered)\<rparr>)"

definition emit_leaf_titlebar ::
  "assign_context \<Rightarrow> tile \<Rightarrow> nid \<Rightarrow> rect \<Rightarrow> decorated_corners \<Rightarrow> real \<times> real \<Rightarrow> geometry \<Rightarrow> geometry" where
  "emit_leaf_titlebar cx w i r corners origin g =
     (let h = cx_titlebar_height cx;
          tr = mk_rect (loc_x r) (loc_y r) (size_w r) h
      in g\<lparr>titlebar_leaves := (titlebar_leaves g)(i \<mapsto> i),
           titlebar_corners := (titlebar_corners g)(i \<mapsto>
             corners_NONE\<lparr>top_left := top_left corners, top_right := top_right corners\<rparr>),
           titlebars := (titlebars g)(i \<mapsto>
             \<lparr>tb_target = window_id w, tb_rect = tr,
              tb_ipc_rect = mk_rect (loc_x tr - fst origin) (loc_y tr - snd origin) (size_w tr) (size_h tr),
              tb_title = win_title w, tb_marks = win_marks w, tb_visible = True\<rparr>),
           titlebar_attached := insert i (titlebar_attached g)\<rparr>)"

definition assign_leaf :: "assign_context \<Rightarrow> tile \<Rightarrow> assignment \<Rightarrow> geometry \<Rightarrow> geometry" where
  "assign_leaf cx w a g =
     (let i = as_id a; r = as_rect a; th = cx_titlebar_height cx;
          edges = border_edges cx r;
          g1 = g\<lparr>border_edges_of := (border_edges_of g)(i \<mapsto> edges),
                 leaf_boxes := (leaf_boxes g)(i \<mapsto> r)\<rparr>;
          g2 = (if as_decorated_by_parent a
                then g1\<lparr>titlebar_attached := insert i (titlebar_attached g1),
                        titlebar_owned_by_parent := insert i (titlebar_owned_by_parent g1)\<rparr>
                else g1);
          has_titlebar = (\<not> as_decorated_by_parent a \<and> i \<notin> cx_fullscreen cx \<and> has_sway_titlebar w);
          g3 = (if has_titlebar
                then emit_leaf_titlebar cx w i r (as_decorated_corners a) (as_ipc_origin a) g2 else g2);
          bc = (if has_titlebar
                then (as_decorated_corners a)\<lparr>top_left := False, top_right := False\<rparr>
                else as_decorated_corners a);
          ipc_rect = (if has_titlebar
                then r\<lparr>loc_y := loc_y r + th, size_h := max (size_h r - th) 0\<rparr> else r);
          g4 = g3\<lparr>border_corners := (border_corners g3)(i \<mapsto> bc),
                  leaf_ipc_rects := (leaf_ipc_rects g3)(i \<mapsto> ipc_rect)\<rparr>;
          width = configured_border_width w;
          g5 = (if cx_draw_uncovered_top_border cx \<and> as_decorated_by_parent a \<and> TOP \<in> edges \<and> width > 0
                then record_uncovered_top_border i r width (as_covering_titlebar a) g4 else g4);
          tp = (if has_titlebar then th
                 else if as_decorated_by_parent a then 0
                 else if TOP \<in> edges then width else 0)
      in g5\<lparr>leaf_contents := (leaf_contents g5)(i \<mapsto> content_rect r edges width tp)\<rparr>)"

fun linear_loop ::
  "(assignment \<Rightarrow> geometry \<Rightarrow> geometry) \<Rightarrow> layout \<Rightarrow> assignment \<Rightarrow> nat \<Rightarrow> real \<Rightarrow> real \<Rightarrow>
     (nid \<times> real) list \<Rightarrow> nat \<Rightarrow> real \<Rightarrow> geometry \<Rightarrow> geometry" where
  "linear_loop rec l a len available gap [] index cursor g = g"
| "linear_loop rec l a len available gap ((c, percent) # rest) index cursor g =
     (let r = as_rect a;
          extent = max available 0 * percent;
          child_rect = (if l = SplitH then mk_rect cursor (loc_y r) extent (size_h r)
                        else mk_rect (loc_x r) cursor (size_w r) extent);
          g' = rec \<lparr>as_id = c, as_rect = child_rect, as_covering_titlebar = None,
                    as_decorated_by_parent = False,
                    as_decorated_corners =
                      child_corners (as_decorated_corners a) index len l (as_suppress_gaps a),
                    as_suppress_gaps = as_suppress_gaps a,
                    as_ipc_origin = (loc_x r, loc_y r)\<rparr> g
      in linear_loop rec l a len available gap rest (index + 1) (cursor + (extent + gap)) g')"

definition linear_gap :: "assign_context \<Rightarrow> layout \<Rightarrow> nat \<Rightarrow> assignment \<Rightarrow> real" where
  "linear_gap cx l n a =
     (if as_suppress_gaps a then 0
      else split_gap (cx_gaps cx) (axis_extent l (as_rect a)) n
             (if l = SplitH then MIN_SANE_W else MIN_SANE_H))"

definition assign_linear_split ::
  "(assignment \<Rightarrow> geometry \<Rightarrow> geometry) \<Rightarrow> assign_context \<Rightarrow> layout \<Rightarrow> nid list \<Rightarrow> real list \<Rightarrow>
     assignment \<Rightarrow> geometry \<Rightarrow> geometry" where
  "assign_linear_split rec cx l cs ps a g =
     (let r = as_rect a;
          extent = axis_extent l r;
          gap = linear_gap cx l (length cs) a;
          available = extent - gap * real (length cs - 1);
          cursor = (if l = SplitH then loc_x r else loc_y r);
          shs = visible_shares (cx_mapped_under_fullscreen cx) cs ps
      in linear_loop rec l a (length cs) available gap (zip cs shs) 0 cursor g)"

definition strip_title_rect :: "real \<Rightarrow> layout \<Rightarrow> rect \<Rightarrow> nat \<Rightarrow> nat \<Rightarrow> rect" where
  "strip_title_rect th l r index count =
     (if l = Tabbed
      then let width = size_w r / real (max count 1)
           in mk_rect (loc_x r + width * real index) (loc_y r) width th
      else mk_rect (loc_x r) (loc_y r + th * real index) (size_w r) th)"

definition emit_strip_titlebar ::
  "assign_context \<Rightarrow> layout \<Rightarrow> rect \<Rightarrow> nid \<Rightarrow> nat \<Rightarrow> nat \<Rightarrow> nid \<times> wid \<times> string \<Rightarrow>
     decorated_corners \<Rightarrow> geometry \<Rightarrow> geometry" where
  "emit_strip_titlebar cx l r child index count entry corners g =
     (case entry of (leaf, target, title) \<Rightarrow>
       (let tr = strip_title_rect (cx_titlebar_height cx) l r index count;
            tc = (if l = Tabbed
                  then corners_NONE\<lparr>top_left := index = 0 \<and> top_left corners,
                         top_right := index + 1 = count \<and> top_right corners\<rparr>
                  else if index = 0
                  then corners_NONE\<lparr>top_left := top_left corners, top_right := top_right corners\<rparr>
                  else corners_NONE)
        in g\<lparr>titlebar_leaves := (titlebar_leaves g)(child \<mapsto> leaf),
             titlebar_corners := (titlebar_corners g)(child \<mapsto> tc),
             titlebars := (titlebars g)(child \<mapsto>
               \<lparr>tb_target = target, tb_rect = tr,
                tb_ipc_rect = mk_rect (loc_x tr - loc_x r) (loc_y tr - loc_y r) (size_w tr) (size_h tr),
                tb_title = title,
                tb_marks = (case tile_at (cx_tree cx) leaf of Some w \<Rightarrow> win_marks w | None \<Rightarrow> []),
                tb_visible = True\<rparr>)\<rparr>))"

definition strip_content :: "real \<Rightarrow> layout \<Rightarrow> nat \<Rightarrow> rect \<Rightarrow> rect" where
  "strip_content th l count r =
     (let total = (if l = Stacked then th * real count else th)
      in r\<lparr>loc_y := loc_y r + total, size_h := max (size_h r - total) 0\<rparr>)"

fun strip_loop ::
  "(assignment \<Rightarrow> geometry \<Rightarrow> geometry) \<Rightarrow> assign_context \<Rightarrow> layout \<Rightarrow> rect \<Rightarrow> decorated_corners \<Rightarrow>
     nat \<Rightarrow> nid list \<Rightarrow> nat \<Rightarrow> geometry \<Rightarrow> geometry" where
  "strip_loop rec cx l r corners count [] index g = g"
| "strip_loop rec cx l r corners count (c # cs) index g =
     (let g1 = (case first_window (walk_fuel (cx_tree cx)) (cx_tree cx) c of
                  Some entry \<Rightarrow> emit_strip_titlebar cx l r c index count entry corners g
                | None \<Rightarrow> g);
          g2 = rec \<lparr>as_id = c, as_rect = strip_content (cx_titlebar_height cx) l count r,
                    as_covering_titlebar = map_option tb_rect (titlebars g1 c),
                    as_decorated_by_parent = True,
                    as_decorated_corners = corners_NONE\<lparr>bottom_left := bottom_left corners,
                      bottom_right := bottom_right corners\<rparr>,
                    as_suppress_gaps = True,
                    as_ipc_origin = (loc_x r, loc_y r)\<rparr> g1
      in strip_loop rec cx l r corners count cs (index + 1) g2)"

definition assign_strip ::
  "(assignment \<Rightarrow> geometry \<Rightarrow> geometry) \<Rightarrow> assign_context \<Rightarrow> layout \<Rightarrow> nid list \<Rightarrow> rect \<Rightarrow>
     decorated_corners \<Rightarrow> geometry \<Rightarrow> geometry" where
  "assign_strip rec cx l cs r corners g = strip_loop rec cx l r corners (length cs) cs 0 g"

fun assign :: "nat \<Rightarrow> assign_context \<Rightarrow> assignment \<Rightarrow> geometry \<Rightarrow> geometry" where
  "assign 0 cx a g = g"
| "assign (Suc k) cx a g = (case value_of (cx_tree cx) (as_id a) of
      None \<Rightarrow> g
    | Some v \<Rightarrow>
        (let g1 = g\<lparr>ipc_nodes := (ipc_nodes g)(as_id a \<mapsto> as_rect a)\<rparr> in
         case v of
           Leaf w \<Rightarrow> assign_leaf cx w a g1
         | Split l cs ps m \<Rightarrow>
             (if linear l then assign_linear_split (assign k cx) cx l cs ps a g1
              else assign_strip (assign k cx) cx l cs (as_rect a) (as_decorated_corners a) g1)))"

section \<open>The pass\<close>

fun collect_visible :: "nat \<Rightarrow> tree \<Rightarrow> nid \<Rightarrow> nid list" where
  "collect_visible 0 t i = []"
| "collect_visible (Suc k) t i = (case value_of t i of
      None \<Rightarrow> []
    | Some (Leaf w) \<Rightarrow> [i]
    | Some (Split l cs ps m) \<Rightarrow>
        (if strip_layout l
         then (case shown_child_in t i of Some c \<Rightarrow> collect_visible k t c | None \<Rightarrow> [])
         else concat (map (collect_visible k t) cs)))"

definition visible_leaves :: "tree \<Rightarrow> nid set" where
  "visible_leaves t = set (collect_visible (walk_fuel t) t
     (case fullscreen_node t of Some f \<Rightarrow> f | None \<Rightarrow> tree_root t))"

text \<open>The keys of a table, among the identifiers handed out so far.\<close>

definition table_keys :: "tree \<Rightarrow> (nid \<Rightarrow> 'a option) \<Rightarrow> nid set" where
  "table_keys t m = set (filter (\<lambda>i. m i \<noteq> None) [0..<next_id t])"

definition split_excluded :: "tree \<Rightarrow> nid set" where
  "split_excluded t =
     (let arrived = (if fullscreen_arrived t then fullscreen_node t else None)
      in mapped_under_fullscreen t \<union> set_option arrived \<union> table_keys t (moved_under_fullscreen t))"

definition workspace_area :: "tree \<Rightarrow> real \<Rightarrow> rect" where
  "workspace_area t gp =
     (let st = (if has_resident_root t
                then \<lparr>strut_left = 0, strut_right = 0, strut_top = 0, strut_bottom = 0\<rparr>
                else opt_struts (options_of t));
          area = apply_struts (phys_ceil t) (parent_area t) (scale t) st
      in if \<not> (opt_outer_gaps_configured (options_of t) \<or> has_resident_root t)
         then mk_rect (loc_x area + gp) (loc_y area + gp)
                (max (size_w area - gp * 2) 0) (max (size_h area - gp * 2) 0)
         else area)"

definition geometry_context :: "tree \<Rightarrow> assign_context" where
  "geometry_context t =
     (let gp = max (gaps t) 0 in
      \<lparr>cx_tree = t, cx_gaps = gp, cx_titlebar_height = titlebar_height t, cx_fullscreen = {},
       cx_mapped_under_fullscreen = split_excluded t, cx_workspace_area = workspace_area t gp,
       cx_gaps_to_edge = gaps_to_edge t, cx_hide_edge_borders = opt_hide_edge_borders (options_of t),
       cx_smart_borders = opt_smart_borders (options_of t),
       cx_only_visible_view = (card (visible_leaves t) = 1),
       cx_draw_uncovered_top_border = opt_draw_uncovered_top_border (options_of t)\<rparr>)"

definition root_assignment :: "nid \<Rightarrow> rect \<Rightarrow> decorated_corners \<Rightarrow> assignment" where
  "root_assignment i r corners =
     \<lparr>as_id = i, as_rect = r, as_covering_titlebar = None, as_decorated_by_parent = False,
      as_decorated_corners = corners, as_suppress_gaps = False, as_ipc_origin = (0, 0)\<rparr>"

definition tiled_pass :: "tree \<Rightarrow> geometry" where
  "tiled_pass t = assign (walk_fuel t) (geometry_context t)
     (root_assignment (tree_root t) (cx_workspace_area (geometry_context t)) corners_ALL) geometry_default"

definition apply_fullscreen_pass :: "assign_context \<Rightarrow> nid \<Rightarrow> geometry \<Rightarrow> geometry" where
  "apply_fullscreen_pass cx f g =
     (let t = cx_tree cx;
          g1 = assign (walk_fuel t) cx (root_assignment f (mk_rect 0 0 (view_w t) (view_h t)) corners_NONE) g
      in g1\<lparr>titlebars := (\<lambda>i. if i \<in> cx_fullscreen cx then None else titlebars g1 i),
            titlebar_attached := titlebar_attached g1 - cx_fullscreen cx,
            titlebar_owned_by_parent := titlebar_owned_by_parent g1 - cx_fullscreen cx\<rparr>)"

definition hide_invisible_strips :: "tree \<Rightarrow> nid set \<Rightarrow> geometry \<Rightarrow> geometry" where
  "hide_invisible_strips t visible g = g\<lparr>titlebars := (\<lambda>i. map_option (\<lambda>bar.
      (let owner = (if is_strip_entry t i then unwrap_or (parent_of t i) i else i)
       in if \<not> subtree_has_visible_leaf (walk_fuel t) t owner visible then bar\<lparr>tb_visible := False\<rparr> else bar))
      (titlebars g i))\<rparr>"

definition compute_geometry :: "tree \<Rightarrow> geometry" where
  "compute_geometry t =
     (let cx = geometry_context t;
          visible = visible_leaves t;
          g0 = tiled_pass t;
          g1 = g0\<lparr>tiled_ipc_nodes := ipc_nodes g0\<rparr>;
          g2 = (case fullscreen_node t of
                  Some f \<Rightarrow> apply_fullscreen_pass (cx\<lparr>cx_fullscreen := {f}\<rparr>) f g1
                | None \<Rightarrow> g1);
          g3 = drop_titlebars g2 (\<lambda>i. i \<in> cx_mapped_under_fullscreen cx);
          g4 = g3\<lparr>border_visible := border_visible g3 \<union> {i \<in> visible. leaf_boxes g3 i \<noteq> None},
                  uncovered_top_borders :=
                    (\<lambda>i. if i \<in> visible then uncovered_top_borders g3 i else None)\<rparr>
      in hide_invisible_strips t visible g4)"

definition node_geometry :: "tree \<Rightarrow> nid \<Rightarrow> rect option" where
  "node_geometry t i = ipc_nodes (compute_geometry t) i"

definition leaf_geometry :: "tree \<Rightarrow> nid \<Rightarrow> rect option" where
  "leaf_geometry t i = leaf_boxes (compute_geometry t) i"

definition ipc_rect_for_window :: "tree \<Rightarrow> wid \<Rightarrow> rect option" where
  "ipc_rect_for_window t w =
     (case node_for_window t w of None \<Rightarrow> None | Some i \<Rightarrow> leaf_ipc_rects (compute_geometry t) i)"

definition visible_window_count :: "tree \<Rightarrow> nat" where
  "visible_window_count t = card (visible_leaves t)"

definition sibling_percents :: "tree \<Rightarrow> nid \<Rightarrow> nid \<Rightarrow> (real \<times> real) option" where
  "sibling_percents t a b = (case parent_of t a of
      None \<Rightarrow> None
    | Some p \<Rightarrow>
        (if parent_of t b \<noteq> Some p then None
         else case get_split t p of
           None \<Rightarrow> None
         | Some (l, cs, ps, m) \<Rightarrow> (case (position a cs, position b cs) of
             (Some i, Some j) \<Rightarrow> (case (vec_get ps i, vec_get ps j) of
                 (Some x, Some y) \<Rightarrow> Some (x, y) | _ \<Rightarrow> None)
           | _ \<Rightarrow> None)))"

section \<open>Boxes belong to nodes of the tree\<close>

definition boxes_in :: "tree \<Rightarrow> geometry \<Rightarrow> bool" where
  "boxes_in t g \<longleftrightarrow> (\<forall>i. ipc_nodes g i \<noteq> None \<longrightarrow> contains_key t i) \<and>
     (\<forall>i. leaf_boxes g i \<noteq> None \<longrightarrow> is_leaf t i)"

lemma assign_leaf_reads [simp]:
  "ipc_nodes (assign_leaf cx w a g) = ipc_nodes g"
  "leaf_boxes (assign_leaf cx w a g) = (leaf_boxes g)(as_id a \<mapsto> as_rect a)"
  by (simp_all add: assign_leaf_def Let_def emit_leaf_titlebar_def record_uncovered_top_border_def)

lemma emit_strip_titlebar_reads [simp]:
  "ipc_nodes (emit_strip_titlebar cx l r c i n e cs g) = ipc_nodes g"
  "leaf_boxes (emit_strip_titlebar cx l r c i n e cs g) = leaf_boxes g"
  by (simp_all add: emit_strip_titlebar_def Let_def split: prod.split)

text \<open>A property that every recursive call keeps is kept by the loops over the children.\<close>

lemma linear_loop_keeps:
  assumes "\<And>a g. P g \<Longrightarrow> P (f a g)"
  shows "P g \<Longrightarrow> P (linear_loop f l a n av gp xs i cur g)"
proof (induction xs arbitrary: i cur g)
  case (Cons x xs)
  then show ?case by (cases x) (simp add: Let_def assms)
qed simp

lemma strip_loop_keeps:
  assumes "\<And>a g. P g \<Longrightarrow> P (f a g)" "\<And>g c i e. P g \<Longrightarrow> P (emit_strip_titlebar cx l r c i n e co g)"
  shows "P g \<Longrightarrow> P (strip_loop f cx l r co n cs i g)"
  by (induction cs arbitrary: i g) (simp_all add: Let_def assms split: option.split)

lemma assign_boxes_in: "boxes_in (cx_tree cx) g \<Longrightarrow> boxes_in (cx_tree cx) (assign k cx a g)"
proof (induction k arbitrary: a g)
  case (Suc k)
  show ?case
  proof (cases "value_of (cx_tree cx) (as_id a)")
    case (Some v)
    let ?g = "g\<lparr>ipc_nodes := (ipc_nodes g)(as_id a \<mapsto> as_rect a)\<rparr>"
    have "contains_key (cx_tree cx) (as_id a)" using Some value_of_absent [of "cx_tree cx" "as_id a"] by simp
    then have g: "boxes_in (cx_tree cx) ?g" using Suc.prems by (auto simp: boxes_in_def)
    have emit: "boxes_in (cx_tree cx) h \<Longrightarrow> boxes_in (cx_tree cx) (emit_strip_titlebar cx l r c i n e co h)"
      for h l r c i n e co by (simp add: boxes_in_def)
    show ?thesis
    proof (cases v)
      case (Split l cs ps m)
      then show ?thesis
        using Some linear_loop_keeps [of "boxes_in (cx_tree cx)", OF Suc.IH g]
          strip_loop_keeps [of "boxes_in (cx_tree cx)", OF Suc.IH emit g]
        by (simp add: assign_linear_split_def assign_strip_def Let_def)
    next
      case (Leaf w)
      then have "is_leaf (cx_tree cx) (as_id a)" using Some by (simp add: tile_at_def)
      then show ?thesis using Some Leaf g by (auto simp: boxes_in_def)
    qed
  qed (use Suc.prems in simp)
qed simp

lemma geometry_context_tree [simp]: "cx_tree (geometry_context t) = t"
  by (simp add: geometry_context_def Let_def)

lemma titlebar_updates_reads:
  "ipc_nodes (g\<lparr>titlebars := a, titlebar_attached := b, titlebar_owned_by_parent := c\<rparr>) = ipc_nodes g"
  "leaf_boxes (g\<lparr>titlebars := a, titlebar_attached := b, titlebar_owned_by_parent := c\<rparr>) = leaf_boxes g"
  by simp_all

lemma finish_geometry_reads:
  "ipc_nodes (hide_invisible_strips t v g) = ipc_nodes g"
  "leaf_boxes (hide_invisible_strips t v g) = leaf_boxes g"
  "ipc_nodes (drop_titlebars g d) = ipc_nodes g" "leaf_boxes (drop_titlebars g d) = leaf_boxes g"
  "ipc_nodes (g\<lparr>border_visible := b, uncovered_top_borders := c\<rparr>) = ipc_nodes g"
  "leaf_boxes (g\<lparr>border_visible := b, uncovered_top_borders := c\<rparr>) = leaf_boxes g"
  by (simp_all add: hide_invisible_strips_def drop_titlebars_def)

lemma apply_fullscreen_pass_reads:
  "ipc_nodes (apply_fullscreen_pass cx f g) = ipc_nodes (assign (walk_fuel (cx_tree cx)) cx
     (root_assignment f (mk_rect 0 0 (view_w (cx_tree cx)) (view_h (cx_tree cx))) corners_NONE) g)"
  "leaf_boxes (apply_fullscreen_pass cx f g) = leaf_boxes (assign (walk_fuel (cx_tree cx)) cx
     (root_assignment f (mk_rect 0 0 (view_w (cx_tree cx)) (view_h (cx_tree cx))) corners_NONE) g)"
  unfolding apply_fullscreen_pass_def Let_def by (rule titlebar_updates_reads)+

lemma apply_fullscreen_pass_boxes:
  assumes "boxes_in (cx_tree cx) g"
  shows "boxes_in (cx_tree cx) (apply_fullscreen_pass cx f g)"
  using assign_boxes_in [OF assms] unfolding boxes_in_def apply_fullscreen_pass_reads by blast

lemma compute_geometry_boxes: "boxes_in t (compute_geometry t)"
proof -
  have d: "boxes_in t geometry_default" by (simp add: boxes_in_def geometry_default_def)
  have g0: "boxes_in t (tiled_pass t)"
    using assign_boxes_in [of "geometry_context t"] d by (simp add: tiled_pass_def)
  define g1 where "g1 = (tiled_pass t)\<lparr>tiled_ipc_nodes := ipc_nodes (tiled_pass t)\<rparr>"
  have g1: "boxes_in t g1" using g0 by (simp add: g1_def boxes_in_def)
  have g2: "boxes_in t (apply_fullscreen_pass ((geometry_context t)\<lparr>cx_fullscreen := {f}\<rparr>) f g1)" for f
    using apply_fullscreen_pass_boxes [of "(geometry_context t)\<lparr>cx_fullscreen := {f}\<rparr>" g1 f] g1 by simp
  define g2' where "g2' = (case fullscreen_node t of
      Some f \<Rightarrow> apply_fullscreen_pass ((geometry_context t)\<lparr>cx_fullscreen := {f}\<rparr>) f g1 | None \<Rightarrow> g1)"
  have "boxes_in t g2'" using g1 g2 by (simp add: g2'_def split: option.split)
  moreover have "ipc_nodes (compute_geometry t) = ipc_nodes g2'" "leaf_boxes (compute_geometry t) = leaf_boxes g2'"
    unfolding compute_geometry_def Let_def g1_def [symmetric] g2'_def [symmetric]
    unfolding finish_geometry_reads by (rule refl)+
  ultimately show ?thesis by (simp add: boxes_in_def)
qed

end
