(* ===== verification/Normalize.thy ===== *)
theory Normalize
  imports Focus_Core
begin

text \<open>
  Tree normalisation (\<^verbatim>\<open>src/layout/tiling_tree/normalize.rs\<close>): reaping emptied containers,
  collapsing singletons, squashing redundant split pairs, and the one-pass squash of directional
  moves. The loops that climb or repeat carry a budget; running out of it is modelled as a
  panic, so the invariant theorems below also show that they end.
\<close>

section \<open>Operations\<close>

fun reap_view_loop :: "nat \<Rightarrow> tree \<Rightarrow> nid \<Rightarrow> nid option" where
  "reap_view_loop 0 t p = None"
| "reap_view_loop (Suc k) t p =
     (case List.find (\<lambda>c. tile_at t c \<noteq> None \<and> contains_node t p c) (focus_history t) of
        Some view \<Rightarrow> Some view
      | None \<Rightarrow> (case parent_of t p of Some q \<Rightarrow> reap_view_loop k t q | None \<Rightarrow> None))"

definition raise_view_after_reap :: "tree \<Rightarrow> nid \<Rightarrow> tree" where
  "raise_view_after_reap t p = (case reap_view_loop (walk_fuel t) t p of
      None \<Rightarrow> t
    | Some view \<Rightarrow>
        (if Some view = focus t then t
         else let h = retain_ne view (focus_history t);
                  index = (case focus t of Some f \<Rightarrow> (if vec_get h 0 = Some f then 1 else 0) | None \<Rightarrow> 0)
              in t\<lparr>focus_history := insert_at (min index (length h)) view h\<rparr>))"

fun reap_loop :: "nat \<Rightarrow> tree \<Rightarrow> nid \<Rightarrow> tree" where
  "reap_loop 0 t i = panic t"
| "reap_loop (Suc k) t i = (case get_split t i of
      None \<Rightarrow> t
    | Some (l, cs, ps, m) \<Rightarrow>
        (if i = tree_root t \<or> cs \<noteq> [] then t
         else case parent_of t i of
           None \<Rightarrow> t
         | Some p \<Rightarrow>
             (let t1 = (if focus t = Some i then set_focus_id t (Some p) else t);
                  t2 = fst (remove_node t1 i);
                  t3 = remove_child t2 p i;
                  t4 = raise_view_after_reap t3 p
              in reap_loop k t4 p)))"

definition reap_empty_from :: "tree \<Rightarrow> nid \<Rightarrow> tree" where
  "reap_empty_from t i = reap_loop (walk_fuel t) t i"

definition replace_slot :: "nid \<Rightarrow> nid \<Rightarrow> nid list \<Rightarrow> nid list" where
  "replace_slot a b cs = (case position a cs of None \<Rightarrow> cs | Some k \<Rightarrow> cs[k := b])"

fun collapse_loop :: "nat \<Rightarrow> tree \<Rightarrow> nid \<Rightarrow> tree" where
  "collapse_loop 0 t i = panic t"
| "collapse_loop (Suc k) t i = (case get_split t i of
      None \<Rightarrow> t
    | Some (l, cs, ps, m) \<Rightarrow>
        (if i = tree_root t then t
         else case parent_of t i of
           None \<Rightarrow> t
         | Some p \<Rightarrow>
             (if cs = [] then
                (let t1 = (if focus t = Some i then set_focus_id t (Some p) else t);
                     t2 = fst (remove_node t1 i);
                     t3 = remove_child t2 p i
                 in collapse_loop k t3 p)
              else if length cs \<noteq> 1 then t
              else case get_split t p of
                None \<Rightarrow> t
              | Some (lp, cp, pp, mp) \<Rightarrow>
                  (if position i cp = None then t
                   else let child = hd cs;
                            t1 = expect_set_parent
                                   (set_value t p (Split lp (replace_slot i child cp) pp mp)) child (Some p);
                            t2 = (case fullscreen_mode t1 i of
                                    Some fs \<Rightarrow> set_pending_fullscreen t1 child (Some fs) | None \<Rightarrow> t1);
                            t3 = (if focus t2 = Some i then set_focus_id t2 (Some child) else t2);
                            t4 = fst (remove_node t3 i)
                        in collapse_loop k t4 p))))"

definition collapse_from :: "tree \<Rightarrow> nid \<Rightarrow> tree" where
  "collapse_from t i = collapse_loop (walk_fuel t) t i"

definition layouts_parallel :: "layout \<Rightarrow> layout \<Rightarrow> bool" where
  "layouts_parallel a b \<longleftrightarrow>
     (a = SplitH \<or> a = Tabbed) \<and> (b = SplitH \<or> b = Tabbed) \<or>
     (a = SplitV \<or> a = Stacked) \<and> (b = SplitV \<or> b = Stacked)"

definition is_squashable :: "tree \<Rightarrow> nid \<Rightarrow> nid \<Rightarrow> bool" where
  "is_squashable t i child = (case parent_of t i of
      None \<Rightarrow> False
    | Some p \<Rightarrow>
        (if has_resident_root t \<and> p = tree_root t then False
         else case (get_split t p, get_split t i, get_split t child) of
           (Some (lp, _), Some (l, cs, _), Some (lc, _)) \<Rightarrow>
             length cs = 1 \<and> linear l \<and> linear lc \<and>
             \<not> layouts_parallel l lc \<and> layouts_parallel lp lc
         | _ \<Rightarrow> False))"

definition squashable_child :: "tree \<Rightarrow> nid \<Rightarrow> nid option" where
  "squashable_child t i = (case children_of t i of
      Some [child] \<Rightarrow> (if is_squashable t i child then Some child else None)
    | _ \<Rightarrow> None)"

text \<open>
  The two loops that insert a squashed pair's grandchildren into its slot: \<open>insert_run\<close> puts the
  \<open>n\<close>-th at \<open>index + n\<close>, \<open>insert_same\<close> puts each at \<open>index\<close>, which reverses them.
\<close>

fun insert_run :: "nat \<Rightarrow> 'a list \<Rightarrow> 'a list \<Rightarrow> 'a list" where
  "insert_run k [] xs = xs"
| "insert_run k (g # gs) xs = insert_run (Suc k) gs (insert_at k g xs)"

fun insert_same :: "nat \<Rightarrow> 'a list \<Rightarrow> 'a list \<Rightarrow> 'a list" where
  "insert_same k [] xs = xs"
| "insert_same k (g # gs) xs = insert_same k gs (insert_at k g xs)"

fun expect_parents :: "nid list \<Rightarrow> nid \<Rightarrow> tree \<Rightarrow> tree" where
  "expect_parents [] p t = t"
| "expect_parents (g # gs) p t = expect_parents gs p (expect_set_parent t g (Some p))"

definition squash :: "tree \<Rightarrow> nid \<Rightarrow> tree" where
  "squash t i = (case (parent_of t i, squashable_child t i) of
      (Some p, Some child) \<Rightarrow> (case (get_split t child, get_split t p) of
          (Some (lc, gs, qs, mc), Some (lp, cs, ps, mp)) \<Rightarrow> (case position i cs of
              None \<Rightarrow> t
            | Some k \<Rightarrow>
                (if k \<ge> length ps then panic t
                 else let percent = ps ! k;
                          moved = zip gs qs;
                          cs' = insert_run k (map fst moved) (remove_at k cs);
                          ps' = insert_run k (map (\<lambda>(g, q). percent * q) moved) (remove_at k ps);
                          t1 = expect_parents gs p (set_value t p (Split lp cs' ps' mp));
                          replacement = (case gs of [] \<Rightarrow> p | g # _ \<Rightarrow> g);
                          t2 = (case find_map (fullscreen_mode t1) [i, child] of
                                  Some fs \<Rightarrow> set_pending_fullscreen t1 p (Some fs) | None \<Rightarrow> t1);
                          t3 = (if focus t2 = Some i \<or> focus t2 = Some child
                                then set_focus_id t2 (Some replacement) else t2);
                          t4 = fst (remove_node t3 i)
                      in fst (remove_node t4 child)))
        | _ \<Rightarrow> t)
    | _ \<Rightarrow> t)"

fun compact_loop :: "nat \<Rightarrow> tree \<Rightarrow> tree" where
  "compact_loop 0 t = panic t"
| "compact_loop (Suc k) t =
     (case find_map (\<lambda>i. map_option (\<lambda>_. i) (squashable_child t i)) (iter_depth_first t) of
        None \<Rightarrow> t
      | Some i \<Rightarrow> compact_loop k (squash t i))"

definition compact_tree :: "tree \<Rightarrow> tree" where
  "compact_tree t = compact_loop (walk_fuel t) t"

text \<open>
  \<^verbatim>\<open>squash_for_move_from\<close> and the loop over a container's children that calls it are mutually
  recursive, and their results carry the index correction. The common budget is twice the number
  of identifiers.
\<close>

definition squash_pair_for_move ::
  "tree \<Rightarrow> nid \<Rightarrow> nid \<Rightarrow> nid \<Rightarrow> tree \<times> int" where
  "squash_pair_for_move t i child p = (case (get_split t child, get_split t p) of
      (Some (lc, gs, qs, mc), Some (lp, cs, ps, mp)) \<Rightarrow> (case position i cs of
          None \<Rightarrow> (t, 0)
        | Some k \<Rightarrow>
            (if k \<ge> length ps then (panic t, 0)
             else let moved = zip gs qs;
                      cs' = insert_same k (map fst moved) (remove_at k cs);
                      ps1 = insert_same k (map snd moved) (remove_at k ps);
                      total = sum_list ps1;
                      ps' = (if total > 0 then map (\<lambda>x. x / total) ps1 else ps1);
                      t1 = expect_parents (map fst moved) p (set_value t p (Split lp cs' ps' mp));
                      t2 = (if focus t1 = Some i \<or> focus t1 = Some child
                            then set_focus_id t1 (Some (if moved = [] then p else fst (last moved)))
                            else t1);
                      t3 = fst (remove_node t2 i)
                  in (fst (remove_node t3 child), int (length moved) - 1)))
    | _ \<Rightarrow> (t, 0))"

definition squash_pair_of :: "tree \<Rightarrow> nid \<Rightarrow> (nid \<times> nid) option" where
  "squash_pair_of t i =
     (case (if split_len t i = Some 1 then squashable_child t i else None, parent_of t i) of
        (Some child, Some p) \<Rightarrow> Some (child, p)
      | _ \<Rightarrow> None)"

fun squash_for_move_from :: "nat \<Rightarrow> tree \<Rightarrow> nid \<Rightarrow> tree \<times> int"
  and squash_children_loop :: "nat \<Rightarrow> tree \<Rightarrow> nid \<Rightarrow> nat \<Rightarrow> tree" where
  "squash_for_move_from 0 t i = (t, 0)"
| "squash_for_move_from (Suc k) t i =
     (if split_len t i = None then (t, 0)
      else case squash_pair_of t i of
        None \<Rightarrow> (squash_children_loop k t i 0, 0)
      | Some (child, p) \<Rightarrow> squash_pair_for_move t i child p)"
| "squash_children_loop 0 t p index = t"
| "squash_children_loop (Suc k) t p index = (case child_at t p index of
      None \<Rightarrow> t
    | Some c \<Rightarrow>
        (let (t', d) = squash_for_move_from k t c
         in squash_children_loop k t' p (nat (int index + d) + 1)))"

definition freshen :: "tree \<Rightarrow> nid \<Rightarrow> tree" where
  "freshen t i = (case parent_of t i of
      None \<Rightarrow> t
    | Some p \<Rightarrow> (case get_split t p of
        None \<Rightarrow> t
      | Some (l, cs, ps, m) \<Rightarrow> (case position i cs of
          None \<Rightarrow> t
        | Some k \<Rightarrow>
            (if length cs < 2 then t
             else let others = sum_list (remove_at k ps);
                      average = others / real (length cs - 1);
                      ps1 = ps[k := average];
                      total = sum_list ps1;
                      ps2 = (if total > 0 then map (\<lambda>x. x / total) ps1 else ps1)
                  in set_value t p (Split l cs ps2 m)))))"

definition squash_for_move :: "tree \<Rightarrow> nid option \<Rightarrow> tree" where
  "squash_for_move t fresh =
     (let t1 = squash_children_loop (2 * walk_fuel t) t (tree_root t) 0
      in case fresh of None \<Rightarrow> t1 | Some i \<Rightarrow> freshen t1 i)"

end
