(* ===== verification/Normalize_Laws.thy ===== *)
theory Normalize_Laws
  imports Normalize
begin

text \<open>
  What normalisation keeps and achieves: every operation keeps the invariant, the tiles and
  whether something is focused; reaping removes exactly the emptied chain; compaction ends in a
  tree without a squashable pair.
\<close>

section \<open>Removal and the side tables\<close>

lemma side_ok_remove_node:
  assumes "side_ok t"
  shows "side_ok (fst (remove_node t i))"
proof (cases "contains_key t i")
  case True
  then obtain n where n: "nodes t i = Some n" by (auto simp: contains_key_def)
  have K: "contains_key (fst (remove_node t i)) j \<longleftrightarrow> contains_key t j \<and> j \<noteq> i" for j
    by (simp add: remove_node_structure [OF True])
  have H: "focus_history (fst (remove_node t i)) = retain_ne i (focus_history t)"
    by (rule remove_node_reads(9) [OF True])
  show ?thesis
    using assms unfolding side_ok_def K
    by (simp add: H) (auto simp: remove_node_def n Let_def forget_side_tables_def forget_key_def
        retain_values_ne_def)
qed (use assms remove_node_absent in simp)

lemma fullscreen_mode_remove_node:
  "contains_key t i \<Longrightarrow> fullscreen_mode (fst (remove_node t i)) = (fullscreen_mode t)(i := None)"
  by (simp add: fun_eq_iff fullscreen_mode_def remove_node_reads)

definition remove_all :: "nid list \<Rightarrow> tree \<Rightarrow> tree" where
  "remove_all rs t = fold (\<lambda>r t. fst (remove_node t r)) rs t"

lemma remove_all_simps [simp]:
  "remove_all [] t = t" "remove_all (r # rs) t = remove_all rs (fst (remove_node t r))"
  by (simp_all add: remove_all_def)

lemma side_ok_remove_all: "side_ok t \<Longrightarrow> side_ok (remove_all rs t)"
  by (induction rs arbitrary: t) (simp_all add: side_ok_remove_node)

lemma remove_all_reads:
  assumes "distinct rs" "\<forall>r\<in>set rs. contains_key t r"
  shows "contains_key (remove_all rs t) = (\<lambda>i. contains_key t i \<and> i \<notin> set rs) \<and>
    parent_of (remove_all rs t) = (\<lambda>i. if i \<in> set rs then None else parent_of t i) \<and>
    get_split (remove_all rs t) = (\<lambda>i. if i \<in> set rs then None else get_split t i) \<and>
    tile_at (remove_all rs t) = (\<lambda>i. if i \<in> set rs then None else tile_at t i) \<and>
    fullscreen_mode (remove_all rs t) = (\<lambda>i. if i \<in> set rs then None else fullscreen_mode t i) \<and>
    pending_modes (remove_all rs t) = (\<lambda>i. if i \<in> set rs then None else pending_modes t i) \<and>
    tree_root (remove_all rs t) = tree_root t \<and> next_id (remove_all rs t) = next_id t \<and>
    panicked (remove_all rs t) = panicked t \<and> focus (remove_all rs t) = focus t \<and>
    has_resident_root (remove_all rs t) = has_resident_root t"
  using assms
proof (induction rs arbitrary: t)
  case (Cons r rs)
  then have r: "contains_key t r" by simp
  note st = remove_node_structure [OF r] and rd = remove_node_reads [OF r]
  have "\<forall>x\<in>set rs. contains_key (fst (remove_node t r)) x" using Cons.prems by (auto simp: st)
  from Cons.IH [OF _ this] Cons.prems show ?case
    by (auto simp: st rd fullscreen_mode_remove_node [OF r])
qed simp

section \<open>Focusing while links are being rewritten\<close>

lemma up_path_avoid:
  assumes "\<And>x a. x \<notin> R \<Longrightarrow> P x = Some a \<Longrightarrow> a \<notin> R" "x \<notin> R"
  shows "up_path k (\<lambda>i. if i \<in> R then None else P i) x = up_path k P x"
  using assms(2)
proof (induction k arbitrary: x)
  case (Suc k)
  then show ?case using assms(1) by (auto split: option.splits)
qed simp

lemma focus_ancestors_avoid:
  assumes "parent_of v = (\<lambda>i. if i \<in> R then None else parent_of u i)"
    and "\<And>x a. x \<notin> R \<Longrightarrow> parent_of u x = Some a \<Longrightarrow> a \<notin> R" "g \<notin> R"
    and "tree_root v = tree_root u" "next_id v = next_id u"
  shows "focus_ancestors u g = focus_ancestors v g"
proof (cases "parent_of u g")
  case (Some a)
  then have "a \<notin> R" using assms(2,3) by blast
  then have "up_path (walk_fuel u) (parent_of v) a = up_path (walk_fuel u) (parent_of u) a"
    unfolding assms(1) using assms(2) by (intro up_path_avoid)
  then show ?thesis using Some assms by (simp add: focus_ancestors_def ancestors_loop_path walk_fuel_def)
qed (use assms in \<open>simp add: focus_ancestors_def ancestors_loop_path\<close>)

lemma side_ok_set_focus_path:
  assumes ok: "side_ok t" and i: "contains_key t i"
    and anc: "distinct (focus_ancestors t i)" "i \<notin> set (focus_ancestors t i)"
      "\<And>a. a \<in> set (focus_ancestors t i) \<Longrightarrow> contains_key t a"
  shows "side_ok (set_focus_id t (Some i))"
proof -
  have K: "contains_key (set_focus_id t (Some i)) = contains_key t" by simp
  have "distinct (focus_history (set_focus_id t (Some i)))"
    using side_okD(1) [OF ok] anc(1,2) by (auto simp: set_focus_id_Some)
  moreover have "\<forall>j\<in>set (focus_history (set_focus_id t (Some i))). contains_key t j"
    using i side_okD(2) [OF ok] anc(3) by (auto simp: set_focus_id_Some)
  moreover have "\<forall>j v. last_entered_by (set_focus_id t (Some i)) j = Some v \<longrightarrow>
      contains_key t j \<and> contains_key t v"
    using i side_okD(5) [OF ok] anc(3) by (auto simp: set_focus_id_Some split: if_splits)
  moreover have "\<forall>j\<in>ipc_stale_nodes (set_focus_id t (Some i)). contains_key t j"
    using side_okD(4) [OF ok] by (auto simp: set_focus_id_Some)
  ultimately show ?thesis using ok unfolding side_ok_def K by (simp add: set_focus_id_Some)
qed

section \<open>Splicing nodes out\<close>

text \<open>
  The common ending of \<^verbatim>\<open>squash\<close>, \<^verbatim>\<open>collapse_from\<close>, \<^verbatim>\<open>flatten_parent\<close> and \<^verbatim>\<open>squash_for_move_from\<close>: the
  links already bypass the nodes \<open>rs\<close>; their fullscreen mode may pass to \<open>q\<close>, their focus passes
  to \<open>g\<close>, and they are removed.
\<close>

definition finish_splice ::
  "nid list \<Rightarrow> (fullscreen_mode option \<times> nid) \<Rightarrow> nid \<Rightarrow> tree \<Rightarrow> tree" where
  "finish_splice rs fs g u =
     (let u1 = (case fs of (Some f, q) \<Rightarrow> set_pending_fullscreen u q (Some f) | (None, q) \<Rightarrow> u);
          u2 = (if focus u1 \<in> Some ` set rs then set_focus_id u1 (Some g) else u1)
      in remove_all rs u2)"

text \<open>The state before that ending, relative to a well-formed state \<open>t\<close>.\<close>

definition bypassed :: "nid set \<Rightarrow> nid list \<Rightarrow> nid \<Rightarrow> nid list \<Rightarrow> tree \<Rightarrow> tree \<Rightarrow> bool" where
  "bypassed D rs p gs t u \<longleftrightarrow>
     distinct rs \<and> (\<forall>r\<in>set rs. contains_key t r \<and> tile_at t r = None) \<and>
     p \<notin> set rs \<and> tree_root t \<notin> set rs \<and> contains_key t p \<and>
     (\<forall>x a. x \<notin> set rs \<longrightarrow> parent_of u x = Some a \<longrightarrow> a \<notin> set rs) \<and>
     contains_key u = contains_key t \<and> tile_at u = tile_at t \<and> strip u = strip t \<and>
     panicked u = panicked t \<and> next_id u = next_id t"

lemma finish_splice_wf:
  assumes W: "wft D E t" and B: "bypassed D rs p gs t u"
    and F: "forest D E' (remove_all rs u)"
    and fs: "\<forall>f q. fs = (Some f, q) \<longrightarrow> contains_key t q \<and> q \<notin> set rs \<and>
        (\<exists>r\<in>set rs. fullscreen_mode t r \<noteq> None)"
    and g: "contains_key t g" "g \<notin> set rs"
  shows "wft D E' (finish_splice rs fs g u)"
    "focus_in X t \<Longrightarrow> focus_in X (finish_splice rs fs g u)"
    "steady t (finish_splice rs fs g u)"
    "contains_key (finish_splice rs fs g u) = (\<lambda>i. contains_key t i \<and> i \<notin> set rs)"
    "parent_of (finish_splice rs fs g u) = (\<lambda>i. if i \<in> set rs then None else parent_of u i)"
    "get_split (finish_splice rs fs g u) = (\<lambda>i. if i \<in> set rs then None else get_split u i)"
    "next_id (finish_splice rs fs g u) = next_id t"
    "has_resident_root (finish_splice rs fs g u) = has_resident_root t"
proof -
  note b = B [unfolded bypassed_def]
  define u1 where "u1 = (case fs of (Some f, q) \<Rightarrow> set_pending_fullscreen u q (Some f) | (None, q) \<Rightarrow> u)"
  define u2 where "u2 = (if focus u1 \<in> Some ` set rs then set_focus_id u1 (Some g) else u1)"
  have res: "finish_splice rs fs g u = remove_all rs u2"
    by (simp add: finish_splice_def u1_def u2_def Let_def)
  have S: "strip u = strip t" using b by blast
  have u1: "nodes u1 = nodes u" "contains_key u1 = contains_key t" "parent_of u1 = parent_of u"
    "get_split u1 = get_split u" "tile_at u1 = tile_at t" "tree_root u1 = tree_root t"
    "next_id u1 = next_id t" "panicked u1 = panicked t" "focus u1 = focus t"
    "has_resident_root u1 = has_resident_root t"
    using b strip_fieldsD [OF S] by (auto simp: u1_def split: option.splits prod.splits)
  have u2: "nodes u2 = nodes u" "contains_key u2 = contains_key t" "parent_of u2 = parent_of u"
    "get_split u2 = get_split u" "tile_at u2 = tile_at t" "tree_root u2 = tree_root t"
    "next_id u2 = next_id t" "panicked u2 = panicked t" "pending_modes u2 = pending_modes u1"
    "has_resident_root u2 = has_resident_root t"
    using u1 by (auto simp: u2_def)
  have rs2: "distinct rs" "\<forall>r\<in>set rs. contains_key u2 r" "\<forall>r\<in>set rs. contains_key u r"
    using b u2(2) by auto
  note rd = remove_all_reads [OF rs2(1,2)] and rd0 = remove_all_reads [OF rs2(1) rs2(3)]
  have focus2: "focus u2 = (if focus t \<in> Some ` set rs then Some g else focus t)"
    using u1 by (simp add: u2_def)
  show keys: "contains_key (finish_splice rs fs g u) = (\<lambda>i. contains_key t i \<and> i \<notin> set rs)"
    using rd u2 by (simp add: res)
  show "parent_of (finish_splice rs fs g u) = (\<lambda>i. if i \<in> set rs then None else parent_of u i)"
    "get_split (finish_splice rs fs g u) = (\<lambda>i. if i \<in> set rs then None else get_split u i)"
    "next_id (finish_splice rs fs g u) = next_id t"
    "has_resident_root (finish_splice rs fs g u) = has_resident_root t"
    using rd u2 by (simp_all add: res fun_eq_iff)
  have tiles: "tile_at (finish_splice rs fs g u) = tile_at t"
    using rd u2 b by (auto simp: res fun_eq_iff)
  show "steady t (finish_splice rs fs g u)"
    using rd u2 tiles focus2 by (auto simp: steady_def res)
  show "focus_in X (finish_splice rs fs g u)" if "focus_in X t"
    using that rd u2 keys focus2 g by (auto simp: focus_in_def res)
  have forest: "forest D E' (remove_all rs u2)"
    using F rd rd0 u2 b strip_fieldsD(1) [OF S] by (simp add: forest_iff cong: if_cong)
  have ok1: "side_ok u1"
  proof -
    have "side_ok u" using S b wfD(2) [OF W] by (intro side_ok_cong [OF S]) auto
    then show ?thesis
      using fs b by (auto simp: u1_def intro!: side_ok_set_pending split: option.splits prod.splits)
  qed
  have "focus_ancestors u1 g = focus_ancestors (remove_all rs u) g"
  proof (rule focus_ancestors_avoid [where R = "set rs"])
    show "parent_of (remove_all rs u) = (\<lambda>i. if i \<in> set rs then None else parent_of u1 i)"
      using rd0 u1(3) by (simp cong: if_cong)
    show "a \<notin> set rs" if "x \<notin> set rs" "parent_of u1 x = Some a" for x a
      using b that u1(3) by metis
    show "tree_root (remove_all rs u) = tree_root u1" "next_id (remove_all rs u) = next_id u1"
      using rd0 u1 b strip_fieldsD(1) [OF S] by simp_all
  qed (rule g(2))
  then have anc: "distinct (focus_ancestors u1 g)" "g \<notin> set (focus_ancestors u1 g)"
    "\<And>a. a \<in> set (focus_ancestors u1 g) \<Longrightarrow> contains_key u1 a"
    using focus_ancestors_distinct [OF F] focus_ancestors_props [OF F, of _ g] rd0 u1 b by auto
  have "side_ok u2"
    using ok1 side_ok_set_focus_path [OF ok1 _ anc] u1 g by (simp add: u2_def)
  then have side: "side_ok (finish_splice rs fs g u)" by (simp add: res side_ok_remove_all)
  have fsm: "fullscreen_mode (finish_splice rs fs g u) =
      (\<lambda>i. if i \<in> set rs then None else fullscreen_mode u1 i)"
    using rd u2(9) by (simp add: res fun_eq_iff fullscreen_mode_def)
  have fm0: "fullscreen_mode u = fullscreen_mode t" "pending_modes u = pending_modes t"
    using strip_fieldsD(6) [OF S] by (auto simp: fun_eq_iff fullscreen_mode_def)
  have fm1: "fullscreen_mode u1 = (case fs of (Some f, q) \<Rightarrow> (fullscreen_mode t)(q := Some f)
      | (None, q) \<Rightarrow> fullscreen_mode t)"
    using fm0 by (auto simp: u1_def split: option.splits prod.splits)
  have uniq: "i = j" if "fullscreen_mode (finish_splice rs fs g u) i \<noteq> None"
    "fullscreen_mode (finish_splice rs fs g u) j \<noteq> None" for i j
  proof (cases fs)
    case (Pair o' q)
    note un = modes_ok_unique [OF wfD(3) [OF W]]
    show ?thesis
    proof (cases o')
      case None
      then show ?thesis using that un fsm fm1 Pair by (auto split: if_splits)
    next
      case (Some f)
      then obtain r where r: "r \<in> set rs" "fullscreen_mode t r \<noteq> None" using fs Pair by blast
      have "k = q" if "fullscreen_mode (finish_splice rs fs g u) k \<noteq> None" for k
        using that un r fsm fm1 Pair Some by (auto split: if_splits)
      with that show ?thesis by blast
    qed
  qed
  have max: "is_leaf t i" if "pending_modes (finish_splice rs fs g u) i = Some m" "pm_maximized m" for i m
  proof -
    from that(1) have p: "pending_modes u1 i = Some m" "i \<notin> set rs" using rd u2 by (auto simp: res split: if_splits)
    show ?thesis
    proof (cases "\<exists>f q. fs = (Some f, q) \<and> i = q")
      case True
      then obtain f where "fs = (Some f, i)" by blast
      then show ?thesis using p(1) that(2) modes_ok_leaf [OF wfD(3) [OF W], of i] fm0
        by (auto simp: u1_def set_pending_fullscreen_def pending_mode_default_def split: option.splits)
    next
      case False
      then have "pending_modes u1 i = pending_modes t i"
        using fm0 by (auto simp: u1_def set_pending_fullscreen_def split: option.splits prod.splits)
      then show ?thesis using p(1) that(2) modes_ok_leaf [OF wfD(3) [OF W], of i m] by metis
    qed
  qed
  have "modes_ok (finish_splice rs fs g u)"
    unfolding modes_ok_def tiles using uniq max by blast
  then show "wft D E' (finish_splice rs fs g u)"
    using forest side rd u2 wfD(4) [OF W] by (simp add: wft_def res)
qed

section \<open>Splicing a pair\<close>

lemma insert_run_eq:
  "k \<le> length xs \<Longrightarrow> insert_run k gs xs = take k xs @ gs @ drop k xs"
proof (induction gs arbitrary: k xs)
  case (Cons g gs)
  then have "insert_run k (g # gs) xs = insert_run (Suc k) gs (take k xs @ g # drop k xs)"
    by (simp add: insert_at_def)
  also have "\<dots> = take (Suc k) (take k xs @ g # drop k xs) @ gs @ drop (Suc k) (take k xs @ g # drop k xs)"
    using Cons.prems by (intro Cons.IH) simp
  finally show ?case using Cons.prems by simp
qed simp

lemma insert_same_eq:
  "k \<le> length xs \<Longrightarrow> insert_same k gs xs = take k xs @ rev gs @ drop k xs"
proof (induction gs arbitrary: xs)
  case (Cons g gs)
  then have "insert_same k (g # gs) xs = insert_same k gs (take k xs @ g # drop k xs)"
    by (simp add: insert_at_def)
  also have "\<dots> = take k (take k xs @ g # drop k xs) @ rev gs @ drop k (take k xs @ g # drop k xs)"
    using Cons.prems by (intro Cons.IH) simp
  finally show ?case using Cons.prems by simp
qed simp

lemma splice_at_props:
  assumes "k < length xs" "distinct xs" "distinct gs" "set gs \<inter> set xs = {}"
  defines "ys \<equiv> take k (remove_at k xs) @ gs @ drop k (remove_at k xs)"
  shows "distinct ys" "set ys = (set xs - {xs ! k}) \<union> set gs" "length ys = length xs - 1 + length gs"
proof -
  have eq: "ys = take k xs @ gs @ drop (Suc k) xs"
    using assms(1) by (simp add: ys_def remove_at_def)
  have d: "distinct (take k xs @ drop (Suc k) xs)"
    using distinct_remove_at [OF assms(2), of k] by (simp add: remove_at_def)
  have s: "set (take k xs) \<union> set (drop (Suc k) xs) = set xs - {xs ! k}"
    using set_remove_at [OF assms(2,1)] by (simp add: remove_at_def)
  show "set ys = (set xs - {xs ! k}) \<union> set gs" using s by (auto simp: eq)
  show "length ys = length xs - 1 + length gs" using assms(1) by (simp add: eq)
  show "distinct ys" using d s assms(3,4) by (auto simp: eq)
qed

lemma shares_splice:
  assumes "shares ps" "shares qs" "qs \<noteq> []" "k < length ps"
  shows "shares (take k (remove_at k ps) @ map (\<lambda>q. ps ! k * q) qs @ drop k (remove_at k ps))"
proof -
  let ?r = "remove_at k ps"
  have pos: "\<forall>x\<in>set ps. 0 < x" "\<forall>x\<in>set qs. 0 < x" "sum_list qs = 1" "sum_list ps = 1"
    using assms by (auto simp: shares_def)
  have k: "0 < ps ! k" using pos(1) assms(4) by simp
  have "sum_list (take k ?r) + sum_list (drop k ?r) = sum_list ?r"
    by (metis append_take_drop_id sum_list_append)
  also have "\<dots> = 1 - ps ! k" using assms(4) pos(4) by simp
  finally have "sum_list (take k ?r) + sum_list (map (\<lambda>q. ps ! k * q) qs) + sum_list (drop k ?r) = 1"
    using sum_list_map_mult [of "ps ! k" qs] pos(3) by (simp add: mult.commute)
  moreover have "\<forall>x\<in>set (take k ?r) \<union> set (drop k ?r). 0 < x"
    using pos(1) set_remove_at_subset [of k ps] set_take_subset [of k ?r] set_drop_subset [of k ?r] by blast
  ultimately show ?thesis using pos(2) k by (auto simp: shares_def)
qed

lemma expect_parents_reads:
  assumes "\<forall>g\<in>set gs. contains_key t g"
  shows "parent_of (expect_parents gs p t) = (\<lambda>i. if i \<in> set gs then Some p else parent_of t i) \<and>
    contains_key (expect_parents gs p t) = contains_key t \<and>
    get_split (expect_parents gs p t) = get_split t \<and> tile_at (expect_parents gs p t) = tile_at t \<and>
    strip (expect_parents gs p t) = strip t \<and> panicked (expect_parents gs p t) = panicked t \<and>
    next_id (expect_parents gs p t) = next_id t"
  using assms
proof (induction gs arbitrary: t)
  case (Cons g gs)
  let ?t = "set_parent t g (Some p)"
  have "\<forall>x\<in>set gs. contains_key ?t x" using Cons.prems by simp
  from Cons.IH [OF this] Cons.prems show ?case by (auto simp: fun_eq_iff)
qed simp

text \<open>
  A pair: a container \<open>i\<close> with the single child \<open>c\<close>, a split with children \<open>gs\<close>, under \<open>p\<close>.
\<close>

lemma pair_bypassed:
  assumes W: "wft D {} t" and i: "parent_of t i = Some p" "get_split t i = Some (li, [c], psi, mi)"
    and c: "get_split t c = Some (lc, gs, qs, mc)" and p: "get_split t p = Some (lp, cs, ps, mp)"
    and cs': "distinct cs'" "set cs' = (set cs - {i}) \<union> set gs" "length ps' = length cs'" "shares ps'"
  defines "u \<equiv> expect_parents gs p (set_value t p (Split lp cs' ps' mp))"
  shows "bypassed D [i, c] p gs t u" "forest D {} (remove_all [i, c] u)"
    "gs \<noteq> []" "\<forall>g\<in>set gs. contains_key t g \<and> g \<noteq> i \<and> g \<noteq> c" "contains_key t p"
    "set gs \<inter> set cs = {}" "i \<noteq> p" "c \<noteq> p" "i \<noteq> c"
    "parent_of u = (\<lambda>x. if x \<in> set gs then Some p else parent_of t x)"
    "get_split u = (get_split t)(p := Some (lp, cs', ps', mp))"
proof -
  have F: "forest D {} t" using W by (rule wfD)
  have pc: "parent_of t c = Some i" using forest_splitD(2) [OF F i(2)] by simp
  have pg: "parent_of t g = Some c" if "g \<in> set gs" for g using forest_splitD(2) [OF F c that] .
  have K: "contains_key t i" "contains_key t c" "contains_key t p"
    using i c p get_split_contains by blast+
  have Kg: "contains_key t g" if "g \<in> set gs" for g using pg [OF that] by (rule parent_of_contains)
  have nroot: "i \<noteq> tree_root t" "c \<noteq> tree_root t" using forest_root_parent [OF F] i(1) pc by auto
  show "i \<noteq> p" using child_neq_parent [OF F i(1)] .
  show ic: "i \<noteq> c" using child_neq_parent [OF F pc] by simp
  have cp1: "(c, p) \<in> (up_edges (parent_of t))\<^sup>+"
    using pc i(1) by (meson trancl.r_into_trancl trancl_into_trancl up_edges_iff)
  show "c \<noteq> p" using cp1 forest_acyclic [OF F] by (auto simp: acyclic_def)
  have gp: "(g, p) \<in> (up_edges (parent_of t))\<^sup>+" if "g \<in> set gs" for g
    using pg [OF that] cp1 by (meson trancl_into_trancl2 up_edges_iff)
  have gic: "g \<noteq> i" "g \<noteq> c" if "g \<in> set gs" for g
    using pg [OF that] pc i(1) ic \<open>c \<noteq> p\<close> by auto
  then show "\<forall>g\<in>set gs. contains_key t g \<and> g \<noteq> i \<and> g \<noteq> c" using Kg by blast
  show "contains_key t p" by (rule K(3))
  show gne: "gs \<noteq> []" using forest_empty [OF F] c nroot(2) by blast
  have "parent_of t x = Some p" if "x \<in> set cs" for x using forest_splitD(2) [OF F p that] .
  then show "set gs \<inter> set cs = {}" using pg \<open>c \<noteq> p\<close> by fastforce
  let ?v = "set_value t p (Split lp cs' ps' mp)"
  have "\<forall>g\<in>set gs. contains_key ?v g" using Kg by simp
  note rd = expect_parents_reads [OF this, of p, folded u_def]
  show par: "parent_of u = (\<lambda>x. if x \<in> set gs then Some p else parent_of t x)"
    using rd by (simp add: fun_eq_iff)
  show spl: "get_split u = (get_split t)(p := Some (lp, cs', ps', mp))"
    using rd K(3) by (simp add: fun_eq_iff)
  have ku: "contains_key u = contains_key t" using rd by (simp add: fun_eq_iff)
  have su: "strip u = strip t" "panicked u = panicked t" "next_id u = next_id t" using rd by simp_all
  have tu: "tile_at u = tile_at t" using rd split_not_leaf [OF p] by (simp add: fun_eq_iff)
  have children: "x \<in> set gs" if "parent_of t x = Some c" for x
    using forest_parentD [OF F that] c by (metis option.inject prod.inject)
  have child_i: "x = c" if "parent_of t x = Some i" for x
    using forest_parentD [OF F that] i(2) by fastforce
  have tiles: "tile_at t i = None" "tile_at t c = None"
    using split_not_leaf i(2) c by blast+
  show B: "bypassed D [i, c] p gs t u"
    unfolding bypassed_def
  proof (intro conjI allI impI)
    fix x a assume x: "x \<notin> set [i, c]" and a: "parent_of u x = Some a"
    show "a \<notin> set [i, c]"
    proof (cases "x \<in> set gs")
      case True
      then show ?thesis using a \<open>i \<noteq> p\<close> \<open>c \<noteq> p\<close> by (simp add: par)
    next
      case False
      then have "parent_of t x = Some a" using a by (simp add: par)
      then show ?thesis using children [of x] child_i [of x] x False by auto
    qed
  qed (use K tiles nroot ic \<open>i \<noteq> p\<close> \<open>c \<noteq> p\<close> ku su tu in simp_all)
  have D: "i \<notin> D" "c \<notin> D" using forest_detached [OF F] i(1) pc by auto
  have "aforest (tree_root t) (next_id t) D {} (\<lambda>x. contains_key t x \<and> x \<notin> {i, c})
     (\<lambda>x. if x \<in> {i, c} then None else if x \<in> set gs then Some p else parent_of t x)
     (\<lambda>x. if x \<in> {i, c} then None else if x = p then Some (lp, cs', ps', mp) else get_split t x)"
  proof (rule aforest_splice [OF F [unfolded forest_iff] p, where q = i])
    show "\<exists>a. parent_of t x = Some a \<and> (a \<in> {i, c} \<or> a = p \<and> x = i)" if "x \<in> {i, c}" for x
      using that i(1) pc by auto
    show "set ds \<subseteq> {i, c} \<union> set gs"
      if "x \<in> {i, c}" "get_split t x = Some (l, ds, qs, m)" for x l ds qs m
      using that i(2) c by auto
    show "g \<notin> {i, c} \<and> (\<exists>a\<in>{i, c}. parent_of t g = Some a) \<and> (g, p) \<in> (up_edges (parent_of t))\<^sup>+"
      if "g \<in> set gs" for g using gic [OF that] pg [OF that] gp [OF that] by blast
  qed (use \<open>i \<noteq> p\<close> \<open>c \<noteq> p\<close> nroot D cs' gne in auto)
  moreover have "distinct [i, c]" "\<forall>r\<in>set [i, c]. contains_key u r" using ku K ic by auto
  note ra = remove_all_reads [OF this]
  ultimately show "forest D {} (remove_all [i, c] u)"
    using strip_fieldsD(1) [OF su(1)] su(3)
    by (simp add: forest_iff ra ku par spl fun_upd_def cong: if_cong)
qed

section \<open>Squashing\<close>

text \<open>\<open>shortcuts t t'\<close>: every parent link after follows parent links before, so nothing gets deeper.\<close>

definition shortcuts :: "tree \<Rightarrow> tree \<Rightarrow> bool" where
  "shortcuts t t' \<longleftrightarrow> up_edges (parent_of t') \<subseteq> (up_edges (parent_of t))\<^sup>+"

lemma shortcuts_refl: "shortcuts t t"
  by (auto simp: shortcuts_def)

lemma shortcuts_trans: "shortcuts t u \<Longrightarrow> shortcuts u v \<Longrightarrow> shortcuts t v"
  unfolding shortcuts_def by (metis order_trans trancl_id trancl_mono_subset trans_trancl)

lemma shortcuts_subset: "up_edges (parent_of t') \<subseteq> up_edges (parent_of t) \<Longrightarrow> shortcuts t t'"
  by (auto simp: shortcuts_def)

lemma pair_shortcut:
  "parent_of t g = Some c \<Longrightarrow> parent_of t c = Some i \<Longrightarrow> parent_of t i = Some p \<Longrightarrow>
     (g, p) \<in> (up_edges (parent_of t))\<^sup>+"
  by (meson trancl.r_into_trancl trancl_into_trancl up_edges_iff)

lemma squashable_childE:
  assumes "squashable_child t i = Some c"
  obtains p l psi mi lc gs qs mc lp cs ps mp where
    "parent_of t i = Some p" "get_split t i = Some (l, [c], psi, mi)"
    "get_split t c = Some (lc, gs, qs, mc)" "get_split t p = Some (lp, cs, ps, mp)"
    "linear l" "linear lc" "\<not> layouts_parallel l lc" "layouts_parallel lp lc"
    "\<not> (has_resident_root t \<and> p = tree_root t)"
proof -
  from assms have ch: "children_of t i = Some [c]" and sq: "is_squashable t i c"
    by (auto simp: squashable_child_def split: option.splits list.splits if_splits)
  from ch obtain l psi mi where i: "get_split t i = Some (l, [c], psi, mi)"
    by (auto simp: children_of_eq_Some)
  show ?thesis
    using sq i that
    by (auto simp: is_squashable_def split: option.splits if_splits prod.splits)
qed

definition squash_result :: "tree \<Rightarrow> nid \<Rightarrow> nid \<Rightarrow> nid \<Rightarrow> nid list \<Rightarrow> tree_node \<Rightarrow> tree" where
  "squash_result t i c p gs v =
     finish_splice [i, c] (find_map (fullscreen_mode t) [i, c], p) (hd gs)
       (expect_parents gs p (set_value t p v))"

lemma squash_eq:
  assumes W: "wft D {} t" and s: "squashable_child t i = Some c"
    and i: "parent_of t i = Some p" "get_split t i = Some (l, [c], psi, mi)"
    and c: "get_split t c = Some (lc, gs, qs, mc)" and p: "get_split t p = Some (lp, cs, ps, mp)"
  obtains k where "k < length cs" "cs ! k = i"
    "squash t i = squash_result t i c p gs
       (Split lp (take k (remove_at k cs) @ gs @ drop k (remove_at k cs))
          (take k (remove_at k ps) @ map (\<lambda>q. ps ! k * q) qs @ drop k (remove_at k ps)) mp)"
proof -
  have F: "forest D {} t" using W by (rule wfD)
  obtain k where k: "k < length cs" "cs ! k = i" "position i cs = Some k"
    using remove_child_eq [OF F i(1) p] by metis
  have len: "length ps = length cs" "length qs = length gs"
    using forest_splitD(3) [OF F p] forest_splitD(3) [OF F c] by auto
  have gne: "gs \<noteq> []"
    using forest_empty [OF F] c forest_root_parent [OF F] forest_splitD(2) [OF F i(2), of c] by auto
  have Kg: "\<forall>g\<in>set gs. contains_key t g"
    using forest_splitD(2) [OF F c] parent_of_contains by blast
  have mz: "map (\<lambda>(g, q). ps ! k * q) (zip gs qs) = map (\<lambda>q. ps ! k * q) qs"
    using map_snd_zip [of gs qs] len(2) by (simp add: case_prod_beta' map_map [symmetric, unfolded comp_def])
  let ?v = "Split lp (take k (remove_at k cs) @ gs @ drop k (remove_at k cs))
          (take k (remove_at k ps) @ map (\<lambda>q. ps ! k * q) qs @ drop k (remove_at k ps)) mp"
  have r1: "insert_run k gs (remove_at k cs) = take k (remove_at k cs) @ gs @ drop k (remove_at k cs)"
    using k(1) by (intro insert_run_eq) simp
  have r2: "insert_run k (map (\<lambda>q. ps ! k * q) qs) (remove_at k ps) =
      take k (remove_at k ps) @ map (\<lambda>q. ps ! k * q) qs @ drop k (remove_at k ps)"
    using k(1) len(1) by (intro insert_run_eq) simp
  have "\<forall>g\<in>set gs. contains_key (set_value t p ?v) g" using Kg by simp
  note rd = expect_parents_reads [OF this, of p]
  have fm: "fullscreen_mode (expect_parents gs p (set_value t p ?v)) = fullscreen_mode t"
    using rd strip_fieldsD(6) [of "expect_parents gs p (set_value t p ?v)" t]
    by (simp add: fun_eq_iff fullscreen_mode_def)
  have foc: "focus x \<in> Some ` set [i, c] \<longleftrightarrow> focus x = Some i \<or> focus x = Some c" for x by auto
  have "squash t i = squash_result t i c p gs ?v"
    unfolding squash_def squash_result_def finish_splice_def foc
    using i s c p k len gne
    by (simp add: r1 r2 mz fm Let_def remove_all_def list.case_eq_if split: option.splits)
  then show ?thesis using that k(1,2) by blast
qed

lemma squash_wf:
  assumes W: "wft D {} t" and s: "squashable_child t i = Some c"
  shows "wft D {} (squash t i)" "focus_in X t \<Longrightarrow> focus_in X (squash t i)" "steady t (squash t i)"
    "contains_key (squash t i) = (\<lambda>x. contains_key t x \<and> x \<notin> {i, c})"
    "contains_key t i" "i \<noteq> c" "next_id (squash t i) = next_id t"
    "has_resident_root (squash t i) = has_resident_root t" "shortcuts t (squash t i)"
    "parent_of (squash t i) = (\<lambda>x. if x = i \<or> x = c then None
       else if parent_of t x = Some c then parent_of t i else parent_of t x)"
proof -
  have F: "forest D {} t" using W by (rule wfD)
  obtain p l psi mi lc gs qs mc lp cs ps mp where
    i: "parent_of t i = Some p" "get_split t i = Some (l, [c], psi, mi)"
    and c: "get_split t c = Some (lc, gs, qs, mc)" and p: "get_split t p = Some (lp, cs, ps, mp)"
    using squashable_childE [OF s] by metis
  obtain k where k: "k < length cs" "cs ! k = i"
    "squash t i = squash_result t i c p gs
       (Split lp (take k (remove_at k cs) @ gs @ drop k (remove_at k cs))
          (take k (remove_at k ps) @ map (\<lambda>q. ps ! k * q) qs @ drop k (remove_at k ps)) mp)"
    using squash_eq [OF W s i c p] .
  let ?cs = "take k (remove_at k cs) @ gs @ drop k (remove_at k cs)"
  let ?ps = "take k (remove_at k ps) @ map (\<lambda>q. ps ! k * q) qs @ drop k (remove_at k ps)"
  have pgc: "parent_of t g = Some c" if "g \<in> set gs" for g using forest_splitD(2) [OF F c that] .
  have len: "length ps = length cs" "length qs = length gs" "shares ps" "shares qs" "distinct cs" "distinct gs"
    using forest_splitD [OF F p] forest_splitD [OF F c] by auto
  have pc: "parent_of t c = Some i" using forest_splitD(2) [OF F i(2)] by simp
  have gne: "gs \<noteq> []" using forest_empty [OF F] c forest_root_parent [OF F] pc by auto
  have "c \<noteq> p" using pc i(1) forest_acyclic [OF F]
    by (metis acyclic_def trancl.simps up_edges_iff)
  then have disj: "set gs \<inter> set cs = {}" using pgc forest_splitD(2) [OF F p] by fastforce
  note cs' = splice_at_props [OF k(1) len(5,6) disj]
  have ps': "length ?ps = length ?cs" using k(1) len(1,2) by simp
  have sh: "shares ?ps" by (rule shares_splice [OF len(3,4)]) (use gne len k(1) in auto)
  note pb = pair_bypassed [OF W i c p cs'(1) cs'(2) [unfolded k(2)] ps' sh]
  have hg: "contains_key t (hd gs)" "hd gs \<notin> set [i, c]" using pb(3,4) by auto
  have fs: "\<forall>f q. (find_map (fullscreen_mode t) [i, c], p) = (Some f, q) \<longrightarrow>
      contains_key t q \<and> q \<notin> set [i, c] \<and> (\<exists>r\<in>set [i, c]. fullscreen_mode t r \<noteq> None)"
    using pb(5,7,8) by (auto split: option.splits)
  note fin = finish_splice_wf [OF W pb(1,2) fs hg]
  show "wft D {} (squash t i)" "focus_in X t \<Longrightarrow> focus_in X (squash t i)" "steady t (squash t i)"
    "contains_key (squash t i) = (\<lambda>x. contains_key t x \<and> x \<notin> {i, c})"
    "next_id (squash t i) = next_id t" "has_resident_root (squash t i) = has_resident_root t"
    unfolding k(3) squash_result_def using fin by auto
  show "contains_key t i" using i(1) by (rule parent_of_contains)
  show "i \<noteq> c" by (rule pb(9))
  show "shortcuts t (squash t i)"
    unfolding k(3) squash_result_def shortcuts_def
    using fin(5) pb(10) pgc pc i(1) pair_shortcut [of t _ c i p]
    by (auto simp: up_edges_def split: if_splits)
  have "parent_of t x = Some c \<longleftrightarrow> x \<in> set gs" for x
    using pgc c F by (auto elim!: forest_parentD)
  then show "parent_of (squash t i) = (\<lambda>x. if x = i \<or> x = c then None
       else if parent_of t x = Some c then parent_of t i else parent_of t x)"
    unfolding k(3) squash_result_def using fin(5) pb(10) i(1) by (auto simp: fun_eq_iff)
qed

section \<open>Compaction\<close>

lemma finite_keys: "forest D E t \<Longrightarrow> finite {i. contains_key t i}"
  by (rule finite_subset [of _ "{..<next_id t}"]) (auto dest: forest_bound)

lemma card_keys:
  assumes "forest D E t"
  shows "card {i. contains_key t i} \<le> next_id t"
proof -
  have "card {i. contains_key t i} \<le> card {..<next_id t}"
    by (rule card_mono) (use forest_bound [OF assms] in auto)
  then show ?thesis by simp
qed

lemma squashable_contains: "squashable_child t i = Some c \<Longrightarrow> contains_key t i"
  by (auto elim: squashable_childE dest: get_split_contains)

lemma compact_loop_props:
  assumes "wft {} {} t" "card {i. contains_key t i} < k"
  shows "wft {} {} (compact_loop k t) \<and> (focus_in X t \<longrightarrow> focus_in X (compact_loop k t)) \<and>
    steady t (compact_loop k t) \<and> (\<forall>i. squashable_child (compact_loop k t) i = None) \<and>
    (\<forall>i. contains_key (compact_loop k t) i \<longrightarrow> contains_key t i) \<and>
    has_resident_root (compact_loop k t) = has_resident_root t \<and>
    next_id (compact_loop k t) = next_id t \<and> shortcuts t (compact_loop k t)"
  using assms
proof (induction k arbitrary: t)
  case (Suc k)
  let ?find = "find_map (\<lambda>i. map_option (\<lambda>_. i) (squashable_child t i)) (iter_depth_first t)"
  have F: "forest {} {} t" using Suc.prems(1) by (rule wfD)
  show ?case
  proof (cases ?find)
    case None
    then have "squashable_child t i = None" if "contains_key t i" for i
      using iter_depth_first_all(1) [OF F] that by simp
    then have "squashable_child t i = None" for i
      using squashable_contains [of t i] by (cases "squashable_child t i") auto
    moreover have "compact_loop (Suc k) t = t" by (simp only: compact_loop.simps None option.case)
    ultimately show ?thesis using Suc.prems shortcuts_refl by simp
  next
    case (Some i)
    then obtain c where c: "squashable_child t i = Some c" by (auto elim!: find_map_SomeE)
    note sq = squash_wf [OF Suc.prems(1) c]
    have "{x. contains_key (squash t i) x} \<subset> {x. contains_key t x}" using sq(4,5) by auto
    then have "card {x. contains_key (squash t i) x} < card {x. contains_key t x}"
      using finite_keys [OF F] by (rule psubset_card_mono [rotated])
    then have "card {x. contains_key (squash t i) x} < k" using Suc.prems(2) by simp
    note IH = Suc.IH [OF sq(1) this]
    show ?thesis
      using IH sq Some steady_trans [OF sq(3)] shortcuts_trans [OF sq(9)] by auto
  qed
qed simp

theorem compact_tree_props:
  assumes W: "wft {} {} t"
  shows "wft {} {} (compact_tree t)" "focus_in X t \<Longrightarrow> focus_in X (compact_tree t)"
    "steady t (compact_tree t)" "squashable_child (compact_tree t) i = None"
    "contains_key (compact_tree t) i \<Longrightarrow> contains_key t i"
    "has_resident_root (compact_tree t) = has_resident_root t"
    "next_id (compact_tree t) = next_id t" "shortcuts t (compact_tree t)"
proof -
  have "card {i. contains_key t i} < walk_fuel t"
    using card_keys [OF wfD(1) [OF W]] by (simp add: walk_fuel_def)
  note * = compact_loop_props [OF W this, of X]
  then show "wft {} {} (compact_tree t)" "focus_in X t \<Longrightarrow> focus_in X (compact_tree t)"
    "steady t (compact_tree t)" "squashable_child (compact_tree t) i = None"
    "contains_key (compact_tree t) i \<Longrightarrow> contains_key t i"
    "has_resident_root (compact_tree t) = has_resident_root t" "next_id (compact_tree t) = next_id t"
    "shortcuts t (compact_tree t)"
    by (simp_all add: compact_tree_def)
qed

lemma inv_compact_tree: "inv t \<Longrightarrow> inv (compact_tree t)"
  using compact_tree_props(1-3) [OF invD(1)] inv_step invD(2) by blast

section \<open>Reaping\<close>

lemma reap_view_loop_Some:
  "reap_view_loop k t p = Some v \<Longrightarrow> v \<in> set (focus_history t) \<and> is_leaf t v"
proof (induction k arbitrary: p)
  case (Suc k)
  then show ?case by (auto split: option.splits dest: find_SomeD)
qed simp

lemma raise_view_reads [simp]:
  "nodes (raise_view_after_reap t p) = nodes t" "tree_root (raise_view_after_reap t p) = tree_root t"
  "next_id (raise_view_after_reap t p) = next_id t" "panicked (raise_view_after_reap t p) = panicked t"
  "focus (raise_view_after_reap t p) = focus t"
  "pending_modes (raise_view_after_reap t p) = pending_modes t"
  "has_resident_root (raise_view_after_reap t p) = has_resident_root t"
  by (simp_all add: raise_view_after_reap_def Let_def split: option.splits)

lemma raise_view_structure [simp]:
  "contains_key (raise_view_after_reap t p) = contains_key t"
  "parent_of (raise_view_after_reap t p) = parent_of t"
  "get_split (raise_view_after_reap t p) = get_split t"
  "tile_at (raise_view_after_reap t p) = tile_at t"
  by (simp_all add: fun_eq_iff contains_key_def parent_of_def get_split_def tile_at_def value_of_def)

lemma raise_view_history:
  "set (focus_history (raise_view_after_reap t p)) = set (focus_history t)"
  "distinct (focus_history t) \<Longrightarrow> distinct (focus_history (raise_view_after_reap t p))"
  using reap_view_loop_Some [of "walk_fuel t" t p]
  by (auto simp: raise_view_after_reap_def Let_def split: option.splits)

lemma side_ok_raise_view: 
  assumes "side_ok t"
  shows "side_ok (raise_view_after_reap t p)"
  using assms raise_view_history [of t p] unfolding side_ok_def raise_view_structure
  by (auto simp: raise_view_after_reap_def Let_def split: option.splits)

lemma wf_raise_view:
  assumes "wft D E t"
  shows "wft D E (raise_view_after_reap t p)"
  using assms side_ok_raise_view forest_cong [of "raise_view_after_reap t p" t D E]
    modes_ok_cong [of "raise_view_after_reap t p" t]
  by (auto simp: wft_def)

text \<open>One step of the reaping loops: an emptied split goes away and its parent may be emptied.\<close>

definition reap_step :: "tree \<Rightarrow> nid \<Rightarrow> nid \<Rightarrow> tree" where
  "reap_step t i p = remove_child (fst (remove_node
     (if focus t = Some i then set_focus_id t (Some p) else t) i)) p i"

lemma reap_step_props:
  assumes W: "wft D E t" and i: "get_split t i = Some (l, [], ps, m)" and p: "parent_of t i = Some p"
  shows "wft D (insert p (E - {i})) (reap_step t i p)"
    "focus_in X t \<Longrightarrow> focus_in X (reap_step t i p)" "steady t (reap_step t i p)"
    "contains_key (reap_step t i p) = (contains_key t)(i := False)"
    "parent_of (reap_step t i p) = (parent_of t)(i := None)"
    "x \<noteq> i \<Longrightarrow> x \<noteq> p \<Longrightarrow> get_split (reap_step t i p) x = get_split t x"
    "next_id (reap_step t i p) = next_id t"
    "has_resident_root (reap_step t i p) = has_resident_root t"
proof -
  let ?u = "if focus t = Some i then set_focus_id t (Some p) else t"
  have F: "forest D E t" using W by (rule wfD)
  have ne: "p \<noteq> i" using child_neq_parent [OF F p] by simp
  have pK: "contains_key t p" using F p by (rule forest_parentD) (rule get_split_contains)
  have iK: "contains_key t i" using i by (rule get_split_contains)
  have Wu: "wft D E ?u" using W wf_set_focus_id [OF W, of "Some p"] pK by simp
  have u: "contains_key ?u = contains_key t" "parent_of ?u = parent_of t" "get_split ?u = get_split t"
    "tile_at ?u = tile_at t" "tree_root ?u = tree_root t" "next_id ?u = next_id t"
    "has_resident_root ?u = has_resident_root t"
    by simp_all
  have Fu: "forest D E ?u" using Wu by (rule wfD)
  have uK: "contains_key ?u i" and up: "parent_of ?u i = Some p" using iK p u by simp_all
  have nc: "\<forall>cs. children_of ?u i = Some cs \<longrightarrow> cs = []"
    using i u(3) by (simp add: children_of_def)
  note del = delete_child_forest [OF Fu up nc]
  have eq: "reap_step t i p = remove_child (fst (remove_node ?u i)) p i" by (simp add: reap_step_def)
  have st: "strip (reap_step t i p) = strip (fst (remove_node ?u i))" using del(7) by (simp only: eq)
  note sf = strip_fieldsD [OF st] and rd = remove_node_reads [OF uK]
  show K: "contains_key (reap_step t i p) = (contains_key t)(i := False)"
    using del(2) u(1) by (simp only: eq)
  show "parent_of (reap_step t i p) = (parent_of t)(i := None)" using del(3) u(2) by (simp only: eq)
  have ti: "tile_at t i = None" using i by (rule split_not_leaf)
  have T: "tile_at (reap_step t i p) = tile_at t"
    using del(4) ti u(4) by (simp only: eq) auto
  show "get_split (reap_step t i p) x = get_split t x" if "x \<noteq> i" "x \<noteq> p"
  proof -
    obtain l cs ps m k where "get_split (reap_step t i p) =
        (get_split t)(p := Some (l, remove_at k cs, rescale (remove_at k ps), m), i := None)"
      using del(6) unfolding u(3) eq by blast
    then show ?thesis using that by simp
  qed
  show N: "next_id (reap_step t i p) = next_id t" using del(8) u(6) by (simp only: eq)
  show "has_resident_root (reap_step t i p) = has_resident_root t"
    using sf(14) rd(7) u(7) by simp
  have foc: "focus (reap_step t i p) = (if focus t = Some i then Some p else focus t)"
    using sf(2) rd(6) by simp
  show "focus_in X (reap_step t i p)" if "focus_in X t"
    using that foc K pK ne by (auto simp: focus_in_def)
  show "steady t (reap_step t i p)"
    using T foc N sf(1) rd(3) u(5) by (simp add: steady_def)
  have "side_ok (fst (remove_node ?u i))" using Wu by (intro side_ok_remove_node wfD)
  then have side: "side_ok (reap_step t i p)"
    by (rule side_ok_cong [OF st, rotated]) (use K remove_node_structure(1) [OF uK] u(1) in auto)
  have pm: "pending_modes (reap_step t i p) = (pending_modes t)(i := None)"
    using sf(6) rd(10) by simp
  have "modes_ok (reap_step t i p)"
    using wfD(3) [OF W] unfolding modes_ok_def T fullscreen_mode_def pm by (auto split: if_splits)
  then show "wft D (insert p (E - {i})) (reap_step t i p)"
    using del(1,5) side wfD(4) [OF Wu] by (simp only: wft_def eq) simp
qed

lemma up_path_upd:
  "i \<notin> set (up_path k P x) \<Longrightarrow> up_path k (P(i := v)) x = up_path k P x"
  by (induction k arbitrary: x) (auto split: option.splits)

lemma reap_loop_props:
  assumes "wft {} E t" "E \<subseteq> {i}" "length (up_path k (parent_of t) i) < k"
  shows "wft {} {} (reap_loop k t i) \<and> (focus_in X t \<longrightarrow> focus_in X (reap_loop k t i)) \<and>
    steady t (reap_loop k t i) \<and>
    (\<forall>x. contains_key (reap_loop k t i) x \<longrightarrow> contains_key t x) \<and>
    has_resident_root (reap_loop k t i) = has_resident_root t \<and>
    next_id (reap_loop k t i) = next_id t \<and> shortcuts t (reap_loop k t i) \<and>
    (\<forall>x. \<not> below t i x \<longrightarrow> contains_key (reap_loop k t i) x = contains_key t x \<and>
       get_split (reap_loop k t i) x = get_split t x \<and> parent_of (reap_loop k t i) x = parent_of t x)"
  using assms
proof (induction k arbitrary: t i E)
  case (Suc k)
  have F: "forest {} E t" using Suc.prems(1) by (rule wfD)
  show ?case
  proof (cases "i \<noteq> tree_root t \<and> (\<exists>l ps m. get_split t i = Some (l, [], ps, m))")
    case False
    then have "forest {} {} t"
      using F Suc.prems(2) unfolding forest_def empties_def by blast
    then have "wft {} {} t" using Suc.prems(1) by (simp add: wft_def)
    moreover have "reap_loop (Suc k) t i = t" using False by (auto split: option.splits)
    ultimately show ?thesis using shortcuts_refl by simp
  next
    case True
    then obtain l ps m where i: "get_split t i = Some (l, [], ps, m)" "i \<noteq> tree_root t" by blast
    have "parent_of t i \<noteq> None" using forest_top [OF F get_split_contains [OF i(1)]] i(2) by blast
    then obtain p where p: "parent_of t i = Some p" by blast
    let ?s = "reap_step t i p" let ?t = "raise_view_after_reap ?s p"
    note rs = reap_step_props [OF Suc.prems(1) i(1) p]
    have W: "wft {} (insert p (E - {i})) ?t" using rs(1) by (rule wf_raise_view)
    have E: "insert p (E - {i}) \<subseteq> {p}" using Suc.prems(2) by blast
    have ip: "below t i p" using p by (simp add: r_into_rtrancl)
    have "i \<notin> set (up_path k (parent_of t) p)"
      using up_path_reach links.no_self_loop [OF arena_okI [OF F] p] by blast
    then have "length (up_path k (parent_of ?t) p) < k"
      using Suc.prems(3) p rs(5) by (simp add: up_path_upd)
    note IH = Suc.IH [OF W E this]
    have red: "reap_loop (Suc k) t i = reap_loop k ?t p"
      using i p by (simp add: reap_step_def Let_def)
    have foc: "focus_in X t \<longrightarrow> focus_in X ?t" using rs(2) by (auto simp: focus_in_def)
    have st: "steady t ?t" using rs(3) by (simp add: steady_def)
    have up: "below t i x" if "below ?t p x" for x
    proof -
      have "up_edges (parent_of ?t) \<subseteq> up_edges (parent_of t)"
        using rs(5) by (auto simp: up_edges_def split: if_splits)
      then have "below t p x" using that rtrancl_mono by blast
      then show ?thesis using ip by (rule rtrancl_trans [rotated])
    qed
    have keep: "contains_key ?t x = contains_key t x \<and> get_split ?t x = get_split t x \<and>
        parent_of ?t x = parent_of t x" if "\<not> below t i x" for x
      using that ip rs(4,5) rs(6) [of x] by auto
    have "steady t (reap_loop k ?t p)" using st IH by (blast intro: steady_trans)
    moreover have "\<forall>x. contains_key (reap_loop k ?t p) x \<longrightarrow> contains_key t x"
      using IH rs(4) by (auto split: if_splits)
    moreover have "\<forall>x. \<not> below t i x \<longrightarrow> contains_key (reap_loop k ?t p) x = contains_key t x \<and>
       get_split (reap_loop k ?t p) x = get_split t x \<and> parent_of (reap_loop k ?t p) x = parent_of t x"
      using IH up keep by metis
    moreover have "shortcuts t ?t"
      by (rule shortcuts_subset) (use rs(5) in \<open>auto simp: up_edges_def split: if_splits\<close>)
    ultimately show ?thesis unfolding red using IH foc rs(7,8) shortcuts_trans by auto
  qed
qed simp

theorem reap_empty_from_props:
  assumes W: "wft {} {i} t"
  shows "wft {} {} (reap_empty_from t i)" "focus_in X t \<Longrightarrow> focus_in X (reap_empty_from t i)"
    "steady t (reap_empty_from t i)"
    "contains_key (reap_empty_from t i) x \<Longrightarrow> contains_key t x"
    "has_resident_root (reap_empty_from t i) = has_resident_root t"
    "next_id (reap_empty_from t i) = next_id t"
    "\<not> below t i x \<Longrightarrow> contains_key (reap_empty_from t i) x = contains_key t x"
    "\<not> below t i x \<Longrightarrow> get_split (reap_empty_from t i) x = get_split t x"
    "\<not> below t i x \<Longrightarrow> parent_of (reap_empty_from t i) x = parent_of t x"
    "shortcuts t (reap_empty_from t i)"
proof -
  have "length (up_path (walk_fuel t) (parent_of t) i) < walk_fuel t"
    using links.up_path_length [OF arena_okI [OF wfD(1) [OF W]], of "walk_fuel t" i]
    by (simp add: walk_fuel_def)
  note * = reap_loop_props [OF W subset_refl this, of X]
  then show "wft {} {} (reap_empty_from t i)" "focus_in X t \<Longrightarrow> focus_in X (reap_empty_from t i)"
    "steady t (reap_empty_from t i)" "contains_key (reap_empty_from t i) x \<Longrightarrow> contains_key t x"
    "has_resident_root (reap_empty_from t i) = has_resident_root t"
    "next_id (reap_empty_from t i) = next_id t"
    "\<not> below t i x \<Longrightarrow> contains_key (reap_empty_from t i) x = contains_key t x"
    "\<not> below t i x \<Longrightarrow> get_split (reap_empty_from t i) x = get_split t x"
    "\<not> below t i x \<Longrightarrow> parent_of (reap_empty_from t i) x = parent_of t x"
    "shortcuts t (reap_empty_from t i)"
    by (simp_all add: reap_empty_from_def)
qed

section \<open>The squash of directional moves\<close>

text \<open>
  \<open>shrinks t t'\<close>: the invariant holds after, the tiles and the focus are kept, and no node is
  new. It is reflexive on sound trees and transitive, so it composes along the loops.
\<close>

definition shrinks :: "tree \<Rightarrow> tree \<Rightarrow> bool" where
  "shrinks t t' \<longleftrightarrow> wft {} {} t' \<and> (\<forall>X. focus_in X t \<longrightarrow> focus_in X t') \<and> steady t t' \<and>
     (\<forall>x. contains_key t' x \<longrightarrow> contains_key t x) \<and>
     has_resident_root t' = has_resident_root t \<and> next_id t' = next_id t \<and> shortcuts t t'"

lemma shrinks_refl: "wft {} {} t \<Longrightarrow> shrinks t t"
  by (simp add: shrinks_def shortcuts_refl)

lemma shrinks_trans [trans]: "shrinks t u \<Longrightarrow> shrinks u v \<Longrightarrow> shrinks t v"
  unfolding shrinks_def using steady_trans shortcuts_trans by (metis (no_types, lifting))

lemma shrinks_wf: "shrinks t t' \<Longrightarrow> wft {} {} t'"
  by (simp add: shrinks_def)

lemma inv_shrinks: "inv t \<Longrightarrow> shrinks t t' \<Longrightarrow> inv t'"
  using inv_step invD(2) unfolding shrinks_def by blast

lemma shrinks_compact: "wft {} {} t \<Longrightarrow> shrinks t (compact_tree t)"
  using compact_tree_props [of t] by (simp add: shrinks_def)

lemma shrinks_squash: "wft {} {} t \<Longrightarrow> squashable_child t i = Some c \<Longrightarrow> shrinks t (squash t i)"
  using squash_wf [of "{}" t i c] by (simp add: shrinks_def)

lemma shares_rev_splice:
  assumes "shares ps" "shares qs" "qs \<noteq> []" "k < length ps"
  defines "xs \<equiv> take k (remove_at k ps) @ rev qs @ drop k (remove_at k ps)"
  shows "shares (map (\<lambda>x. x / sum_list xs) xs)" "0 < sum_list xs"
proof -
  have "\<forall>x\<in>set xs. 0 < x"
    using assms set_remove_at_subset [of k ps] set_take_subset [of k "remove_at k ps"]
      set_drop_subset [of k "remove_at k ps"]
    by (fastforce simp: shares_def)
  then show "shares (map (\<lambda>x. x / sum_list xs) xs)" by (rule shares_normalize)
  show "0 < sum_list xs"
    using \<open>\<forall>x\<in>set xs. 0 < x\<close> assms(3) by (intro sum_list_pos) (auto simp: xs_def)
qed

lemma squash_pair_for_move_props:
  assumes W: "wft {} {} t" and s: "squashable_child t i = Some c" and p0: "parent_of t i = Some p0"
  shows "shrinks t (fst (squash_pair_for_move t i c p0))"
proof -
  have F: "forest {} {} t" using W by (rule wfD)
  obtain p l psi mi lc gs qs mc lp cs ps mp where
    i: "parent_of t i = Some p" "get_split t i = Some (l, [c], psi, mi)"
    and c: "get_split t c = Some (lc, gs, qs, mc)" and p: "get_split t p = Some (lp, cs, ps, mp)"
    using squashable_childE [OF s] by metis
  have pp: "p0 = p" using p0 i(1) by simp
  obtain k where k: "k < length cs" "cs ! k = i" "position i cs = Some k"
    using remove_child_eq [OF F i(1) p] by metis
  have len: "length ps = length cs" "length qs = length gs" "shares ps" "shares qs" "distinct cs" "distinct gs"
    using forest_splitD [OF F p] forest_splitD [OF F c] by auto
  have pc: "parent_of t c = Some i" using forest_splitD(2) [OF F i(2)] by simp
  have gne: "gs \<noteq> []" using forest_empty [OF F] c forest_root_parent [OF F] pc by auto
  have "c \<noteq> p" using pc i(1) forest_acyclic [OF F]
    by (metis acyclic_def trancl.simps up_edges_iff)
  then have disj: "set (rev gs) \<inter> set cs = {}"
    using forest_splitD(2) [OF F c] forest_splitD(2) [OF F p] by fastforce
  let ?cs = "take k (remove_at k cs) @ rev gs @ drop k (remove_at k cs)"
  let ?xs = "take k (remove_at k ps) @ rev qs @ drop k (remove_at k ps)"
  let ?ps = "map (\<lambda>x. x / sum_list ?xs) ?xs"
  let ?u = "expect_parents gs p (set_value t p (Split lp ?cs ?ps mp))"
  note cs' = splice_at_props [OF k(1) len(5) distinct_rev [THEN iffD2, OF len(6)] disj]
  have sh: "shares ?ps" "0 < sum_list ?xs"
    by (rule shares_rev_splice [OF len(3,4)]; use gne len k(1) in auto)+
  have set: "set ?cs = (set cs - {i}) \<union> set gs" using cs'(2) k(2) by simp
  have psl: "length ?ps = length ?cs" using k(1) len(1,2) by simp
  note pb = pair_bypassed [OF W i c p cs'(1) set psl sh(1)]
  have g: "contains_key t (last gs)" "last gs \<notin> set [i, c]" using pb(3,4) by auto
  have r1: "insert_same k gs (remove_at k cs) = ?cs" using k(1) by (intro insert_same_eq) simp
  have r2: "insert_same k qs (remove_at k ps) = ?xs" using k(1) len(1) by (intro insert_same_eq) simp
  have mz: "map fst (zip gs qs) = gs" "map snd (zip gs qs) = qs" "zip gs qs \<noteq> []"
    using len(2) gne by auto
  have qne: "qs \<noteq> []" using len(2) gne by auto
  have lz: "fst (last (zip gs qs)) = last gs" using mz last_map [of "zip gs qs" fst] by simp
  have foc: "focus x \<in> Some ` set [i, c] \<longleftrightarrow> focus x = Some i \<or> focus x = Some c" for x by auto
  have eq: "fst (squash_pair_for_move t i c p0) = finish_splice [i, c] (None, p) (last gs) ?u"
    unfolding squash_pair_for_move_def finish_splice_def foc pp
    using c p k len sh(2) gne qne by (simp add: r1 r2 mz lz Let_def remove_all_def)
  note fin = finish_splice_wf [OF W pb(1,2) _ g, of "(None, p)"]
  have "shortcuts t (finish_splice [i, c] (None, p) (last gs) ?u)"
    unfolding shortcuts_def using fin(5) pb(10) pc i(1) forest_splitD(2) [OF F c] pair_shortcut [of t _ c i p]
    by (auto simp: up_edges_def split: if_splits)
  then show ?thesis unfolding shrinks_def eq using fin by auto
qed

lemma squash_for_move_shrinks:
  shows "wft {} {} t \<Longrightarrow> shrinks t (fst (squash_for_move_from k t i))"
    and "wft {} {} t \<Longrightarrow> shrinks t (squash_children_loop k t p n)"
proof (induction k t i and k t p n rule: squash_for_move_from_squash_children_loop.induct)
  case (2 k t i)
  show ?case
  proof (cases "split_len t i = None")
    case False
    show ?thesis
    proof (cases "squash_pair_of t i")
      case None
      then show ?thesis using False 2 by auto
    next
      case (Some cp)
      then obtain c p where cp: "cp = (c, p)" "squashable_child t i = Some c" "parent_of t i = Some p"
        by (auto simp: squash_pair_of_def split: option.splits if_splits)
      then show ?thesis using False Some squash_pair_for_move_props [OF 2(2)] by auto
    qed
  qed (use 2 shrinks_refl in simp)
next
  case (4 k t p n)
  show ?case
  proof (cases "child_at t p n")
    case (Some c)
    obtain t' d where td: "squash_for_move_from k t c = (t', d)" by fastforce
    have "shrinks t t'" using 4(1) [OF Some 4(3)] td by simp
    moreover have "shrinks t' (squash_children_loop k t' p (nat (int n + d) + 1))"
      using 4(2) [OF Some td [symmetric] refl] shrinks_wf [OF calculation] by simp
    ultimately show ?thesis using Some td by (simp add: shrinks_trans)
  qed (use 4 shrinks_refl in simp)
qed (simp_all add: shrinks_refl)

lemma relabel_shrinks:
  assumes W: "wft {} {} t" and p: "get_split t p = Some (l, cs, ps, m)"
    and "distinct cs'" "set cs' = set cs" "length ps' = length cs'" "shares ps'"
  shows "shrinks t (set_value t p (Split l' cs' ps' m'))"
  using relabel_wft [OF assms] strip_fieldsD [OF strip_set_value]
  by (simp add: shrinks_def steady_def focus_in_def set_value_reads relabel_tiles [OF p] shortcuts_subset)

lemma freshen_shrinks:
  assumes W: "wft {} {} t"
  shows "shrinks t (freshen t i)"
proof (cases "\<exists>p l cs ps m k. parent_of t i = Some p \<and> get_split t p = Some (l, cs, ps, m) \<and>
    position i cs = Some k \<and> \<not> length cs < 2")
  case True
  then obtain p l cs ps m k where p: "parent_of t i = Some p" "get_split t p = Some (l, cs, ps, m)"
    "position i cs = Some k" "\<not> length cs < 2" by blast
  let ?ps = "ps[k := sum_list (remove_at k ps) / real (length cs - 1)]"
  have F: "forest {} {} t" using W by (rule wfD)
  have len: "length ps = length cs" "shares ps" using forest_splitD [OF F p(2)] by auto
  have k: "k < length ps" using position_Some [OF p(3)] len by simp
  have "remove_at k ps \<noteq> []" using length_remove_at [OF k] len p(4) by (metis One_nat_def
    diff_is_0_eq less_Suc_eq_le list.size(3) numeral_2_eq_2)
  moreover have "\<forall>x\<in>set (remove_at k ps). 0 < x"
    using len(2) set_remove_at_subset [of k ps] by (auto simp: shares_def)
  ultimately have "0 < sum_list (remove_at k ps)" by (rule sum_list_pos)
  then have pos: "\<forall>x\<in>set ?ps. 0 < x"
    using len(2) p(4) set_update_subset_insert [of ps k] by (fastforce simp: shares_def)
  moreover have "?ps \<noteq> []" using k by auto
  ultimately have "0 < sum_list ?ps" by (rule sum_list_pos [rotated])
  then have eq: "freshen t i = set_value t p (Split l cs (map (\<lambda>x. x / sum_list ?ps) ?ps) m)"
    using p by (simp add: freshen_def Let_def)
  show ?thesis
    unfolding eq by (rule relabel_shrinks [OF W p(2)]) (use len shares_normalize [OF pos] forest_splitD(1) [OF F p(2)] in simp_all)
next
  case False
  then have "freshen t i = t"
    by (auto simp: freshen_def simp del: position_None split: option.splits)
  then show ?thesis using W by (simp add: shrinks_refl)
qed

theorem squash_for_move_props: "wft {} {} t \<Longrightarrow> shrinks t (squash_for_move t fresh)"
proof -
  assume W: "wft {} {} t"
  let ?u = "squash_children_loop (2 * walk_fuel t) t (tree_root t) 0"
  have u: "shrinks t ?u" using W by (rule squash_for_move_shrinks(2))
  have "shrinks t (freshen ?u i)" for i
    using u freshen_shrinks [OF shrinks_wf [OF u]] by (rule shrinks_trans)
  then show ?thesis using u by (simp add: squash_for_move_def Let_def split: option.splits)
qed

section \<open>Replacing a singleton by its child\<close>

lemma replace_slot_props:
  assumes "distinct cs" "i \<in> set cs" "c \<notin> set cs"
  shows "distinct (replace_slot i c cs)" "set (replace_slot i c cs) = insert c (set cs - {i})"
    "length (replace_slot i c cs) = length cs"
proof -
  obtain k where k: "position i cs = Some k" using position_ex [OF assms(2)] by blast
  then have kk: "k < length cs" "cs ! k = i" using position_Some by fast+
  have eq: "replace_slot i c cs = cs[k := c]" using k by (simp add: replace_slot_def)
  show "distinct (replace_slot i c cs)" using assms kk by (simp add: eq distinct_list_update)
  show "length (replace_slot i c cs) = length cs" by (simp add: eq)
  show "set (replace_slot i c cs) = insert c (set cs - {i})"
    using set_update_distinct [OF assms(1) kk(1)] kk(2) by (simp add: eq)
qed

lemma single_bypassed:
  assumes W: "wft D E t" and i: "parent_of t i = Some p" "get_split t i = Some (li, [c], psi, mi)"
    and p: "get_split t p = Some (lp, cs, ps, mp)"
  defines "u \<equiv> set_parent (set_value t p (Split lp (replace_slot i c cs) ps mp)) c (Some p)"
  shows "bypassed D [i] p [c] t u" "forest D E (remove_all [i] u)" "contains_key t c" "c \<noteq> i"
    "i \<in> set cs" "parent_of u = (parent_of t)(c := Some p)"
    "get_split u = (get_split t)(p := Some (lp, replace_slot i c cs, ps, mp))"
proof -
  have F: "forest D E t" using W by (rule wfD)
  have pc: "parent_of t c = Some i" using forest_splitD(2) [OF F i(2)] by simp
  have K: "contains_key t i" "contains_key t p" using i p get_split_contains by blast+
  show cK: "contains_key t c" using pc by (rule parent_of_contains)
  have nroot: "i \<noteq> tree_root t" using forest_root_parent [OF F] i(1) by auto
  have ip: "i \<noteq> p" using child_neq_parent [OF F i(1)] .
  show ci: "c \<noteq> i" using child_neq_parent [OF F pc] .
  have cp1: "(c, p) \<in> (up_edges (parent_of t))\<^sup>+"
    using pc i(1) by (meson trancl.r_into_trancl trancl_into_trancl up_edges_iff)
  have cp: "c \<noteq> p" using cp1 forest_acyclic [OF F] by (auto simp: acyclic_def)
  show ics: "i \<in> set cs" using forest_parentD [OF F i(1)] p by (metis option.inject prod.inject)
  have ccs: "c \<notin> set cs" using forest_splitD(2) [OF F p] pc ip by auto
  note rs = replace_slot_props [OF forest_splitD(1) [OF F p] ics ccs]
  have len: "length ps = length cs" "shares ps" by (rule forest_splitD [OF F p])+
  show par: "parent_of u = (parent_of t)(c := Some p)"
    using cK by (auto simp: u_def fun_eq_iff)
  show spl: "get_split u = (get_split t)(p := Some (lp, replace_slot i c cs, ps, mp))"
    using K by (auto simp: u_def fun_eq_iff)
  have ku: "contains_key u = contains_key t" by (simp add: u_def fun_eq_iff)
  have su: "strip u = strip t" "panicked u = panicked t" "next_id u = next_id t" by (simp_all add: u_def)
  have tu: "tile_at u = tile_at t" using split_not_leaf [OF p] by (simp add: u_def fun_eq_iff)
  have child_i: "x = c" if "parent_of t x = Some i" for x
    using forest_parentD [OF F that] i(2) by fastforce
  show "bypassed D [i] p [c] t u"
    unfolding bypassed_def
  proof (intro conjI allI impI)
    fix x a assume "x \<notin> set [i]" "parent_of u x = Some a"
    then show "a \<notin> set [i]" using child_i [of x] ip by (auto simp: par split: if_splits)
  qed (use K nroot ip ku su tu split_not_leaf [OF i(2)] in simp_all)
  have D: "i \<notin> D" using forest_detached [OF F] i(1) by auto
  have "aforest (tree_root t) (next_id t) D E (\<lambda>x. contains_key t x \<and> x \<notin> {i})
     (\<lambda>x. if x \<in> {i} then None else if x \<in> set [c] then Some p else parent_of t x)
     (\<lambda>x. if x \<in> {i} then None else if x = p then Some (lp, replace_slot i c cs, ps, mp) else get_split t x)"
  proof (rule aforest_splice [OF F [unfolded forest_iff] p, where q = i])
    show "\<exists>a. parent_of t x = Some a \<and> (a \<in> {i} \<or> a = p \<and> x = i)" if "x \<in> {i}" for x
      using that i(1) by auto
    show "set ds \<subseteq> {i} \<union> set [c]" if "x \<in> {i}" "get_split t x = Some (l, ds, qs, m)" for x l ds qs m
      using that i(2) by auto
    show "g \<notin> {i} \<and> (\<exists>a\<in>{i}. parent_of t g = Some a) \<and> (g, p) \<in> (up_edges (parent_of t))\<^sup>+"
      if "g \<in> set [c]" for g using that ci pc cp1 by auto
    show "replace_slot i c cs = [] \<Longrightarrow> p = tree_root t \<or> p \<in> E" using rs(2) by auto
  qed (use ip nroot D rs len in auto)
  moreover have "distinct [i]" "\<forall>r\<in>set [i]. contains_key u r" using ku K by auto
  note ra = remove_all_reads [OF this]
  ultimately show "forest D E (remove_all [i] u)"
    using strip_fieldsD(1) [OF su(1)] su(3) ci
    by (simp add: forest_iff ra ku par spl fun_upd_def cong: if_cong)
qed

text \<open>\<open>lift_child t i c p\<close> is the replacement \<^verbatim>\<open>collapse_from\<close> and \<^verbatim>\<open>flatten_parent\<close> make.\<close>

definition lift_child :: "tree \<Rightarrow> nid \<Rightarrow> nid \<Rightarrow> nid \<Rightarrow> tree" where
  "lift_child t i c p = (case get_split t p of
      None \<Rightarrow> t
    | Some (lp, cs, ps, mp) \<Rightarrow> finish_splice [i] (fullscreen_mode t i, c) c
        (set_parent (set_value t p (Split lp (replace_slot i c cs) ps mp)) c (Some p)))"

lemma lift_child_props:
  assumes W: "wft D E t" and i: "parent_of t i = Some p" "get_split t i = Some (li, [c], psi, mi)"
  shows "wft D E (lift_child t i c p)" "focus_in X t \<Longrightarrow> focus_in X (lift_child t i c p)"
    "steady t (lift_child t i c p)"
    "contains_key (lift_child t i c p) = (\<lambda>x. contains_key t x \<and> x \<noteq> i)"
    "parent_of (lift_child t i c p) = (parent_of t)(c := Some p, i := None)"
    "next_id (lift_child t i c p) = next_id t"
    "has_resident_root (lift_child t i c p) = has_resident_root t"
proof -
  have F: "forest D E t" using W by (rule wfD)
  obtain lp cs ps mp where p: "get_split t p = Some (lp, cs, ps, mp)"
    using F i(1) by (rule forest_parentD)
  note sb = single_bypassed [OF W i p]
  let ?u = "set_parent (set_value t p (Split lp (replace_slot i c cs) ps mp)) c (Some p)"
  have eq: "lift_child t i c p = finish_splice [i] (fullscreen_mode t i, c) c ?u"
    using p by (simp add: lift_child_def)
  have fs: "\<forall>f q. (fullscreen_mode t i, c) = (Some f, q) \<longrightarrow>
      contains_key t q \<and> q \<notin> set [i] \<and> (\<exists>r\<in>set [i]. fullscreen_mode t r \<noteq> None)"
    using sb(3,4) by auto
  have g: "c \<notin> set [i]" using sb(4) by simp
  note fin = finish_splice_wf [OF W sb(1,2) fs sb(3) g]
  show "wft D E (lift_child t i c p)" "focus_in X t \<Longrightarrow> focus_in X (lift_child t i c p)"
    "steady t (lift_child t i c p)"
    "contains_key (lift_child t i c p) = (\<lambda>x. contains_key t x \<and> x \<noteq> i)"
    "next_id (lift_child t i c p) = next_id t"
    "has_resident_root (lift_child t i c p) = has_resident_root t"
    unfolding eq using fin by simp_all
  show "parent_of (lift_child t i c p) = (parent_of t)(c := Some p, i := None)"
    unfolding eq fin(5) sb(6) using sb(4) by (auto simp: fun_eq_iff)
qed

section \<open>Collapsing\<close>

lemma wft_drop_empties:
  assumes "wft D E t" "\<And>e l ps m. e \<in> E \<Longrightarrow> get_split t e \<noteq> Some (l, [], ps, m) \<or> e = tree_root t"
  shows "wft D {} t"
proof -
  have "forest D {} t" using wfD(1) [OF assms(1)] assms(2) unfolding forest_def empties_def by blast
  then show ?thesis using assms(1) by (simp add: wft_def)
qed

lemma shrinks_after:
  assumes "\<And>X. focus_in X t \<Longrightarrow> focus_in X u" "steady t u" "\<And>x. contains_key u x \<Longrightarrow> contains_key t x"
    "has_resident_root u = has_resident_root t" "next_id u = next_id t" "shortcuts t u" "shrinks u v"
  shows "shrinks t v"
  unfolding shrinks_def
proof (intro conjI allI impI)
  show "steady t v" using assms(2,7) by (auto simp: shrinks_def intro: steady_trans)
  show "shortcuts t v" using assms(6,7) shortcuts_trans by (auto simp: shrinks_def)
qed (use assms in \<open>auto simp: shrinks_def\<close>)

lemma collapse_loop_props:
  assumes "wft {} E t" "E \<subseteq> {i}" "length (up_path k (parent_of t) i) < k"
  shows "shrinks t (collapse_loop k t i)"
  using assms
proof (induction k arbitrary: t i E)
  case (Suc k)
  have F: "forest {} E t" using Suc.prems(1) by (rule wfD)
  have halt: "shrinks t t" if "i = tree_root t \<or> (\<forall>l ps m. get_split t i \<noteq> Some (l, [], ps, m))"
    using wft_drop_empties [OF Suc.prems(1)] Suc.prems(2) that by (intro shrinks_refl) blast
  show ?case
  proof (cases "get_split t i")
    case None
    then show ?thesis using halt by simp
  next
    case (Some s)
    then obtain l cs ps m where i: "get_split t i = Some (l, cs, ps, m)" by (cases s) auto
    show ?thesis
    proof (cases "i = tree_root t \<or> length cs > 1")
      case True
      then have "collapse_loop (Suc k) t i = t" using i by (auto split: option.splits)
      moreover have "i = tree_root t \<or> cs \<noteq> []" using True by auto
      ultimately show ?thesis using halt i by (simp del: collapse_loop.simps)
    next
      case False
      then have nr: "i \<noteq> tree_root t" "length cs \<le> 1" by auto
      have "parent_of t i \<noteq> None" using forest_top [OF F get_split_contains [OF i]] nr(1) by blast
      then obtain p where p: "parent_of t i = Some p" by blast
      obtain lp cp pp mp where pp: "get_split t p = Some (lp, cp, pp, mp)" and icp: "i \<in> set cp"
        using F p by (rule forest_parentD)
      have path: "i \<notin> set (up_path k (parent_of t) p)" "length (up_path k (parent_of t) p) < k"
        using up_path_reach links.no_self_loop [OF arena_okI [OF F] p] Suc.prems(3) p by auto
      show ?thesis
      proof (cases cs)
        case Nil
        note rs = reap_step_props [OF Suc.prems(1) i [unfolded Nil] p]
        have E: "insert p (E - {i}) \<subseteq> {p}" using Suc.prems(2) by blast
        have "length (up_path k (parent_of (reap_step t i p)) p) < k"
          using path rs(5) by (simp add: up_path_upd)
        note IH = Suc.IH [OF rs(1) E this]
        have red: "collapse_loop (Suc k) t i = collapse_loop k (reap_step t i p) p"
          using i p nr Nil by (simp add: reap_step_def Let_def)
        show ?thesis
          unfolding red
        proof (rule shrinks_after [OF rs(2,3) _ rs(8,7) _ IH])
          show "contains_key (reap_step t i p) x \<Longrightarrow> contains_key t x" for x
            using rs(4) by (auto split: if_splits)
          show "shortcuts t (reap_step t i p)"
            by (rule shortcuts_subset) (use rs(5) in \<open>auto simp: up_edges_def split: if_splits\<close>)
        qed
      next
        case (Cons c cs')
        then have sing: "cs = [c]" using nr(2) by simp
        note lc = lift_child_props [OF Suc.prems(1) p i [unfolded sing]]
        have "c \<notin> set (up_path k (parent_of t) p)"
        proof
          assume "c \<in> set (up_path k (parent_of t) p)"
          then have "below t p c" by (rule up_path_reach)
          moreover have "parent_of t c = Some i" using forest_splitD(2) [OF F i] sing by simp
          ultimately have "below t p i" by (metis rtrancl.rtrancl_into_rtrancl up_edges_iff)
          then show False using links.no_self_loop [OF arena_okI [OF F] p] by simp
        qed
        then have "length (up_path k (parent_of (lift_child t i c p)) p) < k"
          using path lc(5) by (simp add: up_path_upd)
        moreover have "wft {} {} (lift_child t i c p)"
        proof (rule wft_drop_empties [OF lc(1)])
          fix e l' ps' m' assume "e \<in> E"
          then have "e = i" using Suc.prems(2) by blast
          then have "\<not> contains_key (lift_child t i c p) e" using lc(4) by simp
          then show "get_split (lift_child t i c p) e \<noteq> Some (l', [], ps', m') \<or> e = tree_root (lift_child t i c p)"
            using get_split_contains by blast
        qed
        ultimately have IH: "shrinks (lift_child t i c p) (collapse_loop k (lift_child t i c p) p)"
          using Suc.IH [of "{}"] by blast
        have pci: "parent_of t c = Some i" using forest_splitD(2) [OF F i] sing by simp
        have "shortcuts t (lift_child t i c p)"
          unfolding shortcuts_def
        proof
          fix e assume "e \<in> up_edges (parent_of (lift_child t i c p))"
          then obtain a b where e: "e = (a, b)" "parent_of (lift_child t i c p) a = Some b"
            by (cases e) simp
          have "(c, p) \<in> (up_edges (parent_of t))\<^sup>+"
            using p pci by (meson trancl.r_into_trancl trancl_into_trancl up_edges_iff)
          then show "e \<in> (up_edges (parent_of t))\<^sup>+" using e lc(5) by (auto split: if_splits)
        qed
        then have "shrinks t (lift_child t i c p)"
          using \<open>wft {} {} (lift_child t i c p)\<close> lc by (simp add: shrinks_def)
        moreover have red: "collapse_loop (Suc k) t i = collapse_loop k (lift_child t i c p) p"
        proof -
          let ?v = "set_value t p (Split lp (replace_slot i c cp) pp mp)"
          have cK: "contains_key ?v c" using child_contains [OF F i] sing by simp
          have fm: "fullscreen_mode (set_parent ?v c (Some p)) i = fullscreen_mode t i"
            using strip_fieldsD(6) [of "set_parent ?v c (Some p)" t] by (simp add: fullscreen_mode_def)
          show ?thesis
            using i p nr sing pp icp cK fm
            by (simp add: lift_child_def finish_splice_def Let_def split: option.splits)
        qed
        ultimately show ?thesis unfolding red using IH by (blast intro: shrinks_trans)
      qed
    qed
  qed
qed simp

theorem collapse_from_props:
  assumes W: "wft {} {i} t"
  shows "shrinks t (collapse_from t i)"
  unfolding collapse_from_def
proof (rule collapse_loop_props [OF W subset_refl])
  show "length (up_path (walk_fuel t) (parent_of t) i) < walk_fuel t"
    using links.up_path_length [OF arena_okI [OF wfD(1) [OF W]], of "walk_fuel t" i]
    by (simp add: walk_fuel_def)
qed

lemma reap_shrinks: "wft {} {i} t \<Longrightarrow> shrinks t (reap_empty_from t i)"
  using reap_empty_from_props [of i t] by (simp add: shrinks_def)

end
