(* ===== verification/Fullscreen.thy ===== *)
theory Fullscreen
  imports Geometry Normalize_Laws
begin

text \<open>
  Fullscreen and maximized state (\<^verbatim>\<open>src/layout/tiling_tree/fullscreen.rs\<close>, and
  \<^verbatim>\<open>mark_moved_under_fullscreen\<close> of \<^verbatim>\<open>configure.rs\<close>). The laws: every operation keeps the
  invariant, entering fullscreen makes the node the only fullscreen node, and leaving it clears
  the tables that only make sense under a fullscreen node.
\<close>

section \<open>Operations\<close>

definition clear_under_fullscreen :: "tree \<Rightarrow> tree" where
  "clear_under_fullscreen t = t\<lparr>mapped_under_fullscreen := {}, moved_under_fullscreen := (\<lambda>_. None),
     fullscreen_layout_wrappers := {}, pre_layout_ipc_rects := (\<lambda>_. None)\<rparr>"

definition clear_fullscreen_mode :: "tree \<Rightarrow> nid \<Rightarrow> tree" where
  "clear_fullscreen_mode t i = t\<lparr>pending_modes := (case pending_modes t i of
      Some mode \<Rightarrow> (pending_modes t)(i \<mapsto> mode\<lparr>pm_fullscreen := None\<rparr>)
    | None \<Rightarrow> pending_modes t)\<rparr>"

definition replace_fullscreen_state :: "tree \<Rightarrow> nid \<Rightarrow> fullscreen_mode option \<Rightarrow> tree \<times> bool" where
  "replace_fullscreen_state t i fs =
     (if \<not> contains_key t i then (t, False)
      else let current = fullscreen_node t in
        if fs = None \<and> current \<noteq> Some i \<or> current = Some i \<and> fullscreen_mode t i = fs
        then (t, False)
        else
          (let t1 = t\<lparr>fullscreen_tile_slot := False, fullscreen_arrived := False\<rparr>;
               t2 = (case current of
                       Some c \<Rightarrow> clear_under_fullscreen (clear_fullscreen_mode t1 c)
                     | None \<Rightarrow> t1);
               t3 = (case fs of
                       Some f \<Rightarrow>
                         (let u = set_pending_fullscreen t2 i (Some f)
                          in if focus u \<noteq> Some i then set_focus_id u (focused_leaf_in u i) else u)
                     | None \<Rightarrow> t2)
           in (cancel_resize_for t3 i, True)))"

definition set_node_fullscreen :: "tree \<Rightarrow> nid \<Rightarrow> fullscreen_mode option \<Rightarrow> tree \<times> bool" where
  "set_node_fullscreen t i fs =
     (let (t', changed) = replace_fullscreen_state t i fs
      in if \<not> changed then (t', False) else (request_window_sizes_with t' True True, True))"

definition set_fullscreen :: "tree \<Rightarrow> wid \<Rightarrow> bool \<Rightarrow> tree \<times> bool" where
  "set_fullscreen t w fullscreen = (case node_for_window t w of
      None \<Rightarrow> (t, False)
    | Some i \<Rightarrow> set_node_fullscreen t i (if fullscreen then Some FsWorkspace else None))"

definition arrange_fullscreen_parent :: "tree \<Rightarrow> tree" where
  "arrange_fullscreen_parent t = (case fullscreen_node t of
      None \<Rightarrow> t
    | Some f \<Rightarrow>
        (let focused_in = (case focus t of Some x \<Rightarrow> contains_node t f x | None \<Rightarrow> False);
             linear_parent = (case parent_of t f of
                 None \<Rightarrow> False
               | Some p \<Rightarrow> p \<noteq> tree_root t \<and>
                   (case layout_of t p of Some l \<Rightarrow> linear l | None \<Rightarrow> False))
         in if focused_in \<and> linear_parent then t\<lparr>fullscreen_tile_slot := True\<rparr> else t))"

definition mark_fullscreen_arrived :: "tree \<Rightarrow> tree" where
  "mark_fullscreen_arrived t =
     (if fullscreen_node t \<noteq> None then t\<lparr>fullscreen_arrived := True\<rparr> else t)"

definition fullscreen_contains_window :: "tree \<Rightarrow> wid \<Rightarrow> bool" where
  "fullscreen_contains_window t w = (case (fullscreen_node t, node_for_window t w) of
      (Some f, Some i) \<Rightarrow> contains_node t f i | _ \<Rightarrow> False)"

definition fullscreen_window :: "tree \<Rightarrow> wid option" where
  "fullscreen_window t = (case fullscreen_node t of
      None \<Rightarrow> None
    | Some f \<Rightarrow> (case focused_leaf_in t f of
        None \<Rightarrow> None | Some i \<Rightarrow> map_option window_id (tile_at t i)))"

definition set_maximized :: "tree \<Rightarrow> wid \<Rightarrow> bool \<Rightarrow> tree \<times> bool" where
  "set_maximized t w maximized = (case node_for_window t w of
      None \<Rightarrow> (t, False)
    | Some i \<Rightarrow>
        (let mode = unwrap_or (pending_modes t i) pending_mode_default;
             t1 = t\<lparr>pending_modes := (pending_modes t)(i \<mapsto> mode)\<rparr>
         in if pm_maximized mode = maximized then (t1, False)
            else let t2 = t1\<lparr>pending_modes := (pending_modes t1)(i \<mapsto> mode\<lparr>pm_maximized := maximized\<rparr>)\<rparr>;
                     t3 = cancel_resize_for t2 i
                 in (request_window_sizes_with t3 True True, True)))"

definition is_active_pending_fullscreen :: "tree \<Rightarrow> bool" where
  "is_active_pending_fullscreen t = (case (focus t, fullscreen_node t) of
      (Some f, Some fs) \<Rightarrow> contains_node t fs f | _ \<Rightarrow> False)"

definition is_pending_fullscreen :: "tree \<Rightarrow> wid \<Rightarrow> bool" where
  "is_pending_fullscreen t w = (case node_for_window t w of
      None \<Rightarrow> False
    | Some i \<Rightarrow> (case pending_modes t i of Some m \<Rightarrow> pm_fullscreen m \<noteq> None | None \<Rightarrow> False))"

definition is_pending_maximized :: "tree \<Rightarrow> wid \<Rightarrow> bool" where
  "is_pending_maximized t w = (case node_for_window t w of
      None \<Rightarrow> False
    | Some i \<Rightarrow> (case pending_modes t i of Some m \<Rightarrow> pm_maximized m | None \<Rightarrow> False))"

definition mark_moved_under_fullscreen :: "tree \<Rightarrow> wid \<Rightarrow> rect \<Rightarrow> tree" where
  "mark_moved_under_fullscreen t w source_rect = (case (fullscreen_node t, node_for_window t w) of
      (Some f, Some i) \<Rightarrow>
        (if i \<noteq> f \<and> \<not> contains_node t f i
         then let t1 = t\<lparr>mapped_under_fullscreen := mapped_under_fullscreen t - {i},
                         moved_under_fullscreen := (moved_under_fullscreen t)(i \<mapsto> source_rect)\<rparr>;
                  t2 = t1\<lparr>focus_history := i # retain_ne i (focus_history t1)\<rparr>
              in case focused_leaf_in t2 f of
                   Some leaf \<Rightarrow> t2\<lparr>focus_history := leaf # retain_ne leaf (focus_history t2),
                                  ipc_focus_follows_history := True\<rparr>
                 | None \<Rightarrow> t2
         else t)
    | _ \<Rightarrow> t)"

section \<open>Changing only the side tables\<close>

lemma same_nodes_reads:
  assumes "nodes t' = nodes t"
  shows "contains_key t' = contains_key t" "parent_of t' = parent_of t" "get_split t' = get_split t"
    "tile_at t' = tile_at t" "leaves t' = leaves t"
  using assms
  by (simp_all add: fun_eq_iff contains_key_def parent_of_def get_split_def tile_at_def value_of_def leaves_def)

lemma side_ok_mono:
  assumes "side_ok t" "contains_key t' = contains_key t" "distinct (focus_history t')"
    "set (focus_history t') \<subseteq> set (focus_history t)" "ipc_stale_nodes t' \<subseteq> ipc_stale_nodes t"
    "last_entered_by t' \<subseteq>\<^sub>m last_entered_by t" "dom (pending_modes t') \<subseteq> dom (pending_modes t)"
    "mapped_under_fullscreen t' \<subseteq> mapped_under_fullscreen t"
    "moved_under_fullscreen t' \<subseteq>\<^sub>m moved_under_fullscreen t"
    "fullscreen_layout_wrappers t' \<subseteq> fullscreen_layout_wrappers t"
    "pre_layout_ipc_rects t' \<subseteq>\<^sub>m pre_layout_ipc_rects t" "tab_indicators t' \<subseteq> tab_indicators t"
    "tab_active t' \<subseteq>\<^sub>m tab_active t"
  shows "side_ok t'"
proof -
  note ok = side_okD [OF assms(1)]
  have m: "a i = Some v" if "b \<subseteq>\<^sub>m a" "b i = Some v" for a b :: "nid \<Rightarrow> 'v option" and i v
    using that by (metis domI map_le_def)
  have "\<forall>i\<in>set (focus_history t'). contains_key t i" using assms(4) ok(2) by blast
  moreover have "\<forall>i\<in>ipc_stale_nodes t'. contains_key t i" using assms(5) ok(4) by blast
  moreover have "\<forall>i v. last_entered_by t' i = Some v \<longrightarrow> contains_key t i \<and> contains_key t v"
    using m [OF assms(6)] ok(5) by blast
  moreover have "\<forall>i m. pending_modes t' i = Some m \<longrightarrow> contains_key t i" using assms(7) ok(3) by blast
  moreover have "\<forall>i\<in>mapped_under_fullscreen t'. contains_key t i" using assms(8) ok(6) by blast
  moreover have "\<forall>i r. moved_under_fullscreen t' i = Some r \<longrightarrow> contains_key t i"
    using m [OF assms(9)] ok(7) by blast
  moreover have "\<forall>i\<in>fullscreen_layout_wrappers t'. contains_key t i" using assms(10) ok(8) by blast
  moreover have "\<forall>i r. pre_layout_ipc_rects t' i = Some r \<longrightarrow> contains_key t i"
    using m [OF assms(11)] ok(9) by blast
  moreover have "\<forall>i\<in>tab_indicators t'. contains_key t i" using assms(12) ok(10) by blast
  moreover have "\<forall>i v. tab_active t' i = Some v \<longrightarrow> contains_key t i \<and> contains_key t v"
    using m [OF assms(13)] ok(11) by blast
  ultimately show ?thesis using assms(3) unfolding side_ok_def assms(2) by blast
qed

lemma inv_tables:
  assumes "inv t" "nodes t' = nodes t" "tree_root t' = tree_root t" "next_id t' = next_id t"
    "panicked t' = panicked t" "focus t' = focus t" "side_ok t'" "modes_ok t'"
  shows "inv t'"
  using assms forest_cong [OF assms(2-4), of "{}" "{}"] same_nodes_reads [OF assms(2)]
  by (simp add: inv_def wft_def focus_in_def)

text \<open>Fields outside the invariant: writes to them keep it.\<close>

definition same_core :: "tree \<Rightarrow> tree \<Rightarrow> bool" where
  "same_core t t' \<longleftrightarrow> nodes t' = nodes t \<and> tree_root t' = tree_root t \<and> next_id t' = next_id t \<and>
     panicked t' = panicked t \<and> focus t' = focus t \<and> focus_history t' = focus_history t \<and>
     ipc_stale_nodes t' = ipc_stale_nodes t \<and> last_entered_by t' = last_entered_by t \<and>
     pending_modes t' = pending_modes t \<and> mapped_under_fullscreen t' = mapped_under_fullscreen t \<and>
     moved_under_fullscreen t' = moved_under_fullscreen t \<and>
     fullscreen_layout_wrappers t' = fullscreen_layout_wrappers t \<and>
     pre_layout_ipc_rects t' = pre_layout_ipc_rects t \<and> tab_indicators t' = tab_indicators t \<and>
     tab_active t' = tab_active t"

lemma side_ok_same_core: "same_core t t' \<Longrightarrow> side_ok t' \<longleftrightarrow> side_ok t"
  by (simp add: same_core_def side_ok_def same_nodes_reads(1) [of t' t])

lemma modes_ok_same_core: "same_core t t' \<Longrightarrow> modes_ok t' \<longleftrightarrow> modes_ok t"
  by (simp add: same_core_def modes_ok_def fullscreen_mode_def same_nodes_reads(4) [of t' t])

lemma same_core_wft: "same_core t t' \<Longrightarrow> wft D E t' \<longleftrightarrow> wft D E t"
  using forest_cong [of t' t D E] side_ok_same_core [of t t'] modes_ok_same_core [of t t']
  by (simp add: wft_def same_core_def)

lemma same_core_inv: "same_core t t' \<Longrightarrow> inv t' \<longleftrightarrow> inv t"
  using same_core_wft [of t t'] same_nodes_reads [of t' t]
  by (simp add: inv_def focus_in_def) (simp add: same_core_def)

lemma same_core_flags [simp]:
  "same_core t (t\<lparr>fullscreen_tile_slot := b\<rparr>)" "same_core t (t\<lparr>fullscreen_arrived := b\<rparr>)"
  "same_core t (t\<lparr>interactive_resize_st := r\<rparr>)" "same_core t (t\<lparr>has_had_tile := b\<rparr>)"
  "same_core t (t\<lparr>empty_representation_layout := e\<rparr>)"
  "same_core t (t\<lparr>ipc_focus_follows_history := b\<rparr>)" "same_core t (t\<lparr>preserved_auto_layout := e\<rparr>)"
  by (simp_all add: same_core_def)

lemmas inv_flags [simp] = same_core_flags [THEN same_core_inv]
lemmas wft_flags [simp] = same_core_flags [THEN same_core_wft]

lemma same_core_cancel_resize [simp]: "same_core t (cancel_resize_for t i)"
  by (simp add: cancel_resize_for_def same_core_def split: option.splits)

lemma inv_cancel_resize [simp]: "inv (cancel_resize_for t i) \<longleftrightarrow> inv t"
  by (rule same_core_inv) simp

section \<open>The invariant\<close>

lemma inv_focus_leaf:
  assumes I: "inv t" and i: "contains_key t i"
  shows "inv (set_focus_id t (focused_leaf_in t i))"
proof (cases "focused_leaf_in t i")
  case None
  have F: "forest {} {} t" using I by (rule invD)
  have "i = tree_root t" using focused_leaf_in_ex [OF F i] None by fastforce
  then have "leaves t = {}" using focused_leaf_in_root [OF F] None by simp
  then show ?thesis
    using I None wf_set_focus_id [OF invD(1) [OF I], of None] by (auto simp: inv_def focus_in_def)
next
  case (Some l)
  note p = focused_leaf_in_props [OF invD(4) [OF I] i Some]
  have "focus t \<noteq> None" using p(1) invD(3) [OF I] by (auto simp: leaves_def)
  then show ?thesis using Some inv_set_focus_id [OF I p(3)] by simp
qed

lemma fullscreen_node_None:
  assumes "wft D E t"
  shows "fullscreen_node t = None \<longleftrightarrow> (\<forall>i. fullscreen_mode t i = None)"
  using fullscreen_node_unique [OF assms] by (metis not_None_eq)

lemma clear_mode_fullscreen:
  "fullscreen_mode (clear_fullscreen_mode t c) = (fullscreen_mode t)(c := None)"
  by (auto simp: fun_eq_iff fullscreen_mode_def clear_fullscreen_mode_def split: option.splits)

lemma inv_clear_fullscreen:
  assumes I: "inv t" and c: "fullscreen_node t = Some c"
  defines "u \<equiv> clear_under_fullscreen (clear_fullscreen_mode t c)"
  shows "inv u" "fullscreen_mode u j = None"
proof -
  have fm: "fullscreen_mode u = (fullscreen_mode t)(c := None)"
    unfolding clear_mode_fullscreen [symmetric]
    by (simp add: u_def clear_under_fullscreen_def fun_eq_iff fullscreen_mode_def)
  then show none: "fullscreen_mode u j = None" for j
    using fullscreen_node_unique [OF invD(1) [OF I]] c by (metis fun_upd_apply option.inject)
  have nodes: "nodes u = nodes t" by (simp add: u_def clear_under_fullscreen_def clear_fullscreen_mode_def)
  have "pm_maximized m \<Longrightarrow> is_leaf t i" if "pending_modes u i = Some m" for i m
    using that modes_ok_leaf [OF invD(6) [OF I], of i]
    by (auto simp: u_def clear_under_fullscreen_def clear_fullscreen_mode_def split: option.splits if_splits)
  then have "modes_ok u" using none same_nodes_reads(4) [OF nodes] by (simp add: modes_ok_def)
  moreover have "side_ok u"
    by (rule side_ok_mono [OF invD(5) [OF I] same_nodes_reads(1) [OF nodes]])
      (auto simp: u_def clear_under_fullscreen_def clear_fullscreen_mode_def map_le_def
        side_okD(1) [OF invD(5) [OF I]] split: option.splits)
  ultimately show "inv u"
    by (intro inv_tables [OF I nodes])
      (simp_all add: u_def clear_under_fullscreen_def clear_fullscreen_mode_def)
qed

lemma inv_set_pending:
  assumes "inv t" "contains_key t i" "m = None \<or> (\<forall>j. j \<noteq> i \<longrightarrow> fullscreen_mode t j = None)"
  shows "inv (set_pending_fullscreen t i m)"
  using inv_tables [OF assms(1)] side_ok_set_pending [OF invD(5) [OF assms(1)] assms(2)]
    modes_ok_set_pending [OF invD(6) [OF assms(1)] assms(3)] by simp

lemma replace_fullscreen_cases:
  assumes I: "inv t"
  obtains (refused) "replace_fullscreen_state t i fs = (t, False)"
      "\<not> contains_key t i \<or> fs = None \<and> fullscreen_node t \<noteq> Some i \<or>
        fullscreen_node t = Some i \<and> fullscreen_mode t i = fs"
    | (accepted) u where "contains_key t i" "inv u" "\<And>j. fullscreen_mode u j = None"
      "nodes u = nodes t" "focus u = focus t"
      "replace_fullscreen_state t i fs = (cancel_resize_for (case fs of
          Some f \<Rightarrow> (let v = set_pending_fullscreen u i (Some f)
                    in if focus v \<noteq> Some i then set_focus_id v (focused_leaf_in v i) else v)
        | None \<Rightarrow> u) i, True)"
proof (cases "\<not> contains_key t i \<or> fs = None \<and> fullscreen_node t \<noteq> Some i \<or>
        fullscreen_node t = Some i \<and> fullscreen_mode t i = fs")
  case True
  then have "replace_fullscreen_state t i fs = (t, False)"
    by (auto simp: replace_fullscreen_state_def Let_def)
  with True show ?thesis using refused by blast
next
  case False
  let ?t1 = "t\<lparr>fullscreen_tile_slot := False, fullscreen_arrived := False\<rparr>"
  let ?u = "case fullscreen_node t of Some c \<Rightarrow> clear_under_fullscreen (clear_fullscreen_mode ?t1 c) | None \<Rightarrow> ?t1"
  have I1: "inv ?t1" using I by simp
  have fn: "fullscreen_node ?t1 = fullscreen_node t" "fullscreen_mode ?t1 = fullscreen_mode t"
    by (simp_all add: fullscreen_node_def fullscreen_mode_def fun_eq_iff)
  have "inv ?u \<and> (\<forall>j. fullscreen_mode ?u j = None)"
  proof (cases "fullscreen_node t")
    case None
    then show ?thesis using I1 fn fullscreen_node_None [OF invD(1) [OF I]] by simp
  next
    case (Some c)
    then show ?thesis using inv_clear_fullscreen [OF I1, of c] fn(1) by simp
  qed
  moreover have "nodes ?u = nodes t" "focus ?u = focus t"
    by (auto simp: clear_under_fullscreen_def clear_fullscreen_mode_def split: option.splits)
  moreover have "replace_fullscreen_state t i fs = (cancel_resize_for (case fs of
          Some f \<Rightarrow> (let v = set_pending_fullscreen ?u i (Some f)
                    in if focus v \<noteq> Some i then set_focus_id v (focused_leaf_in v i) else v)
        | None \<Rightarrow> ?u) i, True)"
    using False by (auto simp: replace_fullscreen_state_def Let_def)
  ultimately show ?thesis using accepted [of ?u] False by blast
qed

theorem replace_fullscreen_inv:
  assumes I: "inv t"
  shows "inv (fst (replace_fullscreen_state t i fs))"
  using I
proof (cases rule: replace_fullscreen_cases [where i = i and fs = fs])
  case refused
  then show ?thesis using I by simp
next
  case (accepted u)
  have K: "contains_key u i" using accepted(1) same_nodes_reads(1) [OF accepted(4)] by simp
  have "inv (set_pending_fullscreen u i (Some f))" for f
    using inv_set_pending [OF accepted(2) K] accepted(3) by blast
  moreover have "contains_key (set_pending_fullscreen u i (Some f)) i" for f using K by simp
  ultimately show ?thesis
    using accepted(2) inv_focus_leaf by (auto simp: accepted(6) Let_def split: option.splits)
qed

lemma replace_fullscreen_nodes:
  assumes "inv t"
  shows "nodes (fst (replace_fullscreen_state t i fs)) = nodes t"
  using assms
proof (cases rule: replace_fullscreen_cases [where i = i and fs = fs])
  case (accepted u)
  then show ?thesis using same_core_cancel_resize
    by (auto simp: Let_def same_core_def split: option.splits)
qed simp

text \<open>Entering fullscreen makes the node the fullscreen node; leaving leaves none.\<close>

lemma replace_fullscreen_mode:
  assumes I: "inv t" and ch: "snd (replace_fullscreen_state t i fs)"
  shows "fullscreen_mode (fst (replace_fullscreen_state t i fs)) = (\<lambda>j. if j = i then fs else None)"
  using I
proof (cases rule: replace_fullscreen_cases [where i = i and fs = fs])
  case refused
  then show ?thesis using ch by simp
next
  case (accepted u)
  have c: "fullscreen_mode (cancel_resize_for t j) = fullscreen_mode t" for t j
    using same_core_cancel_resize [of t j] by (simp add: same_core_def fun_eq_iff fullscreen_mode_def)
  have f: "fullscreen_mode (set_focus_id t x) = fullscreen_mode t" for t x
    by (simp add: fun_eq_iff fullscreen_mode_def)
  show ?thesis
    unfolding accepted(6) using accepted(3) by (auto simp: c f Let_def fun_eq_iff split: option.splits)
qed

lemma set_node_fullscreen_inv: "inv t \<Longrightarrow> inv (fst (set_node_fullscreen t i fs))"
  using replace_fullscreen_inv [of t i fs]
  by (auto simp: set_node_fullscreen_def Let_def calls_are_log split: prod.splits)

lemma set_fullscreen_inv: "inv t \<Longrightarrow> inv (fst (set_fullscreen t w b))"
  by (simp add: set_fullscreen_def set_node_fullscreen_inv split: option.splits)

lemma set_maximized_inv:
  assumes I: "inv t"
  shows "inv (fst (set_maximized t w b))"
proof (cases "node_for_window t w")
  case (Some i)
  obtain x where i: "tile_at t i = Some x" "contains_key t i"
    using node_for_window_Some [OF invD(4) [OF I] Some] by metis
  have upd: "inv (t\<lparr>pending_modes := (pending_modes t)(i \<mapsto> m)\<rparr>)"
    if "pm_fullscreen m = fullscreen_mode t i" for m
  proof -
    let ?u = "t\<lparr>pending_modes := (pending_modes t)(i \<mapsto> m)\<rparr>"
    have n: "nodes ?u = nodes t" by simp
    have "fullscreen_mode ?u = fullscreen_mode t" using that by (auto simp: fun_eq_iff fullscreen_mode_def)
    then have "modes_ok ?u"
      using invD(6) [OF I] i same_nodes_reads(4) [OF n] by (auto simp: modes_ok_def split: if_splits)
    moreover have "side_ok ?u"
      using invD(5) [OF I] i same_nodes_reads(1) [OF n] by (auto simp: side_ok_def)
    ultimately show ?thesis using inv_tables [OF I] by simp
  qed
  let ?m = "unwrap_or (pending_modes t i) pending_mode_default"
  have "pm_fullscreen ?m = fullscreen_mode t i"
    by (cases "pending_modes t i") (simp_all add: fullscreen_mode_def pending_mode_default_def)
  then show ?thesis
    using Some upd [of ?m] upd [of "?m\<lparr>pm_maximized := b\<rparr>"]
    by (simp add: set_maximized_def Let_def calls_are_log)
qed (use I in \<open>simp add: set_maximized_def\<close>)

lemma arrange_fullscreen_parent_inv [simp]: "inv (arrange_fullscreen_parent t) \<longleftrightarrow> inv t"
  by (simp add: arrange_fullscreen_parent_def Let_def split: option.splits)

lemma mark_fullscreen_arrived_inv [simp]: "inv (mark_fullscreen_arrived t) \<longleftrightarrow> inv t"
  by (simp add: mark_fullscreen_arrived_def)

lemma inv_history:
  assumes I: "inv t" and h: "distinct h" "\<forall>i\<in>set h. contains_key t i"
  shows "inv (t\<lparr>focus_history := h\<rparr>)"
proof (rule inv_tables [OF I])
  have K: "contains_key (t\<lparr>focus_history := h\<rparr>) = contains_key t"
    "tile_at (t\<lparr>focus_history := h\<rparr>) = tile_at t" using same_nodes_reads [of "t\<lparr>focus_history := h\<rparr>" t] by simp_all
  show "side_ok (t\<lparr>focus_history := h\<rparr>)" using invD(5) [OF I] h by (simp add: side_ok_def K)
  show "modes_ok (t\<lparr>focus_history := h\<rparr>)"
    using invD(6) [OF I] by (simp add: modes_ok_def K fullscreen_mode_def)
qed simp_all

lemma inv_to_front:
  assumes "inv t" "contains_key t i"
  shows "inv (t\<lparr>focus_history := i # retain_ne i (focus_history t)\<rparr>)"
  by (rule inv_history [OF assms(1)]) (use side_okD(1,2) [OF invD(5) [OF assms(1)]] assms(2) in auto)

lemma mark_moved_under_fullscreen_inv:
  assumes I: "inv t"
  shows "inv (mark_moved_under_fullscreen t w r)"
proof (cases "\<exists>f i. fullscreen_node t = Some f \<and> node_for_window t w = Some i \<and> i \<noteq> f \<and> \<not> contains_node t f i")
  case True
  then obtain f i where fi: "fullscreen_node t = Some f" "node_for_window t w = Some i" "i \<noteq> f" "\<not> contains_node t f i"
    by blast
  let ?t1 = "t\<lparr>mapped_under_fullscreen := mapped_under_fullscreen t - {i},
                         moved_under_fullscreen := (moved_under_fullscreen t)(i \<mapsto> r)\<rparr>"
  let ?t2 = "?t1\<lparr>focus_history := i # retain_ne i (focus_history ?t1)\<rparr>"
  have iK: "contains_key t i" using node_for_window_Some [OF invD(4) [OF I] fi(2)] by metis
  have fK: "contains_key t f" by (rule fullscreen_node_contains [OF invD(1) [OF I] fi(1)])
  have n: "nodes ?t1 = nodes t" by simp
  have "side_ok ?t1" using invD(5) [OF I] iK same_nodes_reads(1) [OF n] by (auto simp: side_ok_def)
  moreover have "modes_ok ?t1"
    using invD(6) [OF I] same_nodes_reads(4) [OF n] by (simp add: modes_ok_def fullscreen_mode_def)
  ultimately have I1: "inv ?t1" using inv_tables [OF I] by simp
  have K1: "contains_key ?t1 = contains_key t" using same_nodes_reads(1) [OF n] .
  have I2: "inv ?t2" using inv_to_front [OF I1] iK K1 by simp
  have K2: "contains_key ?t2 = contains_key t" using same_nodes_reads(1) [of ?t2 t] by simp
  have I3: "inv (?t2\<lparr>focus_history := l # retain_ne l (focus_history ?t2), ipc_focus_follows_history := True\<rparr>)"
    if "focused_leaf_in ?t2 f = Some l" for l
    using inv_to_front [OF I2] focused_leaf_in_props(3) [OF invD(4) [OF I2] _ that] fK K2 by simp
  show ?thesis
    using fi I2 I3 by (auto simp: mark_moved_under_fullscreen_def Let_def split: option.splits)
next
  case False
  then have "mark_moved_under_fullscreen t w r = t"
    by (auto simp: mark_moved_under_fullscreen_def split: option.splits)
  then show ?thesis using I by simp
qed

end
