(* ===== verification/Depth.thy ===== *)
theory Depth
  imports Walks
begin

text \<open>
  The nesting bound (\<^verbatim>\<open>src/layout/tiling_tree/depth.rs\<close>): the depth of a node, the height of a
  subtree computed with an explicit stack, and the guards that keep every node within
  \<open>MAX_TREE_DEPTH\<close> edges of the root. The laws tie both measures to chains of parent links.
\<close>

section \<open>Operations\<close>

definition MAX_TREE_DEPTH :: nat where
  "MAX_TREE_DEPTH = 64"

fun node_depth_loop :: "nat \<Rightarrow> tree \<Rightarrow> nid \<Rightarrow> nat \<Rightarrow> nat" where
  "node_depth_loop 0 t i depth = depth"
| "node_depth_loop (Suc k) t i depth = (case parent_of t i of
      None \<Rightarrow> depth
    | Some p \<Rightarrow> node_depth_loop k t p (depth + 1))"

definition node_depth :: "tree \<Rightarrow> nid \<Rightarrow> nat" where
  "node_depth t i = node_depth_loop (walk_fuel t) t i 0"

text \<open>The stack's top is the head of the list; \<^verbatim>\<open>extend\<close> pushes the children in order.\<close>

fun height_loop :: "nat \<Rightarrow> tree \<Rightarrow> (nid \<times> nat) list \<Rightarrow> nat \<Rightarrow> nat" where
  "height_loop 0 t stack height = height"
| "height_loop (Suc k) t stack height = (case stack of
      [] \<Rightarrow> height
    | (i, level) # rest \<Rightarrow>
        (let height' = max height level in
         case children_of t i of
           Some cs \<Rightarrow> height_loop k t (rev (map (\<lambda>c. (c, level + 1)) cs) @ rest) height'
         | None \<Rightarrow> height_loop k t rest height'))"

definition subtree_height :: "tree \<Rightarrow> nid \<Rightarrow> nat" where
  "subtree_height t i = height_loop (walk_fuel t) t [(i, 1)] 0"

definition tree_depth :: "tree \<Rightarrow> nat" where
  "tree_depth t = subtree_height t (tree_root t) - 1"

definition can_wrap :: "tree \<Rightarrow> nid \<Rightarrow> bool" where
  "can_wrap t i \<longleftrightarrow> node_depth t i + subtree_height t i \<le> MAX_TREE_DEPTH"

definition can_wrap_root_children :: "tree \<Rightarrow> bool" where
  "can_wrap_root_children t \<longleftrightarrow> subtree_height t (tree_root t) \<le> MAX_TREE_DEPTH"

definition fits_below :: "tree \<Rightarrow> nid \<Rightarrow> nat \<Rightarrow> bool" where
  "fits_below t p height \<longleftrightarrow> node_depth t p + height \<le> MAX_TREE_DEPTH"

definition fits_at :: "tree \<Rightarrow> nid \<Rightarrow> nat \<Rightarrow> bool" where
  "fits_at t i height \<longleftrightarrow> node_depth t i + height \<le> MAX_TREE_DEPTH + 1"

definition node_height :: "tree \<Rightarrow> nid \<Rightarrow> nat" where
  "node_height t i = subtree_height t i"

section \<open>The depth of a node\<close>

abbreviation steps :: "tree \<Rightarrow> nat \<Rightarrow> (nid \<times> nid) set" where
  "steps t n \<equiv> up_edges (parent_of t) ^^ n"

lemma node_depth_loop_relpow:
  "(i, r) \<in> steps t n \<Longrightarrow> parent_of t r = None \<Longrightarrow> n < k \<Longrightarrow> node_depth_loop k t i d = d + n"
proof (induction k arbitrary: i n d)
  case (Suc k)
  show ?case
  proof (cases n)
    case 0
    then show ?thesis using Suc.prems by simp
  next
    case (Suc n')
    then obtain p where p: "parent_of t i = Some p" "(p, r) \<in> steps t n'"
      using Suc.prems(1) by (metis relpow_Suc_E2 up_edges_iff)
    then show ?thesis using Suc.IH [OF p(2) Suc.prems(2)] Suc.prems(3) Suc by simp
  qed
qed simp

lemma node_depth_eq:
  assumes "forest D E t" "(i, r) \<in> steps t n" "parent_of t r = None"
  shows "node_depth t i = n"
proof -
  have "n < walk_fuel t"
    using links.relpow_bound [OF arena_okI [OF assms(1)] assms(2)] by (simp add: walk_fuel_def)
  from node_depth_loop_relpow [OF assms(2,3) this, of 0] show ?thesis by (simp add: node_depth_def)
qed

lemma node_depth_root:
  assumes "forest {} E t" "contains_key t i"
  shows "(i, tree_root t) \<in> steps t (node_depth t i)"
proof -
  obtain n where "(i, tree_root t) \<in> steps t n"
    using below_root [OF assms] rtrancl_imp_relpow by blast
  then show ?thesis using node_depth_eq [OF assms(1) _ forest_root_parent [OF assms(1)]] by metis
qed

lemma node_depth_step:
  assumes F: "forest D E t" and c: "(i, j) \<in> steps t n" "contains_key t i"
  shows "node_depth t i = n + node_depth t j"
proof -
  have "below t i j" using c(1) by (rule relpow_imp_rtrancl)
  then have "contains_key t j" using c(2) F by (rule below_contains)
  then obtain r where r: "below t j r" "parent_of t r = None" using below_reaches_top [OF F] by metis
  then obtain m where m: "(j, r) \<in> steps t m" using rtrancl_imp_relpow by blast
  have "(i, r) \<in> steps t (n + m)" using c(1) m by (auto simp: relpow_add)
  then show ?thesis using node_depth_eq [OF F _ r(2)] m by metis
qed

lemma node_depth_child:
  assumes "forest D E t" "parent_of t i = Some p"
  shows "node_depth t i = Suc (node_depth t p)"
  using node_depth_step [OF assms(1), of i p 1] assms(2) parent_of_contains by fastforce

section \<open>The height of a subtree\<close>

definition under :: "tree \<Rightarrow> nid \<Rightarrow> nid set" where
  "under t i = {j. below t j i}"

lemma finite_under:
  assumes "forest D E t"
  shows "finite (under t i)"
proof (rule finite_subset)
  show "under t i \<subseteq> insert i {..<next_id t}"
  proof
    fix j assume "j \<in> under t i"
    then have "below t j i" by (simp add: under_def)
    then show "j \<in> insert i {..<next_id t}"
      using forest_bound [OF assms] parent_of_contains
      by (cases rule: converse_rtranclE) auto
  qed
qed simp

lemma under_split:
  assumes F: "forest D E t" and i: "get_split t i = Some (l, cs, ps, m)"
  shows "under t i = insert i (\<Union>c\<in>set cs. under t c)"
proof (intro set_eqI iffI)
  fix j assume "j \<in> under t i"
  then have "below t j i" by (simp add: under_def)
  then show "j \<in> insert i (\<Union>c\<in>set cs. under t c)"
  proof (cases rule: rtranclE)
    case (step y)
    then have "y \<in> set cs" using forest_parentD [OF F] i
      by (metis option.inject prod.inject up_edges_iff)
    then show ?thesis using step by (auto simp: under_def)
  qed simp
next
  fix j assume "j \<in> insert i (\<Union>c\<in>set cs. under t c)"
  then show "j \<in> under t i"
    using forest_splitD(2) [OF F i]
    by (auto simp: under_def intro: rtrancl_into_rtrancl)
qed

lemma under_leaf:
  assumes F: "forest D E t" and i: "get_split t i = None"
  shows "under t i = {i}"
proof -
  have "j = i" if "below t j i" for j
    using that
  proof (cases rule: rtranclE)
    case (step y)
    then have "parent_of t y = Some i" by simp
    with F i show ?thesis by (auto elim: forest_parentD)
  qed simp
  then show ?thesis by (auto simp: under_def)
qed

lemma card_under_split:
  assumes F: "forest D E t" and i: "get_split t i = Some (l, cs, ps, m)"
  shows "card (under t i) = Suc (sum_list (map (\<lambda>c. card (under t c)) cs))"
proof -
  have disj: "under t c \<inter> under t d = {}" if "c \<in> set cs" "d \<in> set cs" "c \<noteq> d" for c d
    using siblings_disjoint [OF F i that] by (auto simp: under_def)
  have "i \<notin> under t c" if "c \<in> set cs" for c
    using forest_splitD(2) [OF F i that] links.no_self_loop [OF arena_okI [OF F]] by (auto simp: under_def)
  then have "card (under t i) = Suc (card (\<Union>c\<in>set cs. under t c))"
    unfolding under_split [OF F i] using finite_under [OF F] by (intro card_insert_disjoint) auto
  also have "card (\<Union>c\<in>set cs. under t c) = (\<Sum>c\<in>set cs. card (under t c))"
    using disj finite_under [OF F] by (intro card_UN_disjoint) auto
  also have "\<dots> = sum_list (map (\<lambda>c. card (under t c)) cs)"
    using forest_splitD(1) [OF F i] by (simp add: sum_list_distinct_conv_sum_set)
  finally show ?thesis .
qed

text \<open>\<open>deepest t i\<close>: the length of the longest chain of parent links that ends in \<open>i\<close>.\<close>

definition chain_lengths :: "tree \<Rightarrow> nid \<Rightarrow> nat set" where
  "chain_lengths t i = {n. \<exists>j. (j, i) \<in> steps t n}"

definition deepest :: "tree \<Rightarrow> nid \<Rightarrow> nat" where
  "deepest t i = Max (chain_lengths t i)"

lemma chain_lengths_props:
  assumes "forest D E t"
  shows "finite (chain_lengths t i)" "0 \<in> chain_lengths t i"
proof -
  show "finite (chain_lengths t i)"
    by (rule finite_subset [of _ "{..next_id t}"])
      (auto simp: chain_lengths_def dest: links.relpow_bound [OF arena_okI [OF assms]])
  show "0 \<in> chain_lengths t i" by (auto simp: chain_lengths_def)
qed

lemma chain_lengths_split:
  assumes F: "forest D E t" and i: "get_split t i = Some (l, cs, ps, m)"
  shows "chain_lengths t i = insert 0 (\<Union>c\<in>set cs. Suc ` chain_lengths t c)"
proof -
  have "Suc n \<in> chain_lengths t i \<longleftrightarrow> (\<exists>c\<in>set cs. n \<in> chain_lengths t c)" for n
    unfolding chain_lengths_def mem_Collect_eq relpow_child [OF F i] by blast
  then have "n \<in> chain_lengths t i \<longleftrightarrow> n \<in> insert 0 (\<Union>c\<in>set cs. Suc ` chain_lengths t c)" for n
    using chain_lengths_props(2) [OF F] by (cases n) auto
  then show ?thesis by blast
qed

lemma deepest_le:
  assumes "forest D E t"
  shows "deepest t i \<le> z \<longleftrightarrow> (\<forall>n\<in>chain_lengths t i. n \<le> z)"
  unfolding deepest_def using chain_lengths_props [OF assms, of i] by (intro Max_le_iff) auto

lemma deepest_in:
  assumes "forest D E t"
  shows "deepest t i \<in> chain_lengths t i"
  unfolding deepest_def using chain_lengths_props [OF assms, of i] by (intro Max_in) auto

lemma deepest_leaf_le:
  assumes F: "forest D E t" and i: "get_split t i = None"
  shows "deepest t i + lv \<le> y \<longleftrightarrow> lv \<le> y"
proof -
  have "Suc n \<notin> chain_lengths t i" for n
    using relpow_leaf [OF F i] unfolding chain_lengths_def by blast
  then have "deepest t i = 0" using deepest_in [OF F, of i] by (metis not0_implies_Suc)
  then show ?thesis by simp
qed

lemma deepest_split_le:
  assumes F: "forest D E t" and i: "get_split t i = Some (l, cs, ps, m)"
  shows "deepest t i + lv \<le> y \<longleftrightarrow> lv \<le> y \<and> (\<forall>c\<in>set cs. deepest t c + Suc lv \<le> y)"
proof -
  have "deepest t i + lv \<le> y \<longleftrightarrow> lv \<le> y \<and> deepest t i \<le> y - lv" by auto
  also have "\<dots> \<longleftrightarrow> lv \<le> y \<and> (\<forall>c\<in>set cs. \<forall>n\<in>chain_lengths t c. Suc n \<le> y - lv)"
    unfolding deepest_le [OF F] chain_lengths_split [OF F i] by auto
  also have "\<dots> \<longleftrightarrow> lv \<le> y \<and> (\<forall>c\<in>set cs. Suc (deepest t c) \<le> y - lv)"
    using deepest_in [OF F] deepest_le [OF F] by (meson Suc_le_mono le_trans order_refl)
  also have "\<dots> \<longleftrightarrow> lv \<le> y \<and> (\<forall>c\<in>set cs. deepest t c + Suc lv \<le> y)" by auto
  finally show ?thesis .
qed

lemma height_loop_le:
  assumes F: "forest D E t"
  shows "sum_list (map (\<lambda>(i, lv). card (under t i)) stack) < k \<Longrightarrow>
     height_loop k t stack h \<le> y \<longleftrightarrow> h \<le> y \<and> (\<forall>(i, lv)\<in>set stack. deepest t i + lv \<le> y)"
proof (induction k arbitrary: stack h)
  case (Suc k)
  show ?case
  proof (cases stack)
    case (Cons e rest)
    obtain i lv where e: "e = (i, lv)" by (cases e)
    show ?thesis
    proof (cases "get_split t i")
      case None
      then have ch: "children_of t i = None" by (simp add: children_of_def)
      have "sum_list (map (\<lambda>(i, lv). card (under t i)) rest) < k"
        using Suc.prems Cons e under_leaf [OF F None] by simp
      from Suc.IH [OF this, of "max h lv"] show ?thesis
        using Cons e ch deepest_leaf_le [OF F None] by auto
    next
      case (Some s)
      then obtain l cs ps m where i: "get_split t i = Some (l, cs, ps, m)" by (cases s) auto
      then have ch: "children_of t i = Some cs" by (simp add: children_of_def)
      let ?new = "rev (map (\<lambda>c. (c, lv + 1)) cs)"
      have "sum_list (map (\<lambda>(i, lv). card (under t i)) ?new) = sum_list (map (\<lambda>c. card (under t c)) cs)"
        by (simp add: rev_map [symmetric] comp_def)
      then have "sum_list (map (\<lambda>(i, lv). card (under t i)) (?new @ rest)) < k"
        using Suc.prems Cons e card_under_split [OF F i] by simp
      note IH = Suc.IH [OF this, of "max h lv"]
      have new: "(\<forall>(i, lv)\<in>set (?new @ rest). deepest t i + lv \<le> y) \<longleftrightarrow>
          (\<forall>c\<in>set cs. deepest t c + Suc lv \<le> y) \<and> (\<forall>(i, lv)\<in>set rest. deepest t i + lv \<le> y)"
        by (simp add: ball_Un)
      have red: "height_loop (Suc k) t stack h = height_loop k t (?new @ rest) (max h lv)"
        using Cons e ch by simp
      have "(\<forall>(i, lv)\<in>set stack. deepest t i + lv \<le> y) \<longleftrightarrow>
          deepest t i + lv \<le> y \<and> (\<forall>(i, lv)\<in>set rest. deepest t i + lv \<le> y)"
        using Cons e by simp
      then show ?thesis
        unfolding red IH new deepest_split_le [OF F i] by auto
    qed
  qed simp
qed simp

theorem subtree_height_eq:
  assumes F: "forest D E t" and i: "contains_key t i"
  shows "subtree_height t i = Suc (deepest t i)"
proof -
  have "under t i \<subseteq> {j. contains_key t j}"
  proof
    fix j assume "j \<in> under t i"
    then have "below t j i" by (simp add: under_def)
    then show "j \<in> {j. contains_key t j}"
      using i parent_of_contains by (cases rule: converse_rtranclE) auto
  qed
  then have "under t i \<subseteq> {..<next_id t}" using forest_bound [OF F] by blast
  then have "card (under t i) \<le> card {..<next_id t}" by (intro card_mono) auto
  then have "sum_list (map (\<lambda>(i, lv). card (under t i)) [(i, 1)]) < walk_fuel t"
    by (simp add: walk_fuel_def)
  from height_loop_le [OF F this, of 0]
  have "subtree_height t i \<le> y \<longleftrightarrow> Suc (deepest t i) \<le> y" for y
    by (simp add: subtree_height_def)
  then show ?thesis by (meson dual_order.antisym order_refl)
qed

theorem subtree_height_bound:
  assumes "forest D E t" "contains_key t i" "(j, i) \<in> steps t n"
  shows "n < subtree_height t i"
proof -
  have "n \<in> chain_lengths t i" using assms(3) by (auto simp: chain_lengths_def)
  then have "n \<le> deepest t i" using deepest_le [OF assms(1)] by blast
  then show ?thesis using subtree_height_eq [OF assms(1,2)] by simp
qed

section \<open>The bound\<close>

definition depth_ok :: "tree \<Rightarrow> bool" where
  "depth_ok t \<longleftrightarrow> (\<forall>i. contains_key t i \<longrightarrow> node_depth t i \<le> MAX_TREE_DEPTH)"

lemma can_wrap_below:
  assumes "forest D E t" "contains_key t i" "(j, i) \<in> steps t n" "contains_key t j" "can_wrap t i"
  shows "node_depth t j < MAX_TREE_DEPTH"
  using subtree_height_bound [OF assms(1-3)] node_depth_step [OF assms(1,3,4)] assms(5)
  by (simp add: can_wrap_def)

lemma tree_depth_bound:
  assumes F: "forest {} E t"
  shows "tree_depth t \<le> MAX_TREE_DEPTH \<longleftrightarrow> depth_ok t"
proof -
  have r: "contains_key t (tree_root t)"
    using F by (rule forest_root_split) (rule get_split_contains)
  have K: "contains_key t j" if "(j, tree_root t) \<in> steps t n" for j n
    using that r parent_of_contains by (cases n) (auto dest!: relpow_Suc_D2 simp del: relpow.simps(2))
  have "tree_depth t = deepest t (tree_root t)"
    using subtree_height_eq [OF F r] by (simp add: tree_depth_def)
  moreover have "deepest t (tree_root t) \<le> MAX_TREE_DEPTH \<longleftrightarrow> depth_ok t"
  proof
    assume "deepest t (tree_root t) \<le> MAX_TREE_DEPTH"
    then show "depth_ok t"
      using node_depth_root [OF F] unfolding deepest_le [OF F] depth_ok_def chain_lengths_def by blast
  next
    assume ok: "depth_ok t"
    show "deepest t (tree_root t) \<le> MAX_TREE_DEPTH"
      unfolding deepest_le [OF F]
    proof
      fix n assume "n \<in> chain_lengths t (tree_root t)"
      then obtain j where j: "(j, tree_root t) \<in> steps t n" by (auto simp: chain_lengths_def)
      then have "node_depth t j = n" using node_depth_eq [OF F j forest_root_parent [OF F]] by simp
      then show "n \<le> MAX_TREE_DEPTH" using ok K [OF j] by (auto simp: depth_ok_def)
    qed
  qed
  ultimately show ?thesis by simp
qed

end
