(* ===== verification/Tree_Layout.thy ===== *)
theory Tree_Layout
  imports Fullscreen Depth
begin

text \<open>
  Splitting and layout commands (\<^verbatim>\<open>src/layout/tiling_tree/tree_layout.rs\<close>), with the operations of
  \<^verbatim>\<open>focus.rs\<close>, \<^verbatim>\<open>introspection.rs\<close> and \<^verbatim>\<open>state.rs\<close> they need: \<^verbatim>\<open>raise_split_wrapper\<close>, \<^verbatim>\<open>split_meta\<close>,
  \<^verbatim>\<open>resident_root\<close>, \<^verbatim>\<open>representation_layout\<close> and the empty-workspace layouts. Operations that return
  a value return it beside the new tree.
\<close>

section \<open>Data of the layout commands\<close>

datatype ipc_layout = IlSplitH | IlSplitV | IlTabbed | IlStacked | IlToggleSplit

datatype layout_toggle_entry = TeSplit | TeLayout ipc_layout

datatype layout_toggle = LtDefault | LtSplit | LtAll | LtCycle "layout_toggle_entry list"

section \<open>Operations\<close>

definition raise_split_wrapper :: "tree \<Rightarrow> nid \<Rightarrow> nid \<Rightarrow> tree" where
  "raise_split_wrapper t child wrapper =
     (if focus t \<noteq> Some child then t
      else let h = retain_ne wrapper (focus_history t);
               index = (case position child h of Some k \<Rightarrow> k + 1 | None \<Rightarrow> 0)
           in t\<lparr>focus_history := insert_at index wrapper h\<rparr>)"

definition split_meta_of :: "tree \<Rightarrow> nid \<Rightarrow> split_meta option" where
  "split_meta_of t i = map_option (\<lambda>(l, cs, ps, m). m) (get_split t i)"

definition previous_layout_of :: "tree \<Rightarrow> nid \<Rightarrow> layout option" where
  "previous_layout_of t i = Option.bind (split_meta_of t i) previous_layout"

definition resident_root :: "tree \<Rightarrow> nid option" where
  "resident_root t =
     (if \<not> has_resident_root t then None
      else case children_of t (tree_root t) of Some [only] \<Rightarrow> Some only | _ \<Rightarrow> None)"

definition is_empty :: "tree \<Rightarrow> bool" where
  "is_empty t \<longleftrightarrow> focus t = None"

definition parent_or_root :: "tree \<Rightarrow> nid \<Rightarrow> nid option" where
  "parent_or_root t i = map_option (\<lambda>n. unwrap_or (parent n) (tree_root t)) (nodes t i)"

definition wrap_node :: "tree \<Rightarrow> nid \<Rightarrow> layout \<Rightarrow> tree \<times> nid" where
  "wrap_node t i l =
     (if \<not> can_wrap t i then (t, i)
      else case parent_or_root t i of
        None \<Rightarrow> (t, i)
      | Some p \<Rightarrow> (case child_index t p i of
          None \<Rightarrow> (t, i)
        | Some k \<Rightarrow> (case Option.bind (percents_of t p) (\<lambda>ps. vec_get ps k) of
            None \<Rightarrow> (t, i)
          | Some old_percent \<Rightarrow>
              (let (t1, w) = alloc t \<lparr>parent = Some p, node_value = Split l [i] [1] split_meta_default\<rparr>;
                   t2 = (case get_split t1 p of
                           None \<Rightarrow> t1
                         | Some (lp, cs, ps, m) \<Rightarrow>
                             (if k < length cs \<and> k < length ps
                              then set_value t1 p (Split lp (cs[k := w]) (ps[k := old_percent]) m) else t1));
                   t3 = set_parent t2 i (Some w);
                   t4 = raise_split_wrapper t3 i w
               in case fullscreen_mode t4 i of
                    Some fs \<Rightarrow> (set_pending_fullscreen (clear_fullscreen_mode t4 i) w (Some fs), w)
                  | None \<Rightarrow> (t4, w)))))"

fun set_parents :: "nid list \<Rightarrow> nid \<Rightarrow> tree \<Rightarrow> tree" where
  "set_parents [] p t = t"
| "set_parents (c # cs) p t = set_parents cs p (set_parent t c (Some p))"

definition wrap_root_children :: "tree \<Rightarrow> layout \<Rightarrow> tree \<times> nid" where
  "wrap_root_children t l =
     (if \<not> can_wrap_root_children t then (t, tree_root t)
      else case get_split t (tree_root t) of
        None \<Rightarrow> (t, tree_root t)
      | Some (root_layout, cs, ps, m) \<Rightarrow>
          (let t0 = set_value t (tree_root t) (Split root_layout [] [] m);
               (t1, w) = alloc t0 \<lparr>parent = Some (tree_root t),
                 node_value = Split l cs ps (split_meta_default\<lparr>previous_layout :=
                   (if linear root_layout then Some root_layout else None)\<rparr>)\<rparr>;
               t2 = t1\<lparr>ipc_stale_nodes := insert w (ipc_stale_nodes t1)\<rparr>;
               t3 = set_parents cs w t2;
               t4 = (case get_split t3 (tree_root t) of
                       None \<Rightarrow> t3
                     | Some (l', _, _, m') \<Rightarrow> set_value t3 (tree_root t) (Split l' [w] [1] m'))
           in (t4, w)))"

definition representation_layout :: "tree \<Rightarrow> layout" where
  "representation_layout t = (case layout_of t (tree_root t) of
      None \<Rightarrow> SplitH
    | Some l \<Rightarrow> (if is_empty t then unwrap_or (empty_representation_layout t) l else l))"

definition wrap_workspace_children :: "tree \<Rightarrow> tree" where
  "wrap_workspace_children t =
     (let l = representation_layout t in
      if (case split_len t (tree_root t) of Some len \<Rightarrow> len > 0 | None \<Rightarrow> False)
      then request_window_sizes (fst (wrap_root_children t l)) else t)"

definition set_split_layout :: "tree \<Rightarrow> nid \<Rightarrow> layout \<Rightarrow> tree" where
  "set_split_layout t i l = (case get_split t i of
      Some (_, cs, ps, m) \<Rightarrow> set_value t i (Split l cs ps m) | None \<Rightarrow> t)"

definition split_leaf :: "tree \<Rightarrow> nid \<Rightarrow> layout \<Rightarrow> tree" where
  "split_leaf t i l = (case parent_of t i of
      Some p \<Rightarrow> (case get_split t p of
          Some (lp, cs, ps, m) \<Rightarrow>
            (if linear lp \<and> length cs = 1 then set_split_layout t p l else fst (wrap_node t i l))
        | None \<Rightarrow> fst (wrap_node t i l))
    | None \<Rightarrow> fst (wrap_node t i l))"

definition split_container :: "tree \<Rightarrow> nid \<Rightarrow> layout \<Rightarrow> tree" where
  "split_container t i l = (case parent_or_root t i of
      None \<Rightarrow> t
    | Some p \<Rightarrow>
        (let siblings = unwrap_or (split_len t p) 0 in
         if i = tree_root t then set_split_layout t i l
         else if siblings \<le> 1 \<and> p \<noteq> tree_root t then fst (wrap_node t i l)
         else if siblings \<le> 1 then set_split_layout t p l
         else fst (wrap_node t i l)))"

definition split :: "tree \<Rightarrow> nid \<Rightarrow> layout \<Rightarrow> tree" where
  "split t0 i l =
     (let t = t0\<lparr>interactive_resize_st := None, fullscreen_tile_slot := False\<rparr> in
      if i = tree_root t \<and> (case split_len t i of Some len \<Rightarrow> len > 0 | None \<Rightarrow> False)
      then (if \<not> can_wrap_root_children t then t
            else case layout_of t i of
              None \<Rightarrow> t
            | Some old_layout \<Rightarrow>
                (let (t1, wrapper) = wrap_root_children t old_layout;
                     t2 = set_split_layout t1 i l;
                     t3 = set_focus_id t2 (Some wrapper)
                 in request_window_sizes t3))
      else if tile_at t i \<noteq> None then split_leaf t i l
      else request_window_sizes (split_container t i l))"

definition remember_layout :: "layout \<Rightarrow> layout \<Rightarrow> split_meta \<Rightarrow> split_meta" where
  "remember_layout current l m =
     (if linear current \<and> current \<noteq> l then m\<lparr>previous_layout := Some current\<rparr> else m)"

definition set_layout :: "tree \<Rightarrow> nid \<Rightarrow> layout \<Rightarrow> tree" where
  "set_layout t0 i l =
     (let t = t0\<lparr>interactive_resize_st := None, fullscreen_tile_slot := False\<rparr> in
      case get_split t i of
        Some (current, cs, ps, m) \<Rightarrow>
          request_window_sizes (compact_tree (set_value t i (Split l cs ps (remember_layout current l m))))
      | None \<Rightarrow> split t i l)"

definition toggle_focused_tabbed :: "tree \<Rightarrow> tree" where
  "toggle_focused_tabbed t = (case Option.bind (focus t) (parent_of t) of
      None \<Rightarrow> t
    | Some p \<Rightarrow> set_layout t p (if layout_of t p = Some Tabbed then SplitH else Tabbed))"

definition set_layout_for_command :: "tree \<Rightarrow> nid \<Rightarrow> layout \<Rightarrow> tree" where
  "set_layout_for_command t0 i l =
     (let t = t0\<lparr>interactive_resize_st := None, fullscreen_tile_slot := False\<rparr> in
      case get_split t i of
        Some (current, cs, ps, m) \<Rightarrow>
          request_window_sizes (set_value t i (Split l cs ps (remember_layout current l m)))
      | None \<Rightarrow> t)"

definition flatten_parent :: "tree \<Rightarrow> nid \<Rightarrow> tree \<times> (nid \<times> nid) option" where
  "flatten_parent t0 i =
     (let t = t0\<lparr>interactive_resize_st := None\<rparr> in
      case parent_of t i of
        None \<Rightarrow> (t, None)
      | Some p \<Rightarrow>
          (if p = tree_root t \<or> split_len t p \<noteq> Some 1 then (t, None)
           else case parent_of t p of
             None \<Rightarrow> (t, None)
           | Some g \<Rightarrow> (case get_split t g of
               None \<Rightarrow> (t, None)
             | Some (lg, cs, ps, m) \<Rightarrow>
                 (if position p cs = None then (t, None)
                  else let t1 = set_value t g (Split lg (replace_slot p i cs) ps m);
                           t2 = set_parent t1 i (Some g);
                           t3 = (case fullscreen_mode t2 p of
                                   Some fs \<Rightarrow> set_pending_fullscreen t2 i (Some fs) | None \<Rightarrow> t2);
                           t4 = (if focus t3 = Some p then set_focus_id t3 (Some i) else t3);
                           t5 = fst (remove_node t4 p)
                       in (request_window_sizes t5, Some (p, i))))))"

definition focused_layout_target :: "tree \<Rightarrow> tree \<times> nid option \<times> (nid \<times> nid) list" where
  "focused_layout_target t = (case focus t of
      None \<Rightarrow> (t, None, [])
    | Some f \<Rightarrow>
        (let target = (if f = tree_root t then Some (unwrap_or (resident_root t) (tree_root t))
                       else parent_or_root t f) in
         case target of
           None \<Rightarrow> (t, None, [])
         | Some tgt \<Rightarrow>
             (if tgt = tree_root t \<or> split_len t tgt \<noteq> Some 1 \<or> resident_root t = Some tgt
              then (t, Some tgt, [])
              else case parent_of t tgt of
                None \<Rightarrow> (t, Some tgt, [])
              | Some g \<Rightarrow>
                  (if g = tree_root t \<or> split_len t g \<noteq> Some 1 then (t, Some tgt, [])
                   else case child_at t tgt 0 of
                     None \<Rightarrow> (t, Some tgt, [])
                   | Some c \<Rightarrow>
                       (let (t', r) = flatten_parent t c in
                        case r of
                          None \<Rightarrow> (t', Some tgt, [])
                        | Some rm \<Rightarrow> (t', Some g, [rm]))))))"

definition set_focused_layout :: "tree \<Rightarrow> layout \<Rightarrow> tree \<times> (nid \<times> nid) list" where
  "set_focused_layout t l = (case layout_of t (tree_root t) of
      None \<Rightarrow> (panic t, [])
    | Some root_layout \<Rightarrow>
        (let t1 = (if l \<noteq> root_layout
                   then t\<lparr>has_had_tile := True, empty_representation_layout := None\<rparr> else t);
             f = focus t1;
             (t2, target, remapped) = focused_layout_target t1
         in case target of
              None \<Rightarrow> (set_layout t2 (tree_root t2) l, remapped)
            | Some tgt \<Rightarrow>
                (if tgt = tree_root t2 \<and>
                    (case f of Some x \<Rightarrow> tile_at t2 x \<noteq> None \<or> strip_layout root_layout | None \<Rightarrow> False) \<and>
                    l \<noteq> root_layout
                 then (if \<not> can_wrap_root_children t2 then (t2, remapped)
                       else let rects = (if fullscreen_node t2 \<noteq> None
                                         then Some (ipc_nodes (compute_geometry t2)) else None);
                                t3 = t2\<lparr>fullscreen_tile_slot := False\<rparr>;
                                (t4, w) = wrap_root_children t3 l;
                                t5 = (case rects of
                                        Some rs \<Rightarrow> t4\<lparr>fullscreen_layout_wrappers := insert w (fullscreen_layout_wrappers t4),
                                                     pre_layout_ipc_rects := pre_layout_ipc_rects t4 ++ rs\<rparr>
                                      | None \<Rightarrow> t4)
                            in (request_window_sizes t5, remapped))
                 else (set_layout_for_command t2 tgt l, remapped))))"

definition split_focused :: "tree \<Rightarrow> layout \<Rightarrow> tree" where
  "split_focused t l = (case focus t of
      Some f \<Rightarrow> split t f l
    | None \<Rightarrow>
        (let r = representation_layout t
         in (set_layout t (tree_root t) l)\<lparr>empty_representation_layout := Some r\<rparr>))"

definition toggle_split :: "tree \<Rightarrow> nid \<Rightarrow> tree" where
  "toggle_split t i =
     (let l = Option.bind (parent_of t i) (layout_of t)
      in split t i (if l = Some SplitV then SplitH else SplitV))"

definition toggle_layout_split :: "tree \<Rightarrow> nid \<Rightarrow> tree" where
  "toggle_layout_split t target =
     set_layout_for_command t target (case layout_of t target of
         Some SplitH \<Rightarrow> SplitV
       | Some SplitV \<Rightarrow> SplitH
       | _ \<Rightarrow> unwrap_or (previous_layout_of t target) SplitH)"

definition tree_layout_of :: "ipc_layout \<Rightarrow> layout option" where
  "tree_layout_of l = (case l of
      IlSplitH \<Rightarrow> Some SplitH | IlSplitV \<Rightarrow> Some SplitV | IlTabbed \<Rightarrow> Some Tabbed
    | IlStacked \<Rightarrow> Some Stacked | IlToggleSplit \<Rightarrow> None)"

fun position_where :: "('a \<Rightarrow> bool) \<Rightarrow> 'a list \<Rightarrow> nat option" where
  "position_where P [] = None"
| "position_where P (x # xs) = (if P x then Some 0 else map_option Suc (position_where P xs))"

definition next_in_cycle :: "layout_toggle_entry list \<Rightarrow> layout \<Rightarrow> layout_toggle_entry option" where
  "next_in_cycle cycle current =
     or_else
       (Option.bind (position_where (\<lambda>c. case c of
            TeSplit \<Rightarrow> linear current
          | TeLayout l \<Rightarrow> tree_layout_of l = Some current) cycle)
          (\<lambda>index. vec_get cycle ((index + 1) mod length cycle)))
       (List.find (\<lambda>c. case c of TeLayout _ \<Rightarrow> True | TeSplit \<Rightarrow> False) cycle)"

definition toggle_node_layout :: "tree \<Rightarrow> nid \<Rightarrow> layout_toggle \<Rightarrow> tree \<times> bool" where
  "toggle_node_layout t target toggle = (case layout_of t target of
      None \<Rightarrow> (t, False)
    | Some current \<Rightarrow> (case toggle of
        LtDefault \<Rightarrow> (toggle_layout_split t target, True)
      | LtSplit \<Rightarrow> (toggle_layout_split t target, True)
      | LtAll \<Rightarrow> (set_layout_for_command t target (case current of
            SplitH \<Rightarrow> SplitV | SplitV \<Rightarrow> Stacked | Stacked \<Rightarrow> Tabbed | Tabbed \<Rightarrow> SplitH), True)
      | LtCycle cycle \<Rightarrow> (case next_in_cycle cycle current of
          Some TeSplit \<Rightarrow> (toggle_layout_split t target, True)
        | Some (TeLayout l) \<Rightarrow> (case tree_layout_of l of
            None \<Rightarrow> (t, False)
          | Some next \<Rightarrow> (set_layout_for_command t target next, True))
        | None \<Rightarrow> (t, False))))"

definition toggle_focused_layout :: "tree \<Rightarrow> layout_toggle \<Rightarrow> tree \<times> (nid \<times> nid) list" where
  "toggle_focused_layout t toggle =
     (let (t1, target, remapped) = focused_layout_target t
      in (case target of Some tgt \<Rightarrow> fst (toggle_node_layout t1 tgt toggle) | None \<Rightarrow> t1, remapped))"

definition toggle_target_layout :: "tree \<Rightarrow> nid \<Rightarrow> layout_toggle \<Rightarrow> tree \<times> bool" where
  "toggle_target_layout t i toggle = (case parent_of t i of
      None \<Rightarrow> (t, False) | Some target \<Rightarrow> toggle_node_layout t target toggle)"

definition restore_node_layout :: "tree \<Rightarrow> nid \<Rightarrow> tree \<times> bool" where
  "restore_node_layout t target = (case previous_layout_of t target of
      None \<Rightarrow> (t, contains_key t target)
    | Some l \<Rightarrow> (set_layout_for_command t target l, True))"

definition restore_focused_split_layout :: "tree \<Rightarrow> tree \<times> (nid \<times> nid) list option" where
  "restore_focused_split_layout t =
     (let (t1, target, remapped) = focused_layout_target t
      in case target of
           None \<Rightarrow> (t1, None)
         | Some tgt \<Rightarrow>
             (if previous_layout_of t1 tgt \<noteq> None
              then (fst (restore_node_layout t1 tgt), Some remapped) else (t1, None)))"

definition restore_target_layout :: "tree \<Rightarrow> nid \<Rightarrow> tree \<times> bool" where
  "restore_target_layout t i = (case parent_of t i of
      None \<Rightarrow> (t, False) | Some target \<Rightarrow> restore_node_layout t target)"

definition toggle_focused_layout_split :: "tree \<Rightarrow> tree \<times> (nid \<times> nid) list" where
  "toggle_focused_layout_split t =
     (let (t1, target, remapped) = focused_layout_target t
      in (case target of Some tgt \<Rightarrow> toggle_layout_split t1 tgt | None \<Rightarrow> t1, remapped))"

definition toggle_focused_split :: "tree \<Rightarrow> tree" where
  "toggle_focused_split t =
     (let f = unwrap_or (focus t) (tree_root t)
      in split t f (if layout_of t f = Some SplitH then SplitV else SplitH))"

definition set_focused_parent_layout :: "tree \<Rightarrow> layout \<Rightarrow> tree" where
  "set_focused_parent_layout t l = (case Option.bind (focus t) (parent_of t) of
      None \<Rightarrow> t | Some p \<Rightarrow> set_layout t p l)"

definition set_target_layout :: "tree \<Rightarrow> nid \<Rightarrow> layout \<Rightarrow> tree \<times> bool" where
  "set_target_layout t i l = (case parent_or_root t i of
      None \<Rightarrow> (t, False)
    | Some target \<Rightarrow> (set_layout_for_command t target l, True))"

section \<open>The layout of an empty workspace\<close>

definition reset_empty_layout :: "tree \<Rightarrow> tree" where
  "reset_empty_layout t =
     (if \<not> is_empty t then panic t
      else let l = (case preserved_auto_layout t of
                      Some l \<Rightarrow> l
                    | None \<Rightarrow> default_layout (opt_default_orientation (options_of t)) (view_w t) (view_h t))
           in (set_layout t (tree_root t) l)\<lparr>empty_representation_layout := Some l\<rparr>)"

definition preserve_empty_auto_layout :: "tree \<Rightarrow> tree" where
  "preserve_empty_auto_layout t = (case layout_of t (tree_root t) of
      None \<Rightarrow> panic t | Some l \<Rightarrow> t\<lparr>preserved_auto_layout := Some l\<rparr>)"

definition track_empty_auto_layout :: "tree \<Rightarrow> tree" where
  "track_empty_auto_layout t = (case preserved_auto_layout t of
      None \<Rightarrow> t
    | Some preserved \<Rightarrow>
        (let t1 = t\<lparr>preserved_auto_layout := None\<rparr> in
         if is_empty t1 \<and> opt_default_orientation (options_of t1) = DoAuto \<and>
            layout_of t1 (tree_root t1) = Some preserved
         then reset_empty_layout t1 else t1))"

definition update_empty_auto_layout :: "tree \<Rightarrow> real \<Rightarrow> real \<Rightarrow> tree" where
  "update_empty_auto_layout t vw vh =
     (let old_auto = default_layout DoAuto (view_w t) (view_h t);
          new_auto = default_layout DoAuto vw vh
      in if preserved_auto_layout t = None \<and> is_empty t \<and>
            opt_default_orientation (options_of t) = DoAuto \<and>
            layout_of t (tree_root t) = Some old_auto
         then set_layout t (tree_root t) new_auto else t)"

definition update_config ::
  "tree \<Rightarrow> real \<Rightarrow> real \<Rightarrow> rect \<Rightarrow> bool \<Rightarrow> real \<Rightarrow> real \<Rightarrow> options \<Rightarrow> tree" where
  "update_config t vw vh area to_edge sc tb_height opts =
     (let t1 = fold (\<lambda>(i, w) t. log_call t (UpdateConfig w)) (windows t) t;
          t2 = update_empty_auto_layout t1 vw vh
      in request_window_sizes_with (t2\<lparr>view_w := vw, view_h := vh, parent_area := area,
           gaps_to_edge := to_edge, scale := sc, titlebar_height := tb_height,
           gaps := opt_gaps opts, options_of := opts\<rparr>) False False)"

section \<open>Table updates on sound trees\<close>

lemma wft_tables:
  assumes "wft D E t" "nodes t' = nodes t" "tree_root t' = tree_root t" "next_id t' = next_id t"
    "panicked t' = panicked t" "side_ok t'" "modes_ok t'"
  shows "wft D E t'"
  using assms forest_cong [OF assms(2-4), of D E] by (simp add: wft_def)

lemma wft_history:
  assumes W: "wft D E t" and h: "distinct h" "\<forall>i\<in>set h. contains_key t i"
  shows "wft D E (t\<lparr>focus_history := h\<rparr>)"
proof (rule wft_tables [OF W])
  have K: "contains_key (t\<lparr>focus_history := h\<rparr>) = contains_key t"
    "tile_at (t\<lparr>focus_history := h\<rparr>) = tile_at t" using same_nodes_reads [of "t\<lparr>focus_history := h\<rparr>" t] by simp_all
  show "side_ok (t\<lparr>focus_history := h\<rparr>)" using wfD(2) [OF W] h by (simp add: side_ok_def K)
  show "modes_ok (t\<lparr>focus_history := h\<rparr>)"
    using wfD(3) [OF W] by (simp add: modes_ok_def K fullscreen_mode_def)
qed simp_all

lemma clear_mode_reads [simp]:
  "nodes (clear_fullscreen_mode t c) = nodes t" "tree_root (clear_fullscreen_mode t c) = tree_root t"
  "next_id (clear_fullscreen_mode t c) = next_id t" "panicked (clear_fullscreen_mode t c) = panicked t"
  "focus (clear_fullscreen_mode t c) = focus t"
  "has_resident_root (clear_fullscreen_mode t c) = has_resident_root t"
  by (simp_all add: clear_fullscreen_mode_def)

lemma wft_clear_mode:
  assumes W: "wft D E t"
  shows "wft D E (clear_fullscreen_mode t c)"
proof (rule wft_tables [OF W])
  let ?u = "clear_fullscreen_mode t c"
  have K: "contains_key ?u = contains_key t" "tile_at ?u = tile_at t"
    using same_nodes_reads [of ?u t] by simp_all
  show "side_ok ?u"
    by (rule side_ok_mono [OF wfD(2) [OF W] K(1)])
      (auto simp: clear_fullscreen_mode_def map_le_def side_okD(1) [OF wfD(2) [OF W]] split: option.splits)
  have "pm_maximized m \<Longrightarrow> is_leaf t i" if "pending_modes ?u i = Some m" for i m
    using that modes_ok_leaf [OF wfD(3) [OF W], of i]
    by (auto simp: clear_fullscreen_mode_def split: option.splits if_splits)
  then show "modes_ok ?u"
    using wfD(3) [OF W] unfolding modes_ok_def K clear_mode_fullscreen by auto
qed simp_all

lemma wft_set_pending:
  assumes W: "wft D E t" and i: "contains_key t i"
    and m: "m = None \<or> (\<forall>j. j \<noteq> i \<longrightarrow> fullscreen_mode t j = None)"
  shows "wft D E (set_pending_fullscreen t i m)"
  using wft_tables [OF W] side_ok_set_pending [OF wfD(2) [OF W] i] modes_ok_set_pending [OF wfD(3) [OF W] m]
  by simp

lemma structure_clear_mode [simp]:
  "contains_key (clear_fullscreen_mode t c) = contains_key t"
  "parent_of (clear_fullscreen_mode t c) = parent_of t"
  "get_split (clear_fullscreen_mode t c) = get_split t"
  "tile_at (clear_fullscreen_mode t c) = tile_at t"
  using same_nodes_reads [of "clear_fullscreen_mode t c" t] by simp_all

text \<open>Passing the fullscreen mode of one node to another, as \<^verbatim>\<open>wrap_node\<close> does.\<close>

definition pass_fullscreen :: "tree \<Rightarrow> nid \<Rightarrow> nid \<Rightarrow> tree" where
  "pass_fullscreen t i w = (case fullscreen_mode t i of
      Some fs \<Rightarrow> set_pending_fullscreen (clear_fullscreen_mode t i) w (Some fs) | None \<Rightarrow> t)"

lemma pass_fullscreen_reads [simp]:
  "nodes (pass_fullscreen t i w) = nodes t" "tree_root (pass_fullscreen t i w) = tree_root t"
  "next_id (pass_fullscreen t i w) = next_id t" "panicked (pass_fullscreen t i w) = panicked t"
  "focus (pass_fullscreen t i w) = focus t"
  "has_resident_root (pass_fullscreen t i w) = has_resident_root t"
  by (simp_all add: pass_fullscreen_def split: option.splits)

lemma pass_fullscreen_structure [simp]:
  "contains_key (pass_fullscreen t i w) = contains_key t" "parent_of (pass_fullscreen t i w) = parent_of t"
  "get_split (pass_fullscreen t i w) = get_split t" "tile_at (pass_fullscreen t i w) = tile_at t"
  using same_nodes_reads [of "pass_fullscreen t i w" t] by simp_all

lemma wft_pass_fullscreen:
  assumes W: "wft D E t" and w: "contains_key t w"
  shows "wft D E (pass_fullscreen t i w)"
proof (cases "fullscreen_mode t i")
  case (Some fs)
  have "fullscreen_mode (clear_fullscreen_mode t i) j = None" for j
    using modes_ok_unique [OF wfD(3) [OF W], of i fs j] Some
    by (cases "fullscreen_mode t j") (auto simp: clear_mode_fullscreen)
  then have "wft D E (set_pending_fullscreen (clear_fullscreen_mode t i) w (Some fs))"
    by (intro wft_set_pending [OF wft_clear_mode [OF W]]) (use w in simp_all)
  then show ?thesis using Some by (simp add: pass_fullscreen_def)
qed (use W in \<open>simp add: pass_fullscreen_def\<close>)

lemma raise_split_wrapper_reads [simp]:
  "nodes (raise_split_wrapper t c w) = nodes t" "tree_root (raise_split_wrapper t c w) = tree_root t"
  "next_id (raise_split_wrapper t c w) = next_id t" "panicked (raise_split_wrapper t c w) = panicked t"
  "focus (raise_split_wrapper t c w) = focus t"
  "has_resident_root (raise_split_wrapper t c w) = has_resident_root t"
  by (simp_all add: raise_split_wrapper_def Let_def)

lemma raise_split_wrapper_structure [simp]:
  "contains_key (raise_split_wrapper t c w) = contains_key t"
  "parent_of (raise_split_wrapper t c w) = parent_of t"
  "get_split (raise_split_wrapper t c w) = get_split t" "tile_at (raise_split_wrapper t c w) = tile_at t"
  using same_nodes_reads [of "raise_split_wrapper t c w" t] by simp_all

lemma wft_raise_split_wrapper:
  assumes W: "wft D E t" and w: "contains_key t w"
  shows "wft D E (raise_split_wrapper t c w)"
  using W w side_okD(1,2) [OF wfD(2) [OF W]]
  by (auto simp: raise_split_wrapper_def Let_def intro!: wft_history split: option.splits)

section \<open>Wrapping a node\<close>

lemma alloc_reads:
  "snd (alloc t n) = next_id t"
  "contains_key (fst (alloc t n)) = (contains_key t)(next_id t := True)"
  "parent_of (fst (alloc t n)) = (parent_of t)(next_id t := parent n)"
  "get_split (fst (alloc t n)) = (get_split t)(next_id t := split_of (node_value n))"
  "tile_at (fst (alloc t n)) = (tile_at t)(next_id t := (case node_value n of Leaf w \<Rightarrow> Some w | _ \<Rightarrow> None))"
  "next_id (fst (alloc t n)) = Suc (next_id t)" "panicked (fst (alloc t n)) = panicked t"
  "tree_root (fst (alloc t n)) = tree_root t"
  by (auto simp: alloc_def fun_eq_iff contains_key_def parent_of_def get_split_def tile_at_def
      value_of_def split_of_def split: tree_node.splits option.splits)

lemma fresh_id: "forest D E t \<Longrightarrow> \<not> contains_key t (next_id t)"
  using forest_bound by blast

lemma wrap_node_cases:
  assumes W: "wft {} {} t"
  obtains (unchanged) "wrap_node t i l = (t, i)"
      "\<not> can_wrap t i \<or> i = tree_root t \<or> \<not> contains_key t i"
    | (wrapped) p lp cs ps m k u where "can_wrap t i" "parent_of t i = Some p"
      "get_split t p = Some (lp, cs, ps, m)" "k < length cs" "cs ! k = i"
      "u = set_parent (set_value (fst (alloc t \<lparr>parent = Some p, node_value = Split l [i] [1] split_meta_default\<rparr>)) p
             (Split lp (cs[k := next_id t]) ps m)) i (Some (next_id t))"
      "wrap_node t i l = (pass_fullscreen (raise_split_wrapper u i (next_id t)) i (next_id t), next_id t)"
proof -
  have F: "forest {} {} t" using W by (rule wfD)
  show ?thesis
  proof (cases "\<not> can_wrap t i \<or> \<not> contains_key t i \<or> i = tree_root t")
    case True
    have "child_index t (tree_root t) (tree_root t) = None"
      using forest_root_parent [OF F] forest_splitD(2) [OF F, of "tree_root t"]
      by (auto simp: child_index_def children_of_def split: option.splits)
    moreover have "parent_or_root t (tree_root t) = None \<or> parent_or_root t (tree_root t) = Some (tree_root t)"
      using forest_root_parent [OF F]
      by (auto simp: parent_or_root_def parent_of_def split: option.splits)
    moreover have "parent_or_root t i = None" if "\<not> contains_key t i"
      using that by (simp add: parent_or_root_def contains_key_def)
    ultimately have "wrap_node t i l = (t, i)" using True by (auto simp: wrap_node_def)
    then show ?thesis using True unchanged by blast
  next
    case False
    then have c: "can_wrap t i" "contains_key t i" "i \<noteq> tree_root t" by auto
    then obtain p where p: "parent_of t i = Some p" using forest_top [OF F] by blast
    obtain lp cs ps m where pp: "get_split t p = Some (lp, cs, ps, m)" using F p by (rule forest_parentD)
    obtain k where k: "k < length cs" "cs ! k = i" "position i cs = Some k"
      using remove_child_eq [OF F p pp] by metis
    have len: "length ps = length cs" by (rule forest_splitD(3) [OF F pp])
    have pr: "parent_or_root t i = Some p"
      using p by (auto simp: parent_or_root_def parent_of_def split: option.splits)
    have pn: "p \<noteq> next_id t" using forest_bound [OF F get_split_contains [OF pp]] by simp
    let ?n = "\<lparr>parent = Some p, node_value = Split l [i] [1] split_meta_default\<rparr>"
    have al1: "get_split (fst (alloc t ?n)) p = Some (lp, cs, ps, m)" using pp pn by (simp add: alloc_reads)
    let ?u = "set_parent (set_value (fst (alloc t ?n)) p (Split lp (cs[k := next_id t]) ps m)) i (Some (next_id t))"
    have "ps[k := ps ! k] = ps" by simp
    then have "wrap_node t i l = (pass_fullscreen (raise_split_wrapper ?u i (next_id t)) i (next_id t), next_id t)"
      using c pr pp k len al1
      by (simp add: wrap_node_def child_index_def children_of_def percents_of_def
          pass_fullscreen_def Let_def case_prod_beta alloc_reads(1) split: option.splits)
    then show ?thesis using wrapped [OF c(1) p pp k(1,2) refl] by blast
  qed
qed

text \<open>
  \<open>grows t t'\<close>: the invariant holds after, tiles and focus are kept, every node survives.
\<close>

definition grows :: "tree \<Rightarrow> tree \<Rightarrow> bool" where
  "grows t t' \<longleftrightarrow> wft {} {} t' \<and> (\<forall>X. focus_in X t \<longrightarrow> focus_in X t') \<and> steady t t' \<and>
     (\<forall>x. contains_key t x \<longrightarrow> contains_key t' x) \<and> has_resident_root t' = has_resident_root t"

lemma grows_refl: "wft {} {} t \<Longrightarrow> grows t t"
  by (simp add: grows_def)

lemma grows_wf: "grows t t' \<Longrightarrow> wft {} {} t'"
  by (simp add: grows_def)

lemma inv_grows: "inv t \<Longrightarrow> grows t t' \<Longrightarrow> inv t'"
  using inv_step invD(2) unfolding grows_def by blast

lemma grows_log: "grows t t' \<Longrightarrow> grows t (log_call t' c)"
  unfolding grows_def using steady_trans [OF _ steady_log_call] by auto

lemma wrapped_structure:
  fixes l :: layout
  assumes F: "forest {} {} t" and p: "parent_of t i = Some p" "get_split t p = Some (lp, cs, ps, m)"
    and k: "k < length cs" "cs ! k = i"
  defines "w \<equiv> next_id t"
  defines "u \<equiv> set_parent (set_value (fst (alloc t \<lparr>parent = Some p, node_value = Split l [i] [1] split_meta_default\<rparr>)) p
             (Split lp (cs[k := w]) ps m)) i (Some w)"
  shows "contains_key u = (contains_key t)(w := True)"
    "parent_of u = (parent_of t)(w := Some p, i := Some w)"
    "get_split u = (get_split t)(w := Some (l, [i], [1], split_meta_default), p := Some (lp, cs[k := w], ps, m))"
    "tile_at u = tile_at t" "forest {} {} u" "strip u = strip t" "panicked u = panicked t"
    "next_id u = Suc (next_id t)" "tree_root u = tree_root t"
proof -
  have wK: "\<not> contains_key t w" unfolding w_def using F by (rule fresh_id)
  have pK: "contains_key t p" using p(2) by (rule get_split_contains)
  have iK: "contains_key t i" using p(1) by (rule parent_of_contains)
  have ne: "w \<noteq> p" "w \<noteq> i" using wK pK iK by auto
  note al = alloc_reads [of t, folded w_def]
  show con: "contains_key u = (contains_key t)(w := True)"
    using pK iK by (auto simp: u_def al fun_eq_iff)
  show par: "parent_of u = (parent_of t)(w := Some p, i := Some w)"
    using pK iK ne by (auto simp: u_def al fun_eq_iff)
  show spl: "get_split u = (get_split t)(w := Some (l, [i], [1], split_meta_default), p := Some (lp, cs[k := w], ps, m))"
    using pK iK ne by (auto simp: u_def al fun_eq_iff)
  have tw: "tile_at t w = None" using wK tile_at_contains by (cases "tile_at t w") auto
  show "tile_at u = tile_at t"
    using ne tw split_not_leaf [OF p(2)] by (auto simp: u_def al fun_eq_iff)
  show root: "tree_root u = tree_root t" by (simp add: u_def al)
  show nx: "next_id u = Suc (next_id t)" by (simp add: u_def al w_def)
  show "strip u = strip t" "panicked u = panicked t" by (simp_all add: u_def al)
  have d: "distinct cs" "length ps = length cs" "shares ps" by (rule forest_splitD [OF F p(2)])+
  have wcs: "w \<notin> set cs" using child_contains [OF F p(2)] wK by blast
  have "set (cs[k := w]) = insert w (set cs - {i})"
    using set_update_distinct [OF d(1) k(1)] k(2) by simp
  moreover have "distinct (cs[k := w])" using d(1) wcs k by (simp add: distinct_list_update)
  ultimately have "aforest (tree_root t) (Suc (next_id t)) {} {} ((contains_key t)(w := True))
      ((parent_of t)(w := Some p, i := Some w))
      ((get_split t)(w := Some (l, [i], [1], split_meta_default), p := Some (lp, cs[k := w], ps, m)))"
    by (intro aforest_wrap [OF F [unfolded forest_iff] p(2,1) wK]) (use d k in \<open>simp_all add: w_def\<close>)
  then show "forest {} {} u" unfolding forest_iff con par spl root nx .
qed

lemma fresh_neq:
  assumes "forest D E t" "parent_of t i = Some p"
  shows "next_id t \<noteq> p" "next_id t \<noteq> i"
  using links.par_bound [OF arena_okI [OF assms(1)] assms(2)] by auto

lemma wrap_node_grows:
  assumes W: "wft {} {} t"
  shows "grows t (fst (wrap_node t i l))"
  using W
proof (cases rule: wrap_node_cases [where i = i and l = l])
  case (wrapped p lp cs ps m k u)
  have F: "forest {} {} t" using W by (rule wfD)
  note ws = wrapped_structure [OF F wrapped(2-5), of l, folded wrapped(6)]
  have Wu: "wft {} {} u" by (rule wf_frame [OF W ws(5,6,7)]) (simp_all add: ws)
  let ?r = "pass_fullscreen (raise_split_wrapper u i (next_id t)) i (next_id t)"
  have Wr: "wft {} {} ?r"
    by (intro wft_pass_fullscreen wft_raise_split_wrapper Wu) (simp_all add: ws)
  note sf = strip_fieldsD [OF ws(6)]
  have "steady t ?r" using sf ws by (simp add: steady_def)
  moreover have "focus_in X t \<Longrightarrow> focus_in X ?r" for X using sf ws by (auto simp: focus_in_def)
  ultimately show ?thesis using Wr sf ws by (simp add: wrapped(7) grows_def)
qed (use W grows_refl in simp)

lemma wrap_node_result:
  assumes W: "wft {} {} t" and i: "contains_key t i"
  shows "contains_key (fst (wrap_node t i l)) (snd (wrap_node t i l))"
  using W
proof (cases rule: wrap_node_cases [where i = i and l = l])
  case (wrapped p lp cs ps m k u)
  note ws = wrapped_structure [OF wfD(1) [OF W] wrapped(2-5), of l, folded wrapped(6)]
  show ?thesis by (simp add: wrapped(7) ws)
qed (use i in simp)

lemma wrap_node_depth:
  assumes W: "wft {} {} t" and ok: "depth_ok t"
  shows "depth_ok (fst (wrap_node t i l))"
  using W
proof (cases rule: wrap_node_cases [where i = i and l = l])
  case unchanged
  then show ?thesis using ok by simp
next
  case (wrapped p lp cs ps m k u)
  have F: "forest {} {} t" using W by (rule wfD)
  note ws = wrapped_structure [OF F wrapped(2-5), of l, folded wrapped(6)]
  let ?w = "next_id t"
  let ?r = "fst (wrap_node t i l)"
  have Fr: "forest {} {} ?r" using wfD(1) [OF grows_wf [OF wrap_node_grows [OF W]]] .
  have par: "parent_of ?r = (parent_of t)(?w := Some p, i := Some ?w)"
    and key: "contains_key ?r = (contains_key t)(?w := True)"
    using ws by (simp_all add: wrapped(7))
  have rootr: "tree_root ?r = tree_root t" using ws by (simp add: wrapped(7))
  have bound: "node_depth ?r j \<le> node_depth t j + (if below t j i then 1 else 0)"
    if "contains_key t j" for j
    using that
  proof (induction "node_depth t j" arbitrary: j rule: less_induct)
    case less
    have jw: "j \<noteq> ?w" using less.prems fresh_id [OF F] by auto
    show ?case
    proof (cases "parent_of t j")
      case None
      then have "j = tree_root t" using forest_top [OF F less.prems] by blast
      then have "parent_of ?r j = None" using forest_root_parent [OF Fr] rootr by simp
      then show ?thesis using node_depth_eq [OF Fr, of j j 0] by simp
    next
      case (Some q)
      have qK: "contains_key t q" using F Some by (rule forest_parentD) (rule get_split_contains)
      have dj: "node_depth t j = Suc (node_depth t q)" using node_depth_child [OF F Some] .
      have IH: "node_depth ?r q \<le> node_depth t q + (if below t q i then 1 else 0)"
        using less.hyps [OF _ qK] dj by simp
      show ?thesis
      proof (cases "j = i")
        case True
        then have q: "q = p" using Some wrapped(2) by simp
        have "\<not> below t p i" using links.no_self_loop [OF arena_okI [OF F] wrapped(2)] .
        moreover have "parent_of ?r i = Some ?w" "parent_of ?r ?w = Some p" using par fresh_neq [OF F wrapped(2)] by auto
        then have "node_depth ?r i = Suc (Suc (node_depth ?r p))"
          using node_depth_child [OF Fr] by metis
        ultimately show ?thesis using IH dj True q by simp
      next
        case False
        have "parent_of ?r j = Some q" using par jw False Some by simp
        then have "node_depth ?r j = Suc (node_depth ?r q)" by (rule node_depth_child [OF Fr])
        moreover have "below t q i \<Longrightarrow> below t j i"
          using Some by (metis converse_rtrancl_into_rtrancl up_edges_iff)
        ultimately show ?thesis using IH dj by (auto split: if_splits)
      qed
    qed
  qed
  have iK: "contains_key t i" using wrapped(2) by (rule parent_of_contains)
  show ?thesis
    unfolding depth_ok_def key
  proof (intro allI impI)
    fix j assume j: "((contains_key t)(?w := True)) j"
    show "node_depth ?r j \<le> MAX_TREE_DEPTH"
    proof (cases "j = ?w")
      case True
      have "parent_of ?r ?w = Some p" using par fresh_neq [OF F wrapped(2)] by simp
      then have "node_depth ?r ?w = Suc (node_depth ?r p)" by (rule node_depth_child [OF Fr])
      moreover have "node_depth ?r p \<le> node_depth t p"
        using bound [of p] get_split_contains [OF wrapped(3)] links.no_self_loop [OF arena_okI [OF F] wrapped(2)]
        by simp
      moreover have "node_depth t i \<le> MAX_TREE_DEPTH" using ok iK by (simp add: depth_ok_def)
      ultimately show ?thesis using node_depth_child [OF F wrapped(2)] True by simp
    next
      case False
      then have jK: "contains_key t j" using j by simp
      show ?thesis
      proof (cases "below t j i")
        case True
        then obtain n where "(j, i) \<in> steps t n" using rtrancl_imp_relpow by blast
        then have "node_depth t j < MAX_TREE_DEPTH" using can_wrap_below [OF F iK _ jK wrapped(1)] by blast
        then show ?thesis using bound [OF jK] True by simp
      next
        case False
        then show ?thesis using bound [OF jK] ok jK by (force simp: depth_ok_def)
      qed
    qed
  qed
qed

section \<open>Wrapping the children of the root\<close>

lemma set_parents_reads:
  "parent_of (set_parents cs p t) i = (if i \<in> set cs \<and> contains_key t i then Some p else parent_of t i)"
  "contains_key (set_parents cs p t) = contains_key t" "get_split (set_parents cs p t) = get_split t"
  "tile_at (set_parents cs p t) = tile_at t" "strip (set_parents cs p t) = strip t"
  "panicked (set_parents cs p t) = panicked t" "next_id (set_parents cs p t) = next_id t"
  "tree_root (set_parents cs p t) = tree_root t"
  by (induction cs arbitrary: t) (auto simp: fun_eq_iff)

definition root_wrapped :: "tree \<Rightarrow> layout \<Rightarrow> tree" where
  "root_wrapped t l = fst (wrap_root_children t l)"

lemma wrap_root_structure:
  assumes F: "forest {} {} t" and r: "get_split t (tree_root t) = Some (lr, cs, ps, m)" and ne: "cs \<noteq> []"
    and can: "can_wrap_root_children t"
  defines "w \<equiv> next_id t"
  shows "snd (wrap_root_children t l) = w"
    "contains_key (root_wrapped t l) = (contains_key t)(w := True)"
    "parent_of (root_wrapped t l) = (\<lambda>i. if i = w then Some (tree_root t) else if i \<in> set cs then Some w else parent_of t i)"
    "get_split (root_wrapped t l) = (get_split t)(w := Some (l, cs, ps, split_meta_default\<lparr>previous_layout :=
        (if linear lr then Some lr else None)\<rparr>), tree_root t := Some (lr, [w], [1], m))"
    "tile_at (root_wrapped t l) = tile_at t" "forest {} {} (root_wrapped t l)"
    "strip (root_wrapped t l) = (strip t)\<lparr>ipc_stale_nodes := insert w (ipc_stale_nodes t)\<rparr>"
    "panicked (root_wrapped t l) = panicked t" "next_id (root_wrapped t l) = Suc (next_id t)"
proof -
  let ?r = "tree_root t"
  let ?mw = "split_meta_default\<lparr>previous_layout := (if linear lr then Some lr else None)\<rparr>"
  let ?n = "\<lparr>parent = Some ?r, node_value = Split l cs ps ?mw\<rparr>"
  define t0 where "t0 = set_value t ?r (Split lr [] [] m)"
  define t1 where "t1 = fst (alloc t0 ?n)"
  define t2 where "t2 = t1\<lparr>ipc_stale_nodes := insert w (ipc_stale_nodes t1)\<rparr>"
  define t3 where "t3 = set_parents cs w t2"
  have rK: "contains_key t ?r" using r by (rule get_split_contains)
  have wK: "\<not> contains_key t w" unfolding w_def using F by (rule fresh_id)
  have wr: "w \<noteq> ?r" using rK wK by auto
  have csK: "contains_key t c" if "c \<in> set cs" for c using child_contains [OF F r that] .
  have wcs: "w \<notin> set cs" using csK wK by auto
  have nx0: "next_id t0 = w" by (simp add: t0_def w_def)
  note al = alloc_reads [of t0, unfolded nx0]
  have ap: "alloc t0 ?n = (t1, w)" by (simp add: t1_def alloc_def nx0)
  note sn = same_nodes_reads [of t2 "fst (alloc t0 ?n)"]
  have n2: "nodes t2 = nodes (fst (alloc t0 ?n))" by (simp add: t2_def t1_def)
  have t0: "contains_key t0 = contains_key t" "parent_of t0 = parent_of t"
    "get_split t0 = (get_split t)(?r := Some (lr, [], [], m))" "tile_at t0 = tile_at t"
    using rK relabel_tiles [OF r] by (simp_all add: t0_def set_value_reads fun_eq_iff)
  have tw: "(tile_at t)(w := None) = tile_at t"
    using wK tile_at_contains [of t w] by (cases "tile_at t w") (auto simp: fun_eq_iff)
  have t2: "contains_key t2 = (contains_key t)(w := True)" "parent_of t2 = (parent_of t)(w := Some ?r)"
    "get_split t2 = (get_split t)(?r := Some (lr, [], [], m), w := Some (l, cs, ps, ?mw))"
    "tile_at t2 = tile_at t"
    unfolding sn(1-4) [OF n2] al t0 by (simp_all add: tw)
  have t3: "contains_key t3 = (contains_key t)(w := True)"
    "parent_of t3 = (\<lambda>i. if i = w then Some ?r else if i \<in> set cs then Some w else parent_of t i)"
    "get_split t3 = (get_split t)(?r := Some (lr, [], [], m), w := Some (l, cs, ps, ?mw))"
    "tile_at t3 = tile_at t"
    using csK wcs by (auto simp: t3_def set_parents_reads t2 fun_eq_iff)
  have eq: "wrap_root_children t l = (set_value t3 ?r (Split lr [w] [1] m), w)"
  proof -
    have "get_split t3 ?r = Some (lr, [], [], m)" using wr t3(3) by simp
    then show ?thesis
      using can by (simp only: wrap_root_children_def r option.case prod.case Let_def t0_def [symmetric]
          ap t2_def [symmetric] t3_def [symmetric] not_True_eq_False if_False)
  qed
  then show "snd (wrap_root_children t l) = w" by simp
  have rw: "root_wrapped t l = set_value t3 ?r (Split lr [w] [1] m)" by (simp add: root_wrapped_def eq)
  have r3K: "contains_key t3 ?r" using t3(1) rK by simp
  show con: "contains_key (root_wrapped t l) = (contains_key t)(w := True)"
    using t3(1) by (simp add: rw set_value_reads)
  show par: "parent_of (root_wrapped t l) =
      (\<lambda>i. if i = w then Some ?r else if i \<in> set cs then Some w else parent_of t i)"
    using t3(2) by (simp add: rw set_value_reads)
  show spl: "get_split (root_wrapped t l) = (get_split t)(w := Some (l, cs, ps, ?mw), ?r := Some (lr, [w], [1], m))"
    using r3K wr by (auto simp: rw t3(3) fun_eq_iff)
  show "tile_at (root_wrapped t l) = tile_at t"
    using split_not_leaf [OF r] r3K by (auto simp: rw t3(4) fun_eq_iff)
  have "strip t3 = strip t2" by (simp add: t3_def set_parents_reads)
  also have "\<dots> = (strip t)\<lparr>ipc_stale_nodes := insert w (ipc_stale_nodes t)\<rparr>"
    by (simp add: t2_def t1_def strip_def alloc_def t0_def set_value_def)
  finally show "strip (root_wrapped t l) = (strip t)\<lparr>ipc_stale_nodes := insert w (ipc_stale_nodes t)\<rparr>"
    by (simp add: rw)
  have t0': "panicked t0 = panicked t" "tree_root t0 = ?r" by (simp_all add: t0_def)
  have "panicked t1 = panicked t" "next_id t1 = Suc w" "tree_root t1 = ?r"
    unfolding t1_def al(6-8) t0' nx0 by (rule refl)+
  then have t2': "panicked t2 = panicked t" "next_id t2 = Suc w" "tree_root t2 = ?r"
    by (simp_all add: t2_def)
  show "panicked (root_wrapped t l) = panicked t" by (simp add: rw t3_def set_parents_reads t2')
  show nx: "next_id (root_wrapped t l) = Suc (next_id t)"
    by (simp add: rw t3_def set_parents_reads t2' w_def)
  have root: "tree_root (root_wrapped t l) = ?r" by (simp add: rw t3_def set_parents_reads t2')
  have "aforest ?r (Suc (next_id t)) {} {} ((contains_key t)(w := True))
      (\<lambda>i. if i = w then Some ?r else if i \<in> set cs then Some w else parent_of t i)
      ((get_split t)(w := Some (l, cs, ps, ?mw), ?r := Some (lr, [w], [1], m)))"
    by (rule aforest_wrap_root [OF F [unfolded forest_iff] r ne wK]) (simp_all add: w_def)
  then show "forest {} {} (root_wrapped t l)" unfolding forest_iff con par spl root nx .
qed

lemma wrap_root_children_grows:
  assumes W: "wft {} {} t" and r: "get_split t (tree_root t) = Some (lr, cs, ps, m)" and ne: "cs \<noteq> []"
  shows "grows t (fst (wrap_root_children t l))"
    "contains_key (fst (wrap_root_children t l)) (snd (wrap_root_children t l))"
proof -
  have F: "forest {} {} t" using W by (rule wfD)
  have "grows t (fst (wrap_root_children t l)) \<and>
    contains_key (fst (wrap_root_children t l)) (snd (wrap_root_children t l))"
  proof (cases "can_wrap_root_children t")
    case False
    then show ?thesis using W r get_split_contains by (simp add: wrap_root_children_def grows_refl)
  next
    case True
    note ws = wrap_root_structure [OF F r ne True, of l]
    let ?u = "root_wrapped t l"
    have sf: "fld ?u = fld t"
      if "\<And>t. fld (strip t) = fld t" "\<And>t x. fld (t\<lparr>ipc_stale_nodes := x\<rparr>) = fld t" for fld :: "tree \<Rightarrow> 'f"
      using that ws(7) by metis
    have f: "tree_root ?u = tree_root t" "focus ?u = focus t" "focus_history ?u = focus_history t"
      "last_entered_by ?u = last_entered_by t" "pending_modes ?u = pending_modes t"
      "mapped_under_fullscreen ?u = mapped_under_fullscreen t"
      "moved_under_fullscreen ?u = moved_under_fullscreen t"
      "fullscreen_layout_wrappers ?u = fullscreen_layout_wrappers t"
      "pre_layout_ipc_rects ?u = pre_layout_ipc_rects t" "tab_indicators ?u = tab_indicators t"
      "tab_active ?u = tab_active t" "has_resident_root ?u = has_resident_root t"
      by (rule sf; simp add: strip_def)+
    have st: "ipc_stale_nodes ?u = insert (next_id t) (ipc_stale_nodes t)"
      using arg_cong [OF ws(7), of ipc_stale_nodes] by (simp add: strip_def)
    have "side_ok ?u" using wfD(2) [OF W] unfolding side_ok_def f st ws(2) by auto
    moreover have "modes_ok ?u" using modes_ok_cong [OF f(5) _ wfD(3) [OF W]] ws(5) by simp
    ultimately have "wft {} {} ?u" using ws(6,8) wfD(4) [OF W] by (simp add: wft_def)
    moreover have "steady t ?u" using ws(5,9) f by (simp add: steady_def)
    ultimately have "grows t ?u" using f ws(2) by (auto simp: grows_def focus_in_def)
    then show ?thesis using ws(1,2) by (simp add: root_wrapped_def)
  qed
  then show "grows t (fst (wrap_root_children t l))"
    "contains_key (fst (wrap_root_children t l)) (snd (wrap_root_children t l))" by blast+
qed

end
