(* ===== verification/Layout_Laws.thy ===== *)
theory Layout_Laws
  imports Tree_Layout
begin

text \<open>
  Laws of the layout commands: each keeps the invariant and every window in its node, and the
  nesting bound holds after it if it held before (\<open>lawful\<close>).
\<close>

section \<open>Depth under surgery\<close>

text \<open>A tree whose links are shortcuts of another's is nowhere deeper.\<close>

lemma shortcut_depth:
  assumes F: "forest {} E t" and F': "forest {} E' t'" and R: "tree_root t' = tree_root t"
    and S: "shortcuts t t'" and K: "\<And>x. contains_key t' x \<Longrightarrow> contains_key t x"
    and i: "contains_key t' i"
  shows "node_depth t' i \<le> node_depth t i"
  using i
proof (induction "node_depth t' i" arbitrary: i rule: less_induct)
  case less
  show ?case
  proof (cases "parent_of t' i")
    case None
    then show ?thesis using node_depth_eq [OF F', of i i 0] by simp
  next
    case (Some p)
    have d': "node_depth t' i = Suc (node_depth t' p)" using F' Some by (rule node_depth_child)
    have pK: "contains_key t' p" using F' Some by (rule forest_parentD) (rule get_split_contains)
    have "(i, p) \<in> (up_edges (parent_of t))\<^sup>+" using S Some by (auto simp: shortcuts_def)
    then obtain n where n: "0 < n" "(i, p) \<in> steps t n" using trancl_power by blast
    then have "node_depth t i = n + node_depth t p" using node_depth_step [OF F n(2) K [OF less.prems]] by simp
    moreover have "node_depth t' p \<le> node_depth t p" using less.hyps [OF _ pK] d' by simp
    ultimately show ?thesis using d' n(1) by simp
  qed
qed

lemma shrinks_depth:
  assumes "wft {} {} t" "shrinks t t'" "depth_ok t"
  shows "depth_ok t'"
proof -
  have s: "wft {} {} t'" "tree_root t' = tree_root t" "shortcuts t t'"
    "\<And>x. contains_key t' x \<Longrightarrow> contains_key t x"
    using assms(2) by (auto simp: shrinks_def steady_def)
  show ?thesis
    unfolding depth_ok_def
    using shortcut_depth [OF wfD(1) [OF assms(1)] wfD(1) [OF s(1)] s(2,3,4)] assms(3) s(4)
    by (meson depth_ok_def order_trans)
qed

lemma depth_ok_cong:
  assumes "parent_of t' = parent_of t" "contains_key t' = contains_key t" "next_id t' = next_id t"
  shows "depth_ok t' \<longleftrightarrow> depth_ok t"
proof -
  have "node_depth_loop k t' i d = node_depth_loop k t i d" for k i d
    using assms(1) by (induction k arbitrary: i d) (auto split: option.splits)
  then show ?thesis using assms by (simp add: depth_ok_def node_depth_def walk_fuel_def)
qed

lemma depth_ok_same_core: "same_core t t' \<Longrightarrow> depth_ok t' \<longleftrightarrow> depth_ok t"
  using same_nodes_reads [of t' t] by (intro depth_ok_cong) (simp_all add: same_core_def)

lemmas depth_ok_flags [simp] = same_core_flags [THEN depth_ok_same_core]

lemma depth_ok_log_call [simp]: "depth_ok (log_call t c) \<longleftrightarrow> depth_ok t"
  using same_nodes_reads [of "log_call t c" t] by (intro depth_ok_cong) simp_all

lemma depth_ok_set_focus_id [simp]: "depth_ok (set_focus_id t f) \<longleftrightarrow> depth_ok t"
  by (rule depth_ok_cong) simp_all

lemma wrap_root_depth:
  assumes W: "wft {} {} t" and r: "get_split t (tree_root t) = Some (lr, cs, ps, m)" and ne: "cs \<noteq> []"
    and ok: "depth_ok t"
  shows "depth_ok (fst (wrap_root_children t l))"
proof (cases "can_wrap_root_children t")
  case True
  have F: "forest {} {} t" using W by (rule wfD)
  let ?u = "root_wrapped t l" and ?w = "next_id t" and ?r = "tree_root t"
  note ws = wrap_root_structure [OF F r ne True, of l]
  have rK: "contains_key t ?r" using r by (rule get_split_contains)
  have wr: "?w \<noteq> ?r" using fresh_id [OF F] rK by auto
  have root: "tree_root ?u = ?r"
    using arg_cong [OF ws(7), of tree_root] by (simp add: strip_def)
  have top: "parent_of ?u ?r = None" using forest_root_parent [OF ws(6)] root by simp
  have wd: "node_depth ?u ?w = 1"
    using node_depth_child [OF ws(6), of ?w ?r] ws(3) node_depth_eq [OF ws(6), of ?r ?r 0] top by simp
  have bound: "node_depth ?u j \<le> Suc (node_depth t j)" if "contains_key t j" for j
    using that
  proof (induction "node_depth t j" arbitrary: j rule: less_induct)
    case less
    have jw: "j \<noteq> ?w" using less.prems fresh_id [OF F] by auto
    show ?case
    proof (cases "parent_of t j")
      case None
      then have "j = ?r" using forest_top [OF F less.prems] by blast
      then show ?thesis using top node_depth_eq [OF ws(6), of ?r ?r 0] by simp
    next
      case (Some q)
      have qK: "contains_key t q" using F Some by (rule forest_parentD) (rule get_split_contains)
      have dj: "node_depth t j = Suc (node_depth t q)" using F Some by (rule node_depth_child)
      show ?thesis
      proof (cases "j \<in> set cs")
        case True
        then have "node_depth ?u j = Suc (node_depth ?u ?w)"
          using node_depth_child [OF ws(6), of j ?w] ws(3) jw by simp
        then show ?thesis using wd dj by simp
      next
        case False
        then have "node_depth ?u j = Suc (node_depth ?u q)"
          using node_depth_child [OF ws(6), of j q] ws(3) jw Some by simp
        then show ?thesis using less.hyps [OF _ qK] dj by simp
      qed
    qed
  qed
  have "node_depth t j < MAX_TREE_DEPTH" if "contains_key t j" for j
    using subtree_height_bound [OF F rK node_depth_root [OF F that]] True
    by (simp add: can_wrap_root_children_def)
  then have "node_depth ?u j \<le> MAX_TREE_DEPTH" if "contains_key t j" for j
    using bound [OF that] that by (meson Suc_le_eq le_trans)
  then have "depth_ok ?u"
    using wd ws(2) by (simp add: depth_ok_def MAX_TREE_DEPTH_def)
  then show ?thesis by (simp add: root_wrapped_def)
qed (use ok r in \<open>simp add: wrap_root_children_def\<close>)

section \<open>Splits\<close>

lemma set_split_layout_shrinks:
  assumes W: "wft {} {} t"
  shows "shrinks t (set_split_layout t i l)"
proof (cases "get_split t i")
  case (Some x)
  obtain lp cs ps m where x: "get_split t i = Some (lp, cs, ps, m)" using Some by (cases x) auto
  note d = forest_splitD [OF wfD(1) [OF W] x]
  show ?thesis using relabel_shrinks [OF W x d(1) refl d(3,4)] by (simp add: set_split_layout_def x)
qed (use W in \<open>simp add: set_split_layout_def shrinks_refl\<close>)

lemma set_split_layout_reads [simp]:
  "contains_key (set_split_layout t i l) = contains_key t"
  "parent_of (set_split_layout t i l) = parent_of t" "focus (set_split_layout t i l) = focus t"
  "next_id (set_split_layout t i l) = next_id t"
  by (auto simp: set_split_layout_def set_value_reads strip_fieldsD [OF strip_set_value] split: option.splits)

lemma set_split_layout_grows:
  assumes W: "wft {} {} t"
  shows "grows t (set_split_layout t i l)"
  using set_split_layout_shrinks [OF W, of i l] by (auto simp: grows_def shrinks_def)

lemma depth_ok_set_split_layout [simp]: "depth_ok (set_split_layout t i l) \<longleftrightarrow> depth_ok t"
  by (rule depth_ok_cong) simp_all

lemma split_leaf_grows: "wft {} {} t \<Longrightarrow> grows t (split_leaf t i l)"
  by (simp add: split_leaf_def set_split_layout_grows wrap_node_grows split: option.splits)

lemma split_container_grows: "wft {} {} t \<Longrightarrow> grows t (split_container t i l)"
  by (simp add: split_container_def set_split_layout_grows wrap_node_grows grows_refl Let_def
      split: option.splits)

lemma split_leaf_depth: "wft {} {} t \<Longrightarrow> depth_ok t \<Longrightarrow> depth_ok (split_leaf t i l)"
  by (simp add: split_leaf_def wrap_node_depth split: option.splits)

lemma split_container_depth: "wft {} {} t \<Longrightarrow> depth_ok t \<Longrightarrow> depth_ok (split_container t i l)"
  by (simp add: split_container_def wrap_node_depth Let_def split: option.splits)

lemma focus_of_child:
  assumes I: "inv t" and r: "get_split t i = Some (l, cs, ps, m)" and ne: "cs \<noteq> []"
  shows "focus t \<noteq> None"
proof -
  have F: "forest {} {} t" using I by (rule invD)
  have c: "hd cs \<in> set cs" using ne by simp
  have "parent_of t (hd cs) = Some i" using forest_splitD(2) [OF F r] c by blast
  then have "hd cs \<noteq> tree_root t" using forest_root_parent [OF F] by auto
  then obtain lf where "is_leaf t lf" using leaf_below [OF F child_contains [OF F r c]] by metis
  then show ?thesis using invD(3) [OF I] by (auto simp: leaves_def)
qed

text \<open>
  What every layout operation does: the invariant holds after, no window appears, disappears or
  changes its node, something is focused exactly if it was, the root stays and the depth bound holds.
\<close>

definition lawful :: "tree \<Rightarrow> tree \<Rightarrow> bool" where
  "lawful t t' \<longleftrightarrow> inv t' \<and> steady t t' \<and> (depth_ok t \<longrightarrow> depth_ok t')"

lemma lawful_refl: "inv t \<Longrightarrow> lawful t t"
  by (simp add: lawful_def)

lemma lawful_trans [trans]: "lawful t u \<Longrightarrow> lawful u v \<Longrightarrow> lawful t v"
  using steady_trans by (auto simp: lawful_def)

lemma lawful_log: "lawful t t' \<Longrightarrow> lawful t (log_call t' c)"
  using steady_trans [OF _ steady_log_call] by (auto simp: lawful_def)

lemma lawful_shrinks: "inv t \<Longrightarrow> shrinks t t' \<Longrightarrow> lawful t t'"
  using inv_shrinks shrinks_depth [OF invD(1)] by (auto simp: lawful_def shrinks_def)

lemma lawful_grows: "inv t \<Longrightarrow> grows t t' \<Longrightarrow> (depth_ok t \<Longrightarrow> depth_ok t') \<Longrightarrow> lawful t t'"
  using inv_grows by (auto simp: lawful_def grows_def)

lemma steady_same_core: "same_core t t' \<Longrightarrow> steady t t'"
  using same_nodes_reads [of t' t] by (simp add: steady_def same_core_def)

lemma lawful_same_core: "inv t \<Longrightarrow> same_core t t' \<Longrightarrow> lawful t t'"
  using same_core_inv depth_ok_same_core steady_same_core by (auto simp: lawful_def)

lemma lawful_focus: "inv t \<Longrightarrow> contains_key t i \<Longrightarrow> focus t \<noteq> None \<Longrightarrow> lawful t (set_focus_id t (Some i))"
  using inv_set_focus_id [of t i] by (simp add: lawful_def steady_def)

lemma lawfulD: assumes "lawful t t'" shows "inv t'" "steady t t'" "depth_ok t \<Longrightarrow> depth_ok t'"
  using assms by (auto simp: lawful_def)

lemma same_core_trans: "same_core t u \<Longrightarrow> same_core u v \<Longrightarrow> same_core t v"
  by (simp add: same_core_def)

lemma same_core_settle:
  "same_core t (t\<lparr>interactive_resize_st := a, fullscreen_tile_slot := b\<rparr>)"
  by (simp add: same_core_def)

theorem split_lawful:
  assumes I: "inv t0"
  shows "lawful t0 (split t0 i l)"
proof -
  define t where "t = t0\<lparr>interactive_resize_st := None, fullscreen_tile_slot := False\<rparr>"
  have sc: "same_core t0 t" by (simp add: t_def same_core_settle)
  have L0: "lawful t0 t" using I sc by (rule lawful_same_core)
  have It: "inv t" using L0 by (rule lawfulD)
  have W: "wft {} {} t" using It by (rule invD)
  have "lawful t (split t0 i l)"
  proof (cases "i = tree_root t \<and> (case split_len t i of Some len \<Rightarrow> len > 0 | None \<Rightarrow> False)")
    case True
    then obtain lr cs ps m where r: "get_split t (tree_root t) = Some (lr, cs, ps, m)" and ne: "cs \<noteq> []"
      by (auto simp: split_len_def children_of_def split: option.splits)
    have lr: "layout_of t i = Some lr" using r True by (simp add: layout_of_def)
    note wg = wrap_root_children_grows [OF W r ne]
    let ?t1 = "fst (wrap_root_children t lr)" and ?w = "snd (wrap_root_children t lr)"
    let ?t2 = "set_split_layout ?t1 i l"
    have L1: "lawful t ?t1" by (rule lawful_grows [OF It wg(1) wrap_root_depth [OF W r ne]])
    also have "lawful ?t1 ?t2"
      using lawful_shrinks [OF lawfulD(1) [OF L1] set_split_layout_shrinks [OF invD(1)]] lawfulD(1) [OF L1] by blast
    finally have L2: "lawful t ?t2" .
    have "focus ?t1 \<noteq> None" using steadyD(3) [OF lawfulD(2) [OF L1]] focus_of_child [OF It r ne] by simp
    then have "lawful ?t2 (set_focus_id ?t2 (Some ?w))"
      by (intro lawful_focus lawfulD(1) [OF L2]) (simp_all add: wg(2))
    with L2 have "lawful t (set_focus_id ?t2 (Some ?w))" by (rule lawful_trans)
    then have L3: "lawful t (request_window_sizes (set_focus_id ?t2 (Some ?w)))"
      unfolding calls_are_log by (rule lawful_log)
    show ?thesis
    proof (cases "can_wrap_root_children t")
      case c: True
      have "split t0 i l = request_window_sizes (set_focus_id ?t2 (Some ?w))"
        unfolding split_def t_def [symmetric] Let_def
        by (subst if_P [OF True]) (simp add: c lr case_prod_beta)
      then show ?thesis using L3 by simp
    next
      case False
      have "split t0 i l = t" unfolding split_def t_def [symmetric] Let_def
        by (subst if_P [OF True]) (simp add: False)
      then show ?thesis using It lawful_refl by simp
    qed
  next
    case False
    then have eq: "split t0 i l = (if tile_at t i \<noteq> None then split_leaf t i l
        else request_window_sizes (split_container t i l))"
      unfolding split_def t_def [symmetric] Let_def by (rule if_not_P)
    have "lawful t (split_leaf t i l)"
      by (rule lawful_grows [OF It split_leaf_grows [OF W] split_leaf_depth [OF W]])
    moreover have "lawful t (split_container t i l)"
      by (rule lawful_grows [OF It split_container_grows [OF W] split_container_depth [OF W]])
    ultimately show ?thesis unfolding eq calls_are_log by (simp add: lawful_log)
  qed
  with L0 show ?thesis by (rule lawful_trans)
qed

section \<open>Layout changes\<close>

lemma lawful_relabel:
  assumes I: "inv t" and i: "get_split t i = Some (l, cs, ps, m)"
  shows "lawful t (set_value t i (Split l' cs ps m'))"
proof -
  note d = forest_splitD [OF invD(4) [OF I] i]
  show ?thesis by (rule lawful_shrinks [OF I relabel_shrinks [OF invD(1) [OF I] i d(1) refl d(3,4)]])
qed

lemma lawful_settle:
  "inv t \<Longrightarrow> lawful t (t\<lparr>interactive_resize_st := a, fullscreen_tile_slot := b\<rparr>)"
  by (rule lawful_same_core) (simp_all add: same_core_settle)

lemma get_split_settle [simp]:
  "get_split (t\<lparr>interactive_resize_st := a, fullscreen_tile_slot := b\<rparr>) = get_split t"
  by (simp add: fun_eq_iff get_split_def value_of_def)

lemma lawful_compact: "inv t \<Longrightarrow> lawful t (compact_tree t)"
  using lawful_shrinks shrinks_compact invD(1) by blast

theorem set_layout_lawful:
  assumes I: "inv t"
  shows "lawful t (set_layout t i l)"
proof -
  let ?t = "t\<lparr>interactive_resize_st := None, fullscreen_tile_slot := False\<rparr>"
  have L: "lawful t ?t" using I by (rule lawful_settle)
  note It = lawfulD(1) [OF L]
  have "lawful ?t (set_layout t i l)"
  proof (cases "get_split t i")
    case None
    then show ?thesis using split_lawful [OF It] by (simp add: set_layout_def Let_def)
  next
    case (Some x)
    obtain c cs ps m where x: "get_split t i = Some (c, cs, ps, m)" using Some by (cases x) auto
    let ?u = "set_value ?t i (Split l cs ps (remember_layout c l m))"
    have "get_split ?t i = Some (c, cs, ps, m)" using x by simp
    with It have "lawful ?t ?u" by (rule lawful_relabel)
    also have "lawful ?u (compact_tree ?u)" using lawful_compact lawfulD(1) [OF \<open>lawful ?t ?u\<close>] by blast
    finally show ?thesis
      using x by (simp add: set_layout_def Let_def calls_are_log lawful_log)
  qed
  with L show ?thesis by (rule lawful_trans)
qed

theorem set_layout_for_command_lawful:
  assumes I: "inv t"
  shows "lawful t (set_layout_for_command t i l)"
proof -
  let ?t = "t\<lparr>interactive_resize_st := None, fullscreen_tile_slot := False\<rparr>"
  have L: "lawful t ?t" using I by (rule lawful_settle)
  note It = lawfulD(1) [OF L]
  have "lawful ?t (set_layout_for_command t i l)"
    using It lawful_relabel [OF It, of i]
    by (auto simp: set_layout_for_command_def Let_def calls_are_log lawful_refl lawful_log split: option.splits)
  with L show ?thesis by (rule lawful_trans)
qed

lemma toggle_layout_split_lawful: "inv t \<Longrightarrow> lawful t (toggle_layout_split t i)"
  unfolding toggle_layout_split_def by (rule set_layout_for_command_lawful)

lemma toggle_node_layout_lawful: "inv t \<Longrightarrow> lawful t (fst (toggle_node_layout t i g))"
  using toggle_layout_split_lawful set_layout_for_command_lawful lawful_refl
  by (auto simp: toggle_node_layout_def split: option.splits layout_toggle.splits layout_toggle_entry.splits)

lemma toggle_target_layout_lawful: "inv t \<Longrightarrow> lawful t (fst (toggle_target_layout t i g))"
  by (simp add: toggle_target_layout_def toggle_node_layout_lawful lawful_refl split: option.splits)

lemma restore_node_layout_lawful: "inv t \<Longrightarrow> lawful t (fst (restore_node_layout t i))"
  by (simp add: restore_node_layout_def set_layout_for_command_lawful lawful_refl split: option.splits)

lemma restore_target_layout_lawful: "inv t \<Longrightarrow> lawful t (fst (restore_target_layout t i))"
  by (simp add: restore_target_layout_def restore_node_layout_lawful lawful_refl split: option.splits)

lemma set_target_layout_lawful: "inv t \<Longrightarrow> lawful t (fst (set_target_layout t i l))"
  by (simp add: set_target_layout_def set_layout_for_command_lawful lawful_refl split: option.splits)

lemma toggle_focused_tabbed_lawful: "inv t \<Longrightarrow> lawful t (toggle_focused_tabbed t)"
  by (simp add: toggle_focused_tabbed_def set_layout_lawful lawful_refl split: option.splits)

lemma set_focused_parent_layout_lawful: "inv t \<Longrightarrow> lawful t (set_focused_parent_layout t l)"
  by (simp add: set_focused_parent_layout_def set_layout_lawful lawful_refl split: option.splits)

lemma toggle_split_lawful: "inv t \<Longrightarrow> lawful t (toggle_split t i)"
  by (simp add: toggle_split_def Let_def split_lawful)

lemma toggle_focused_split_lawful: "inv t \<Longrightarrow> lawful t (toggle_focused_split t)"
  by (simp add: toggle_focused_split_def Let_def split_lawful)

lemma lawful_then_flag:
  assumes "lawful t u" "same_core u v"
  shows "lawful t v"
  using assms lawful_same_core lawful_trans lawfulD(1) by blast

lemma split_focused_lawful: "inv t \<Longrightarrow> lawful t (split_focused t l)"
  using lawful_then_flag [OF set_layout_lawful same_core_flags(5)]
  by (simp add: split_focused_def Let_def split_lawful split: option.splits)

section \<open>Flattening\<close>

lemma lift_child_lawful:
  assumes I: "inv t" and i: "parent_of t i = Some p" "get_split t i = Some (li, [c], psi, mi)"
  shows "lawful t (lift_child t i c p)"
proof -
  note lc = lift_child_props [OF invD(1) [OF I] i]
  have ci: "parent_of t c = Some i" using forest_splitD(2) [OF invD(4) [OF I] i(2)] by simp
  have "(c, p) \<in> (up_edges (parent_of t))\<^sup>+" using ci i(1) by (meson trancl.simps up_edges_iff)
  then have "shortcuts t (lift_child t i c p)"
    by (auto simp: shortcuts_def lc(5) split: if_splits intro: r_into_trancl [OF up_edges_iff [THEN iffD2]])
  then have "shrinks t (lift_child t i c p)" using lc by (simp add: shrinks_def)
  with I show ?thesis by (rule lawful_shrinks)
qed

lemma flatten_parent_cases:
  fixes t :: tree
  defines "u \<equiv> t\<lparr>interactive_resize_st := None\<rparr>"
  assumes I: "inv t"
  obtains (kept) "flatten_parent t i = (u, None)"
    | (lifted) p g l ps m where "parent_of u p = Some g" "get_split u p = Some (l, [i], ps, m)"
      "flatten_parent t i = (request_window_sizes (lift_child u p i g), Some (p, i))"
proof (cases "snd (flatten_parent t i)")
  case None
  then have "flatten_parent t i = (u, None)"
    by (auto simp: flatten_parent_def u_def [symmetric] Let_def split: option.splits if_splits prod.splits)
  then show ?thesis by (rule kept)
next
  case (Some r)
  have Iu: "inv u" using I by (simp add: u_def)
  from Some obtain p g lg cs ps m where p: "parent_of u i = Some p" "split_len u p = Some 1"
    "parent_of u p = Some g" "get_split u g = Some (lg, cs, ps, m)" "position p cs \<noteq> None"
    "p \<noteq> tree_root u"
    by (auto simp: flatten_parent_def u_def [symmetric] Let_def split: option.splits if_splits prod.splits)
  obtain l c1 qs m' where sp: "get_split u p = Some (l, [c1], qs, m')"
    using p(2) by (auto simp: split_len_def children_of_def length_Suc_conv)
  have "i \<in> set [c1]"
    using invD(4) [OF Iu] p(1) sp by (auto elim: forest_parentD)
  then have sp: "get_split u p = Some (l, [i], qs, m')" using sp by simp
  have ig: "p \<noteq> g" using links.no_self_loop [OF arena_okI [OF invD(4) [OF Iu]] p(3)] by auto
  let ?v = "set_parent (set_value u g (Split lg (replace_slot p i cs) ps m)) i (Some g)"
  have st: "strip ?v = strip u" by simp
  have fm: "fullscreen_mode ?v p = fullscreen_mode u p"
    using strip_fieldsD(6) [OF st] by (simp add: fullscreen_mode_def)
  have "flatten_parent t i = (request_window_sizes (lift_child u p i g), Some (p, i))"
    unfolding flatten_parent_def u_def [symmetric] Let_def
    using p by (auto simp: fm lift_child_def finish_splice_def Let_def
        split: option.splits)
  then show ?thesis using lifted [OF p(3) sp] by blast
qed

lemma flatten_parent_lawful:
  assumes I: "inv t"
  shows "lawful t (fst (flatten_parent t i))"
  using I
proof (cases rule: flatten_parent_cases [where i = i])
  case kept
  then show ?thesis using I by (simp add: lawful_same_core)
next
  case (lifted p g l ps m)
  let ?u = "t\<lparr>interactive_resize_st := None\<rparr>"
  have L: "lawful t ?u" using I by (simp add: lawful_same_core)
  also have "lawful ?u (lift_child ?u p i g)"
    by (rule lift_child_lawful [OF lawfulD(1) [OF L] lifted(1,2)])
  finally show ?thesis by (simp add: lifted(3) calls_are_log lawful_log)
qed

lemma focused_layout_target_lawful:
  assumes I: "inv t"
  shows "lawful t (fst (focused_layout_target t))"
proof -
  have *: "fst (focused_layout_target t) \<in> insert t (range (\<lambda>c. fst (flatten_parent t c)))"
  proof (cases "focus t")
    case (Some f)
    define target where "target = (if f = tree_root t then Some (unwrap_or (resident_root t) (tree_root t))
      else parent_or_root t f)"
    show ?thesis
    proof (cases target)
      case None
      then show ?thesis unfolding focused_layout_target_def Some option.case target_def [symmetric] Let_def by simp
    next
      case tgt: (Some tgt)
      then show ?thesis
        unfolding focused_layout_target_def Some option.case target_def [symmetric] Let_def tgt case_prod_beta
        by (cases "parent_of t tgt"; cases "child_at t tgt 0"; cases "snd (flatten_parent t (the (child_at t tgt 0)))")
          simp_all
    qed
  qed (simp add: focused_layout_target_def)
  show ?thesis using * lawful_refl [OF I] flatten_parent_lawful [OF I] by auto
qed


lemma same_core_rects:
  assumes W: "wft D E t" and w: "contains_key t w"
    and rs: "\<forall>i r. rs i = Some r \<longrightarrow> contains_key t i"
  shows "wft D E (t\<lparr>fullscreen_layout_wrappers := insert w (fullscreen_layout_wrappers t),
      pre_layout_ipc_rects := pre_layout_ipc_rects t ++ rs\<rparr>)"
proof (rule wft_tables [OF W])
  let ?u = "t\<lparr>fullscreen_layout_wrappers := insert w (fullscreen_layout_wrappers t),
      pre_layout_ipc_rects := pre_layout_ipc_rects t ++ rs\<rparr>"
  have K: "contains_key ?u = contains_key t" "tile_at ?u = tile_at t"
    using same_nodes_reads [of ?u t] by simp_all
  show "side_ok ?u" using wfD(2) [OF W] w rs unfolding side_ok_def K by (auto simp: map_add_Some_iff)
  show "modes_ok ?u" using wfD(3) [OF W] by (simp add: modes_ok_def K fullscreen_mode_def)
qed simp_all

section \<open>Commands on the focused container\<close>

lemma lawful_wrap_root:
  assumes I: "inv t" and r: "get_split t (tree_root t) = Some (lr, cs, ps, m)" and ne: "cs \<noteq> []"
  shows "lawful t (fst (wrap_root_children t l))"
  by (rule lawful_grows [OF I wrap_root_children_grows(1) [OF invD(1) [OF I] r ne]
        wrap_root_depth [OF invD(1) [OF I] r ne]])

lemma lawful_pre_layout_rects:
  assumes I: "inv t" and w: "contains_key t w" and rs: "\<forall>i r. rs i = Some r \<longrightarrow> contains_key t i"
  shows "lawful t (t\<lparr>fullscreen_layout_wrappers := insert w (fullscreen_layout_wrappers t),
      pre_layout_ipc_rects := pre_layout_ipc_rects t ++ rs\<rparr>)" (is "lawful t ?u")
proof -
  have n: "nodes ?u = nodes t" by simp
  note r = same_nodes_reads [OF n]
  have "wft {} {} ?u" by (rule same_core_rects [OF invD(1) [OF I] w rs])
  then have "inv ?u" using I r by (auto simp: inv_def focus_in_def)
  moreover have "depth_ok ?u = depth_ok t" by (rule depth_ok_cong) (simp_all add: r)
  ultimately show ?thesis using r by (simp add: lawful_def steady_def)
qed

lemma wrap_workspace_children_lawful:
  assumes I: "inv t"
  shows "lawful t (wrap_workspace_children t)"
proof (cases "case split_len t (tree_root t) of Some len \<Rightarrow> len > 0 | None \<Rightarrow> False")
  case True
  then obtain lr cs ps m where r: "get_split t (tree_root t) = Some (lr, cs, ps, m)" and ne: "cs \<noteq> []"
    by (auto simp: split_len_def children_of_def split: option.splits)
  show ?thesis
    unfolding wrap_workspace_children_def Let_def if_P [OF True] calls_are_log
    by (rule lawful_log [OF lawful_wrap_root [OF I r ne]])
next
  case False
  show ?thesis
    unfolding wrap_workspace_children_def Let_def if_not_P [OF False] by (rule lawful_refl [OF I])
qed

text \<open>Wrapping the workspace's children for \<^verbatim>\<open>layout\<close>, as \<^verbatim>\<open>set_focused_layout\<close> does.\<close>

definition wrap_workspace_for_layout :: "tree \<Rightarrow> layout \<Rightarrow> tree" where
  "wrap_workspace_for_layout t2 l =
     (let rects = (if fullscreen_node t2 \<noteq> None then Some (ipc_nodes (compute_geometry t2)) else None);
          t3 = t2\<lparr>fullscreen_tile_slot := False\<rparr>;
          (t4, w) = wrap_root_children t3 l;
          t5 = (case rects of
                  Some rs \<Rightarrow> t4\<lparr>fullscreen_layout_wrappers := insert w (fullscreen_layout_wrappers t4),
                               pre_layout_ipc_rects := pre_layout_ipc_rects t4 ++ rs\<rparr>
                | None \<Rightarrow> t4)
      in request_window_sizes t5)"

lemma wrap_workspace_for_layout_lawful:
  assumes I: "inv t" and f: "focus t \<noteq> None"
  shows "lawful t (wrap_workspace_for_layout t l)"
proof -
  let ?t3 = "t\<lparr>fullscreen_tile_slot := False\<rparr>"
  have L3: "lawful t ?t3" by (rule lawful_same_core [OF I]) simp
  note I3 = lawfulD(1) [OF L3]
  obtain lr cs ps m where r: "get_split ?t3 (tree_root ?t3) = Some (lr, cs, ps, m)"
    using invD(4) [OF I3] by (rule forest_root_split)
  have rt: "get_split t (tree_root t) = Some (lr, cs, ps, m)"
    using r same_nodes_reads(3) [of ?t3 t] by simp
  have ne: "cs \<noteq> []"
  proof
    assume "cs = []"
    then have "leaves t = {}" using no_leaves_iff [OF invD(4) [OF I]] rt by (auto simp: children_of_def)
    then show False using invD(3) [OF I] f by simp
  qed
  let ?t4 = "fst (wrap_root_children ?t3 l)" and ?w = "snd (wrap_root_children ?t3 l)"
  note wg = wrap_root_children_grows [OF invD(1) [OF I3] r ne, of l]
  have L4: "lawful ?t3 ?t4" by (rule lawful_wrap_root [OF I3 r ne])
  have key: "contains_key ?t4 i" if "contains_key t i" for i
    using wg(1) that same_nodes_reads(1) [of ?t3 t] by (simp add: grows_def)
  have "\<forall>i x. ipc_nodes (compute_geometry t) i = Some x \<longrightarrow> contains_key ?t4 i"
    using compute_geometry_boxes [of t] key by (auto simp: boxes_in_def)
  note L5 = lawful_pre_layout_rects [OF lawfulD(1) [OF L4] wg(2) this]
  let ?rs = "if fullscreen_node t \<noteq> None then Some (ipc_nodes (compute_geometry t)) else None"
  let ?t5 = "case ?rs of Some rs \<Rightarrow> ?t4\<lparr>fullscreen_layout_wrappers := insert ?w (fullscreen_layout_wrappers ?t4),
      pre_layout_ipc_rects := pre_layout_ipc_rects ?t4 ++ rs\<rparr> | None \<Rightarrow> ?t4"
  have "lawful ?t4 ?t5" using L5 lawful_refl [OF lawfulD(1) [OF L4]] by (simp split: option.split)
  with L3 L4 have "lawful t ?t5" by (blast intro: lawful_trans)
  then show ?thesis
    unfolding wrap_workspace_for_layout_def Let_def case_prod_beta calls_are_log by (rule lawful_log)
qed

theorem set_focused_layout_lawful:
  assumes I: "inv t"
  shows "lawful t (fst (set_focused_layout t l))"
proof -
  obtain lr cs ps m where r: "get_split t (tree_root t) = Some (lr, cs, ps, m)"
    using invD(4) [OF I] by (rule forest_root_split)
  have lr: "layout_of t (tree_root t) = Some lr" using r by (simp add: layout_of_def)
  define t1 where "t1 = (if l \<noteq> lr then t\<lparr>has_had_tile := True, empty_representation_layout := None\<rparr> else t)"
  have L1: "lawful t t1" by (rule lawful_same_core [OF I]) (simp add: t1_def same_core_def)
  obtain t2 target rm where ft: "focused_layout_target t1 = (t2, target, rm)" by (metis prod.collapse)
  have L12: "lawful t1 t2" using focused_layout_target_lawful [OF lawfulD(1) [OF L1]] ft by simp
  with L1 have L2: "lawful t t2" by (rule lawful_trans)
  note I2 = lawfulD(1) [OF L2]
  have eq: "set_focused_layout t l = (case target of
      None \<Rightarrow> (set_layout t2 (tree_root t2) l, rm)
    | Some tgt \<Rightarrow>
        (if tgt = tree_root t2 \<and>
            (case focus t1 of Some x \<Rightarrow> tile_at t2 x \<noteq> None \<or> strip_layout lr | None \<Rightarrow> False) \<and> l \<noteq> lr
         then (if \<not> can_wrap_root_children t2 then (t2, rm) else (wrap_workspace_for_layout t2 l, rm))
         else (set_layout_for_command t2 tgt l, rm)))"
    unfolding set_focused_layout_def lr option.case Let_def t1_def [symmetric] ft prod.case
      wrap_workspace_for_layout_def case_prod_beta fst_conv snd_conv by (rule refl)
  have f2: "focus t2 \<noteq> None" if "focus t1 = Some x" for x
    using steadyD(3) [OF lawfulD(2) [OF L12]] that by simp
  have "lawful t2 (fst (set_focused_layout t l))"
  proof (cases target)
    case None
    then show ?thesis using set_layout_lawful [OF I2] by (simp add: eq)
  next
    case (Some tgt)
    show ?thesis
      unfolding eq Some option.case
      using wrap_workspace_for_layout_lawful [OF I2 f2] set_layout_for_command_lawful [OF I2] lawful_refl [OF I2]
      by (auto split: option.splits)
  qed
  with L2 show ?thesis by (rule lawful_trans)
qed

lemma focused_target_then:
  assumes I: "inv t" and f: "\<And>u tgt. inv u \<Longrightarrow> lawful u (f u tgt)"
  shows "lawful t (case fst (snd (focused_layout_target t)) of
      Some tgt \<Rightarrow> f (fst (focused_layout_target t)) tgt | None \<Rightarrow> fst (focused_layout_target t))"
proof -
  have L: "lawful t (fst (focused_layout_target t))" by (rule focused_layout_target_lawful [OF I])
  then show ?thesis using f [OF lawfulD(1) [OF L]] lawful_trans [OF L] by (simp split: option.split)
qed

lemma toggle_focused_layout_lawful: "inv t \<Longrightarrow> lawful t (fst (toggle_focused_layout t g))"
  using focused_target_then [of t "\<lambda>u tgt. fst (toggle_node_layout u tgt g)"] toggle_node_layout_lawful
  by (simp add: toggle_focused_layout_def Let_def case_prod_beta)

lemma toggle_focused_layout_split_lawful: "inv t \<Longrightarrow> lawful t (fst (toggle_focused_layout_split t))"
  using focused_target_then [of t toggle_layout_split] toggle_layout_split_lawful
  by (simp add: toggle_focused_layout_split_def Let_def case_prod_beta)

lemma restore_focused_split_layout_lawful:
  assumes I: "inv t"
  shows "lawful t (fst (restore_focused_split_layout t))"
proof -
  have L: "lawful t (fst (focused_layout_target t))" by (rule focused_layout_target_lawful [OF I])
  then show ?thesis
    using restore_node_layout_lawful [OF lawfulD(1) [OF L]] lawful_trans [OF L]
    by (simp add: restore_focused_split_layout_def Let_def case_prod_beta split: option.split)
qed

section \<open>Empty workspaces and configuration\<close>

lemma reset_empty_layout_lawful:
  assumes I: "inv t" and e: "is_empty t"
  shows "lawful t (reset_empty_layout t)"
  using lawful_then_flag [OF set_layout_lawful [OF I] same_core_flags(5)] e
  by (simp add: reset_empty_layout_def Let_def)

lemma preserve_empty_auto_layout_lawful:
  assumes I: "inv t"
  shows "lawful t (preserve_empty_auto_layout t)"
proof -
  obtain lr cs ps m where r: "get_split t (tree_root t) = Some (lr, cs, ps, m)"
    using invD(4) [OF I] by (rule forest_root_split)
  then show ?thesis using lawful_same_core [OF I same_core_flags(7)] by (simp add: preserve_empty_auto_layout_def layout_of_def)
qed

lemma track_empty_auto_layout_lawful:
  assumes I: "inv t"
  shows "lawful t (track_empty_auto_layout t)"
proof (cases "preserved_auto_layout t")
  case (Some l)
  let ?u = "t\<lparr>preserved_auto_layout := None\<rparr>"
  have L: "lawful t ?u" by (rule lawful_same_core [OF I]) simp
  then show ?thesis
    using Some reset_empty_layout_lawful [OF lawfulD(1) [OF L]] lawful_trans [OF L]
    by (simp add: track_empty_auto_layout_def Let_def)
qed (use lawful_refl [OF I] in \<open>simp add: track_empty_auto_layout_def\<close>)

lemma update_empty_auto_layout_lawful: "inv t \<Longrightarrow> lawful t (update_empty_auto_layout t vw vh)"
  by (simp add: update_empty_auto_layout_def Let_def set_layout_lawful lawful_refl)

lemma update_config_lawful:
  assumes I: "inv t"
  shows "lawful t (update_config t vw vh area e sc tb opts)"
proof -
  define t1 where "t1 = fold (\<lambda>(i, w) t. log_call t (UpdateConfig w)) (windows t) t"
  have "lawful t (fold (\<lambda>(i, w) t. log_call t (UpdateConfig w)) ws u)" if "lawful t u" for ws u
    using that by (induction ws arbitrary: u) (auto simp: lawful_log)
  then have L1: "lawful t t1" using lawful_refl [OF I] by (simp add: t1_def)
  then have L2: "lawful t (update_empty_auto_layout t1 vw vh)"
    using update_empty_auto_layout_lawful [OF lawfulD(1) [OF L1]] lawful_trans by blast
  have L3: "lawful t ((update_empty_auto_layout t1 vw vh)\<lparr>view_w := vw, view_h := vh, parent_area := area,
           gaps_to_edge := e, scale := sc, titlebar_height := tb, gaps := opt_gaps opts, options_of := opts\<rparr>)"
    by (rule lawful_then_flag [OF L2]) (simp add: same_core_def)
  show ?thesis
    unfolding update_config_def Let_def t1_def [symmetric] calls_are_log by (rule lawful_log [OF L3])
qed

end
