(* ===== verification/Focus_Ops.thy ===== *)
theory Focus_Ops
  imports Layout_Laws
begin

text \<open>
  Focus commands (\<^verbatim>\<open>src/layout/tiling_tree/focus.rs\<close>): walking the focus along an axis, to a parent,
  a child or a sibling, onto a workspace from a neighbouring output, the focus ranks kept for
  windows that leave and come back, and the refocus target of a container that moves away.
  Loops that climb the tree carry the walk budget. Operations that report whether they did
  something return that flag beside the tree.
\<close>

section \<open>Focus history\<close>

definition focus_rank_for_window :: "tree \<Rightarrow> wid \<Rightarrow> nat option" where
  "focus_rank_for_window t w =
     (case node_for_window t w of None \<Rightarrow> None | Some i \<Rightarrow> position i (focus_history t))"

definition parent_of_window :: "tree \<Rightarrow> wid \<Rightarrow> nid option" where
  "parent_of_window t w = Option.bind (node_for_window t w) (parent_of t)"

definition non_root_parent_for_window :: "tree \<Rightarrow> wid \<Rightarrow> nid option" where
  "non_root_parent_for_window t w = (case parent_of_window t w of
      None \<Rightarrow> None
    | Some p \<Rightarrow> (if p \<noteq> tree_root t \<and> (case split_len t p of Some n \<Rightarrow> n > 1 | None \<Rightarrow> False)
                then Some p else None))"

definition restore_focus_rank :: "tree \<Rightarrow> wid \<Rightarrow> nat \<Rightarrow> tree" where
  "restore_focus_rank t w rank = (case node_for_window t w of
      None \<Rightarrow> t
    | Some i \<Rightarrow>
        (let h = retain_ne i (focus_history t)
         in t\<lparr>focus_history := insert_at (min rank (length h)) i h\<rparr>))"

definition window_focus_history :: "tree \<Rightarrow> wid list" where
  "window_focus_history t =
     List.map_filter (\<lambda>i. map_option window_id (tile_at t i)) (focus_history t)"

definition restore_window_focus_history :: "tree \<Rightarrow> wid list \<Rightarrow> tree" where
  "restore_window_focus_history t ws =
     t\<lparr>focus_history := List.map_filter (node_for_window t) ws\<rparr>"

text \<open>\<^verbatim>\<open>sort_by_key(Reverse(timestamp))\<close> is stable, newest first, windows never focused last.\<close>

definition timestamp_key :: "nat option \<Rightarrow> int" where
  "timestamp_key ts = (case ts of None \<Rightarrow> 1 | Some d \<Rightarrow> - int d)"

definition sort_focus_history_by_timestamp :: "tree \<Rightarrow> tree" where
  "sort_focus_history_by_timestamp t =
     (let history = List.map_filter (\<lambda>i. map_option (\<lambda>w. (i, focus_timestamp w)) (tile_at t i))
                      (focus_history t)
      in t\<lparr>focus_history := map fst (sort_key (\<lambda>(i, ts). timestamp_key ts) history)\<rparr>)"

section \<open>Refocusing after a transfer\<close>

definition focus_inactive_in_excluding :: "tree \<Rightarrow> nid \<Rightarrow> nid \<Rightarrow> nid option" where
  "focus_inactive_in_excluding t i excluded =
     List.find (\<lambda>c. c \<noteq> i \<and> contains_key t c \<and> contains_node t i c \<and> \<not> contains_node t excluded c)
       (focus_history t)"

definition focus_inactive_in :: "tree \<Rightarrow> nid \<Rightarrow> nid option" where
  "focus_inactive_in t i = focus_inactive_in_excluding t i i"

fun climb :: "nat \<Rightarrow> tree \<Rightarrow> nid option \<Rightarrow> nid list" where
  "climb 0 t p = []"
| "climb (Suc k) t p = (case p of None \<Rightarrow> [] | Some a \<Rightarrow> a # climb k t (parent_of t a))"

definition transfer_focus_target :: "tree \<Rightarrow> nid option \<Rightarrow> nid option \<Rightarrow> (nid \<times> nid list) option" where
  "transfer_focus_target t moved old_parent =
     (let search = (\<lambda>i. case moved of
              Some mv \<Rightarrow> focus_inactive_in_excluding t i mv
            | None \<Rightarrow> focus_inactive_in t i);
          target = or_else
            (case old_parent of
               None \<Rightarrow> None
             | Some p \<Rightarrow> (if p \<noteq> tree_root t then search p else None))
            (search (tree_root t))
      in map_option (\<lambda>tgt. (tgt, climb (walk_fuel t) t (parent_of t tgt))) target)"

definition resolve_transfer_focus :: "tree \<Rightarrow> (nid \<times> nid list) option \<Rightarrow> tree \<times> bool" where
  "resolve_transfer_focus t target = (case target of
      None \<Rightarrow> (t, False)
    | Some (tgt, ancestors) \<Rightarrow>
        (let f = (if contains_key t tgt then Some tgt
                  else Option.bind (List.find (contains_key t) ancestors) (focused_leaf_in t))
         in (if f \<noteq> None then set_focus_id t f else t, f \<noteq> None)))"

section \<open>Focus commands\<close>

definition root_is_focused :: "tree \<Rightarrow> bool" where
  "root_is_focused t \<longleftrightarrow> focus t = Some (tree_root t)"

definition focused_leaf_is_only_child_of_resident_root :: "tree \<Rightarrow> bool" where
  "focused_leaf_is_only_child_of_resident_root t = (case resident_root t of
      None \<Rightarrow> False
    | Some r \<Rightarrow> (case focus t of
        None \<Rightarrow> False
      | Some f \<Rightarrow> tile_at t f \<noteq> None \<and> parent_of t f = Some r \<and> split_len t r = Some 1))"

definition focus_root :: "tree \<Rightarrow> tree" where
  "focus_root t = set_focus_id t (Some (tree_root t))"

definition set_focus :: "tree \<Rightarrow> nid \<Rightarrow> tree" where
  "set_focus t i = (if contains_key t i then set_focus_id t (Some i) else t)"

definition focus_parent :: "tree \<Rightarrow> tree \<times> bool" where
  "focus_parent t = (case focus t of
      None \<Rightarrow> (t, False)
    | Some f \<Rightarrow>
        (if fullscreen_node t = Some f then (t, False)
         else case parent_of t f of
           None \<Rightarrow> (t, False) | Some p \<Rightarrow> (set_focus_id t (Some p), True)))"

definition focus_inactive_leaf_of :: "tree \<Rightarrow> nid \<Rightarrow> tree" where
  "focus_inactive_leaf_of t i = (case focused_leaf_in t i of
      None \<Rightarrow> t | Some l \<Rightarrow> set_focus_id t (Some l))"

definition focus_child :: "tree \<Rightarrow> tree \<times> bool" where
  "focus_child t = (case focus t of
      None \<Rightarrow> (t, False)
    | Some f \<Rightarrow> (case focused_child_in t f of
        Some c \<Rightarrow> (set_focus_id t (Some c), True) | None \<Rightarrow> (t, False)))"

definition vec_last :: "'a list \<Rightarrow> 'a option" where
  "vec_last xs = (if xs = [] then None else Some (last xs))"

definition matching_axis :: "direction \<Rightarrow> layout \<Rightarrow> bool" where
  "matching_axis d l =
     (if d = DLeft \<or> d = DRight then l = SplitH \<or> l = Tabbed else l = SplitV \<or> l = Stacked)"

definition focus_from_output_direction :: "tree \<Rightarrow> direction \<Rightarrow> tree \<times> bool" where
  "focus_from_output_direction t d = (case fullscreen_node t of
      Some f \<Rightarrow> (let target = focused_leaf_in t f in (set_focus_id t target, target \<noteq> None))
    | None \<Rightarrow> (case get_split t (tree_root t) of
        None \<Rightarrow> (t, False)
      | Some (l, cs, ps, m) \<Rightarrow>
          (let target = (if matching_axis d l
                         then Option.bind (if is_backwards d then vec_last cs else vec_get cs 0)
                                (focused_leaf_in t)
                         else focused_leaf_in t (tree_root t))
           in (set_focus_id t target, target \<noteq> None))))"

fun strip_ancestor :: "nat \<Rightarrow> tree \<Rightarrow> nid \<Rightarrow> (nid \<times> nid list) option" where
  "strip_ancestor 0 t c = None"
| "strip_ancestor (Suc k) t c = (case parent_of t c of
      None \<Rightarrow> None
    | Some p \<Rightarrow> (case get_split t p of
        None \<Rightarrow> None
      | Some (l, cs, ps, m) \<Rightarrow> (if strip_layout l then Some (p, cs) else strip_ancestor k t p)))"

definition clamp_index :: "int \<Rightarrow> int \<Rightarrow> nat" where
  "clamp_index i len = nat (max 0 (min i (len - 1)))"

definition scroll_tab_indicator :: "tree \<Rightarrow> wid \<Rightarrow> int \<Rightarrow> tree \<times> wid option" where
  "scroll_tab_indicator t w by_steps = (case Option.bind (node_for_window t w) (strip_ancestor (walk_fuel t) t) of
      None \<Rightarrow> (t, None)
    | Some (p, cs) \<Rightarrow> (case Option.bind (focused_child_in t p) (\<lambda>active. position active cs) of
        None \<Rightarrow> (t, None)
      | Some index \<Rightarrow>
          (let desired = clamp_index (int index + by_steps) (int (length cs));
               f = Option.bind (vec_get cs desired) (focused_leaf_in t);
               t' = set_focus_id t f
           in (t', Option.bind f (\<lambda>l. map_option window_id (tile_at t' l))))))"

text \<open>
  The climb of \<^verbatim>\<open>focus_next_prev_sibling\<close>: the node to focus, or \<open>None\<close> where the source returns
  \<^verbatim>\<open>false\<close>. \<open>wrap\<close> is the far end remembered in the innermost parallel container.
\<close>

definition orientation :: "layout \<Rightarrow> layout" where
  "orientation l = (if l = SplitH \<or> l = Tabbed then SplitH else SplitV)"

definition step_child :: "bool \<Rightarrow> nid list \<Rightarrow> nat \<Rightarrow> nid option" where
  "step_child forward cs index =
     (if forward then vec_get cs (index + 1)
      else if index = 0 then None else vec_get cs (index - 1))"

definition far_end :: "bool \<Rightarrow> nid list \<Rightarrow> nid option" where
  "far_end forward cs = (if forward then vec_get cs 0 else vec_last cs)"

fun sibling_loop :: "nat \<Rightarrow> tree \<Rightarrow> bool \<Rightarrow> layout \<Rightarrow> nid \<Rightarrow> nid option \<Rightarrow> nid option" where
  "sibling_loop 0 t nxt dl current wrap = wrap"
| "sibling_loop (Suc k) t nxt dl current wrap = (case parent_of t current of
      None \<Rightarrow> wrap
    | Some p \<Rightarrow> (case get_split t p of
        None \<Rightarrow> None
      | Some (l, cs, ps, m) \<Rightarrow>
          (if layouts_parallel l dl
           then case position current cs of
               None \<Rightarrow> None
             | Some index \<Rightarrow> (case step_child nxt cs index of
                 Some target \<Rightarrow> Some target
               | None \<Rightarrow>
                   (if opt_focus_wrapping (options_of t) \<noteq> FwNo \<and> length cs > 1 \<and> wrap = None
                    then (if opt_focus_wrapping (options_of t) = FwForce then far_end nxt cs
                          else sibling_loop k t nxt dl p (far_end nxt cs))
                    else sibling_loop k t nxt dl p wrap))
           else sibling_loop k t nxt dl p wrap)))"

definition focus_next_prev_sibling :: "tree \<Rightarrow> bool \<Rightarrow> tree \<times> bool" where
  "focus_next_prev_sibling t nxt = (case focus t of
      None \<Rightarrow> (t, False)
    | Some f \<Rightarrow> (case Option.bind (parent_of t f) (layout_of t) of
        None \<Rightarrow> (t, False)
      | Some l \<Rightarrow> (case sibling_loop (walk_fuel t) t nxt (orientation l) f None of
          None \<Rightarrow> (t, False) | Some target \<Rightarrow> (set_focus_id t (Some target), True))))"

fun direction_loop ::
  "nat \<Rightarrow> tree \<Rightarrow> direction \<Rightarrow> bool \<Rightarrow> nid option \<Rightarrow> nid \<Rightarrow> nid option \<Rightarrow> nid option" where
  "direction_loop 0 t d allow_wrap barrier current wrap = Option.bind wrap (focused_leaf_in t)"
| "direction_loop (Suc k) t d allow_wrap barrier current wrap = (case parent_of t current of
      None \<Rightarrow> Option.bind wrap (focused_leaf_in t)
    | Some p \<Rightarrow>
        (if Some current = barrier then Option.bind wrap (focused_leaf_in t)
         else case get_split t p of
           None \<Rightarrow> None
         | Some (l, cs, ps, m) \<Rightarrow>
             (let climb_on = (\<lambda>wrap'. if Some p = barrier then Option.bind wrap' (focused_leaf_in t)
                                else direction_loop k t d allow_wrap barrier p wrap')
              in if layouts_parallel l (axis d)
                 then case position current cs of
                     None \<Rightarrow> None
                   | Some index \<Rightarrow> (case step_child (\<not> is_backwards d) cs index of
                       Some c \<Rightarrow> focused_leaf_in t c
                     | None \<Rightarrow>
                         (if allow_wrap \<and> opt_focus_wrapping (options_of t) \<noteq> FwNo \<and> length cs > 1
                          then let candidate = far_end (\<not> is_backwards d) cs in
                               if opt_focus_wrapping (options_of t) = FwForce
                               then Option.bind candidate (focused_leaf_in t)
                               else climb_on (or_else wrap candidate)
                          else climb_on wrap))
                 else climb_on wrap)))"

definition directional_focus_target :: "tree \<Rightarrow> direction \<Rightarrow> bool \<Rightarrow> nid option" where
  "directional_focus_target t d allow_wrap = (case focus t of
      None \<Rightarrow> None
    | Some f \<Rightarrow> direction_loop (walk_fuel t) t d allow_wrap (fullscreen_node t) f None)"

definition focus_direction_inner :: "tree \<Rightarrow> direction \<Rightarrow> bool \<Rightarrow> tree \<times> bool" where
  "focus_direction_inner t d allow_wrap =
     (let nxt = directional_focus_target t d allow_wrap
      in (set_focus_id t (or_else nxt (focus t)), nxt \<noteq> None))"

definition focus_direction :: "tree \<Rightarrow> direction \<Rightarrow> tree \<times> bool" where
  "focus_direction t d = focus_direction_inner t d True"

definition focus_direction_without_wrap :: "tree \<Rightarrow> direction \<Rightarrow> tree \<times> bool" where
  "focus_direction_without_wrap t d = focus_direction_inner t d False"

definition focus_next_or_prev :: "tree \<Rightarrow> bool \<Rightarrow> tree \<times> bool" where
  "focus_next_or_prev t nxt = (case Option.bind (Option.bind (focus t) (parent_of t)) (layout_of t) of
      None \<Rightarrow> (t, False)
    | Some l \<Rightarrow> focus_direction t
        (if orientation l = SplitH then (if nxt then DRight else DLeft)
         else (if nxt then DDown else DUp)))"

definition active_window :: "tree \<Rightarrow> wid option" where
  "active_window t = Option.bind (Option.bind (focus t) (focused_leaf_in t))
     (\<lambda>i. map_option window_id (tile_at t i))"

definition activate_window :: "tree \<Rightarrow> wid \<Rightarrow> tree \<times> bool" where
  "activate_window t w = (case node_for_window t w of
      None \<Rightarrow> (t, False) | Some i \<Rightarrow> (set_focus_id t (Some i), True))"

definition focus_first :: "tree \<Rightarrow> tree" where
  "focus_first t = set_focus_id t (first_leaf t)"

definition focus_last :: "tree \<Rightarrow> tree" where
  "focus_last t = set_focus_id t (vec_last (filter (\<lambda>i. tile_at t i \<noteq> None) (iter_depth_first t)))"

definition focus_window_in_subtree :: "tree \<Rightarrow> nid \<Rightarrow> nat \<Rightarrow> tree" where
  "focus_window_in_subtree t i index = (case vec_get (leaf_ids_in t i) index of
      None \<Rightarrow> t | Some l \<Rightarrow> set_focus_id t (Some l))"

definition focus_window_in_parent :: "tree \<Rightarrow> nat \<Rightarrow> tree" where
  "focus_window_in_parent t index = (case Option.bind (focus t) (parent_of t) of
      None \<Rightarrow> t | Some p \<Rightarrow> focus_window_in_subtree t p index)"

definition focus_root_child :: "tree \<Rightarrow> nat \<Rightarrow> tree" where
  "focus_root_child t index = (case Option.bind (root_children t) (\<lambda>cs. vec_get cs index) of
      None \<Rightarrow> t | Some b \<Rightarrow> set_focus_id t (or_else (first_leaf_in t b) (focus t)))"

definition focus_last_root_child :: "tree \<Rightarrow> tree" where
  "focus_last_root_child t = (case root_children t of
      Some (c # cs) \<Rightarrow> focus_root_child t (length cs) | _ \<Rightarrow> t)"

fun min_by_first :: "(nid \<times> real) list \<Rightarrow> nid option" where
  "min_by_first [] = None"
| "min_by_first ((i, x) # rest) =
     (case rest of
        [] \<Rightarrow> Some i
      | (j, y) # rest' \<Rightarrow> min_by_first ((if y < x then (j, y) else (i, x)) # rest'))"

definition focus_extreme :: "tree \<Rightarrow> bool \<Rightarrow> tree" where
  "focus_extreme t bottom =
     (let boxes = leaf_boxes (compute_geometry t);
          visible = visible_leaves t;
          edge_of = (\<lambda>r. if bottom then - (loc_y r + size_h r) else loc_y r);
          f = min_by_first (List.map_filter (\<lambda>i. map_option (\<lambda>r. (i, edge_of r)) (boxes i))
                (filter (\<lambda>i. i \<in> visible) (iter_depth_first t)))
      in set_focus_id t (or_else f (focus t)))"

section \<open>Focus commands keep the invariant\<close>

definition focusable :: "tree \<Rightarrow> nid option \<Rightarrow> bool" where
  "focusable t f \<longleftrightarrow> (f = None \<longleftrightarrow> focus t = None) \<and> (\<forall>i. f = Some i \<longrightarrow> contains_key t i)"

lemma lawful_set_focus:
  assumes I: "inv t" and f: "focusable t f"
  shows "lawful t (set_focus_id t f)"
proof (cases f)
  case None
  then have "steady t (set_focus_id t f)" using f by (simp add: focusable_def steady_def)
  moreover have "inv (set_focus_id t f)"
    using I None f wf_set_focus_id [OF invD(1) [OF I], of f]
    by (auto simp: inv_def focusable_def focus_in_def)
  ultimately show ?thesis by (simp add: lawful_def)
next
  case (Some i)
  then show ?thesis using lawful_focus [OF I] f by (auto simp: focusable_def)
qed

lemma focusable_old: "inv t \<Longrightarrow> focusable t (focus t)"
  using invD(2) by (auto simp: focusable_def focus_in_def)

lemma focusable_leaf: "inv t \<Longrightarrow> is_leaf t i \<Longrightarrow> focusable t (Some i)"
  using invD(3) tile_at_contains by (auto simp: focusable_def leaves_def)

lemma focusable_Some: "focus t \<noteq> None \<Longrightarrow> contains_key t i \<Longrightarrow> focusable t (Some i)"
  by (simp add: focusable_def)

lemma focusable_focused_leaf:
  assumes I: "inv t" and i: "contains_key t i"
  shows "focusable t (focused_leaf_in t i)"
proof (cases "focused_leaf_in t i")
  case None
  have "i = tree_root t" using focused_leaf_in_ex [OF invD(4) [OF I] i] None by fastforce
  then have "leaves t = {}" using focused_leaf_in_root [OF invD(4) [OF I]] None by simp
  then show ?thesis using None invD(3) [OF I] by (simp add: focusable_def)
next
  case (Some l)
  then show ?thesis using focusable_leaf [OF I] focused_leaf_in_props(1) [OF invD(4) [OF I] i Some] by simp
qed

lemma focusable_or_else:
  assumes "inv t" "\<And>i. f = Some i \<Longrightarrow> focusable t (Some i)"
  shows "focusable t (or_else f (focus t))"
  using assms focusable_old [OF assms(1)] by (cases f) simp_all

lemma root_contains: "inv t \<Longrightarrow> contains_key t (tree_root t)"
  by (rule forest_root_split [OF invD(4)]) (auto dest: get_split_contains)

lemma vec_last_Some: "vec_last xs = Some x \<Longrightarrow> x \<in> set xs"
  by (auto simp: vec_last_def split: if_splits)

lemma vec_get_mem: "vec_get xs k = Some x \<Longrightarrow> x \<in> set xs"
  by (auto simp: vec_get_def split: if_splits)

lemma step_child_mem: "step_child b cs k = Some c \<Longrightarrow> c \<in> set cs"
  by (auto simp: step_child_def split: if_splits dest: vec_get_mem)

lemma far_end_mem: "far_end b cs = Some c \<Longrightarrow> c \<in> set cs"
  by (auto simp: far_end_def split: if_splits dest: vec_get_mem vec_last_Some)

lemma set_focus_lawful: "inv t \<Longrightarrow> focus t \<noteq> None \<Longrightarrow> lawful t (set_focus t i)"
  by (simp add: set_focus_def lawful_refl lawful_set_focus focusable_Some)

lemma focus_root_lawful: "inv t \<Longrightarrow> focus t \<noteq> None \<Longrightarrow> lawful t (focus_root t)"
  by (simp add: focus_root_def lawful_set_focus focusable_Some root_contains)

lemma parent_contains: "inv t \<Longrightarrow> parent_of t c = Some p \<Longrightarrow> contains_key t p"
  by (rule forest_parentD [OF invD(4)]) (auto dest: get_split_contains)

lemma window_leaf: "inv t \<Longrightarrow> node_for_window t w = Some i \<Longrightarrow> is_leaf t i"
  by (rule node_for_window_Some [OF invD(4)]) auto

lemma focus_parent_lawful:
  assumes I: "inv t"
  shows "lawful t (fst (focus_parent t))"
proof (cases "Option.bind (focus t) (parent_of t)")
  case (Some p)
  then have "contains_key t p" "focus t \<noteq> None" using parent_contains [OF I] by (auto split: Option.bind_splits)
  then show ?thesis
    using Some lawful_refl [OF I] lawful_set_focus [OF I focusable_Some]
    by (auto simp: focus_parent_def split: Option.bind_splits)
qed (use lawful_refl [OF I] in \<open>auto simp: focus_parent_def split: Option.bind_splits\<close>)

lemma focus_inactive_leaf_of_lawful:
  assumes I: "inv t" and i: "contains_key t i"
  shows "lawful t (focus_inactive_leaf_of t i)"
  using lawful_refl [OF I] lawful_set_focus [OF I focusable_leaf [OF I]]
    focused_leaf_in_props(1) [OF invD(4) [OF I] i]
  by (auto simp: focus_inactive_leaf_of_def split: option.splits)

lemma children_contains:
  "inv t \<Longrightarrow> children_of t p = Some cs \<Longrightarrow> c \<in> set cs \<Longrightarrow> contains_key t c"
  using child_contains [OF invD(4)] by (auto simp: children_of_def)

lemma focus_child_lawful:
  assumes I: "inv t"
  shows "lawful t (fst (focus_child t))"
  using lawful_refl [OF I] lawful_set_focus [OF I focusable_Some] focused_child_in_props
    children_contains [OF I]
  by (fastforce simp: focus_child_def split: option.splits)

lemma activate_window_lawful:
  assumes I: "inv t"
  shows "lawful t (fst (activate_window t w))"
  using lawful_refl [OF I] lawful_set_focus [OF I focusable_leaf [OF I]] window_leaf [OF I]
  by (cases "node_for_window t w") (auto simp: activate_window_def)

lemma focus_of_branch:
  assumes I: "inv t" and r: "get_split t p = Some (l, cs, ps, m)" and c: "c \<in> set cs"
  shows "focusable t (focused_leaf_in t c)"
  using focusable_focused_leaf [OF I child_contains [OF invD(4) [OF I] r c]] .

lemma empty_root_focus:
  assumes I: "inv t" and r: "get_split t (tree_root t) = Some (l, [], ps, m)"
  shows "focus t = None"
proof -
  have F: "forest {} {} t" using I by (rule invD)
  have "\<not> is_leaf t i" for i
  proof
    assume i: "is_leaf t i"
    then have iK: "contains_key t i" using tile_at_contains by auto
    have ne: "i \<noteq> tree_root t" using i split_not_leaf [OF r] by auto
    have "below t i (tree_root t)" using F iK by (rule below_root)
    then obtain x where "(x, tree_root t) \<in> up_edges (parent_of t)" using ne by (metis rtranclE)
    then show False using forest_parentD [OF F] r by fastforce
  qed
  then show ?thesis using invD(3) [OF I] by (simp add: leaves_def)
qed

lemma focus_from_output_direction_lawful:
  assumes I: "inv t"
  shows "lawful t (fst (focus_from_output_direction t d))"
proof (cases "fullscreen_node t")
  case (Some f)
  then have "contains_key t f" using fullscreen_node_contains [OF invD(1) [OF I]] by blast
  then have "lawful t (set_focus_id t (focused_leaf_in t f))"
    using lawful_set_focus [OF I focusable_focused_leaf [OF I]] by blast
  then show ?thesis using Some by (simp add: focus_from_output_direction_def Let_def)
next
  case None
  obtain l cs ps m where r: "get_split t (tree_root t) = Some (l, cs, ps, m)"
    using invD(4) [OF I] by (rule forest_root_split)
  have "focusable t (Option.bind (if is_backwards d then vec_last cs else vec_get cs 0) (focused_leaf_in t))"
  proof (cases "cs = []")
    case True
    then show ?thesis using empty_root_focus [OF I] r by (simp add: focusable_def vec_last_def vec_get_def)
  next
    case False
    then show ?thesis using focus_of_branch [OF I r] by (simp add: vec_last_def vec_get_def)
  qed
  moreover have "focusable t (focused_leaf_in t (tree_root t))"
    using focusable_focused_leaf [OF I root_contains [OF I]] .
  ultimately show ?thesis using lawful_set_focus [OF I] None r
    by (simp add: focus_from_output_direction_def Let_def)
qed

lemma strip_ancestor_Some:
  "strip_ancestor k t c = Some (p, cs) \<Longrightarrow> children_of t p = Some cs"
  by (induction k arbitrary: c) (auto simp: children_of_def split: option.splits if_splits)

lemma scroll_tab_indicator_lawful:
  assumes I: "inv t"
  shows "lawful t (fst (scroll_tab_indicator t w n))"
proof (cases "Option.bind (node_for_window t w) (strip_ancestor (walk_fuel t) t)")
  case None
  then show ?thesis using lawful_refl [OF I] by (simp add: scroll_tab_indicator_def)
next
  case (Some x)
  then obtain p cs where x: "Option.bind (node_for_window t w) (strip_ancestor (walk_fuel t) t) = Some (p, cs)"
    by (cases x) auto
  then have ch: "children_of t p = Some cs" using strip_ancestor_Some by (auto split: Option.bind_splits)
  show ?thesis
  proof (cases "Option.bind (focused_child_in t p) (\<lambda>active. position active cs)")
    case None
    then show ?thesis using lawful_refl [OF I] x by (simp add: scroll_tab_indicator_def)
  next
    case (Some index)
    let ?d = "clamp_index (int index + n) (int (length cs))"
    have "index < length cs" using Some position_Some by (fastforce split: Option.bind_splits)
    then have "?d < length cs" by (auto simp: clamp_index_def)
    then have "focusable t (Option.bind (vec_get cs ?d) (focused_leaf_in t))"
      using focusable_focused_leaf [OF I children_contains [OF I ch]] by (simp add: vec_get_def)
    then show ?thesis
      using lawful_set_focus [OF I] x Some by (simp add: scroll_tab_indicator_def Let_def)
  qed
qed

lemma sibling_loop_contains:
  assumes F: "forest {} {} t"
  shows "sibling_loop k t nxt dl c wrap = Some x \<Longrightarrow> (\<forall>y. wrap = Some y \<longrightarrow> contains_key t y) \<Longrightarrow>
    contains_key t x"
proof (induction k arbitrary: c wrap)
  case (Suc k)
  show ?case
  proof (cases "parent_of t c")
    case (Some p)
    obtain l cs ps m where p: "get_split t p = Some (l, cs, ps, m)" using F Some by (rule forest_parentD)
    note cK = child_contains [OF F p]
    have far: "\<forall>y. far_end nxt cs = Some y \<longrightarrow> contains_key t y" using far_end_mem cK by blast
    show ?thesis
      using Suc.prems Suc.IH [of p wrap] Suc.IH [OF _ far, of p] far cK step_child_mem [of nxt cs]
      by (auto simp: Some p split: if_splits option.splits)
  qed (use Suc.prems in auto)
qed auto

lemma focus_next_prev_sibling_lawful:
  assumes I: "inv t"
  shows "lawful t (fst (focus_next_prev_sibling t nxt))"
  using lawful_refl [OF I] lawful_set_focus [OF I focusable_Some]
    sibling_loop_contains [OF invD(4) [OF I], of _ _ _ _ None]
  by (fastforce simp: focus_next_prev_sibling_def split: option.splits)

lemma focus_first_lawful: "inv t \<Longrightarrow> lawful t (focus_first t)"
proof -
  assume I: "inv t"
  note fl = first_leaf_in_Some(1) [OF invD(4) [OF I] root_contains [OF I]]
    first_leaf_in_None [OF invD(4) [OF I] root_contains [OF I]]
  have "focusable t (first_leaf t)"
  proof (cases "first_leaf t")
    case None
    then have "\<not> is_leaf t i" for i
      using fl(2) below_root [OF invD(4) [OF I], of i] tile_at_contains [of t i]
      by (cases "tile_at t i") (auto simp: first_leaf_def)
    then have "leaves t = {}" by (simp add: leaves_def)
    then show ?thesis using None invD(3) [OF I] by (simp add: focusable_def)
  qed (use fl(1) focusable_leaf [OF I] in \<open>auto simp: first_leaf_def\<close>)
  then show ?thesis using lawful_set_focus [OF I] by (simp add: focus_first_def)
qed

lemma focus_last_lawful: "inv t \<Longrightarrow> lawful t (focus_last t)"
proof -
  assume I: "inv t"
  let ?xs = "filter (\<lambda>i. tile_at t i \<noteq> None) (iter_depth_first t)"
  have "set ?xs = leaves t"
    using iter_depth_first_all [OF invD(4) [OF I]] tile_at_contains by (auto simp: leaves_def)
  then have "focusable t (vec_last ?xs)"
  proof (cases "?xs = []")
    case True
    then show ?thesis using \<open>set ?xs = leaves t\<close> invD(3) [OF I] by (simp add: vec_last_def focusable_def)
  next
    case False
    then have "last ?xs \<in> leaves t" using \<open>set ?xs = leaves t\<close> last_in_set by blast
    then show ?thesis using False focusable_leaf [OF I] by (simp add: vec_last_def leaves_def)
  qed
  then show ?thesis using lawful_set_focus [OF I] by (simp add: focus_last_def)
qed

lemma focus_window_in_subtree_lawful:
  assumes I: "inv t" and i: "contains_key t i"
  shows "lawful t (focus_window_in_subtree t i n)"
proof (cases "vec_get (leaf_ids_in t i) n")
  case (Some l)
  then have "is_leaf t l" using vec_get_mem [OF Some] unfolding set_leaf_ids_in(1) [OF invD(4) [OF I] i] by simp
  then show ?thesis
    unfolding focus_window_in_subtree_def Some option.case
    using lawful_set_focus [OF I focusable_leaf [OF I]] by blast
next
  case None
  show ?thesis unfolding focus_window_in_subtree_def None option.case by (rule lawful_refl [OF I])
qed

lemma focus_window_in_parent_lawful:
  assumes I: "inv t"
  shows "lawful t (focus_window_in_parent t n)"
proof (cases "Option.bind (focus t) (parent_of t)")
  case (Some p)
  then obtain c where "parent_of t c = Some p" by (auto split: Option.bind_splits)
  then have "contains_key t p" by (rule parent_contains [OF I])
  then show ?thesis using Some focus_window_in_subtree_lawful [OF I] by (simp add: focus_window_in_parent_def)
qed (use lawful_refl [OF I] in \<open>simp add: focus_window_in_parent_def\<close>)

lemma focus_root_child_lawful:
  assumes I: "inv t"
  shows "lawful t (focus_root_child t n)"
proof (cases "Option.bind (root_children t) (\<lambda>cs. vec_get cs n)")
  case (Some b)
  then obtain cs where "children_of t (tree_root t) = Some cs" "b \<in> set cs"
    by (auto simp: root_children_def split: Option.bind_splits dest: vec_get_mem)
  then have "contains_key t b" using children_contains [OF I] by blast
  then have "focusable t (or_else (first_leaf_in t b) (focus t))"
    using focusable_or_else [OF I] focusable_leaf [OF I] first_leaf_in_Some [OF invD(4) [OF I]] by blast
  then show ?thesis using Some lawful_set_focus [OF I] by (simp add: focus_root_child_def)
qed (use lawful_refl [OF I] in \<open>simp add: focus_root_child_def\<close>)

lemma focus_last_root_child_lawful: "inv t \<Longrightarrow> lawful t (focus_last_root_child t)"
  by (simp add: focus_last_root_child_def focus_root_child_lawful lawful_refl split: option.split list.split)

lemma min_by_first_mem: "min_by_first xs = Some i \<Longrightarrow> i \<in> fst ` set xs"
proof (induction xs rule: min_by_first.induct)
  case (2 i' x rest)
  then show ?case
  proof (cases rest)
    case (Cons q rest')
    obtain j y where q: "q = (j, y)" by (cases q)
    have "i \<in> fst ` set ((if y < x then (j, y) else (i', x)) # rest')"
      by (rule "2.IH" [OF Cons q [symmetric]]) (use "2.prems" Cons q in simp)
    then show ?thesis using Cons q by (auto split: if_splits)
  qed simp
qed simp

lemma collect_visible_leaf: "i \<in> set (collect_visible k t j) \<Longrightarrow> is_leaf t i"
proof (induction k arbitrary: j)
  case (Suc k)
  show ?case
  proof (cases "value_of t j")
    case (Some v)
    then show ?thesis
    proof (cases v)
      case (Split l cs ps m)
      then show ?thesis
        using Suc Some by (cases "shown_child_in t j") (auto split: if_splits)
    next
      case (Leaf w)
      then show ?thesis using Suc.prems Some by (auto simp: tile_at_def)
    qed
  qed (use Suc.prems in simp)
qed simp

lemma visible_leaves_leaf: "i \<in> visible_leaves t \<Longrightarrow> is_leaf t i"
  using collect_visible_leaf unfolding visible_leaves_def by blast

lemma focus_extreme_lawful:
  assumes I: "inv t"
  shows "lawful t (focus_extreme t b)"
proof -
  let ?c = "\<lambda>f. List.map_filter (\<lambda>i. map_option (\<lambda>r. (i, f r)) (leaf_boxes (compute_geometry t) i))
     (filter (\<lambda>i. i \<in> visible_leaves t) (iter_depth_first t))"
  have cand: "focusable t (Some i)" if "min_by_first (?c f) = Some i" for i f
  proof -
    have "i \<in> visible_leaves t" using min_by_first_mem [OF that] by (auto simp: List.map_filter_def)
    then show ?thesis using focusable_leaf [OF I] visible_leaves_leaf by blast
  qed
  show ?thesis
    unfolding focus_extreme_def Let_def
    by (intro lawful_set_focus [OF I] focusable_or_else [OF I]) (erule cand)
qed


section \<open>Directional focus\<close>

text \<open>
  Whatever the walk answers is a window; and when it starts inside the fullscreen container it
  stays inside.
\<close>

lemma focused_leaf_below:
  assumes F: "forest {} {} t" and c: "contains_key t c" and f: "focused_leaf_in t c = Some l"
  shows "is_leaf t l \<and> (\<forall>b. below t c b \<longrightarrow> below t l b)"
  using focused_leaf_in_props(1,2) [OF F c f] by (auto intro: rtrancl_trans)

lemma direction_loop_props:
  assumes F: "forest {} {} t"
  shows "direction_loop k t d aw barrier c wrap = Some l \<Longrightarrow> contains_key t c \<Longrightarrow>
    (\<forall>y. wrap = Some y \<longrightarrow> contains_key t y \<and> (\<forall>b. barrier = Some b \<longrightarrow> below t c b \<longrightarrow> below t y b)) \<Longrightarrow>
    is_leaf t l \<and> (\<forall>b. barrier = Some b \<longrightarrow> below t c b \<longrightarrow> below t l b)"
proof (induction k arbitrary: c wrap)
  case 0
  then show ?case using focused_leaf_below [OF F] by (auto split: Option.bind_splits)
next
  case (Suc k)
  have stop: "is_leaf t l \<and> (\<forall>b. barrier = Some b \<longrightarrow> below t c b \<longrightarrow> below t l b)"
    if "Option.bind w (focused_leaf_in t) = Some l"
      "\<forall>y. w = Some y \<longrightarrow> contains_key t y \<and> (\<forall>b. barrier = Some b \<longrightarrow> below t c b \<longrightarrow> below t y b)" for w
    using that focused_leaf_below [OF F] by (auto split: Option.bind_splits)
  show ?case
  proof (cases "parent_of t c = None \<or> Some c = barrier")
    case True
    then have "Option.bind wrap (focused_leaf_in t) = Some l" using Suc.prems(1) by (auto split: option.splits)
    then show ?thesis using Suc.prems(3) by (rule stop)
  next
    case False
    then obtain p where p: "parent_of t c = Some p" "Some c \<noteq> barrier" by auto
    obtain lay cs ps m where sp: "get_split t p = Some (lay, cs, ps, m)" using F p(1) by (rule forest_parentD)
    have pK: "contains_key t p" using sp by (rule get_split_contains)
    have up: "below t p b" if "barrier = Some b" "below t c b" for b
      using that p by (metis converse_rtranclE option.inject up_edges_iff)
    have kid: "contains_key t y \<and> (\<forall>b. barrier = Some b \<longrightarrow> below t c b \<longrightarrow> below t y b)" if "y \<in> set cs" for y
      using child_contains [OF F sp that] forest_splitD(2) [OF F sp that] up
      by (metis converse_rtrancl_into_rtrancl up_edges_iff)
    have pass: "\<forall>y. w = Some y \<longrightarrow> contains_key t y \<and> (\<forall>b. barrier = Some b \<longrightarrow> below t p b \<longrightarrow> below t y b)"
      if "\<forall>y. w = Some y \<longrightarrow> contains_key t y \<and> (\<forall>b. barrier = Some b \<longrightarrow> below t c b \<longrightarrow> below t y b)" for w
      using that converse_rtrancl_into_rtrancl [of c p "up_edges (parent_of t)"] p(1) by auto
    have on: "is_leaf t l \<and> (\<forall>b. barrier = Some b \<longrightarrow> below t c b \<longrightarrow> below t l b)"
      if "(if Some p = barrier then Option.bind w (focused_leaf_in t)
           else direction_loop k t d aw barrier p w) = Some l"
        and w: "\<forall>y. w = Some y \<longrightarrow> contains_key t y \<and> (\<forall>b. barrier = Some b \<longrightarrow> below t c b \<longrightarrow> below t y b)" for w
    proof (cases "Some p = barrier")
      case True
      then show ?thesis using stop w that(1) by simp
    next
      case False
      then have "direction_loop k t d aw barrier p w = Some l" using that(1) by simp
      from Suc.IH [OF this pK pass [OF w]] show ?thesis using up by blast
    qed
    let ?far = "far_end (\<not> is_backwards d) cs"
    have far: "\<forall>y. ?far = Some y \<longrightarrow> contains_key t y \<and> (\<forall>b. barrier = Some b \<longrightarrow> below t c b \<longrightarrow> below t y b)"
      using far_end_mem kid by blast
    have far': "\<forall>y. or_else wrap ?far = Some y \<longrightarrow> contains_key t y \<and> (\<forall>b. barrier = Some b \<longrightarrow> below t c b \<longrightarrow> below t y b)"
      using far Suc.prems(3) by (cases wrap) simp_all
    show ?thesis
    proof (cases "layouts_parallel lay (axis d)")
      case False
      then show ?thesis
        using on [OF _ Suc.prems(3)] Suc.prems(1) p sp by (simp add: Let_def)
    next
      case True
      then obtain index where ix: "position c cs = Some index"
        using Suc.prems(1) p sp by (auto simp: Let_def split: option.splits)
      show ?thesis
      proof (cases "step_child (\<not> is_backwards d) cs index")
        case (Some y)
        have "Option.bind (Some y) (focused_leaf_in t) = Some l"
          using Suc.prems(1) p sp True ix Some by (simp add: Let_def)
        then show ?thesis by (rule stop) (use step_child_mem [OF Some] kid in blast)
      next
        case None
        show ?thesis
          using Suc.prems(1) p sp True ix None stop [OF _ far] on [OF _ far'] on [OF _ Suc.prems(3)]
          by (simp add: Let_def split: if_splits)
      qed
    qed
  qed
qed

lemma directional_focus_target_props:
  assumes I: "inv t" and f: "directional_focus_target t d aw = Some l"
  shows "is_leaf t l"
    "fullscreen_node t = Some b \<Longrightarrow> focus t = Some c \<Longrightarrow> below t c b \<Longrightarrow> below t l b"
proof -
  obtain c where c: "focus t = Some c" using f by (auto simp: directional_focus_target_def split: option.splits)
  have cK: "contains_key t c" using invD(2) [OF I] c by (simp add: focus_in_def)
  have "direction_loop (walk_fuel t) t d aw (fullscreen_node t) c None = Some l"
    using f c by (simp add: directional_focus_target_def)
  note * = direction_loop_props [OF invD(4) [OF I] this cK]
  show "is_leaf t l" using * by simp
  show "fullscreen_node t = Some b \<Longrightarrow> focus t = Some c' \<Longrightarrow> below t c' b \<Longrightarrow> below t l b" for c'
    using * c by simp
qed

lemma focus_direction_inner_lawful:
  assumes I: "inv t"
  shows "lawful t (fst (focus_direction_inner t d aw))"
proof -
  have "focusable t (or_else (directional_focus_target t d aw) (focus t))"
    using focusable_or_else [OF I] focusable_leaf [OF I] directional_focus_target_props(1) [OF I] by blast
  then show ?thesis using lawful_set_focus [OF I] by (simp add: focus_direction_inner_def Let_def)
qed

lemma focus_next_or_prev_lawful: "inv t \<Longrightarrow> lawful t (fst (focus_next_or_prev t nxt))"
  by (simp add: focus_next_or_prev_def focus_direction_def focus_direction_inner_lawful lawful_refl
      split: option.split)

section \<open>Focus ranks and refocusing\<close>

lemma lawful_history:
  assumes I: "inv t" and h: "distinct h" "\<forall>i\<in>set h. contains_key t i"
  shows "lawful t (t\<lparr>focus_history := h\<rparr>)"
proof -
  have "depth_ok (t\<lparr>focus_history := h\<rparr>) = depth_ok t"
    using same_nodes_reads [of "t\<lparr>focus_history := h\<rparr>" t] by (intro depth_ok_cong) simp_all
  then show ?thesis
    using inv_history [OF I h] same_nodes_reads [of "t\<lparr>focus_history := h\<rparr>" t]
    by (simp add: lawful_def steady_def)
qed

lemma restore_focus_rank_lawful:
  assumes I: "inv t"
  shows "lawful t (restore_focus_rank t w r)"
proof (cases "node_for_window t w")
  case (Some i)
  have "contains_key t i" using window_leaf [OF I Some] tile_at_contains by auto
  then show ?thesis
    using Some side_okD(1,2) [OF invD(5) [OF I]]
    by (auto simp: restore_focus_rank_def Let_def intro!: lawful_history [OF I])
qed (use lawful_refl [OF I] in \<open>simp add: restore_focus_rank_def\<close>)

lemma sort_focus_history_lawful:
  assumes I: "inv t"
  shows "lawful t (sort_focus_history_by_timestamp t)"
proof -
  let ?h = "List.map_filter (\<lambda>i. map_option (\<lambda>w. (i, focus_timestamp w)) (tile_at t i)) (focus_history t)"
  let ?s = "map fst (sort_key (\<lambda>(i, ts). timestamp_key ts) ?h)"
  have h: "map fst (List.map_filter (\<lambda>i. map_option (\<lambda>w. (i, focus_timestamp w)) (tile_at t i)) xs) =
      filter (\<lambda>i. tile_at t i \<noteq> None) xs" for xs
    by (induction xs) (auto simp: List.map_filter_def)
  have s: "distinct ?s \<longleftrightarrow> distinct (map fst ?h)" "set ?s = set (map fst ?h)"
    by (simp_all add: distinct_map)
  have d: "distinct ?s" unfolding s(1) h using side_okD(1) [OF invD(5) [OF I]] by simp
  have "\<forall>i\<in>set ?s. contains_key t i" unfolding s(2) h using side_okD(2) [OF invD(5) [OF I]] by simp
  then show ?thesis
    unfolding sort_focus_history_by_timestamp_def Let_def by (rule lawful_history [OF I d])
qed

lemma resolve_transfer_focus_lawful:
  assumes I: "inv t" and f: "focus t \<noteq> None"
  shows "lawful t (fst (resolve_transfer_focus t x))"
proof (cases x)
  case (Some y)
  then obtain tgt as where x: "x = Some (tgt, as)" by (cases y) auto
  have "contains_key t l" if "Option.bind (List.find (contains_key t) as) (focused_leaf_in t) = Some l" for l
    using that focused_leaf_in_props(3) [OF invD(4) [OF I]]
    by (auto split: Option.bind_splits dest!: find_SomeD)
  then show ?thesis
    using lawful_refl [OF I] lawful_set_focus [OF I focusable_Some [OF f]] x
    by (auto simp: resolve_transfer_focus_def Let_def)
qed (use lawful_refl [OF I] in \<open>simp add: resolve_transfer_focus_def\<close>)

end
