(* ===== verification/Mutation.thy ===== *)
theory Mutation
  imports Focus_Ops
begin

text \<open>
  Adding and removing windows (\<^verbatim>\<open>src/layout/tiling_tree/mutation.rs\<close>). An operation that consumes
  a \<^verbatim>\<open>Tile\<close> takes it as an argument and returns the node it became; one that gives a tile back
  returns it. \<^verbatim>\<open>tile.update_config\<close> and \<^verbatim>\<open>tile.clear_tiled_content_size\<close> are calls to the tile layer.
\<close>

section \<open>Operations\<close>

definition insertion_slot :: "tree \<Rightarrow> insert_target \<Rightarrow> nid \<times> nid option" where
  "insertion_slot t target =
     (let fallback = (\<lambda>tgt.
            let p = unwrap_or (Option.bind tgt (parent_of t)) (tree_root t);
                after = (case tgt of
                           None \<Rightarrow> None
                         | Some i \<Rightarrow> (if parent_of t i = Some p then Some i else None))
            in (p, after))
      in case target of
           Focused \<Rightarrow> fallback (focus t)
         | TNode i \<Rightarrow> fallback (Some i)
         | MoveDestination \<Rightarrow> (case focus t of
             Some f \<Rightarrow> (if is_split t f then (f, None) else fallback (focus t))
           | None \<Rightarrow> fallback None))"

definition divides_box_under_fullscreen :: "tree \<Rightarrow> nid \<Rightarrow> nid \<Rightarrow> bool" where
  "divides_box_under_fullscreen t p f \<longleftrightarrow>
     p \<noteq> tree_root t \<and> p \<noteq> f \<and> contains_node t p f \<and>
     (case layout_of t p of Some l \<Rightarrow> linear l | None \<Rightarrow> False)"

definition place_new_leaf_in_focus_order :: "tree \<Rightarrow> nid \<Rightarrow> bool \<Rightarrow> bool \<Rightarrow> nid option \<Rightarrow> tree" where
  "place_new_leaf_in_focus_order t i activate focus_blocked previous_focus =
     (case previous_focus of
        Some pf \<Rightarrow>
          (if \<not> activate \<or> focus_blocked
           then let h = retain_ne i (focus_history t)
                in t\<lparr>focus_history := (if focus_blocked then h @ [i] else insert_at (min 1 (length h)) i h),
                     focus := Some pf\<rparr>
           else set_focus_id t (Some i))
      | None \<Rightarrow> set_focus_id t (Some i))"

definition workspace_wrap_layout :: "workspace_layout \<Rightarrow> layout option" where
  "workspace_wrap_layout w = (case w of
      WlDefault \<Rightarrow> None | WlStacking \<Rightarrow> Some Stacked | WlTabbed \<Rightarrow> Some Tabbed)"

definition add_tile_with_activation :: "tree \<Rightarrow> tile \<Rightarrow> insert_target \<Rightarrow> bool \<Rightarrow> tree \<times> nid" where
  "add_tile_with_activation t0 w target activate =
     (let t1 = log_call (t0\<lparr>interactive_resize_st := None, has_had_tile := True\<rparr>) (UpdateConfig (window_id w));
          mode = pending_sizing_mode w;
          fs = fullscreen_node t1;
          previous_focus = focus t1;
          t2 = (if fullscreen_layout_wrappers t1 \<noteq> {}
                then t1\<lparr>pre_layout_ipc_rects := (\<lambda>_. None)\<rparr> else t1);
          (t3, i) = alloc t2 \<lparr>parent = None, node_value = Leaf w\<rparr>;
          (p, after) = insertion_slot t3 target;
          t4 = insert_child t3 p i after;
          focus_blocked = (fs \<noteq> None);
          mapped = (focus_blocked \<and> p = tree_root t4);
          t5 = (if (case fs of Some f \<Rightarrow> divides_box_under_fullscreen t4 p f | None \<Rightarrow> False)
                then t4\<lparr>fullscreen_tile_slot := True\<rparr> else t4);
          t6 = (if p = tree_root t5
                then (case workspace_wrap_layout (opt_workspace_layout (options_of t5)) of
                        Some l \<Rightarrow> fst (wrap_node t5 i l) | None \<Rightarrow> t5)
                else t5);
          t7 = place_new_leaf_in_focus_order t6 i activate focus_blocked previous_focus;
          t8 = (if mapped \<and> \<not> is_fullscreen mode
                then t7\<lparr>mapped_under_fullscreen := insert i (mapped_under_fullscreen t7)\<rparr> else t7);
          t9 = (if is_maximized mode
                then t8\<lparr>pending_modes := (pending_modes t8)(i \<mapsto> pending_mode_default\<lparr>pm_maximized := True\<rparr>)\<rparr>
                else t8);
          t10 = compact_tree t9;
          t11 = (if is_fullscreen mode then fst (replace_fullscreen_state t10 i (Some FsWorkspace)) else t10)
      in (request_window_sizes (animate_geometry_changes t11 (Some i)), i))"

definition add_tile :: "tree \<Rightarrow> tile \<Rightarrow> insert_target \<Rightarrow> tree \<times> nid" where
  "add_tile t w target = add_tile_with_activation t w target True"

text \<open>\<^verbatim>\<open>Vec::swap\<close> panics out of range; the two indices come from \<^verbatim>\<open>child_index\<close>.\<close>

definition vec_swap :: "nat \<Rightarrow> nat \<Rightarrow> 'a list \<Rightarrow> 'a list" where
  "vec_swap i j xs = xs[i := xs ! j, j := xs ! i]"

definition add_tile_at_drop :: "tree \<Rightarrow> tile \<Rightarrow> nid \<Rightarrow> resize_edge \<Rightarrow> bool \<Rightarrow> tree \<times> nid" where
  "add_tile_at_drop t w target ed activate =
     (let l = (if intersects ed {LEFT, RIGHT} then SplitH else SplitV) in
      case parent_or_root t target of
        None \<Rightarrow> add_tile_with_activation t w Focused activate
      | Some p \<Rightarrow>
          (let t1 = (if layout_of t p = Some l then t else split t target l);
               (t2, i) = add_tile_with_activation t1 w (TNode target) activate
           in if \<not> intersects ed {LEFT, TOP} then (t2, i)
              else case parent_of t2 i of
                None \<Rightarrow> (panic t2, i)
              | Some q \<Rightarrow> (case (child_index t2 q target, child_index t2 q i) of
                  (Some a, Some b) \<Rightarrow> (case get_split t2 q of
                      Some (lq, cs, ps, m) \<Rightarrow>
                        (if a < length ps \<and> b < length ps
                         then (set_value t2 q (Split lq (vec_swap a b cs) (vec_swap a b ps) m), i)
                         else (panic t2, i))
                    | None \<Rightarrow> (panic t2, i))
                | _ \<Rightarrow> (panic t2, i))))"

definition add_tile_right_of :: "tree \<Rightarrow> wid \<Rightarrow> tile \<Rightarrow> bool \<Rightarrow> tree \<times> nid option" where
  "add_tile_right_of t right_of w activate = (case node_for_window t right_of of
      None \<Rightarrow> (t, None)
    | Some i \<Rightarrow> (let (t', j) = add_tile_with_activation t w (TNode i) activate in (t', Some j)))"

definition add_tile_to_subtree :: "tree \<Rightarrow> nid \<Rightarrow> tile \<Rightarrow> bool \<Rightarrow> tree \<times> nid option" where
  "add_tile_to_subtree t i w activate =
     (if contains_key t i
      then let (t', j) = add_tile_with_activation t w (TNode i) activate in (t', Some j)
      else (t, None))"

definition remove_tile_node :: "tree \<Rightarrow> nid \<Rightarrow> tree \<times> tile option" where
  "remove_tile_node t i = (case tile_at t i of
      None \<Rightarrow> (t, None)
    | Some w \<Rightarrow>
        (let removed_fullscreen = (fullscreen_node t = Some i);
             (t1, n) = remove_node t i;
             t2 = (if removed_fullscreen
                   then t1\<lparr>mapped_under_fullscreen := {}, moved_under_fullscreen := (\<lambda>_. None)\<rparr> else t1);
             t3 = (log_call t2 (ClearTiledContentSize (window_id w)))\<lparr>interactive_resize_st := None\<rparr>;
             t4 = (case Option.bind n parent of
                     Some p \<Rightarrow> reap_empty_from (remove_child t3 p i) p
                   | None \<Rightarrow> t3);
             t5 = (if windows t4 = []
                   then (case layout_of t4 (tree_root t4) of
                           None \<Rightarrow> panic t4
                         | Some l \<Rightarrow> set_focus_id (t4\<lparr>empty_representation_layout := Some l,
                                                    pending_modes := (\<lambda>_. None)\<rparr>) None)
                   else if focus t4 = Some i
                   then set_focus_id t4 (or_else (Option.bind (fullscreen_node t4) (focused_leaf_in t4))
                          (focused_leaf_in t4 (tree_root t4)))
                   else t4)
         in (animate_geometry_changes t5 None, Some w)))"

definition remove_tile :: "tree \<Rightarrow> wid \<Rightarrow> tree \<times> tile option" where
  "remove_tile t w = (case node_for_window t w of
      None \<Rightarrow> (t, None)
    | Some i \<Rightarrow>
        (let (t', r) = remove_tile_node t i in
         case r of
           None \<Rightarrow> (t', None) | Some x \<Rightarrow> (request_window_sizes_with t' True True, Some x)))"

definition remove_tile_without_transaction :: "tree \<Rightarrow> wid \<Rightarrow> tree \<times> tile option" where
  "remove_tile_without_transaction t w = (case node_for_window t w of
      None \<Rightarrow> (t, None)
    | Some i \<Rightarrow>
        (let (t', r) = remove_tile_node t i in
         case r of None \<Rightarrow> (t', None) | Some x \<Rightarrow> (request_window_sizes t', Some x)))"

definition remove_tile_for_transfer :: "tree \<Rightarrow> wid \<Rightarrow> tree \<times> tile option" where
  "remove_tile_for_transfer t w = (case node_for_window t w of
      None \<Rightarrow> (t, None)
    | Some i \<Rightarrow>
        (let target = (if focus t = Some i \<and> fullscreen_node t = None
                       then transfer_focus_target t (Some i) (parent_of t i) else None);
             (t', r) = remove_tile t w
         in case r of
              None \<Rightarrow> (t', None)
            | Some x \<Rightarrow> (if focus t' \<noteq> None then fst (resolve_transfer_focus t' target) else t', Some x)))"

definition add_tile_to_existing_parent :: "tree \<Rightarrow> tile \<Rightarrow> nid \<Rightarrow> bool \<Rightarrow> tree \<times> nid" where
  "add_tile_to_existing_parent t w p activate =
     (let t1 = log_call (t\<lparr>interactive_resize_st := None\<rparr>) (UpdateConfig (window_id w));
          (t2, i) = alloc t1 \<lparr>parent = Some p, node_value = Leaf w\<rparr>;
          t3 = insert_child t2 p i None;
          t4 = (if activate then set_focus_id t3 (Some i) else t3)
      in (request_window_sizes (animate_geometry_changes t4 (Some i)), i))"

section \<open>Adding a leaf\<close>

lemma raise_split_wrapper_modes [simp]: "pending_modes (raise_split_wrapper t c w) = pending_modes t"
  by (simp add: raise_split_wrapper_def Let_def)

lemma wrap_node_focus:
  assumes W: "wft {} {} t"
  shows "focus (fst (wrap_node t i l)) = focus t"
    "fullscreen_mode t i = None \<Longrightarrow> fullscreen_mode (fst (wrap_node t i l)) = fullscreen_mode t"
proof -
  have "focus (fst (wrap_node t i l)) = focus t \<and>
    (fullscreen_mode t i = None \<longrightarrow> fullscreen_mode (fst (wrap_node t i l)) = fullscreen_mode t)"
    using W
  proof (cases rule: wrap_node_cases [where i = i and l = l])
    case (wrapped p lp cs ps m k u)
    note sf = strip_fieldsD [OF wrapped_structure(6) [OF wfD(1) [OF W] wrapped(2-5), of l, folded wrapped(6)]]
    let ?r = "raise_split_wrapper u i (next_id t)"
    have "fullscreen_mode ?r = fullscreen_mode t" using sf(6) by (simp add: fun_eq_iff fullscreen_mode_def)
    then show ?thesis using sf(2) by (auto simp: wrapped(7) pass_fullscreen_def split: option.split)
  qed simp
  then show "focus (fst (wrap_node t i l)) = focus t"
    "fullscreen_mode t i = None \<Longrightarrow> fullscreen_mode (fst (wrap_node t i l)) = fullscreen_mode t" by auto
qed

lemma depth_agree:
  assumes F: "forest {} E t" and F': "forest {} E' t'"
    and P: "\<And>x. contains_key t x \<Longrightarrow> parent_of t' x = parent_of t x" and x: "contains_key t x"
  shows "node_depth t' x = node_depth t x"
  using x
proof (induction "node_depth t x" arbitrary: x rule: less_induct)
  case less
  show ?case
  proof (cases "parent_of t x")
    case None
    then have "parent_of t' x = None" using P [OF less.prems] by simp
    then show ?thesis using None node_depth_eq [OF F, of x x 0] node_depth_eq [OF F', of x x 0] by simp
  next
    case (Some p)
    have pK: "contains_key t p" using F Some by (rule forest_parentD) (rule get_split_contains)
    have "parent_of t' x = Some p" using P [OF less.prems] Some by simp
    then show ?thesis
      using node_depth_child [OF F Some] node_depth_child [OF F'] less.hyps [OF _ pK] by simp
  qed
qed

text \<open>\<open>add_leaf t w p k\<close> is the arena part of an insertion: the new node and its slot.\<close>

definition add_leaf :: "tree \<Rightarrow> tile \<Rightarrow> nid \<Rightarrow> nid option \<Rightarrow> tree" where
  "add_leaf t w p after = insert_child (fst (alloc t \<lparr>parent = None, node_value = Leaf w\<rparr>)) p (next_id t) after"

lemma add_leaf_props:
  fixes w :: tile and after :: "nid option"
  assumes W: "wft {} {} t" and p: "get_split t p = Some (l, cs, ps, m)"
  defines "i \<equiv> next_id t" and "t' \<equiv> add_leaf t w p after"
  shows "wft {} {} t'" "contains_key t' = (contains_key t)(i := True)"
    "parent_of t' = (parent_of t)(i := Some p)" "tile_at t' = (tile_at t)(i \<mapsto> w)"
    "strip t' = strip t" "panicked t' = panicked t" "next_id t' = Suc (next_id t)"
    "\<exists>k. get_split t' = (get_split t)(p := Some (l, insert_at (min k (length cs)) i cs, attached_shares ps k, m))"
proof -
  have F: "forest {} {} t" using W by (rule wfD)
  let ?a = "fst (alloc t \<lparr>parent = None, node_value = Leaf w\<rparr>)"
  note al = alloc_reads [of t "\<lparr>parent = None, node_value = Leaf w\<rparr>", folded i_def, simplified]
  have iK: "\<not> contains_key t i" unfolding i_def using F by (rule fresh_id)
  have gi: "get_split t i = None" and pi: "parent_of t i = None"
    using iK get_split_contains parent_of_contains by (metis not_None_eq)+
  have ga: "get_split ?a = get_split t" "parent_of ?a = parent_of t" using al(3,4) gi pi by (auto simp: fun_eq_iff)
  have "aforest (tree_root t) (Suc (next_id t)) (insert i {}) {} ((contains_key t)(i := True))
      (parent_of t) ((get_split t)(i := None))"
    by (rule aforest_alloc [OF F [unfolded forest_iff] iK]) (simp_all add: i_def)
  moreover have "(get_split t)(i := None) = get_split t" using gi by (auto simp: fun_eq_iff)
  ultimately have Fa: "forest {i} {} ?a"
    unfolding forest_iff al(2,6,8) ga by (simp add: i_def)
  have pa: "get_split ?a p = Some (l, cs, ps, m)" using ga p by simp
  have nb: "\<not> below ?a p i"
  proof
    assume "below ?a p i"
    then have "below t p i" using ga by simp
    then show False using below_contains [OF _ get_split_contains [OF p] F] iK by blast
  qed
  obtain k where k: "t' = insert_child_at ?a p i k"
    using insert_child_eq [OF pa, of i after] by (auto simp: t'_def add_leaf_def i_def)
  note ic = insert_child_at_forest [OF Fa pa _ nb, of k, simplified]
  show con: "contains_key t' = (contains_key t)(i := True)" using ic(3) al(2) by (simp add: k fun_eq_iff)
  show "parent_of t' = (parent_of t)(i := Some p)" using ic(4) ga by (simp add: k)
  show tl: "tile_at t' = (tile_at t)(i \<mapsto> w)" using ic(6) al(5) by (simp add: k)
  show st: "strip t' = strip t" by (simp add: k)
  show pn: "panicked t' = panicked t" using ic(2) al(7) by (simp add: k)
  have eq: "t' = set_parent (set_value ?a p (Split l (insert_at (min k (length cs)) i cs) (attached_shares ps k) m)) i (Some p)"
    unfolding k by (rule insert_child_at_eq [OF pa]) (simp_all add: al(2) forest_splitD(3) [OF F p])
  show "next_id t' = Suc (next_id t)" using al(6) by (simp add: eq i_def)
  show "\<exists>k. get_split t' = (get_split t)(p := Some (l, insert_at (min k (length cs)) i cs, attached_shares ps k, m))"
    using ic(5) ga by (intro exI [of _ k]) (simp add: k)
  show "wft {} {} t'"
    by (rule wf_frame [OF W _ st pn]) (use ic(1) con tl in \<open>auto simp: k\<close>)
qed

lemma add_leaf_depth:
  assumes W: "wft {} {} t" and p: "get_split t p = Some (l, cs, ps, m)" and ok: "depth_ok t"
  shows "depth_ok (add_leaf t w p after)"
proof -
  note al = add_leaf_props [OF W p, of w after]
  let ?t' = "add_leaf t w p after" and ?i = "next_id t"
  have F: "forest {} {} t" using W by (rule wfD)
  have F': "forest {} {} ?t'" using al(1) by (rule wfD)
  have iK: "\<not> contains_key t ?i" using F by (rule fresh_id)
  have old: "node_depth ?t' x = node_depth t x" if "contains_key t x" for x
    by (rule depth_agree [OF F F' _ that]) (use al(3) iK in auto)
  have pK: "contains_key t p" using p by (rule get_split_contains)
  have "Suc (node_depth t p) \<le> MAX_TREE_DEPTH"
  proof (cases cs)
    case Nil
    then have "p = tree_root t" using forest_empty [OF F] p by blast
    then have "node_depth t p = 0" using node_depth_eq [OF F, of p p 0] forest_root_parent [OF F] by simp
    then show ?thesis by (simp add: MAX_TREE_DEPTH_def)
  next
    case (Cons c cs')
    then have c: "parent_of t c = Some p" "contains_key t c"
      using forest_splitD(2) [OF F p] child_contains [OF F p] by simp_all
    then show ?thesis using node_depth_child [OF F c(1)] ok by (metis depth_ok_def)
  qed
  moreover have "node_depth ?t' ?i = Suc (node_depth ?t' p)"
    by (rule node_depth_child [OF F']) (simp add: al(3))
  ultimately show ?thesis
    using old [OF pK] old ok unfolding depth_ok_def al(2) by (metis fun_upd_apply)
qed

text \<open>
  \<open>gains t i w t'\<close>: a sound tree in which node \<open>i\<close> shows the new window \<open>w\<close>, every other window is
  where it was, and the depth bound is kept.
\<close>

definition gains :: "tree \<Rightarrow> nid \<Rightarrow> tile \<Rightarrow> tree \<Rightarrow> bool" where
  "gains t i w t' \<longleftrightarrow> inv t' \<and> tile_at t' = (tile_at t)(i \<mapsto> w) \<and> tree_root t' = tree_root t \<and>
     (depth_ok t \<longrightarrow> depth_ok t') \<and> focus t' \<noteq> None"

lemma gains_lawful: "gains t i w u \<Longrightarrow> lawful u v \<Longrightarrow> gains t i w v"
  by (auto simp: gains_def lawful_def steady_def)

lemma lawful_gains: "lawful t u \<Longrightarrow> gains u i w v \<Longrightarrow> gains t i w v"
  by (auto simp: gains_def lawful_def steady_def)

lemma insertion_slot_split:
  assumes I: "inv t" and s: "insertion_slot t target = (p, after)"
  obtains l cs ps m where "get_split t p = Some (l, cs, ps, m)"
proof -
  have par: "parent_of t c = Some q \<Longrightarrow> is_split t q" for c q
    using forest_parentD [OF invD(4) [OF I]] by (metis is_split_def option.simps(3))
  have root: "is_split t (tree_root t)" using invD(4) [OF I] by (rule forest_root)
  have up: "is_split t (unwrap_or (parent_of t c) (tree_root t))" for c
    using par root by (cases "parent_of t c") auto
  have "is_split t p"
    using s root up par by (auto simp: insertion_slot_def Let_def split: insert_target.splits option.splits if_splits)
  then show ?thesis using that by (auto simp: is_split_def)
qed

lemma place_new_leaf_gains:
  assumes W: "wft {} {} t" and fi: "focus_in {} t" and i: "tile_at t i = Some w"
    and pf: "previous_focus = focus t"
  shows "inv (place_new_leaf_in_focus_order t i a b previous_focus)" (is "inv ?u")
    and "tile_at (place_new_leaf_in_focus_order t i a b previous_focus) = tile_at t"
    and "tree_root (place_new_leaf_in_focus_order t i a b previous_focus) = tree_root t"
    and "depth_ok (place_new_leaf_in_focus_order t i a b previous_focus) = depth_ok t"
    and "focus (place_new_leaf_in_focus_order t i a b previous_focus) \<noteq> None"
    and "pending_modes (place_new_leaf_in_focus_order t i a b previous_focus) = pending_modes t"
proof -
  have iK: "contains_key t i" using i by (rule tile_at_contains)
  have ne: "leaves t \<noteq> {}" using i by (auto simp: leaves_def)
  show "pending_modes ?u = pending_modes t"
    by (simp add: place_new_leaf_in_focus_order_def Let_def split: option.split)
  have focus_case: "inv (set_focus_id t (Some i))"
    using wf_set_focus_id [OF W, of "Some i"] iK ne by (auto simp: inv_def focus_in_def)
  have "inv ?u \<and> tile_at ?u = tile_at t \<and> tree_root ?u = tree_root t \<and> depth_ok ?u = depth_ok t \<and> focus ?u \<noteq> None"
  proof (cases "\<exists>f. previous_focus = Some f \<and> (\<not> a \<or> b)")
    case True
    then obtain f where f: "previous_focus = Some f" "\<not> a \<or> b" by blast
    let ?h = "if b then retain_ne i (focus_history t) @ [i]
      else insert_at (min 1 (length (retain_ne i (focus_history t)))) i (retain_ne i (focus_history t))"
    have eq: "?u = t\<lparr>focus_history := ?h\<rparr>"
      using f pf by (simp add: place_new_leaf_in_focus_order_def Let_def)
    have h: "distinct ?h" "\<forall>x\<in>set ?h. contains_key t x"
      using side_okD(1,2) [OF wfD(2) [OF W]] iK by auto
    have Wu: "wft {} {} ?u" unfolding eq using W h by (rule wft_history)
    note r = same_nodes_reads [of ?u t]
    have nu: "nodes ?u = nodes t" by (simp add: eq)
    note r = r [OF nu]
    have "focus ?u = Some f" unfolding eq using f pf by simp
    moreover have "contains_key t f" using fi f pf by (auto simp: focus_in_def)
    moreover have "depth_ok ?u = depth_ok t" by (rule depth_ok_cong) (simp_all add: r, simp add: eq)
    moreover have "tree_root ?u = tree_root t" by (simp add: eq)
    ultimately show ?thesis using Wu r ne by (auto simp: inv_def focus_in_def)
  next
    case False
    then have "?u = set_focus_id t (Some i)"
      by (auto simp: place_new_leaf_in_focus_order_def split: option.split)
    then show ?thesis using focus_case by simp
  qed
  then show "inv ?u" "tile_at ?u = tile_at t" "tree_root ?u = tree_root t" "depth_ok ?u = depth_ok t"
    "focus ?u \<noteq> None" by blast+
qed


lemma lawful_shrink_tables:
  assumes I: "inv t" and n: "nodes t' = nodes t" "tree_root t' = tree_root t" "next_id t' = next_id t"
    "panicked t' = panicked t" "focus t' = focus t" and s: "side_ok t'" "modes_ok t'"
  shows "lawful t t'"
proof -
  note r = same_nodes_reads [OF n(1)]
  have "depth_ok t' = depth_ok t" by (rule depth_ok_cong) (simp_all add: r n)
  then show ?thesis using inv_tables [OF I n s] n r by (simp add: lawful_def steady_def)
qed

lemma lawful_clear_rects:
  assumes I: "inv t"
  shows "lawful t (t\<lparr>pre_layout_ipc_rects := (\<lambda>_. None)\<rparr>)" (is "lawful t ?u")
proof (rule lawful_shrink_tables [OF I])
  have K: "contains_key ?u = contains_key t" "tile_at ?u = tile_at t" using same_nodes_reads [of ?u t] by simp_all
  show "side_ok ?u" using invD(5) [OF I] by (simp add: side_ok_def K)
  show "modes_ok ?u" using invD(6) [OF I] by (simp add: modes_ok_def K fullscreen_mode_def)
qed simp_all

lemma lawful_map_under:
  assumes I: "inv t" and i: "contains_key t i"
  shows "lawful t (t\<lparr>mapped_under_fullscreen := insert i (mapped_under_fullscreen t)\<rparr>)" (is "lawful t ?u")
proof (rule lawful_shrink_tables [OF I])
  have K: "contains_key ?u = contains_key t" "tile_at ?u = tile_at t" using same_nodes_reads [of ?u t] by simp_all
  show "side_ok ?u" using invD(5) [OF I] i by (simp add: side_ok_def K)
  show "modes_ok ?u" using invD(6) [OF I] by (simp add: modes_ok_def K fullscreen_mode_def)
qed simp_all

lemma lawful_mark_maximized:
  assumes I: "inv t" and i: "is_leaf t i" "fullscreen_mode t i = None"
  shows "lawful t (t\<lparr>pending_modes := (pending_modes t)(i \<mapsto> pending_mode_default\<lparr>pm_maximized := True\<rparr>)\<rparr>)"
    (is "lawful t ?u")
proof (rule lawful_shrink_tables [OF I])
  have K: "contains_key ?u = contains_key t" "tile_at ?u = tile_at t" using same_nodes_reads [of ?u t] by simp_all
  have iK: "contains_key t i" using i(1) tile_at_contains by auto
  show "side_ok ?u" using invD(5) [OF I] iK by (simp add: side_ok_def K)
  have "fullscreen_mode ?u = fullscreen_mode t"
    using i(2) by (auto simp: fun_eq_iff fullscreen_mode_def pending_mode_default_def)
  then show "modes_ok ?u" using invD(6) [OF I] i(1) unfolding modes_ok_def K by (auto split: if_splits)
qed simp_all

lemma lawful_replace_fullscreen:
  assumes I: "inv t"
  shows "lawful t (fst (replace_fullscreen_state t i fs))"
proof -
  let ?u = "fst (replace_fullscreen_state t i fs)"
  have n: "nodes ?u = nodes t" by (rule replace_fullscreen_nodes [OF I])
  note r = same_nodes_reads [OF n]
  have Iu: "inv ?u" by (rule replace_fullscreen_inv [OF I])
  have o: "tree_root ?u = tree_root t" "next_id ?u = next_id t"
    by (auto simp: replace_fullscreen_state_def clear_under_fullscreen_def Let_def cancel_resize_for_def
        split: option.split)
  have "focus ?u = None \<longleftrightarrow> focus t = None" using invD(3) [OF I] invD(3) [OF Iu] r by simp
  moreover have "depth_ok ?u = depth_ok t" by (rule depth_ok_cong) (simp_all add: r o)
  ultimately show ?thesis using Iu r o by (simp add: lawful_def steady_def)
qed

text \<open>Compaction keeps two windows that share a parent in one container.\<close>

definition siblings :: "tree \<Rightarrow> nid \<Rightarrow> nid \<Rightarrow> bool" where
  "siblings t i j \<longleftrightarrow> is_leaf t i \<and> is_leaf t j \<and> i \<noteq> j \<and> (\<exists>p. parent_of t i = Some p \<and> parent_of t j = Some p)"

lemma squash_siblings:
  assumes W: "wft {} {} t" and s: "squashable_child t a = Some c" and sib: "siblings t i j"
  shows "siblings (squash t a) i j"
proof -
  note sq = squash_wf [OF W s]
  obtain p where p: "parent_of t i = Some p" "parent_of t j = Some p" using sib by (auto simp: siblings_def)
  obtain q la psa ma lc gs qs mc where a: "parent_of t a = Some q" "get_split t a = Some (la, [c], psa, ma)"
    and c: "get_split t c = Some (lc, gs, qs, mc)"
    using squashable_childE [OF s] by metis
  have tiles: "tile_at (squash t a) = tile_at t" using sq(3) by (simp add: steady_def)
  have ne: "x \<noteq> a \<and> x \<noteq> c" if "is_leaf t x" for x using that split_not_leaf [OF a(2)] split_not_leaf [OF c] by auto
  show ?thesis
    using sib ne p a(1) unfolding siblings_def tiles sq(10) by auto
qed

lemma compact_siblings:
  assumes W: "wft {} {} t" and sib: "siblings t i j"
  shows "siblings (compact_tree t) i j"
proof -
  have "siblings (compact_loop k t) i j" if "wft {} {} t" "siblings t i j" for k
    using that
  proof (induction k arbitrary: t)
    case 0
    then show ?case by (simp add: panic_def siblings_def tile_at_def value_of_def parent_of_def)
  next
    case (Suc k)
    show ?case
    proof (cases "find_map (\<lambda>i. map_option (\<lambda>_. i) (squashable_child t i)) (iter_depth_first t)")
      case None
      then show ?thesis using Suc.prems by (simp only: compact_loop.simps option.case)
    next
      case (Some a)
      then obtain c where c: "squashable_child t a = Some c" by (auto elim!: find_map_SomeE)
      have "siblings (compact_loop k (squash t a)) i j"
        by (rule Suc.IH [OF squash_wf(1) [OF Suc.prems(1) c] squash_siblings [OF Suc.prems(1) c Suc.prems(2)]])
      then show ?thesis using Some by (simp only: compact_loop.simps option.case)
    qed
  qed
  then show ?thesis using assms by (simp add: compact_tree_def)
qed

theorem add_tile_gains:
  assumes I: "inv t"
  shows "gains t (next_id t) w (fst (add_tile_with_activation t w target a))"
    "snd (add_tile_with_activation t w target a) = next_id t"
    "target = TNode j \<Longrightarrow> is_leaf t j \<Longrightarrow>
       parent_of t j = Some (tree_root t) \<longrightarrow> opt_workspace_layout (options_of t) = WlDefault \<Longrightarrow>
       siblings (fst (add_tile_with_activation t w target a)) j (next_id t)"
proof -
  let ?i = "next_id t"
  define t1 where "t1 = log_call (t\<lparr>interactive_resize_st := None, has_had_tile := True\<rparr>) (UpdateConfig (window_id w))"
  define t2 where "t2 = (if fullscreen_layout_wrappers t1 \<noteq> {} then t1\<lparr>pre_layout_ipc_rects := (\<lambda>_. None)\<rparr> else t1)"
  define t3 where "t3 = fst (alloc t2 \<lparr>parent = None, node_value = Leaf w\<rparr>)"
  have L1: "lawful t t1"
    unfolding t1_def by (intro lawful_log lawful_same_core [OF I]) (simp add: same_core_def)
  have "lawful t1 t2"
    using lawful_clear_rects lawful_refl lawfulD(1) [OF L1] by (simp add: t2_def)
  with L1 have L2: "lawful t t2" by (rule lawful_trans)
  note I2 = lawfulD(1) [OF L2]
  have nx: "next_id t2 = ?i" "focus t2 = focus t" by (simp_all add: t2_def t1_def)
  obtain p after where s3: "insertion_slot t3 target = (p, after)" by fastforce
  have W2: "wft {} {} t2" using I2 by (rule invD)
  note al = alloc_reads [of t2 "\<lparr>parent = None, node_value = Leaf w\<rparr>", folded t3_def, simplified, unfolded nx]
  have iK: "\<not> contains_key t2 ?i" using fresh_id [OF wfD(1) [OF W2]] nx by simp
  have old: "parent_of t3 = parent_of t2" "get_split t3 = get_split t2"
    using al(3,4) iK get_split_contains parent_of_contains by (metis fun_upd_triv not_None_eq)+
  have st3: "strip t3 = strip t2" by (simp add: t3_def)
  note sf3 = strip_fieldsD [OF st3]
  have "insertion_slot t3 target = insertion_slot t2 target"
    unfolding insertion_slot_def is_split_def old sf3(1,2) by (rule refl)
  then have "insertion_slot t2 target = (p, after)" using s3 by simp
  then obtain l cs ps m where p: "get_split t2 p = Some (l, cs, ps, m)" by (rule insertion_slot_split [OF I2])
  define t4 where "t4 = insert_child t3 p ?i after"
  have t4a: "t4 = add_leaf t2 w p after" by (simp add: t4_def t3_def add_leaf_def nx)
  note ap = add_leaf_props [OF W2 p, of w after, folded t4a, unfolded nx]
  note sf4 = strip_fieldsD [OF ap(5)]
  have D4: "depth_ok t2 \<longrightarrow> depth_ok t4" using add_leaf_depth [OF W2 p, of w after] by (simp add: t4a)
  define fs where "fs = fullscreen_node t1"
  define t5 where "t5 = (if (case fs of Some f \<Rightarrow> divides_box_under_fullscreen t4 p f | None \<Rightarrow> False)
                then t4\<lparr>fullscreen_tile_slot := True\<rparr> else t4)"
  have sc5: "same_core t4 t5" by (auto simp: t5_def same_core_def)
  have W5: "wft {} {} t5" using ap(1) same_core_wft [OF sc5] by simp
  define t6 where "t6 = (if p = tree_root t5
                then (case workspace_wrap_layout (opt_workspace_layout (options_of t5)) of
                        Some l \<Rightarrow> fst (wrap_node t5 ?i l) | None \<Rightarrow> t5) else t5)"
  have G6: "grows t5 t6"
    using wrap_node_grows [OF W5] grows_refl [OF W5] by (simp add: t6_def split: option.split)
  have D6: "depth_ok t5 \<longrightarrow> depth_ok t6"
    using wrap_node_depth [OF W5] by (simp add: t6_def split: option.split)
  have tile5: "tile_at t5 = (tile_at t2)(?i \<mapsto> w)" "focus t5 = focus t" "tree_root t5 = tree_root t2"
    using ap(4) sf4 same_nodes_reads [of t5 t4] sc5 by (simp_all add: same_core_def nx)
  have t6: "tile_at t6 = (tile_at t2)(?i \<mapsto> w)" "wft {} {} t6" "tree_root t6 = tree_root t2"
    using G6 tile5 by (simp_all add: grows_def steady_def)
  have foc6: "focus t6 = focus t5"
    by (auto simp: t6_def wrap_node_focus [OF W5] split: option.split)
  have fi5: "focus_in {} t5"
    using invD(2) [OF I2] tile5(2) nx ap(2) same_nodes_reads [of t5 t4] sc5
    by (auto simp: focus_in_def same_core_def)
  then have fi6: "focus_in {} t6" using G6 by (simp add: grows_def)
  define t7 where "t7 = place_new_leaf_in_focus_order t6 ?i a (fs \<noteq> None) (focus t1)"
  have pf: "focus t1 = focus t6" using foc6 tile5(2) by (simp add: t1_def)
  have i6: "tile_at t6 ?i = Some w" using t6(1) by simp
  note pl = place_new_leaf_gains [OF t6(2) fi6 i6 pf, of a "fs \<noteq> None", folded t7_def]
  have L2': "tile_at t2 = tile_at t" "tree_root t2 = tree_root t" "depth_ok t \<longrightarrow> depth_ok t2"
    using L2 by (auto simp: lawful_def steady_def)
  have D7: "depth_ok t \<longrightarrow> depth_ok t7"
    using L2'(3) D4 D6 pl(4) depth_ok_same_core [OF sc5] by simp
  have G7: "gains t ?i w t7"
    using pl(1-5) t6 L2' D7 by (simp add: gains_def)
  define t8 where "t8 = (if (fs \<noteq> None \<and> p = tree_root t4) \<and> \<not> is_fullscreen (pending_sizing_mode w)
                then t7\<lparr>mapped_under_fullscreen := insert ?i (mapped_under_fullscreen t7)\<rparr> else t7)"
  have i7: "is_leaf t7 ?i" "contains_key t7 ?i" using G7 tile_at_contains by (auto simp: gains_def)
  have L8: "lawful t7 t8"
    using lawful_map_under [OF pl(1) i7(2)] lawful_refl [OF pl(1)] by (simp add: t8_def)
  define t9 where "t9 = (if is_maximized (pending_sizing_mode w)
                then t8\<lparr>pending_modes := (pending_modes t8)(?i \<mapsto> pending_mode_default\<lparr>pm_maximized := True\<rparr>)\<rparr>
                else t8)"
  have nofs: "fullscreen_mode t8 ?i = None"
  proof -
    have "pending_modes t2 ?i = None"
      using iK side_okD(3) [OF invD(5) [OF I2]] by (metis not_None_eq)
    then have "fullscreen_mode t5 ?i = None"
      using sf4(6) sc5 by (simp add: fullscreen_mode_def same_core_def)
    then have "fullscreen_mode t6 ?i = None"
      by (simp add: t6_def wrap_node_focus(2) [OF W5] split: option.split)
    then show ?thesis using pl(6) by (simp add: t8_def fullscreen_mode_def)
  qed
  have i8: "is_leaf t8 ?i" using i7 L8 by (simp add: lawful_def steady_def)
  have L9: "lawful t8 t9"
    using lawful_mark_maximized [OF lawfulD(1) [OF L8] i8 nofs] lawful_refl [OF lawfulD(1) [OF L8]]
    by (simp add: t9_def)
  define t11 where "t11 = (if is_fullscreen (pending_sizing_mode w)
     then fst (replace_fullscreen_state (compact_tree t9) ?i (Some FsWorkspace)) else compact_tree t9)"
  have L10: "lawful t9 (compact_tree t9)" using lawful_compact lawfulD(1) [OF L9] by blast
  have L11: "lawful (compact_tree t9) t11"
    using lawful_replace_fullscreen lawful_refl lawfulD(1) [OF L10] by (simp add: t11_def)
  have L12: "lawful t11 (request_window_sizes (animate_geometry_changes t11 (Some ?i)))"
    unfolding calls_are_log by (intro lawful_log lawful_refl lawfulD(1) [OF L11])
  have eq: "add_tile_with_activation t w target a =
      (request_window_sizes (animate_geometry_changes t11 (Some ?i)), ?i)"
  proof -
    have a2: "alloc t2 \<lparr>parent = None, node_value = Leaf w\<rparr> = (t3, ?i)"
      by (simp add: t3_def alloc_def nx)
    show ?thesis
      unfolding add_tile_with_activation_def Let_def t1_def [symmetric] t2_def [symmetric] a2 prod.case
        s3 t4_def [symmetric] fs_def [symmetric] t5_def [symmetric] t6_def [symmetric] t7_def [symmetric]
        t8_def [symmetric] t9_def [symmetric] t11_def [symmetric] by (rule refl)
  qed
  show "snd (add_tile_with_activation t w target a) = next_id t" by (simp add: eq)
  show "gains t (next_id t) w (fst (add_tile_with_activation t w target a))"
    unfolding eq fst_conv
    by (rule gains_lawful [OF gains_lawful [OF gains_lawful [OF gains_lawful [OF gains_lawful [OF G7 L8] L9] L10] L11] L12])
  show "siblings (fst (add_tile_with_activation t w target a)) j (next_id t)"
    if j: "target = TNode j" "is_leaf t j"
      and lay: "parent_of t j = Some (tree_root t) \<longrightarrow> opt_workspace_layout (options_of t) = WlDefault"
  proof -
    have n2: "nodes t2 = nodes t" by (simp add: t2_def t1_def)
    note r2 = same_nodes_reads [OF n2]
    have j2: "is_leaf t2 j" "contains_key t2 j" using j(2) tile_at_contains by (auto simp: r2)
    have "j \<noteq> tree_root t2" using forest_root [OF invD(4) [OF I2]] leaf_not_split j2(1) by (auto simp: is_split_def)
    then obtain q where q: "parent_of t2 j = Some q" using forest_top [OF invD(4) [OF I2] j2(2)] by blast
    have pq: "p = q" using \<open>insertion_slot t2 target = (p, after)\<close> j(1) q by (simp add: insertion_slot_def Let_def)
    have ne: "j \<noteq> ?i" using j2(2) iK by auto
    have s4: "siblings t4 j ?i" using j2(1) ne q pq ap(3,4) by (auto simp: siblings_def)
    have cong: "siblings u j ?i" if "nodes u = nodes v" "siblings v j ?i" for u v
      using that same_nodes_reads [OF that(1)] by (simp add: siblings_def)
    have n5: "nodes t5 = nodes t4" using sc5 by (simp add: same_core_def)
    have o5: "options_of t5 = options_of t" "tree_root t5 = tree_root t"
      using sf4(15) L2'(2) tile5(3) by (auto simp: t5_def t2_def t1_def log_call_def)
    have "t6 = t5" using lay q pq o5 r2 by (auto simp: t6_def workspace_wrap_layout_def)
    moreover have "nodes t7 = nodes t6"
      by (simp add: t7_def place_new_leaf_in_focus_order_def Let_def split: option.split)
    moreover have "nodes t9 = nodes t7" by (simp add: t9_def t8_def)
    ultimately have "siblings t9 j ?i" using cong n5 s4 by metis
    then have "siblings (compact_tree t9) j ?i" by (rule compact_siblings [OF invD(1) [OF lawfulD(1) [OF L9]]])
    moreover have "nodes t11 = nodes (compact_tree t9)"
      using replace_fullscreen_nodes [OF lawfulD(1) [OF L10]] by (simp add: t11_def)
    ultimately have "siblings t11 j ?i" using cong by metis
    then show ?thesis unfolding eq fst_conv by (rule cong [rotated]) (simp add: calls_are_log)
  qed
qed

section \<open>Removing a leaf\<close>

lemma modes_ok_remove_node:
  assumes "modes_ok t" "contains_key t i"
  shows "modes_ok (fst (remove_node t i))"
  using assms(1)
  unfolding modes_ok_def fullscreen_mode_remove_node [OF assms(2)] remove_node_reads(10) [OF assms(2)]
    remove_node_structure(4) [OF assms(2)]
  by auto

text \<open>The state \<^verbatim>\<open>remove_tile_node\<close> hands to \<^verbatim>\<open>reap_empty_from\<close>.\<close>

definition without_leaf :: "tree \<Rightarrow> nid \<Rightarrow> nid \<Rightarrow> tile \<Rightarrow> tree" where
  "without_leaf t i p w =
     (let t1 = fst (remove_node t i);
          t2 = (if fullscreen_node t = Some i
                then t1\<lparr>mapped_under_fullscreen := {}, moved_under_fullscreen := (\<lambda>_. None)\<rparr> else t1)
      in remove_child ((log_call t2 (ClearTiledContentSize (window_id w)))\<lparr>interactive_resize_st := None\<rparr>) p i)"

lemma remove_child_nodes:
  assumes "nodes u = nodes t"
  shows "nodes (remove_child u p c) = nodes (remove_child t p c)"
  using assms same_nodes_reads(3) [OF assms]
  by (auto simp: remove_child_def set_value_def panic_def simp del: position_None
      split: option.split prod.split)

lemma without_leaf_props:
  assumes W: "wft {} {} t" and i: "tile_at t i = Some w" and p: "parent_of t i = Some p"
  shows "wft {} {p} (without_leaf t i p w)"
    "contains_key (without_leaf t i p w) = (contains_key t)(i := False)"
    "parent_of (without_leaf t i p w) = (parent_of t)(i := None)"
    "tile_at (without_leaf t i p w) = (tile_at t)(i := None)"
    "focus (without_leaf t i p w) = focus t" "tree_root (without_leaf t i p w) = tree_root t"
    "next_id (without_leaf t i p w) = next_id t"
proof -
  have F: "forest {} {} t" using W by (rule wfD)
  have iK: "contains_key t i" using i by (rule tile_at_contains)
  let ?v = "without_leaf t i p w" and ?r = "fst (remove_node t i)"
  let ?u = "remove_child ?r p i"
  have "\<forall>cs. children_of t i = Some cs \<longrightarrow> cs = []" using leaf_not_split [OF i] by (simp add: children_of_def)
  note dc = delete_child_forest [OF F p this]
  define s where "s = (log_call (if fullscreen_node t = Some i
      then ?r\<lparr>mapped_under_fullscreen := {}, moved_under_fullscreen := (\<lambda>_. None)\<rparr> else ?r)
        (ClearTiledContentSize (window_id w)))\<lparr>interactive_resize_st := None\<rparr>"
  have v: "?v = remove_child s p i" by (simp add: without_leaf_def Let_def s_def)
  have ns: "nodes s = nodes ?r" by (simp add: s_def)
  have nv: "nodes ?v = nodes ?u" unfolding v by (rule remove_child_nodes [OF ns])
  note rd = same_nodes_reads [OF nv]
  have fr: "tree_root s = tree_root t" "focus s = focus t" "next_id s = next_id t"
    by (simp_all add: s_def remove_node_reads [OF iK])
  have sv: "strip ?v = strip s" by (simp add: v)
  note sf = strip_fieldsD [OF sv]
  show "contains_key ?v = (contains_key t)(i := False)" "parent_of ?v = (parent_of t)(i := None)"
    "tile_at ?v = (tile_at t)(i := None)" using rd dc(2-4) by simp_all
  show "focus ?v = focus t" "tree_root ?v = tree_root t" using sf(1,2) fr by simp_all
  have rest: "next_id (remove_child q p i) = next_id q" for q
    by (auto simp: remove_child_def panic_def split: option.split prod.split)
  show nx: "next_id ?v = next_id t" by (simp add: v rest fr)
  have pv: "panicked ?v = panicked ?u"
  proof -
    have "panicked (remove_child q p i) \<longleftrightarrow> panicked q \<or>
        (\<exists>l cs ps m k. get_split q p = Some (l, cs, ps, m) \<and> position i cs = Some k \<and> \<not> k < length ps)" for q
      by (auto simp: remove_child_def panic_def simp del: position_None split: option.split prod.split)
    moreover have "panicked s = panicked ?r" by (simp add: s_def)
    ultimately show ?thesis unfolding v using same_nodes_reads(3) [OF ns] by simp
  qed
  have "forest {} {p} ?u" using dc(1) by simp
  then have Fv: "forest {} {p} ?v"
    using forest_cong [OF nv, of "{}" "{p}"] sf(1) fr dc(7,8) nx strip_fieldsD(1) [OF dc(7)]
      remove_node_reads(3) [OF iK] by simp
  have "side_ok ?r" using side_ok_remove_node wfD(2) [OF W] by blast
  moreover have kr: "contains_key ?v = contains_key ?r"
    using rd(1) dc(2) remove_node_structure(1) [OF iK] by simp
  ultimately have "side_ok ?v"
    unfolding side_ok_def kr sf by (simp add: s_def log_call_def)
  moreover have "modes_ok ?v"
  proof (rule modes_ok_cong [OF _ _ modes_ok_remove_node [OF wfD(3) [OF W] iK]])
    show "pending_modes ?v = pending_modes ?r" using sf(6) by (simp add: s_def)
    show "is_leaf ?v j" if "is_leaf ?r j" for j
      using that rd(4) dc(4) remove_node_structure(4) [OF iK] by (auto split: if_splits)
  qed
  ultimately show "wft {} {p} ?v" using Fv pv dc(5) wfD(4) [OF W] by (simp add: wft_def)
qed

text \<open>\<open>loses t i t'\<close>: a sound tree without the window of node \<open>i\<close>, every other window where it was.\<close>

definition loses :: "tree \<Rightarrow> nid \<Rightarrow> tree \<Rightarrow> bool" where
  "loses t i t' \<longleftrightarrow> inv t' \<and> tile_at t' = (tile_at t)(i := None) \<and> tree_root t' = tree_root t \<and>
     (depth_ok t \<longrightarrow> depth_ok t')"

lemma loses_lawful: "loses t i u \<Longrightarrow> lawful u v \<Longrightarrow> loses t i v"
  by (auto simp: loses_def lawful_def steady_def)

lemma without_leaf_depth:
  assumes W: "wft {} {} t" and i: "tile_at t i = Some w" and p: "parent_of t i = Some p" and ok: "depth_ok t"
  shows "depth_ok (reap_empty_from (without_leaf t i p w) p)"
proof -
  note wl = without_leaf_props [OF W i p]
  let ?v = "without_leaf t i p w"
  have s: "shrinks ?v (reap_empty_from ?v p)" using wl(1) by (rule reap_shrinks)
  have sc: "shortcuts t ?v" by (rule shortcuts_subset) (auto simp: wl(3) split: if_splits)
  have "shortcuts t (reap_empty_from ?v p)" "tree_root (reap_empty_from ?v p) = tree_root t"
    "contains_key (reap_empty_from ?v p) x \<Longrightarrow> contains_key t x" for x
    using s sc shortcuts_trans wl(2,6) by (auto simp: shrinks_def steady_def split: if_splits)
  note * = this
  show ?thesis
    unfolding depth_ok_def
    using shortcut_depth [OF wfD(1) [OF W] wfD(1) [OF shrinks_wf [OF s]] *(2,1,3)] *(3) ok
    by (meson depth_ok_def order_trans)
qed

theorem remove_tile_node_loses:
  assumes I: "inv t" and i: "tile_at t i = Some w"
  shows "loses t i (fst (remove_tile_node t i))" "snd (remove_tile_node t i) = Some w"
proof -
  have W: "wft {} {} t" using I by (rule invD)
  have F: "forest {} {} t" using I by (rule invD)
  have iK: "contains_key t i" using i by (rule tile_at_contains)
  have "i \<noteq> tree_root t" using forest_root [OF F] leaf_not_split [OF i] by (auto simp: is_split_def)
  then obtain p where p: "parent_of t i = Some p" using forest_top [OF F iK] by blast
  obtain n where n: "nodes t i = Some n" "parent n = Some p"
    using p by (auto simp: parent_of_def split: option.splits)
  let ?v = "without_leaf t i p w"
  define t4 where "t4 = reap_empty_from ?v p"
  define t5 where "t5 = (if windows t4 = []
       then (case layout_of t4 (tree_root t4) of
               None \<Rightarrow> panic t4
             | Some l \<Rightarrow> set_focus_id (t4\<lparr>empty_representation_layout := Some l, pending_modes := (\<lambda>_. None)\<rparr>) None)
       else if focus t4 = Some i
       then set_focus_id t4 (or_else (Option.bind (fullscreen_node t4) (focused_leaf_in t4)) (focused_leaf_in t4 (tree_root t4)))
       else t4)"
  have eq: "remove_tile_node t i = (animate_geometry_changes t5 None, Some w)"
  proof -
    have r: "remove_node t i = (fst (remove_node t i), Some n)"
      using n remove_node_reads(2) [OF iK] by (metis prod.collapse)
    have v: "without_leaf t i p w = remove_child ((log_call (if fullscreen_node t = Some i
          then (fst (remove_node t i))\<lparr>mapped_under_fullscreen := {}, moved_under_fullscreen := (\<lambda>_. None)\<rparr>
          else fst (remove_node t i)) (ClearTiledContentSize (window_id w)))\<lparr>interactive_resize_st := None\<rparr>) p i"
      by (simp only: without_leaf_def Let_def)
    show ?thesis
      unfolding remove_tile_node_def i option.case Let_def
      by (subst r) (simp only: prod.case bind.bind_lunit n(2) option.case v [symmetric] t4_def [symmetric]
          t5_def [symmetric])
  qed
  show "snd (remove_tile_node t i) = Some w" by (simp add: eq)
  note wl = without_leaf_props [OF W i p]
  have s4: "shrinks ?v t4" unfolding t4_def using wl(1) by (rule reap_shrinks)
  have W4: "wft {} {} t4" using s4 by (rule shrinks_wf)
  have st4: "tile_at t4 = (tile_at t)(i := None)" "tree_root t4 = tree_root t" "focus t4 = None \<longleftrightarrow> focus t = None"
    using s4 wl(4-6) by (auto simp: shrinks_def steady_def)
  have fi: "focus_in {i} t4"
    using s4 invD(2) [OF I] wl(2,5) by (auto simp: shrinks_def focus_in_def)
  have ft: "focus t \<noteq> None" using invD(3) [OF I] i by (auto simp: leaves_def)
  have d4: "depth_ok t \<longrightarrow> depth_ok t4" using without_leaf_depth [OF W i p] by (simp add: t4_def)
  obtain l cs ps m where r: "get_split t4 (tree_root t4) = Some (l, cs, ps, m)"
    using wfD(1) [OF W4] by (rule forest_root_split)
  have "inv t5 \<and> tile_at t5 = tile_at t4 \<and> tree_root t5 = tree_root t4 \<and> depth_ok t5 = depth_ok t4"
  proof (cases "windows t4 = []")
    case True
    let ?u = "t4\<lparr>empty_representation_layout := Some l, pending_modes := (\<lambda>_. None)\<rparr>"
    have le: "leaves t4 = {}" using True windows_empty_iff [OF wfD(1) [OF W4]] by simp
    have t5: "t5 = set_focus_id ?u None" using True r by (simp add: t5_def layout_of_def)
    note rd = same_nodes_reads [of ?u t4, simplified]
    have "side_ok ?u" using wfD(2) [OF W4] by (simp add: side_ok_def rd)
    moreover have "modes_ok ?u" by (simp add: modes_ok_def fullscreen_mode_def)
    ultimately have "wft {} {} ?u" by (intro wft_tables [OF W4]) simp_all
    then have "wft {} {} t5" unfolding t5 by (rule wf_set_focus_id) simp
    moreover have "depth_ok ?u = depth_ok t4" by (rule depth_ok_cong) (simp_all add: rd)
    moreover have "leaves t5 = {}" using le by (simp add: t5 rd)
    ultimately show ?thesis by (simp add: t5 inv_def focus_in_def rd)
  next
    case False
    have le: "leaves t4 \<noteq> {}" using False windows_empty_iff [OF wfD(1) [OF W4]] by simp
    show ?thesis
    proof (cases "focus t4 = Some i")
      case True
      let ?f = "or_else (Option.bind (fullscreen_node t4) (focused_leaf_in t4)) (focused_leaf_in t4 (tree_root t4))"
      have t5: "t5 = set_focus_id t4 ?f" using True False by (simp add: t5_def)
      have "focused_leaf_in t4 (tree_root t4) \<noteq> None" using focused_leaf_in_root [OF wfD(1) [OF W4]] le by simp
      then have "?f \<noteq> None" by (cases "Option.bind (fullscreen_node t4) (focused_leaf_in t4)") simp_all
      moreover have fK: "contains_key t4 x" if "?f = Some x" for x
        using that
      proof (rule or_else_SomeE)
        assume "Option.bind (fullscreen_node t4) (focused_leaf_in t4) = Some x"
        then show ?thesis
          using fullscreen_node_contains [OF W4] focused_leaf_in_props(3) [OF wfD(1) [OF W4]]
          by (auto split: Option.bind_splits)
      next
        assume "focused_leaf_in t4 (tree_root t4) = Some x"
        then show ?thesis using focused_leaf_in_props(3) [OF wfD(1) [OF W4] get_split_contains [OF r]] by blast
      qed
      ultimately show ?thesis
        using wf_set_focus_id [OF W4 fK] focus_in_set_focus_id [of ?f t4 "{}"] le
        by (auto simp: t5 inv_def)
    next
      case f: False
      then have "t5 = t4" using False by (simp add: t5_def)
      moreover have "focus_in {} t4" using fi f by (auto simp: focus_in_def)
      ultimately show ?thesis using W4 le st4(3) ft by (simp add: inv_def)
    qed
  qed
  then show "loses t i (fst (remove_tile_node t i))"
    using st4 d4 by (simp add: eq loses_def calls_are_log)
qed


lemma remove_tile_node_none: "tile_at t i = None \<Longrightarrow> remove_tile_node t i = (t, None)"
  by (simp add: remove_tile_node_def)

lemma loses_focus:
  assumes "loses t i t'" "is_leaf t j" "j \<noteq> i"
  shows "focus t' \<noteq> None"
  using assms invD(3) [of t'] by (auto simp: loses_def leaves_def fun_eq_iff)

text \<open>The three removals by window differ in the calls they make and in who is focused after.\<close>

lemma remove_tile_loses:
  assumes I: "inv t" and i: "node_for_window t w = Some i"
  obtains x where "tile_at t i = Some x" "window_id x = w" "loses t i (fst (remove_tile t w))"
    "snd (remove_tile t w) = Some x"
proof -
  obtain x where x: "tile_at t i = Some x" "window_id x = w"
    using node_for_window_Some [OF invD(4) [OF I] i] by metis
  note rt = remove_tile_node_loses [OF I x(1)]
  have "lawful (fst (remove_tile_node t i)) (request_window_sizes_with (fst (remove_tile_node t i)) True True)"
    unfolding calls_are_log by (intro lawful_log lawful_refl) (use rt(1) in \<open>simp add: loses_def\<close>)
  then have "loses t i (request_window_sizes_with (fst (remove_tile_node t i)) True True)"
    by (rule loses_lawful [OF rt(1)])
  then show ?thesis using that x i rt(2) by (simp add: remove_tile_def case_prod_beta)
qed

lemma remove_tile_without_transaction_loses:
  assumes I: "inv t" and i: "node_for_window t w = Some i"
  shows "loses t i (fst (remove_tile_without_transaction t w))"
proof -
  obtain x where x: "tile_at t i = Some x" "window_id x = w"
    using node_for_window_Some [OF invD(4) [OF I] i] by metis
  note rt = remove_tile_node_loses [OF I x(1)]
  have "lawful (fst (remove_tile_node t i)) (request_window_sizes (fst (remove_tile_node t i)))"
    unfolding calls_are_log by (intro lawful_log lawful_refl) (use rt(1) in \<open>simp add: loses_def\<close>)
  then show ?thesis
    using loses_lawful [OF rt(1)] i rt(2) by (simp add: remove_tile_without_transaction_def case_prod_beta)
qed

lemma remove_tile_for_transfer_loses:
  assumes I: "inv t" and i: "node_for_window t w = Some i"
  shows "loses t i (fst (remove_tile_for_transfer t w))"
proof -
  obtain x where rt: "loses t i (fst (remove_tile t w))" "snd (remove_tile t w) = Some x"
    using remove_tile_loses [OF I i] by metis
  have I': "inv (fst (remove_tile t w))" using rt(1) by (simp add: loses_def)
  have "loses t i (fst (resolve_transfer_focus (fst (remove_tile t w)) y))"
    if "focus (fst (remove_tile t w)) \<noteq> None" for y
    using loses_lawful [OF rt(1) resolve_transfer_focus_lawful [OF I' that]] .
  then show ?thesis using rt i by (simp add: remove_tile_for_transfer_def Let_def case_prod_beta)
qed

lemma remove_tile_absent:
  assumes "node_for_window t w = None"
  shows "remove_tile t w = (t, None)" "remove_tile_for_transfer t w = (t, None)"
    "remove_tile_without_transaction t w = (t, None)"
  using assms
  by (simp_all add: remove_tile_def remove_tile_for_transfer_def remove_tile_without_transaction_def)

section \<open>Adding under a given parent\<close>

lemma insert_child_ignores_parent:
  assumes p: "get_split t p = Some (l, cs, ps, m)" and F: "forest {} {} t"
  shows "insert_child (fst (alloc t \<lparr>parent = q, node_value = Leaf w\<rparr>)) p (next_id t) after = add_leaf t w p after"
proof -
  let ?a = "\<lambda>q. fst (alloc t \<lparr>parent = q, node_value = Leaf w\<rparr>)"
  have ne: "p \<noteq> next_id t" using get_split_contains [OF p] forest_bound [OF F] by auto
  have s: "get_split (?a q) p = Some (l, cs, ps, m)" for q using p ne by (simp add: alloc_reads)
  have k: "contains_key (?a q) (next_id t)" for q by (simp add: alloc_reads)
  have len: "length ps = length cs" by (rule forest_splitD(3) [OF F p])
  have "insert_child (?a q) p (next_id t) after = insert_child (?a None) p (next_id t) after"
    unfolding insert_child_eq [OF s] insert_child_at_eq [OF s k len]
    using ne by (simp add: set_parent_def set_value_def alloc_def)
  then show ?thesis by (simp add: add_leaf_def)
qed

theorem add_tile_to_existing_parent_gains:
  assumes I: "inv t" and p: "is_split t p" and a: "a \<or> focus t \<noteq> None"
  shows "gains t (next_id t) w (fst (add_tile_to_existing_parent t w p a))"
proof -
  define t1 where "t1 = log_call (t\<lparr>interactive_resize_st := None\<rparr>) (UpdateConfig (window_id w))"
  have L1: "lawful t t1"
    unfolding t1_def by (intro lawful_log lawful_same_core [OF I]) simp
  note I1 = lawfulD(1) [OF L1]
  have nx: "next_id t1 = next_id t" "nodes t1 = nodes t" "focus t1 = focus t" by (simp_all add: t1_def)
  obtain l cs ps m where sp: "get_split t1 p = Some (l, cs, ps, m)"
    using p same_nodes_reads(3) [OF nx(2)] by (auto simp: is_split_def)
  let ?t3 = "add_leaf t1 w p None"
  note al = add_leaf_props [OF invD(1) [OF I1] sp, of w None, unfolded nx]
  note sf = strip_fieldsD [OF al(5)]
  have fi: "focus_in {} ?t3" using invD(2) [OF I1] sf(2) al(2) by (auto simp: focus_in_def)
  have ne: "leaves ?t3 \<noteq> {}" using al(4) by (auto simp: leaves_def)
  let ?t4 = "if a then set_focus_id ?t3 (Some (next_id t)) else ?t3"
  have "inv ?t4"
    using wf_set_focus_id [OF al(1), of "Some (next_id t)"] al(1,2) fi ne sf(2) nx(3) a
    by (auto simp: inv_def focus_in_def)
  moreover have "depth_ok t \<longrightarrow> depth_ok ?t4"
    using add_leaf_depth [OF invD(1) [OF I1] sp, of w None] lawfulD(3) [OF L1] by simp
  moreover have "tile_at t1 = tile_at t" "tree_root t1 = tree_root t"
    using L1 by (simp_all add: lawful_def steady_def)
  ultimately have "gains t (next_id t) w ?t4"
    using al(4) sf(1,2) nx(3) a by (auto simp: gains_def)
  moreover have "fst (add_tile_to_existing_parent t w p a) =
      request_window_sizes (animate_geometry_changes ?t4 (Some (next_id t)))"
  proof -
    have "insert_child (fst (alloc t1 \<lparr>parent = Some p, node_value = Leaf w\<rparr>)) p (next_id t) None = ?t3"
      using insert_child_ignores_parent [OF sp invD(4) [OF I1]] nx by simp
    then show ?thesis
      unfolding add_tile_to_existing_parent_def Let_def t1_def [symmetric] case_prod_beta alloc_reads(1) nx by simp
  qed
  ultimately show ?thesis
    using \<open>inv ?t4\<close> gains_lawful lawful_log [OF lawful_log [OF lawful_refl]]
    by (simp add: calls_are_log)
qed

section \<open>Dropping a window on an edge\<close>

lemma vec_swap_props:
  assumes "a < length xs" "b < length xs"
  shows "length (vec_swap a b xs) = length xs" "set (vec_swap a b xs) = set xs"
    "distinct (vec_swap a b xs) = distinct xs"
  using assms by (simp_all add: vec_swap_def set_swap distinct_swap)

lemma shares_swap:
  assumes "shares ps" "a < length ps" "b < length ps"
  shows "shares (vec_swap a b ps)"
proof -
  have "sum_list (vec_swap a b ps) = sum_list ps"
    using assms(2,3) sum_list_update_real [of a ps "ps ! b"] sum_list_update_real [of b "ps[a := ps ! b]" "ps ! a"]
    by (auto simp: vec_swap_def nth_list_update)
  moreover have "vec_swap a b ps = [] \<longleftrightarrow> ps = []" by (simp add: vec_swap_def)
  ultimately show ?thesis using assms vec_swap_props(2) [OF assms(2,3)] by (simp add: shares_def)
qed

lemma options_wrap_node:
  assumes W: "wft {} {} t"
  shows "options_of (fst (wrap_node t i l)) = options_of t"
  using W
proof (cases rule: wrap_node_cases [where i = i and l = l])
  case (wrapped p lp cs ps m k u)
  note sf = strip_fieldsD [OF wrapped_structure(6) [OF wfD(1) [OF W] wrapped(2-5), of l, folded wrapped(6)]]
  have "options_of (pass_fullscreen v i q) = options_of v" for v q
    by (auto simp: pass_fullscreen_def set_pending_fullscreen_def clear_fullscreen_mode_def split: option.split)
  then show ?thesis using sf(15) by (simp add: wrapped(7) raise_split_wrapper_def Let_def)
qed simp

lemma options_wrap_root:
  assumes W: "wft {} {} t" and r: "get_split t (tree_root t) = Some (lr, cs, ps, m)" and ne: "cs \<noteq> []"
  shows "options_of (fst (wrap_root_children t l)) = options_of t"
proof (cases "can_wrap_root_children t")
  case True
  show ?thesis
    using arg_cong [OF wrap_root_structure(7) [OF wfD(1) [OF W] r ne True, of l], of options_of]
    by (simp add: strip_def root_wrapped_def)
qed (use r in \<open>simp add: wrap_root_children_def\<close>)

lemma options_set_split_layout: "options_of (set_split_layout t j l) = options_of t"
  by (simp add: set_split_layout_def set_value_def split: option.split prod.split)

lemma options_split:
  assumes I: "inv t"
  shows "options_of (split t i l) = options_of t"
proof -
  define u where "u = t\<lparr>interactive_resize_st := None, fullscreen_tile_slot := False\<rparr>"
  have W: "wft {} {} u" using invD(1) [OF I] same_core_wft [OF same_core_settle] by (simp add: u_def)
  have o: "options_of u = options_of t" by (simp add: u_def)
  note [simp] = options_wrap_node [OF W] options_set_split_layout
  show ?thesis
  proof (cases "i = tree_root u \<and> (case split_len u i of Some len \<Rightarrow> len > 0 | None \<Rightarrow> False)")
    case True
    then obtain lr cs ps m where r: "get_split u (tree_root u) = Some (lr, cs, ps, m)" and ne: "cs \<noteq> []"
      by (auto simp: split_len_def children_of_def split: option.splits)
    show ?thesis
      unfolding split_def u_def [symmetric] Let_def if_P [OF True]
      using o by (simp add: options_wrap_root [OF W r ne] case_prod_beta calls_are_log log_call_def split: option.split)
  next
    case False
    show ?thesis
      unfolding split_def u_def [symmetric] Let_def if_not_P [OF False]
      using o by (simp add: split_leaf_def split_container_def Let_def calls_are_log log_call_def split: option.split)
  qed
qed

text \<open>
  The drop keeps the invariant when new windows of this workspace are not wrapped
  (\<^verbatim>\<open>workspace_layout default\<close>) or no reordering is asked for.
\<close>

lemma swap_siblings_lawful:
  assumes I: "inv t" and s: "siblings t i j"
  obtains q lq cs ps m a b where "parent_of t j = Some q" "child_index t q i = Some a" "child_index t q j = Some b"
    "get_split t q = Some (lq, cs, ps, m)" "a < length ps" "b < length ps"
    "lawful t (set_value t q (Split lq (vec_swap a b cs) (vec_swap a b ps) m))"
proof -
  obtain q where q: "parent_of t i = Some q" "parent_of t j = Some q" using s by (auto simp: siblings_def)
  have F: "forest {} {} t" using I by (rule invD)
  obtain lq cs ps m where sp: "get_split t q = Some (lq, cs, ps, m)" using F q(1) by (rule forest_parentD)
  obtain a where a: "a < length cs" "position i cs = Some a" using remove_child_eq [OF F q(1) sp] by metis
  obtain b where b: "b < length cs" "position j cs = Some b" using remove_child_eq [OF F q(2) sp] by metis
  note d = forest_splitD [OF F sp]
  have "lawful t (set_value t q (Split lq (vec_swap a b cs) (vec_swap a b ps) m))"
    by (rule lawful_shrinks [OF I relabel_shrinks [OF invD(1) [OF I] sp]])
      (use a b d vec_swap_props [of a cs b] vec_swap_props [of a ps b] shares_swap [of ps a b] in simp_all)
  then show ?thesis
    using that [OF q(2) _ _ sp, of a b] a b d(3) sp by (simp add: child_index_def children_of_def)
qed

theorem add_tile_at_drop_gains:
  assumes I: "inv t" and j: "is_leaf t j"
    and ok: "\<not> intersects ed {LEFT, TOP} \<or> opt_workspace_layout (options_of t) = WlDefault"
  shows "\<exists>i. \<not> contains_key t i \<and> snd (add_tile_at_drop t w j ed a) = i \<and>
    gains t i w (fst (add_tile_at_drop t w j ed a))"
proof -
  let ?l = "if intersects ed {LEFT, RIGHT} then SplitH else SplitV"
  obtain p where p: "parent_or_root t j = Some p"
    using j tile_at_contains by (fastforce simp: parent_or_root_def contains_key_def)
  define t1 where "t1 = (if layout_of t p = Some ?l then t else split t j ?l)"
  have L1: "lawful t t1" using lawful_refl [OF I] split_lawful [OF I] by (simp add: t1_def)
  have o1: "options_of t1 = options_of t" using options_split [OF I] by (simp add: t1_def)
  note I1 = lawfulD(1) [OF L1]
  have j1: "is_leaf t1 j" using L1 j by (simp add: lawful_def steady_def)
  let ?i = "next_id t1"
  note ag = add_tile_gains [OF I1, where w = w and target = "TNode j" and a = a]
  let ?t2 = "fst (add_tile_with_activation t1 w (TNode j) a)"
  have G: "gains t ?i w ?t2" using lawful_gains [OF L1 ag(1)] .
  have iK: "\<not> contains_key t ?i"
    using forest_bound [OF invD(4) [OF I], of ?i] steadyD(5) [OF lawfulD(2) [OF L1]] by auto
  show ?thesis
  proof (cases "intersects ed {LEFT, TOP}")
    case False
    then have "add_tile_at_drop t w j ed a = (?t2, ?i)"
      unfolding add_tile_at_drop_def Let_def p option.case t1_def [symmetric] case_prod_beta ag(2) by simp
    then show ?thesis using G iK by simp
  next
    case True
    then have sib: "siblings ?t2 j ?i" using ag(3) [OF refl j1] ok o1 by simp
    have Iv: "inv ?t2" using G by (simp add: gains_def)
    obtain q lq cs ps m x y where q: "parent_of ?t2 ?i = Some q" "child_index ?t2 q j = Some x"
      "child_index ?t2 q ?i = Some y" "get_split ?t2 q = Some (lq, cs, ps, m)" "x < length ps" "y < length ps"
      "lawful ?t2 (set_value ?t2 q (Split lq (vec_swap x y cs) (vec_swap x y ps) m))"
      by (rule swap_siblings_lawful [OF Iv sib])
    have "add_tile_at_drop t w j ed a = (set_value ?t2 q (Split lq (vec_swap x y cs) (vec_swap x y ps) m), ?i)"
      unfolding add_tile_at_drop_def Let_def p option.case t1_def [symmetric] case_prod_beta ag(2)
      using True q by simp
    then show ?thesis using gains_lawful [OF G q(7)] iK by simp
  qed
qed

lemma add_tile_at_drop_absent:
  "\<not> contains_key t j \<Longrightarrow> add_tile_at_drop t w j ed a = add_tile_with_activation t w Focused a"
  by (simp add: add_tile_at_drop_def parent_or_root_def contains_key_def Let_def)

end
