(* ===== verification/Movement.thy ===== *)
theory Movement
  imports Mutation
begin

text \<open>
  Moving and swapping nodes (\<^verbatim>\<open>src/layout/tiling_tree/movement.rs\<close>), with the focus-history insertion
  of \<^verbatim>\<open>transfer.rs\<close> they use. \<^verbatim>\<open>Result<(), &str>\<close> is a sum with the message on the left. Walks to the
  root and descents into a destination carry the walk budget.
\<close>

section \<open>Swapping\<close>

datatype swap_error = NoMatchingNode | SwapWithItself | SwapAncestor | TooDeep | NotContainers

definition check_swappable :: "tree \<Rightarrow> nid \<Rightarrow> nid \<Rightarrow> swap_error + unit" where
  "check_swappable t a b =
     (if \<not> contains_key t a \<or> \<not> contains_key t b then Inl NoMatchingNode
      else if a = b then Inl SwapWithItself
      else if contains_node t a b \<or> contains_node t b a then Inl SwapAncestor
      else if \<not> fits_at t a (subtree_height t b) \<or> \<not> fits_at t b (subtree_height t a) then Inl TooDeep
      else Inr ())"

definition parent_is_tabbed :: "tree \<Rightarrow> nid \<Rightarrow> bool" where
  "parent_is_tabbed t p = (case layout_of t p of Some l \<Rightarrow> strip_layout l | None \<Rightarrow> False)"

definition focus_after_swap :: "tree \<Rightarrow> nid \<Rightarrow> nid \<Rightarrow> nid \<Rightarrow> nid \<Rightarrow> nid option" where
  "focus_after_swap t a pa b pb =
     (if focus t = Some a \<and> parent_is_tabbed t pb then Some b
      else if focus t = Some b \<and> parent_is_tabbed t pa then Some a
      else focus t)"

definition replace_child :: "tree \<Rightarrow> nid \<Rightarrow> nat \<Rightarrow> nid \<Rightarrow> tree" where
  "replace_child t p index c = (case get_split t p of
      Some (l, cs, ps, m) \<Rightarrow>
        (if index < length cs then set_value t p (Split l (cs[index := c]) ps m) else t)
    | None \<Rightarrow> t)"

definition swap_fullscreen_modes :: "tree \<Rightarrow> nid \<Rightarrow> nid \<Rightarrow> tree" where
  "swap_fullscreen_modes t a b =
     (let fa = fullscreen_mode t a; fb = fullscreen_mode t b
      in set_pending_fullscreen (set_pending_fullscreen t a fb) b fa)"

definition swap_nodes :: "tree \<Rightarrow> nid \<Rightarrow> nid \<Rightarrow> tree \<times> (swap_error + unit)" where
  "swap_nodes t a b = (case check_swappable t a b of
      Inl e \<Rightarrow> (t, Inl e)
    | Inr _ \<Rightarrow> (case (parent_of t a, parent_of t b) of
        (Some pa, Some pb) \<Rightarrow> (case (child_index t pa a, child_index t pb b) of
            (Some ia, Some ib) \<Rightarrow>
              (let f = focus_after_swap t a pa b pb;
                   t1 = replace_child t pa ia b;
                   t2 = replace_child t1 pb ib a;
                   t3 = set_parent (set_parent t2 a (Some pb)) b (Some pa);
                   t4 = swap_fullscreen_modes t3 a b;
                   t5 = (if focus t4 \<noteq> f then set_focus_id t4 f else t4)
               in (request_window_sizes (animate_geometry_changes t5 None), Inr ()))
          | _ \<Rightarrow> (t, Inl NoMatchingNode))
      | _ \<Rightarrow> (t, Inl NotContainers)))"

section \<open>Moving a subtree to a node\<close>

definition reinsert_focus_history :: "tree \<Rightarrow> wid list \<Rightarrow> nat \<Rightarrow> tree" where
  "reinsert_focus_history t ws rank =
     fold (\<lambda>w t. case node_for_window t w of
              None \<Rightarrow> t
            | Some i \<Rightarrow> (let h = retain_ne i (focus_history t)
                        in t\<lparr>focus_history := insert_at (min rank (length h)) i h\<rparr>))
       (rev ws) t"

definition move_subtree_to_node :: "tree \<Rightarrow> nid \<Rightarrow> nid \<Rightarrow> tree \<times> bool" where
  "move_subtree_to_node t i destination =
     (if i = tree_root t \<or> i = destination \<or> \<not> contains_key t i \<or> \<not> contains_key t destination \<or>
         contains_node t i destination
      then (t, False)
      else
        (let moved = List.map_filter (\<lambda>l. map_option window_id (tile_at t l)) (leaf_ids_in t i);
             slot = (if tile_at t destination \<noteq> None
                     then map_option (\<lambda>p. (p, Some destination)) (parent_of t destination)
                     else Some (destination, None))
         in case slot of
              None \<Rightarrow> (t, False)
            | Some (p, after) \<Rightarrow>
                (if \<not> fits_below t p (subtree_height t i) then (t, False)
                 else if parent_of t i = Some p \<and>
                      child_index t p i = map_option Suc (Option.bind after (child_index t p)) \<and>
                      (case focus t of Some f \<Rightarrow> contains_node t i f | None \<Rightarrow> False)
                 then (t, True)
                 else (let (t1, old) = detach_subtree_only t i in
                       case old of
                         None \<Rightarrow> (t1, False)
                       | Some old_parent \<Rightarrow>
                           (let t2 = insert_child t1 p i after;
                                t3 = reap_empty_from t2 old_parent;
                                t4 = compact_tree t3;
                                t5 = reinsert_focus_history t4 moved (if focus t4 \<noteq> None then 1 else 0)
                            in (request_window_sizes (animate_geometry_changes t5 None), True))))))"

section \<open>Directional moves\<close>

definition finish_directional_move :: "tree \<Rightarrow> nid \<Rightarrow> tree" where
  "finish_directional_move t i =
     (if focus t = Some i then request_window_sizes (t\<lparr>ipc_focus_follows_history := False\<rparr>)
      else request_window_sizes (set_focus_id t (or_else (first_leaf_in t i) (focus t))))"

definition move_subtree_to_index_inner :: "tree \<Rightarrow> nid \<Rightarrow> nat \<Rightarrow> tree \<times> bool" where
  "move_subtree_to_index_inner t0 i index =
     (let t = t0\<lparr>interactive_resize_st := None\<rparr> in
      case parent_of t i of
        None \<Rightarrow> (t, False)
      | Some p \<Rightarrow> (case get_split t p of
          None \<Rightarrow> (t, False)
        | Some (l, cs, ps, m) \<Rightarrow> (case position i cs of
            None \<Rightarrow> (t, False)
          | Some old_index \<Rightarrow>
              (let new_index = min index (length cs - 1) in
               if old_index = new_index then (t, False)
               else if old_index < length ps
               then (finish_directional_move (set_value t p (Split l
                       (insert_at new_index i (remove_at old_index cs))
                       (insert_at new_index (ps ! old_index) (remove_at old_index ps)) m)) i, True)
               else (panic t, False)))))"

definition move_subtree_to_index :: "tree \<Rightarrow> nid \<Rightarrow> nat \<Rightarrow> tree \<times> bool" where
  "move_subtree_to_index t i index =
     (let (t', changed) = move_subtree_to_index_inner t i index
      in (if changed then animate_geometry_changes t' None else t', changed))"

text \<open>\<^verbatim>\<open>usize::MAX\<close> as an index means the last place; any index at least the number of nodes does.\<close>

definition move_subtree_to_first :: "tree \<Rightarrow> nid \<Rightarrow> tree \<times> bool" where
  "move_subtree_to_first t i = move_subtree_to_index t i 0"

definition move_subtree_to_last :: "tree \<Rightarrow> nid \<Rightarrow> tree \<times> bool" where
  "move_subtree_to_last t i = move_subtree_to_index t i (2 ^ 64 - 1)"

fun move_into_loop :: "nat \<Rightarrow> tree \<Rightarrow> nid \<Rightarrow> nid \<Rightarrow> direction \<Rightarrow> tree \<times> bool" where
  "move_into_loop 0 t i destination d = (panic t, False)"
| "move_into_loop (Suc k) t i destination d =
     (let finish = (\<lambda>t'. (finish_directional_move (squash_for_move t' None) i, True)) in
      case value_of t destination of
        None \<Rightarrow> (t, False)
      | Some (Leaf _) \<Rightarrow> (case parent_of t destination of
          None \<Rightarrow> (t, False)
        | Some p \<Rightarrow> (case child_index t p destination of
            None \<Rightarrow> (t, False)
          | Some index \<Rightarrow>
              (let (t1, old) = detach_subtree_only t i in
               case old of
                 None \<Rightarrow> (t1, False)
               | Some old_parent \<Rightarrow>
                   finish (reap_empty_from
                     (insert_child_at t1 p i (index + (if is_backwards d then 1 else 0))) old_parent))))
      | Some (Split l cs ps m) \<Rightarrow>
          (if layouts_parallel l (axis d)
           then if cs = [] then (t, False)
                else (let (t1, old) = detach_subtree_only t i in
                      case old of
                        None \<Rightarrow> (t1, False)
                      | Some old_parent \<Rightarrow>
                          finish (reap_empty_from
                            (insert_child_at t1 destination i (if is_backwards d then length cs else 0))
                            old_parent))
           else case focused_child_in t destination of
                  None \<Rightarrow> (t, False)
                | Some c \<Rightarrow> move_into_loop k t i c d))"

definition move_into_directional_destination :: "tree \<Rightarrow> nid \<Rightarrow> nid \<Rightarrow> direction \<Rightarrow> tree \<times> bool" where
  "move_into_directional_destination t i destination d = move_into_loop (walk_fuel t) t i destination d"

definition promote_to_boundary :: "tree \<Rightarrow> nid \<Rightarrow> nid \<Rightarrow> bool \<Rightarrow> layout \<Rightarrow> tree \<times> bool" where
  "promote_to_boundary t i boundary_root backwards wanted = (case get_split t boundary_root of
      None \<Rightarrow> (t, False)
    | Some (l, cs, ps, m) \<Rightarrow>
        (if cs = [] then (if backwards then (t, False) else (panic t, False))
         else
          (let boundary = (if backwards then hd cs else last cs);
               insert_index = (if backwards then 0 else length cs);
               old_share = (case parent_of t i of
                   None \<Rightarrow> None
                 | Some op \<Rightarrow> (case get_split t op of
                     Some (lo, cso, pso, mo) \<Rightarrow>
                       (if lo = wanted then Option.bind (position i cso) (vec_get pso) else None)
                   | None \<Rightarrow> None));
               (t1, old) = detach_subtree_only t i
           in case old of
                None \<Rightarrow> (t1, False)
              | Some old_parent \<Rightarrow>
                  (let t2 = insert_existing_child t1 boundary_root i insert_index boundary;
                       t3 = (case old_share of
                               Some share \<Rightarrow>
                                 share_as_fresh (set_child_percent t2 boundary_root i share) boundary_root [boundary]
                             | None \<Rightarrow> share_as_fresh t2 boundary_root [i, boundary]);
                       t4 = reap_empty_from t3 old_parent;
                       t5 = compact_tree t4
                   in (finish_directional_move t5 i, True)))))"

fun expect_set_parents :: "nid list \<Rightarrow> nid \<Rightarrow> tree \<Rightarrow> tree" where
  "expect_set_parents [] p t = t"
| "expect_set_parents (c # cs) p t = expect_set_parents cs p (expect_set_parent t c (Some p))"

definition wrap_root_for_direction :: "tree \<Rightarrow> nid \<Rightarrow> direction \<Rightarrow> tree" where
  "wrap_root_for_direction t i d =
     (let l = axis d; r = tree_root t in
      case get_split t r of
        None \<Rightarrow> panic t
      | Some (lr, cs, ps, root_meta) \<Rightarrow>
          (let t0 = set_value t r (Split l [] [] split_meta_default);
               (t1, w) = alloc t0 \<lparr>parent = Some r, node_value = Split lr cs ps split_meta_default\<rparr>;
               t2 = t1\<lparr>ipc_stale_nodes := insert w (ipc_stale_nodes t1)\<rparr>;
               t3 = expect_set_parents cs w t2;
               t4 = expect_set_parent t3 w (Some r);
               t5 = expect_set_parent t4 i (Some r)
           in set_value t5 r (Split l (if is_backwards d then [i, w] else [w, i]) [1 / 2, 1 / 2] root_meta)))"

definition promote_by_wrapping_root :: "tree \<Rightarrow> nid \<Rightarrow> direction \<Rightarrow> tree \<times> bool" where
  "promote_by_wrapping_root t i d =
     (let (t1, old) = detach_subtree_only t i in
      case old of
        None \<Rightarrow> (t1, False)
      | Some old_parent \<Rightarrow>
          (let t2 = wrap_root_for_direction t1 i d;
               t3 = reap_empty_from t2 old_parent;
               t4 = squash_for_move t3 (Some i)
           in (finish_directional_move t4 i, True)))"

fun walk_unparallel_loop :: "nat \<Rightarrow> tree \<Rightarrow> nid \<Rightarrow> layout \<Rightarrow> nid \<Rightarrow> bool" where
  "walk_unparallel_loop 0 t i wanted current = False"
| "walk_unparallel_loop (Suc k) t i wanted current = (case parent_of t current of
      None \<Rightarrow> current = tree_root t \<and>
        \<not> (case layout_of t (tree_root t) of Some l \<Rightarrow> layouts_parallel l wanted | None \<Rightarrow> False)
    | Some p \<Rightarrow> (case layout_of t p of
        None \<Rightarrow> False
      | Some l \<Rightarrow> (if layouts_parallel l wanted \<and> current \<noteq> i then False
                  else walk_unparallel_loop k t i wanted p)))"

definition walk_reaches_unparallel_root :: "tree \<Rightarrow> nid \<Rightarrow> layout \<Rightarrow> bool" where
  "walk_reaches_unparallel_root t i wanted = walk_unparallel_loop (walk_fuel t) t i wanted i"

fun promotion_ancestor :: "nat \<Rightarrow> tree \<Rightarrow> nid \<Rightarrow> layout \<Rightarrow> nid \<Rightarrow> nid option" where
  "promotion_ancestor 0 t leaf wanted current = None"
| "promotion_ancestor (Suc k) t leaf wanted current = (case parent_of t current of
      None \<Rightarrow> None
    | Some p \<Rightarrow> (case layout_of t p of
        None \<Rightarrow> None
      | Some l \<Rightarrow>
          (if \<not> layouts_parallel l wanted \<or> current = leaf
           then if p = tree_root t then None else promotion_ancestor k t leaf wanted p
           else Some current)))"

definition first_window_leaf :: "tree \<Rightarrow> nid option" where
  "first_window_leaf t = map_option fst (vec_get (windows t) 0)"

definition move_only_window :: "tree \<Rightarrow> nid \<Rightarrow> direction \<Rightarrow> layout \<Rightarrow> tree" where
  "move_only_window t i0 d wanted =
     (if walk_reaches_unparallel_root t i0 wanted
      then (let t1 = set_layout t (tree_root t) wanted in
            case (if contains_key t1 i0 then Some i0 else first_window_leaf t1) of
              None \<Rightarrow> t1
            | Some i \<Rightarrow> (case parent_of t1 i of
                None \<Rightarrow> t1
              | Some p \<Rightarrow>
                  (if p = tree_root t1 then t1
                   else let t2 = fst (detach_subtree_only t1 i);
                            t3 = insert_child_at t2 (tree_root t2) i 0;
                            t4 = reap_empty_from t3 p
                        in finish_directional_move t4 i)))
      else case first_window_leaf t of
        None \<Rightarrow> t
      | Some leaf \<Rightarrow> (case parent_of t leaf of
          None \<Rightarrow> t
        | Some old_parent \<Rightarrow>
            (if old_parent = tree_root t then t
             else case promotion_ancestor (walk_fuel t) t leaf wanted leaf of
               None \<Rightarrow> t
             | Some ancestor \<Rightarrow>
                 (if old_parent \<noteq> tree_root t \<and> parent_of t old_parent = Some (tree_root t) \<and>
                     split_len t old_parent = Some 1
                  then t
                  else case parent_of t ancestor of
                    None \<Rightarrow> t
                  | Some destination \<Rightarrow> (case child_index t destination ancestor of
                      None \<Rightarrow> t
                    | Some index \<Rightarrow>
                        (let forwards = (d = DRight \<or> d = DDown);
                             t1 = fst (detach_subtree_only t leaf);
                             t2 = insert_child_at t1 destination leaf (index + (if forwards then 1 else 0));
                             t3 = reap_empty_from t2 old_parent;
                             t4 = compact_tree t3
                         in finish_directional_move t4 leaf))))))"

fun move_walk :: "nat \<Rightarrow> tree \<Rightarrow> nid \<Rightarrow> direction \<Rightarrow> nid \<Rightarrow> nid \<Rightarrow> nid option \<Rightarrow> tree \<times> bool" where
  "move_walk 0 t i d boundary_root branch p = (panic t, False)"
| "move_walk (Suc k) t i d boundary_root branch p = (case p of
      None \<Rightarrow> (if boundary_root \<noteq> tree_root t \<or> \<not> can_wrap_root_children t then (t, False)
               else promote_by_wrapping_root t i d)
    | Some parent_id \<Rightarrow> (case get_split t parent_id of
        None \<Rightarrow> (t, False)
      | Some (l, cs, ps, m) \<Rightarrow>
          (let on = (if parent_id = boundary_root \<and> boundary_root \<noteq> tree_root t then (t, False)
                     else move_walk k t i d boundary_root parent_id (parent_of t parent_id))
           in if layouts_parallel l (axis d)
              then case position branch cs of
                None \<Rightarrow> (t, False)
              | Some index \<Rightarrow> (case step_child (\<not> is_backwards d) cs index of
                  Some destination \<Rightarrow>
                    (if branch = i \<and> tile_at t destination \<noteq> None
                     then move_subtree_to_index_inner t i (if is_backwards d then index - 1 else index + 1)
                     else move_into_directional_destination t i destination d)
                | None \<Rightarrow>
                    (if parent_id = boundary_root \<or> branch \<noteq> i
                     then (if branch = i then (t, False)
                           else if parent_id = tree_root t \<and> parent_of t i = Some branch \<and>
                                   split_len t branch = Some 1
                           then (t, False)
                           else promote_to_boundary t i parent_id (is_backwards d) (axis d))
                     else on))
              else on)))"

definition move_direction_inner :: "tree \<Rightarrow> nid \<Rightarrow> direction \<Rightarrow> tree \<times> bool" where
  "move_direction_inner t0 i d =
     (if \<not> contains_key t0 i \<or> i = tree_root t0 then (t0, False)
      else if (case fullscreen_node t0 of Some f \<Rightarrow> contains_node t0 f i | None \<Rightarrow> False) then (t0, False)
      else
        (let t = t0\<lparr>interactive_resize_st := None\<rparr>;
             wanted = axis d;
             boundary_root = unwrap_or (resident_root t) (tree_root t)
         in if length (windows t) < 2
            then (if boundary_root = tree_root t then move_only_window t i d wanted else t, False)
            else if split_len t (tree_root t) = Some 1 \<and> root_branch t i = Some i
            then (set_layout t (tree_root t) wanted, False)
            else move_walk (walk_fuel t) t i d boundary_root i (parent_of t i)))"

definition move_direction :: "tree \<Rightarrow> nid \<Rightarrow> direction \<Rightarrow> tree \<times> bool" where
  "move_direction t i d =
     (let (t', changed) = move_direction_inner t i d
      in (if changed then animate_geometry_changes (compact_tree t') None else t', changed))"

definition move_node_direction :: "tree \<Rightarrow> nid \<Rightarrow> direction \<Rightarrow> tree \<times> bool" where
  "move_node_direction t i d =
     (let f = focus t;
          history = window_focus_history t;
          moved_focus = (case f of Some x \<Rightarrow> contains_node t i x | None \<Rightarrow> False);
          containers_before = filter (is_split t) (focus_history t);
          (t1, changed) = move_direction t i d;
          t2 = (if changed
                then fold (\<lambda>n t. if contains_key t n \<and> n \<notin> set (focus_history t)
                                 then t\<lparr>focus_history := focus_history t @ [n]\<rparr> else t)
                       containers_before (restore_window_focus_history t1 history)
                else t1);
          t3 = (if \<not> moved_focus \<and> (case f of Some x \<Rightarrow> contains_key t2 x | None \<Rightarrow> False)
                then t2\<lparr>focus := f\<rparr> else t2)
      in (t3, changed))"

definition move_window_direction :: "tree \<Rightarrow> wid \<Rightarrow> direction \<Rightarrow> tree \<times> bool" where
  "move_window_direction t w d = (case node_for_window t w of
      None \<Rightarrow> (t, False) | Some i \<Rightarrow> move_node_direction t i d)"

definition move_focused :: "tree \<Rightarrow> direction \<Rightarrow> tree \<times> bool" where
  "move_focused t d = (case focus t of None \<Rightarrow> (t, False) | Some i \<Rightarrow> move_direction t i d)"

definition move_focused_to_index :: "tree \<Rightarrow> nat \<Rightarrow> tree \<times> bool" where
  "move_focused_to_index t index = (case Option.bind (focus t) (root_branch t) of
      None \<Rightarrow> (t, False) | Some i \<Rightarrow> move_subtree_to_index t i index)"

section \<open>Consuming and expelling\<close>

definition wrap_pair :: "tree \<Rightarrow> nid \<Rightarrow> nid \<Rightarrow> nid \<Rightarrow> bool \<Rightarrow> tree \<times> bool" where
  "wrap_pair t p sibling i right = (case Option.bind (child_index t p sibling)
        (\<lambda>index. Option.bind (percents_of t p) (\<lambda>ps. vec_get ps index)) of
      None \<Rightarrow> (t, False)
    | Some sibling_percent \<Rightarrow>
        (let (t1, w) = alloc t \<lparr>parent = Some p, node_value = Split SplitV
                (if right then [sibling, i] else [i, sibling]) [1 / 2, 1 / 2] split_meta_default\<rparr>;
             t2 = (case get_split t1 p of
                     Some (l, cs, ps, m) \<Rightarrow> (case position sibling cs of
                         Some index \<Rightarrow>
                           (if index < length ps
                            then set_value t1 p (Split l (cs[index := w]) (ps[index := sibling_percent]) m) else t1)
                       | None \<Rightarrow> t1)
                   | None \<Rightarrow> t1);
             t3 = expect_set_parent t2 sibling (Some w);
             t4 = expect_set_parent t3 i (Some w)
         in (t4, True)))"

definition consume :: "tree \<Rightarrow> nid \<Rightarrow> bool \<Rightarrow> tree \<times> bool" where
  "consume t i right = (case parent_of t i of
      None \<Rightarrow> (t, False)
    | Some p \<Rightarrow> (case child_index t p i of
        None \<Rightarrow> (t, False)
      | Some index \<Rightarrow> (case (if right then child_at t p (index + 1)
                           else if index = 0 then None else child_at t p (index - 1)) of
          None \<Rightarrow> (t, False)
        | Some sibling \<Rightarrow>
            (if \<not> can_wrap t i \<or> \<not> can_wrap t sibling then (t, False)
             else let t1 = t\<lparr>interactive_resize_st := None\<rparr>;
                      t2 = remove_child t1 p i;
                      (t3, done_it) = wrap_pair t2 p sibling i right
                  in if \<not> done_it then (t3, False)
                     else (request_window_sizes (animate_geometry_changes (compact_tree t3) None), True)))))"

definition expel :: "tree \<Rightarrow> nid \<Rightarrow> bool \<Rightarrow> tree \<times> bool" where
  "expel t0 i after = (case parent_of t0 i of
      None \<Rightarrow> (t0, False)
    | Some p \<Rightarrow> (case parent_of t0 p of
        None \<Rightarrow> (t0, False)
      | Some g \<Rightarrow>
          (let t = t0\<lparr>interactive_resize_st := None\<rparr> in
           case child_index t g p of
             None \<Rightarrow> (t, False)
           | Some parent_index \<Rightarrow>
               (let t1 = remove_child t p i;
                    t2 = insert_existing_child t1 g i (parent_index + (if after then 1 else 0)) p;
                    t3 = collapse_from t2 p;
                    t4 = compact_tree t3
                in (request_window_sizes (animate_geometry_changes t4 None), True)))))"

definition expel_or_consume :: "tree \<Rightarrow> wid option \<Rightarrow> bool \<Rightarrow> tree" where
  "expel_or_consume t w right =
     (case or_else (Option.bind w (node_for_window t)) (focus t) of
        None \<Rightarrow> t
      | Some i \<Rightarrow>
          (let t1 = set_focus_id t (Some i);
               (t2, expelled) = expel t1 i right
           in if expelled then t2 else fst (consume t2 i right)))"

definition consume_focused :: "tree \<Rightarrow> tree" where
  "consume_focused t = (case focus t of None \<Rightarrow> t | Some i \<Rightarrow> fst (consume t i True))"

definition expel_focused :: "tree \<Rightarrow> tree" where
  "expel_focused t = (case focus t of None \<Rightarrow> t | Some i \<Rightarrow> fst (expel t i True))"

end
