(* ===== verification/Movement_Laws.thy ===== *)
theory Movement_Laws
  imports Movement
begin

text \<open>
  Laws of moving and swapping: relocating a subtree keeps every window and the invariant; the
  operations that check the nesting bound keep it.
\<close>

section \<open>Relocating a subtree\<close>

text \<open>
  \<open>carries E t t'\<close>: windows, focus and root are as in \<open>t\<close> and the tree is sound but for emptied
  containers in \<open>E\<close>. \<open>sound\<close> is the same at rest; unlike \<open>lawful\<close> it makes no claim on depth.
\<close>

definition carries :: "nid set \<Rightarrow> tree \<Rightarrow> tree \<Rightarrow> bool" where
  "carries E t t' \<longleftrightarrow> wft {} E t' \<and> (\<forall>X. focus_in X t \<longrightarrow> focus_in X t') \<and> steady t t'"

definition sound :: "tree \<Rightarrow> tree \<Rightarrow> bool" where
  "sound t t' \<longleftrightarrow> inv t' \<and> steady t t'"

lemma soundD: assumes "sound t t'" shows "inv t'" "steady t t'" "tile_at t' = tile_at t"
  using assms by (auto simp: sound_def steady_def)

lemma sound_refl: "inv t \<Longrightarrow> sound t t"
  by (simp add: sound_def)

lemma sound_trans [trans]: "sound t u \<Longrightarrow> sound u v \<Longrightarrow> sound t v"
  using steady_trans by (auto simp: sound_def)

lemma lawful_sound: "lawful t t' \<Longrightarrow> sound t t'"
  by (simp add: lawful_def sound_def)

lemma sound_lawful: "sound t u \<Longrightarrow> lawful u v \<Longrightarrow> sound t v"
  using lawful_sound sound_trans by blast

lemma carries_sound: "inv t \<Longrightarrow> carries {} t t' \<Longrightarrow> sound t t'"
  using inv_step [of t t'] invD(2) by (auto simp: carries_def sound_def)

lemma carries_shrinks: "carries E t u \<Longrightarrow> shrinks u v \<Longrightarrow> carries {} t v"
  using steady_trans by (auto simp: carries_def shrinks_def)

lemma carries_reap:
  assumes "carries {p} t u"
  shows "carries {} t (reap_empty_from u p)"
  using carries_shrinks [OF assms reap_shrinks] assms by (simp add: carries_def)

lemma carries_drop: "carries E t u \<Longrightarrow> E \<subseteq> E' \<Longrightarrow> carries E' t u"
  using forest_mono by (auto simp: carries_def wft_def)

lemma wf_mono: "wft D E t \<Longrightarrow> E \<subseteq> E' \<Longrightarrow> wft D E' t"
  using forest_mono by (auto simp: wft_def)

text \<open>The tree after \<^verbatim>\<open>detach_subtree_only\<close> and any insertion under \<open>p\<close>.\<close>

definition put :: "tree \<Rightarrow> nid \<Rightarrow> tree_node \<Rightarrow> nid \<Rightarrow> tree" where
  "put t p v c = set_parent (set_value t p v) c (Some p)"

lemma put_carries:
  fixes l' :: layout and m' :: split_meta
  assumes W: "wft {} {} t" and i: "parent_of t i = Some op" and nb: "\<not> below t p i"
    and p: "get_split (fst (detach_subtree_only t i)) p = Some (l, cs, ps, m)"
    and cs': "distinct cs'" "set cs' = insert i (set cs)" "length ps' = length cs'" "shares ps'"
  defines "u \<equiv> put (fst (detach_subtree_only t i)) p (Split l' cs' ps' m') i"
  shows "carries {op} t u" "contains_key u = contains_key t" "parent_of u = (parent_of t)(i := Some p)"
    "next_id u = next_id t"
proof -
  have F: "forest {} {} t" using W by (rule wfD)
  let ?d = "fst (detach_subtree_only t i)"
  note det = detach_forest [OF F i]
  have st: "strip ?d = strip t" by simp
  have Fd: "aforest (tree_root ?d) (next_id ?d) {i} {op} (contains_key ?d) (parent_of ?d) (get_split ?d)"
    using det(1) unfolding forest_iff by simp
  have nx: "next_id ?d = next_id t"
    by (auto simp: detach_subtree_only_def remove_child_def panic_def Let_def split: option.split prod.split)
  have kd: "contains_key ?d = contains_key t" using det(4) by (simp add: fun_eq_iff)
  have iK: "contains_key t i" using i by (rule parent_of_contains)
  have pK: "contains_key ?d p" using p by (rule get_split_contains)
  have ne: "p \<noteq> i" using nb by auto
  have nbd: "(p, i) \<notin> (up_edges (parent_of ?d))\<^sup>*"
    using nb rtrancl_mono [OF up_edges_upd_None [of "parent_of t" i]] det(5) by (auto simp: subset_iff)
  have af: "aforest (tree_root ?d) (next_id ?d) ({i} - {i}) ({op} - {p}) (contains_key ?d)
      ((parent_of ?d)(i := Some p)) ((get_split ?d)(p := Some (l', cs', ps', m')))"
    by (rule aforest_attach [OF Fd p _ nbd cs']) simp
  show con: "contains_key u = contains_key t" by (simp add: u_def put_def fun_eq_iff kd)
  have parud: "parent_of u = (parent_of ?d)(i := Some p)"
    using iK kd by (auto simp: u_def put_def fun_eq_iff)
  then show par: "parent_of u = (parent_of t)(i := Some p)" by (simp add: det(5))
  show "next_id u = next_id t" by (simp add: u_def put_def nx)
  have spl: "get_split u = (get_split ?d)(p := Some (l', cs', ps', m'))"
    using pK by (auto simp: u_def put_def fun_eq_iff)
  have tl: "tile_at u = tile_at t"
    using det(7) pK split_not_leaf [OF p] by (auto simp: u_def put_def fun_eq_iff)
  have su: "strip u = strip t" by (simp add: u_def put_def)
  note sf = strip_fieldsD [OF su]
  have "forest {} ({op} - {p}) u"
    using af unfolding forest_iff con par spl parud [symmetric] kd by (simp add: u_def put_def nx det(5) par)
  then have "forest {} {op} u" by (rule forest_mono) auto
  moreover have "panicked u = panicked t" by (simp add: u_def put_def det(3))
  ultimately have Wu: "wft {} {op} u" by (rule wf_frame [OF W _ su]) (simp_all add: con tl)
  have "steady t u" using tl sf by (simp add: steady_def u_def put_def nx)
  then show "carries {op} t u" using Wu sf(2) con by (simp add: carries_def focus_in_def)
qed

lemma insert_child_at_put:
  assumes "get_split t p = Some (l, cs, ps, m)" "contains_key t c" "length ps = length cs"
  shows "insert_child_at t p c k = put t p (Split l (insert_at (min k (length cs)) c cs) (attached_shares ps k) m) c"
  using insert_child_at_eq [OF assms] by (simp add: put_def)

lemma detach_reads:
  assumes F: "forest {} {} t" and i: "parent_of t i = Some op" and p: "get_split t p = Some (l, cs, ps, m)"
  obtains cs' ps' where "get_split (fst (detach_subtree_only t i)) p = Some (l, cs', ps', m)"
    "length ps' = length cs'" "shares ps'" "distinct cs'" "i \<notin> set cs'" "set cs' = set cs - {i}"
    "p \<noteq> op \<longrightarrow> cs' = cs \<and> ps' = ps"
proof -
  note det = detach_forest [OF F i]
  obtain lo cso pso mo k where s: "get_split t op = Some (lo, cso, pso, mo)" "k < length cso" "cso ! k = i"
    "get_split (fst (detach_subtree_only t i)) = (get_split t)(op := Some (lo, remove_at k cso, rescale (remove_at k pso), mo))"
    using det(6) by blast
  show ?thesis
  proof (cases "p = op")
    case True
    note d = forest_splitD [OF F s(1)]
    have "set (remove_at k cso) = set cso - {i}" "distinct (remove_at k cso)"
      using d(1) s(2,3) by (auto simp: set_remove_at distinct_remove_at)
    then show ?thesis
      using that [of "remove_at k cso" "rescale (remove_at k pso)"] True s p d shares_rescale_remove by auto
  next
    case False
    have "i \<notin> set cs" using forest_splitD(2) [OF F p] i False by auto
    then show ?thesis using that [of cs ps] False s p forest_splitD [OF F p] by auto
  qed
qed

theorem relocate_carries:
  fixes k :: nat
  assumes W: "wft {} {} t" and i: "parent_of t i = Some op" and p: "get_split t p = Some (l, cs, ps, m)"
    and nb: "\<not> below t p i"
  defines "u \<equiv> insert_child_at (fst (detach_subtree_only t i)) p i k"
  shows "carries {op} t u" "contains_key u = contains_key t" "parent_of u = (parent_of t)(i := Some p)"
    "next_id u = next_id t"
proof -
  have F: "forest {} {} t" using W by (rule wfD)
  let ?d = "fst (detach_subtree_only t i)"
  obtain cs1 ps1 where d: "get_split ?d p = Some (l, cs1, ps1, m)" "length ps1 = length cs1" "shares ps1"
    "distinct cs1" "i \<notin> set cs1" by (rule detach_reads [OF F i p])
  have iK: "contains_key ?d i" using detach_forest(4) [OF F i] parent_of_contains [OF i] by simp
  have u: "u = put ?d p (Split l (insert_at (min k (length cs1)) i cs1) (attached_shares ps1 k) m) i"
    unfolding u_def by (rule insert_child_at_put [OF d(1) iK d(2)])
  have sh: "shares (attached_shares ps1 k)" "length (attached_shares ps1 k) = Suc (length cs1)"
    using shares_insert_even [OF d(3)] d(2) by (simp_all add: attached_shares_def)
  have a: "distinct (insert_at (min k (length cs1)) i cs1)" "set (insert_at (min k (length cs1)) i cs1) = insert i (set cs1)"
    "length (attached_shares ps1 k) = length (insert_at (min k (length cs1)) i cs1)"
    using d(4,5) sh(2) by simp_all
  show "carries {op} t u" "contains_key u = contains_key t" "parent_of u = (parent_of t)(i := Some p)"
    "next_id u = next_id t"
    unfolding u by (rule put_carries [OF W i nb d(1) a sh(1)])+
qed

lemma insert_child_relocates:
  assumes "get_split t p = Some (l, cs, ps, m)"
  obtains k where "insert_child t p c after = insert_child_at t p c k"
  using insert_child_eq [OF assms] by blast


section \<open>Moves among siblings and to a node\<close>

lemma first_leaf_in_absent: "\<not> contains_key t i \<Longrightarrow> first_leaf_in t i = None"
  using value_of_absent [of t i] by (simp add: first_leaf_in_def walk_fuel_def)

lemma finish_directional_move_lawful:
  assumes I: "inv t"
  shows "lawful t (finish_directional_move t i)"
proof (cases "focus t = Some i")
  case True
  have "lawful t (t\<lparr>ipc_focus_follows_history := False\<rparr>)" by (rule lawful_same_core [OF I]) simp
  then show ?thesis using True by (simp add: finish_directional_move_def calls_are_log lawful_log)
next
  case False
  have "focusable t (Some l)" if "first_leaf_in t i = Some l" for l
    using that first_leaf_in_absent first_leaf_in_Some(1) [OF invD(4) [OF I]] focusable_leaf [OF I]
    by (cases "contains_key t i") fastforce+
  then have "lawful t (set_focus_id t (or_else (first_leaf_in t i) (focus t)))"
    by (intro lawful_set_focus [OF I] focusable_or_else [OF I])
  then show ?thesis using False by (simp add: finish_directional_move_def calls_are_log lawful_log)
qed

lemma move_subtree_to_index_inner_lawful:
  assumes I: "inv t"
  shows "lawful t (fst (move_subtree_to_index_inner t i k))"
proof -
  define u where "u = t\<lparr>interactive_resize_st := None\<rparr>"
  have L: "lawful t u" unfolding u_def by (rule lawful_same_core [OF I]) simp
  note Iu = lawfulD(1) [OF L]
  have "lawful u (fst (move_subtree_to_index_inner t i k))"
  proof (cases "parent_of u i")
    case None
    then show ?thesis
      unfolding move_subtree_to_index_inner_def u_def [symmetric] Let_def using lawful_refl [OF Iu] by simp
  next
    case (Some p)
    have F: "forest {} {} u" using Iu by (rule invD)
    obtain l cs ps m where sp: "get_split u p = Some (l, cs, ps, m)" using F Some by (rule forest_parentD)
    obtain x where x: "x < length cs" "cs ! x = i" "position i cs = Some x"
      using remove_child_eq [OF F Some sp] by metis
    note d = forest_splitD [OF F sp]
    let ?n = "min k (length cs - 1)"
    let ?v = "set_value u p (Split l (insert_at ?n i (remove_at x cs)) (insert_at ?n (ps ! x) (remove_at x ps)) m)"
    have "lawful u ?v"
    proof (rule lawful_shrinks [OF Iu relabel_shrinks [OF invD(1) [OF Iu] sp]])
      show "distinct (insert_at ?n i (remove_at x cs))" "set (insert_at ?n i (remove_at x cs)) = set cs"
        using d(1) x by auto
      show "length (insert_at ?n (ps ! x) (remove_at x ps)) = length (insert_at ?n i (remove_at x cs))"
        using d(3) x by simp
      show "shares (insert_at ?n (ps ! x) (remove_at x ps))"
        using d(3,4) x set_remove_at_subset [of x ps] by (auto simp: shares_def)
    qed
    then have "lawful u (finish_directional_move ?v i)"
      using lawful_trans finish_directional_move_lawful lawfulD(1) by blast
    then show ?thesis
      unfolding move_subtree_to_index_inner_def u_def [symmetric] Let_def
      using Some sp x d(3) lawful_refl [OF Iu] by simp
  qed
  with L show ?thesis by (rule lawful_trans)
qed

lemma move_subtree_to_index_lawful: "inv t \<Longrightarrow> lawful t (fst (move_subtree_to_index t i k))"
  using move_subtree_to_index_inner_lawful [of t i k]
  by (simp add: move_subtree_to_index_def Let_def case_prod_beta calls_are_log lawful_log)

lemma reinsert_focus_history_lawful:
  assumes I: "inv t"
  shows "lawful t (reinsert_focus_history t ws r)"
proof -
  have "lawful t (fold (\<lambda>w t. case node_for_window t w of None \<Rightarrow> t
            | Some i \<Rightarrow> (let h = retain_ne i (focus_history t)
                        in t\<lparr>focus_history := insert_at (min r (length h)) i h\<rparr>)) xs u)" if "lawful t u" for xs u
    using that
  proof (induction xs arbitrary: u)
    case (Cons w xs)
    have step: "lawful u (restore_focus_rank u w r)" by (rule restore_focus_rank_lawful [OF lawfulD(1) [OF Cons.prems]])
    show ?case
      using Cons.IH [OF lawful_trans [OF Cons.prems step]] by (simp add: restore_focus_rank_def)
  qed simp
  then show ?thesis using lawful_refl [OF I] by (simp add: reinsert_focus_history_def)
qed

text \<open>A bound on every depth follows from any potential that grows along the links.\<close>

lemma depth_le_potential:
  assumes F: "forest {} E t" and h: "\<And>x p. parent_of t x = Some p \<Longrightarrow> Suc (h p) \<le> h x" and x: "contains_key t x"
  shows "node_depth t x \<le> h x"
  using x
proof (induction "node_depth t x" arbitrary: x rule: less_induct)
  case less
  show ?case
  proof (cases "parent_of t x")
    case None
    then show ?thesis using node_depth_eq [OF F, of x x 0] by simp
  next
    case (Some p)
    have pK: "contains_key t p" using F Some by (rule forest_parentD) (rule get_split_contains)
    then show ?thesis using node_depth_child [OF F Some] less.hyps [OF _ pK] h [OF Some] by simp
  qed
qed

lemma relink_depth:
  assumes F: "forest {} {} t" and F': "forest {} E t'" and K: "contains_key t' = contains_key t"
    and P: "parent_of t' = (parent_of t)(i := Some p)" and i: "contains_key t i" and p: "contains_key t p"
    and nb: "\<not> below t p i" and fits: "fits_below t p (subtree_height t i)" and ok: "depth_ok t"
  shows "depth_ok t'"
proof -
  define h where "h = (\<lambda>x. if below t x i then Suc (node_depth t p) + (node_depth t x - node_depth t i) else node_depth t x)"
  have split: "node_depth t x = n + node_depth t i" if "(x, i) \<in> steps t n" "contains_key t x" for x n
    using node_depth_step [OF F that] .
  have "Suc (h q) \<le> h x" if q: "parent_of t' x = Some q" for x q
  proof (cases "x = i")
    case True
    then have "q = p" using q P by simp
    then show ?thesis using True nb by (simp add: h_def)
  next
    case False
    then have q: "parent_of t x = Some q" using q P by simp
    have d: "node_depth t x = Suc (node_depth t q)" using F q by (rule node_depth_child)
    have b: "below t x i \<longleftrightarrow> below t q i"
      using q False by (metis converse_rtranclE converse_rtrancl_into_rtrancl option.inject up_edges_iff)
    have qK: "contains_key t q" using F q by (rule forest_parentD) (rule get_split_contains)
    have "node_depth t i \<le> node_depth t q" if "below t q i"
      using that split [OF _ qK] rtrancl_imp_relpow by (metis le_add2)
    then show ?thesis using b d by (auto simp: h_def)
  qed
  then have le: "node_depth t' x \<le> h x" if "contains_key t x" for x
    using depth_le_potential [OF F'] that K by simp
  have "h x \<le> MAX_TREE_DEPTH" if x: "contains_key t x" for x
  proof (cases "below t x i")
    case True
    then obtain n where n: "(x, i) \<in> steps t n" using rtrancl_imp_relpow by blast
    then have "n < subtree_height t i" by (rule subtree_height_bound [OF F i])
    moreover have "node_depth t x - node_depth t i = n" using split [OF n x] by simp
    ultimately show ?thesis using fits True by (simp add: h_def fits_below_def)
  qed (use ok x in \<open>simp add: h_def depth_ok_def\<close>)
  then show ?thesis using le K by (auto simp: depth_ok_def intro: le_trans)
qed

lemma reap_depth:
  assumes W: "wft {} {p} t" and ok: "depth_ok t"
  shows "depth_ok (reap_empty_from t p)"
proof -
  have s: "shrinks t (reap_empty_from t p)" using W by (rule reap_shrinks)
  have o: "tree_root (reap_empty_from t p) = tree_root t" "shortcuts t (reap_empty_from t p)"
    "\<And>x. contains_key (reap_empty_from t p) x \<Longrightarrow> contains_key t x"
    using s by (auto simp: shrinks_def steady_def)
  show ?thesis
    unfolding depth_ok_def
    using shortcut_depth [OF wfD(1) [OF W] wfD(1) [OF shrinks_wf [OF s]] o] o(3) ok
    by (meson depth_ok_def order_trans)
qed

lemma not_below_self_subtree:
  assumes "forest D E t" "\<not> contains_node t i j"
  shows "\<not> below t j i"
  using assms contains_node_iff by blast

theorem move_subtree_to_node_lawful:
  assumes I: "inv t"
  shows "lawful t (fst (move_subtree_to_node t i dst))"
proof -
  have W: "wft {} {} t" and F: "forest {} {} t" using I by (auto dest: invD)
  define ok where "ok \<longleftrightarrow> \<not> (i = tree_root t \<or> i = dst \<or> \<not> contains_key t i \<or> \<not> contains_key t dst \<or> contains_node t i dst)"
  let ?slot = "if tile_at t dst \<noteq> None then map_option (\<lambda>p. (p, Some dst)) (parent_of t dst) else Some (dst, None)"
  let ?moved = "List.map_filter (\<lambda>l. map_option window_id (tile_at t l)) (leaf_ids_in t i)"
  show ?thesis
  proof (cases "ok \<and> ?slot \<noteq> None")
    case False
    then have "fst (move_subtree_to_node t i dst) = t"
      by (auto simp: move_subtree_to_node_def ok_def Let_def split: option.split)
    then show ?thesis using lawful_refl [OF I] by simp
  next
    case True
    then obtain p after where sl: "?slot = Some (p, after)" by fastforce
    have o: "i \<noteq> tree_root t" "i \<noteq> dst" "contains_key t i" "contains_key t dst" "\<not> below t dst i"
      using True contains_node_iff [OF F] by (auto simp: ok_def)
    obtain op where op: "parent_of t i = Some op" using forest_top [OF F o(3)] o(1) by blast
    have p: "is_split t p \<and> \<not> below t p i"
    proof (cases "tile_at t dst")
      case None
      then have "p = dst" using sl by simp
      then show ?thesis using o(4,5) None by (auto simp: is_split_def elim: node_cases)
    next
      case (Some x)
      then have q: "parent_of t dst = Some p" using sl by auto
      then have "\<not> below t p i" using o(5) by (meson converse_rtrancl_into_rtrancl up_edges_iff)
      moreover have "is_split t p" using F q by (rule forest_parentD) (simp add: is_split_def)
      ultimately show ?thesis by simp
    qed
    then obtain l cs ps m where sp: "get_split t p = Some (l, cs, ps, m)" by (auto simp: is_split_def)
    let ?d = "fst (detach_subtree_only t i)"
    obtain cs1 ps1 where d: "get_split ?d p = Some (l, cs1, ps1, m)"
      by (rule detach_reads [OF F op sp])
    obtain k where k: "insert_child ?d p i after = insert_child_at ?d p i k"
      by (rule insert_child_relocates [OF d])
    define t2 where "t2 = insert_child ?d p i after"
    note rl = relocate_carries [OF W op sp, of k, folded k t2_def]
    have rl: "carries {op} t t2" "contains_key t2 = contains_key t" "parent_of t2 = (parent_of t)(i := Some p)"
      using rl p by simp_all
    define t4 where "t4 = compact_tree (reap_empty_from t2 op)"
    have c3: "carries {} t (reap_empty_from t2 op)" using rl(1) by (rule carries_reap)
    have s3: "sound t (reap_empty_from t2 op)" using I c3 by (rule carries_sound)
    have s4: "sound t t4" unfolding t4_def using s3 lawful_compact [OF soundD(1) [OF s3]] by (rule sound_lawful)
    define t6 where "t6 = request_window_sizes (animate_geometry_changes
        (reinsert_focus_history t4 ?moved (if focus t4 \<noteq> None then 1 else 0)) None)"
    have l6: "lawful t4 t6"
      unfolding t6_def calls_are_log
      by (intro lawful_log reinsert_focus_history_lawful soundD(1) [OF s4])
    have g: "(i = tree_root t \<or> i = dst \<or> \<not> contains_key t i \<or> \<not> contains_key t dst \<or> contains_node t i dst) = False"
      using True by (simp add: ok_def)
    have eq: "fst (move_subtree_to_node t i dst) =
        (if \<not> fits_below t p (subtree_height t i) then t
         else if parent_of t i = Some p \<and> child_index t p i = map_option Suc (Option.bind after (child_index t p)) \<and>
              (case focus t of Some f \<Rightarrow> contains_node t i f | None \<Rightarrow> False) then t else t6)"
      unfolding move_subtree_to_node_def Let_def g if_False sl option.case prod.case case_prod_beta
        detach_forest(2) [OF F op] if_distrib [of fst] fst_conv snd_conv
        t2_def [symmetric] t4_def [symmetric] t6_def [symmetric] by (rule refl)
    show ?thesis
    proof (cases "fits_below t p (subtree_height t i)")
      case True
      have "depth_ok t4" if "depth_ok t"
      proof -
        have W2: "wft {} {op} t2" using rl(1) by (simp add: carries_def)
        have "depth_ok t2"
          by (rule relink_depth [OF F wfD(1) [OF W2] rl(2,3) o(3) get_split_contains [OF sp] _ True that]) (use p in simp)
        then have "depth_ok (reap_empty_from t2 op)" by (rule reap_depth [OF W2])
        then show ?thesis
          using lawfulD(3) [OF lawful_compact [OF soundD(1) [OF s3]]] by (simp add: t4_def)
      qed
      then have "lawful t t4" using s4 by (simp add: lawful_def sound_def)
      then have "lawful t t6" using l6 by (rule lawful_trans)
      then show ?thesis using lawful_refl [OF I] by (simp add: eq)
    qed (use lawful_refl [OF I] in \<open>simp add: eq\<close>)
  qed
qed

section \<open>Directional moves into a neighbour\<close>

lemma sound_finish:
  assumes I: "inv t" and c: "carries {} t u"
  shows "sound t (finish_directional_move u i)"
  using sound_lawful [OF carries_sound [OF I c] finish_directional_move_lawful] carries_sound [OF I c]
  by (simp add: sound_def)

lemma node_depth_bound:
  assumes F: "forest {} E t" and x: "contains_key t x"
  shows "node_depth t x \<le> next_id t"
  using links.relpow_bound [OF arena_okI [OF F] node_depth_root [OF F x]] by simp

lemma move_into_loop_sound:
  assumes I: "inv t" and op: "parent_of t i = Some op"
  shows "contains_key t dst \<Longrightarrow> (\<And>q. below t q dst \<Longrightarrow> \<not> below t q i) \<Longrightarrow>
    next_id t < node_depth t dst + k \<Longrightarrow> sound t (fst (move_into_loop k t i dst d))"
proof (induction k arbitrary: dst)
  case 0
  then show ?case using node_depth_bound [OF invD(4) [OF I] 0(1)] by simp
next
  case (Suc k)
  have W: "wft {} {} t" and F: "forest {} {} t" using I by (auto dest: invD)
  let ?d = "fst (detach_subtree_only t i)"
  have place: "sound t (finish_directional_move (squash_for_move (reap_empty_from (insert_child_at ?d p i n) op) None) i)"
    if p: "get_split t p = Some (l, cs, ps, m)" and nb: "\<not> below t p i" for p l cs ps m n
  proof (rule sound_finish [OF I])
    have c: "carries {} t (reap_empty_from (insert_child_at ?d p i n) op)"
      by (rule carries_reap [OF relocate_carries(1) [OF W op p nb]])
    then show "carries {} t (squash_for_move (reap_empty_from (insert_child_at ?d p i n) op) None)"
      using carries_shrinks [OF c squash_for_move_props] by (simp add: carries_def)
  qed
  have nb: "\<not> below t dst i" using Suc.prems(2) by blast
  from Suc.prems(1) show ?case
  proof (cases rule: node_cases)
    case (split l cs ps m)
    show ?thesis
    proof (cases "layouts_parallel l (axis d)")
      case True
      then show ?thesis
        using split(1) place [OF split(2) nb] sound_refl [OF I]
        by (simp add: Let_def case_prod_beta detach_forest(2) [OF F op] split: option.split)
    next
      case False
      show ?thesis
      proof (cases "focused_child_in t dst")
        case None
        then show ?thesis using split(1) False sound_refl [OF I] by simp
      next
        case (Some c)
        then have c: "c \<in> set cs" using focused_child_in_props [OF Some] split(2) by (auto simp: children_of_def)
        have pc: "parent_of t c = Some dst" using forest_splitD(2) [OF F split(2) c] .
        have "\<not> below t q i" if "below t q c" for q
          using Suc.prems(2) that pc by (meson rtrancl.rtrancl_into_rtrancl up_edges_iff)
        moreover have "next_id t < node_depth t c + k" using Suc.prems(3) node_depth_child [OF F pc] by simp
        ultimately have "sound t (fst (move_into_loop k t i c d))"
          by (rule Suc.IH [OF child_contains [OF F split(2) c]])
        then show ?thesis using split(1) False Some by simp
      qed
    qed
  next
    case (leaf w)
    show ?thesis
    proof (cases "parent_of t dst")
      case None
      then show ?thesis using leaf(1) sound_refl [OF I] by simp
    next
      case (Some p)
      obtain l cs ps m where p: "get_split t p = Some (l, cs, ps, m)" using F Some by (rule forest_parentD)
      have nbp: "\<not> below t p i" using nb Some by (meson converse_rtrancl_into_rtrancl up_edges_iff)
      show ?thesis
        using leaf(1) Some place [OF p nbp] sound_refl [OF I]
        by (simp add: Let_def case_prod_beta detach_forest(2) [OF F op] split: option.split)
    qed
  qed
qed

lemma move_into_directional_destination_sound:
  assumes "inv t" "parent_of t i = Some op" "contains_key t dst" "\<And>q. below t q dst \<Longrightarrow> \<not> below t q i"
  shows "sound t (fst (move_into_directional_destination t i dst d))"
  unfolding move_into_directional_destination_def walk_fuel_def
  by (rule move_into_loop_sound [OF assms]) simp_all

section \<open>Promotion beside an ancestor\<close>

lemma set_value_put: "p \<noteq> c \<Longrightarrow> set_value (put t p v c) p v' = put t p v' c"
  by (cases "nodes t p") (simp_all add: put_def set_value_def set_parent_def fun_upd_twist)

lemma get_split_put: "p \<noteq> c \<Longrightarrow> contains_key t p \<Longrightarrow> get_split (put t p (Split l cs ps m) c) p = Some (l, cs, ps, m)"
  by (simp add: put_def)

lemma share_as_fresh_eq:
  assumes p: "get_split t p = Some (l, cs, ps, m)" and len: "length ps = length cs" and pos: "\<forall>x\<in>set ps. 0 < x"
  obtains ps' where "share_as_fresh t p fresh = set_value t p (Split l cs ps' m)" "length ps' = length cs" "shares ps'"
proof -
  let ?olds = "filter (\<lambda>(c, x). c \<notin> set fresh) (zip cs ps)"
  let ?share = "if length ?olds = 0 then 1 else sum_list (map snd ?olds) / real (length ?olds)"
  let ?ps1 = "map (\<lambda>(c, x). if c \<in> set fresh then ?share else x) (zip cs ps) @ drop (length cs) ps"
  have olds: "\<forall>x\<in>set (map snd ?olds). 0 < x" using pos by (auto dest: set_zip_rightD)
  have sh: "0 < ?share"
  proof (cases "?olds = []")
    case False
    then have "0 < sum_list (map snd ?olds)" using olds by (intro sum_list_pos) auto
    then show ?thesis using False by simp
  qed simp
  have p1: "\<forall>x\<in>set ?ps1. 0 < x" using sh pos len by (auto dest: set_zip_rightD)
  have l1: "length ?ps1 = length cs" using len by simp
  define ps2 where "ps2 = (if sum_list ?ps1 > 0 then map (\<lambda>x. x / sum_list ?ps1) ?ps1 else ?ps1)"
  have "shares ps2"
  proof (cases "?ps1 = []")
    case True
    then show ?thesis by (simp only: ps2_def) simp
  next
    case False
    then have "0 < sum_list ?ps1" using p1 by (rule sum_list_pos)
    then show ?thesis using shares_normalize [OF p1] by (simp only: ps2_def if_True)
  qed
  moreover have "length ps2 = length cs" using l1 by (simp add: ps2_def)
  moreover have "share_as_fresh t p fresh = set_value t p (Split l cs ps2 m)"
    unfolding share_as_fresh_def p option.case prod.case Let_def ps2_def by (rule refl)
  ultimately show ?thesis using that by blast
qed

lemma promote_to_boundary_sound:
  assumes I: "inv t" and op: "parent_of t i = Some op" and br: "get_split t br = Some (l, cs, ps, m)"
    and nb: "\<not> below t br i" and ne: "br \<noteq> op" and cne: "cs \<noteq> []"
  shows "sound t (fst (promote_to_boundary t i br back wanted))"
proof -
  have W: "wft {} {} t" and F: "forest {} {} t" using I by (auto dest: invD)
  let ?d = "fst (detach_subtree_only t i)"
  obtain cs1 ps1 where d: "get_split ?d br = Some (l, cs1, ps1, m)" "length ps1 = length cs1" "shares ps1"
    "distinct cs1" "i \<notin> set cs1" "cs1 = cs \<and> ps1 = ps"
    using ne by (auto intro: detach_reads [OF F op br])
  let ?b = "if back then hd cs else last cs" and ?j = "if back then 0 else length cs"
  have b: "?b \<in> set cs" using cne by simp
  obtain k where k: "position ?b cs = Some k" using position_ex [OF b] by blast
  have kl: "k < length cs" using position_Some [OF k] by simp
  have len: "length ps = length cs" "shares ps" using d by auto
  have ib: "br \<noteq> i" using nb by auto
  have iK: "contains_key ?d i" using detach_forest(4) [OF F op] parent_of_contains [OF op] by simp
  have brK: "contains_key ?d br" using d(1) by (rule get_split_contains)
  define j where "j = min ?j (length cs)"
  define cs2 where "cs2 = insert_at j i cs"
  define ps2 where "ps2 = insert_at j (ps ! k / 2) (ps[k := ps ! k / 2])"
  let ?t2 = "put ?d br (Split l cs2 ps2 m) i"
  have t2: "insert_existing_child ?d br i ?j ?b = ?t2"
    using iK d k kl len
    by (simp add: insert_existing_child_def nodes_absent Let_def put_def cs2_def ps2_def j_def)
  have sh2: "shares ps2" "length ps2 = length cs2"
    using shares_split_half [OF len(2)] kl len(1) by (simp_all add: ps2_def cs2_def)
  have pos2: "\<forall>x\<in>set ps2. 0 < x" using sh2(1) by (simp add: shares_def)
  have cs2: "distinct cs2" "set cs2 = insert i (set cs1)" using d by (simp_all add: cs2_def)
  have g2: "get_split ?t2 br = Some (l, cs2, ps2, m)" using ib brK by (simp add: get_split_put)
  define old_share where "old_share = (case parent_of t i of
                   None \<Rightarrow> None
                 | Some op \<Rightarrow> (case get_split t op of
                     Some (lo, cso, pso, mo) \<Rightarrow>
                       (if lo = wanted then Option.bind (position i cso) (vec_get pso) else None)
                   | None \<Rightarrow> None))"
  define t3 where "t3 = (case old_share of
                 Some share \<Rightarrow> share_as_fresh (set_child_percent ?t2 br i share) br [?b]
               | None \<Rightarrow> share_as_fresh ?t2 br [i, ?b])"
  obtain ps3 where t3: "t3 = put ?d br (Split l cs2 ps3 m) i" "length ps3 = length cs2" "shares ps3"
  proof (cases old_share)
    case None
    obtain ps' where "share_as_fresh ?t2 br [i, ?b] = set_value ?t2 br (Split l cs2 ps' m)" "length ps' = length cs2" "shares ps'"
      by (rule share_as_fresh_eq [OF g2 sh2(2) pos2])
    then show ?thesis using that [of ps'] None set_value_put [OF ib] by (simp add: t3_def)
  next
    case (Some x)
    have "0 < x"
    proof -
      obtain lo cso pso mo where o: "get_split t op = Some (lo, cso, pso, mo)" using F op by (rule forest_parentD)
      have "x \<in> set pso"
        using Some op o by (auto simp: old_share_def split: if_splits Option.bind_splits dest: vec_get_mem)
      then show ?thesis using forest_splitD(4) [OF F o] by (auto simp: shares_def)
    qed
    obtain y where y: "position i cs2 = Some y" using position_ex [of i cs2] cs2(2) by auto
    have yl: "y < length ps2" using position_Some [OF y] sh2(2) by simp
    let ?u = "set_child_percent ?t2 br i x"
    have u: "?u = put ?d br (Split l cs2 (ps2[y := x]) m) i"
      using g2 y yl set_value_put [OF ib] by (simp add: set_child_percent_def)
    have gu: "get_split ?u br = Some (l, cs2, ps2[y := x], m)" unfolding u using ib brK by (rule get_split_put)
    have pu: "\<forall>z\<in>set (ps2[y := x]). 0 < z" using pos2 \<open>0 < x\<close> set_update_subset_insert [of ps2 y x] by auto
    obtain ps' where "share_as_fresh ?u br [?b] = set_value ?u br (Split l cs2 ps' m)" "length ps' = length cs2" "shares ps'"
      by (rule share_as_fresh_eq [OF gu _ pu]) (use sh2(2) in simp_all)
    then show ?thesis using that [of ps'] Some set_value_put [OF ib] by (simp add: t3_def u)
  qed
  have c3: "carries {op} t t3" unfolding t3(1) by (rule put_carries [OF W op nb d(1) cs2 t3(2,3)])
  have c4: "carries {} t (reap_empty_from t3 op)" using c3 by (rule carries_reap)
  have c5: "carries {} t (compact_tree (reap_empty_from t3 op))"
    using carries_shrinks [OF c4 shrinks_compact] c4 by (simp add: carries_def)
  have "fst (promote_to_boundary t i br back wanted) =
      finish_directional_move (compact_tree (reap_empty_from t3 op)) i"
    unfolding promote_to_boundary_def br option.case prod.case Let_def old_share_def [symmetric] case_prod_beta
      detach_forest(2) [OF F op] fst_conv snd_conv t2 t3_def [symmetric] using cne by simp
  then show ?thesis using sound_finish [OF I c5] by simp
qed

end
