(* ===== verification/Direction_Laws.thy ===== *)
theory Direction_Laws
  imports Movement_Laws
begin

text \<open>
  Laws of the directional moves: the walk up from the moved node ends, whatever it decides (a swap
  with a sibling, a move into a neighbour, a promotion beside an ancestor or past the root) keeps
  the invariant and every window in its node.
\<close>

section \<open>Promotion past the root\<close>

lemma expect_set_parents_eq:
  "\<forall>c\<in>set cs. contains_key t c \<Longrightarrow> expect_set_parents cs p t = set_parents cs p t"
  by (induction cs arbitrary: t) simp_all

lemma wrap_root_for_direction_structure:
  fixes d
  assumes F: "forest {i} E t" and r: "get_split t (tree_root t) = Some (lr, cs, ps, m)" and ne: "cs \<noteq> []"
  defines "w \<equiv> next_id t" and "u \<equiv> wrap_root_for_direction t i d"
  shows "contains_key u = (contains_key t)(w := True)"
    "parent_of u = (\<lambda>x. if x = i \<or> x = w then Some (tree_root t) else if x \<in> set cs then Some w else parent_of t x)"
    "tile_at u = tile_at t" "forest {} E u"
    "strip u = (strip t)\<lparr>ipc_stale_nodes := insert w (ipc_stale_nodes t)\<rparr>"
    "panicked u = panicked t" "next_id u = Suc (next_id t)"
proof -
  let ?r = "tree_root t" and ?l = "axis d"
  let ?n = "\<lparr>parent = Some ?r, node_value = Split lr cs ps split_meta_default\<rparr>"
  let ?cs = "if is_backwards d then [i, w] else [w, i]"
  define t0 where "t0 = set_value t ?r (Split ?l [] [] split_meta_default)"
  define t1 where "t1 = fst (alloc t0 ?n)"
  define t2 where "t2 = t1\<lparr>ipc_stale_nodes := insert w (ipc_stale_nodes t1)\<rparr>"
  define t3 where "t3 = set_parents cs w t2"
  define t5 where "t5 = set_parent (set_parent t3 w (Some ?r)) i (Some ?r)"
  have rK: "contains_key t ?r" using r by (rule get_split_contains)
  have iK: "contains_key t i" "parent_of t i = None" using forest_detached [OF F, of i] by simp_all
  have wK: "\<not> contains_key t w" unfolding w_def using forest_bound [OF F, of "next_id t"] by blast
  have ir: "i \<noteq> ?r" using F by (auto simp: forest_def)
  have wr: "w \<noteq> ?r" "w \<noteq> i" using rK wK iK by auto
  have csP: "parent_of t c = Some ?r" if "c \<in> set cs" for c using forest_splitD(2) [OF F r that] .
  have csK: "contains_key t c" if "c \<in> set cs" for c using csP [OF that] by (rule parent_of_contains)
  have wcs: "w \<notin> set cs" "i \<notin> set cs" using csK wK csP iK by auto
  have nx0: "next_id t0 = w" by (simp add: t0_def w_def)
  note al = alloc_reads [of t0, unfolded nx0]
  have ap: "alloc t0 ?n = (t1, w)" by (simp add: t1_def alloc_def nx0)
  note sn = same_nodes_reads [of t2 "fst (alloc t0 ?n)"]
  have n2: "nodes t2 = nodes (fst (alloc t0 ?n))" by (simp add: t2_def t1_def)
  have t0: "contains_key t0 = contains_key t" "parent_of t0 = parent_of t"
    "get_split t0 = (get_split t)(?r := Some (?l, [], [], split_meta_default))" "tile_at t0 = tile_at t"
    using rK relabel_tiles [OF r] by (simp_all add: t0_def set_value_reads fun_eq_iff)
  have tw: "(tile_at t)(w := None) = tile_at t"
    using wK tile_at_contains [of t w] by (cases "tile_at t w") (auto simp: fun_eq_iff)
  have t2: "contains_key t2 = (contains_key t)(w := True)" "parent_of t2 = (parent_of t)(w := Some ?r)"
    "get_split t2 = (get_split t)(?r := Some (?l, [], [], split_meta_default), w := Some (lr, cs, ps, split_meta_default))"
    "tile_at t2 = tile_at t"
    unfolding sn(1-4) [OF n2] al t0 by (simp_all add: tw)
  have e3: "expect_set_parents cs w t2 = t3"
    unfolding t3_def by (rule expect_set_parents_eq) (use csK in \<open>simp add: t2(1)\<close>)
  have K3: "contains_key t3 = (contains_key t)(w := True)" by (simp add: t3_def set_parents_reads t2)
  have u: "u = set_value t5 ?r (Split ?l ?cs [1 / 2, 1 / 2] m)"
    unfolding u_def wrap_root_for_direction_def Let_def r option.case prod.case t0_def [symmetric] ap
      t2_def [symmetric] e3
    using iK(1) by (simp add: K3 t5_def)
  have rd5: "contains_key t5 = (contains_key t)(w := True)"
    "parent_of t5 = (\<lambda>x. if x = i \<or> x = w then Some ?r else if x \<in> set cs then Some w else parent_of t x)"
    "get_split t5 = get_split t2" "tile_at t5 = tile_at t"
    using csK wcs iK by (auto simp: t5_def t3_def set_parents_reads t2 fun_eq_iff)
  have rK5: "contains_key t5 ?r" using rd5(1) rK by simp
  show con: "contains_key u = (contains_key t)(w := True)" using rd5(1) by (simp add: u set_value_reads)
  show par: "parent_of u = (\<lambda>x. if x = i \<or> x = w then Some ?r else if x \<in> set cs then Some w else parent_of t x)"
    using rd5(2) by (simp add: u set_value_reads)
  have spl: "get_split u = (get_split t)(w := Some (lr, cs, ps, split_meta_default), ?r := Some (?l, ?cs, [1 / 2, 1 / 2], m))"
    using rK5 wr by (auto simp: u rd5(3) t2(3) fun_eq_iff)
  show "tile_at u = tile_at t" using split_not_leaf [OF r] rK5 by (auto simp: u rd5(4) fun_eq_iff)
  have st5: "strip t5 = strip t2" "tree_root t5 = tree_root t2" "panicked t5 = panicked t2" "next_id t5 = next_id t2"
    by (simp_all add: t5_def t3_def set_parents_reads)
  have "strip t2 = (strip t)\<lparr>ipc_stale_nodes := insert w (ipc_stale_nodes t)\<rparr>"
    by (simp add: t2_def t1_def strip_def alloc_def t0_def set_value_def)
  then show "strip u = (strip t)\<lparr>ipc_stale_nodes := insert w (ipc_stale_nodes t)\<rparr>" by (simp add: u st5)
  have t2': "panicked t2 = panicked t" "next_id t2 = Suc w" "tree_root t2 = ?r"
    by (simp_all add: t2_def t1_def alloc_def t0_def w_def)
  show "panicked u = panicked t" by (simp add: u st5 t2')
  show nx: "next_id u = Suc (next_id t)" by (simp add: u st5 t2') (simp add: w_def)
  have root: "tree_root u = ?r" by (simp add: u st5 t2')
  let ?P = "\<lambda>x. if x = w then Some ?r else if x \<in> set cs then Some w else parent_of t x"
  have W: "aforest ?r (Suc (next_id t)) {i} E ((contains_key t)(w := True)) ?P
      ((get_split t)(w := Some (lr, cs, ps, split_meta_default), ?r := Some (lr, [w], [1], m)))"
    by (rule aforest_wrap_root [OF F [unfolded forest_iff] r ne wK]) (simp_all add: w_def)
  have "?P ?r = None" using wr csP forest_root_parent [OF F] by auto
  then have top: "(?r, i) \<notin> (up_edges ?P)\<^sup>*" using ir by (auto elim: converse_rtranclE)
  have "aforest ?r (Suc (next_id t)) ({i} - {i}) (E - {?r}) ((contains_key t)(w := True)) (?P(i := Some ?r))
      (((get_split t)(w := Some (lr, cs, ps, split_meta_default), ?r := Some (lr, [w], [1], m)))
        (?r := Some (?l, ?cs, [1 / 2, 1 / 2], m)))"
    by (rule aforest_attach [OF W _ _ top, where l = lr and cs = "[w]" and ps = "[1]" and m = m])
      (use wr in \<open>auto simp: shares_def\<close>)
  moreover have "?P(i := Some ?r) = parent_of u" using par wr by (auto simp: fun_eq_iff)
  ultimately have "forest {} (E - {?r}) u" unfolding forest_iff con spl root nx by simp
  then show "forest {} E u" by (rule forest_mono) auto
qed

lemma stale_frame:
  assumes W: "side_ok t" "modes_ok t" "\<not> panicked t" and F: "forest {} E u"
    and K: "contains_key u = (contains_key t)(w := True)" and T: "tile_at u = tile_at t"
    and S: "strip u = (strip t)\<lparr>ipc_stale_nodes := insert w (ipc_stale_nodes t)\<rparr>"
    and P: "panicked u = panicked t" and N: "next_id t \<le> next_id u"
  shows "carries E t u"
proof -
  have sf: "fld u = fld t"
    if "\<And>t. fld (strip t) = fld t" "\<And>t x. fld (t\<lparr>ipc_stale_nodes := x\<rparr>) = fld t" for fld :: "tree \<Rightarrow> 'f"
    using that S by metis
  have f: "tree_root u = tree_root t" "focus u = focus t" "focus_history u = focus_history t"
    "last_entered_by u = last_entered_by t" "pending_modes u = pending_modes t"
    "mapped_under_fullscreen u = mapped_under_fullscreen t"
    "moved_under_fullscreen u = moved_under_fullscreen t"
    "fullscreen_layout_wrappers u = fullscreen_layout_wrappers t"
    "pre_layout_ipc_rects u = pre_layout_ipc_rects t" "tab_indicators u = tab_indicators t"
    "tab_active u = tab_active t"
    by (rule sf; simp add: strip_def)+
  have st: "ipc_stale_nodes u = insert w (ipc_stale_nodes t)"
    using arg_cong [OF S, of ipc_stale_nodes] by (simp add: strip_def)
  have "side_ok u" using W(1) unfolding side_ok_def f st K by auto
  moreover have "modes_ok u" using modes_ok_cong [OF f(5) _ W(2)] T by simp
  ultimately have "wft {} E u" using F P W(3) by (simp add: wft_def)
  moreover have "steady t u" using T N f by (simp add: steady_def)
  ultimately show ?thesis using f K by (auto simp: carries_def focus_in_def)
qed

lemma detach_frame:
  assumes W: "wft {} {} t" and i: "parent_of t i = Some op"
  shows "wft {i} {op} (fst (detach_subtree_only t i))" "steady t (fst (detach_subtree_only t i))"
    "focus_in X t \<Longrightarrow> focus_in X (fst (detach_subtree_only t i))"
proof -
  have F: "forest {} {} t" using W by (rule wfD)
  let ?d = "fst (detach_subtree_only t i)"
  note det = detach_forest [OF F i]
  have K: "contains_key ?d = contains_key t" using det(4) by (simp add: fun_eq_iff)
  have nx: "next_id ?d = next_id t"
    by (auto simp: detach_subtree_only_def remove_child_def panic_def Let_def split: option.split prod.split)
  show "wft {i} {op} ?d" by (rule wf_frame [OF W]) (use det K in simp_all)
  note sf = strip_fieldsD [OF strip_detach [of t i]]
  show "steady t ?d" using sf det(7) nx by (simp add: steady_def)
  show "focus_in X t \<Longrightarrow> focus_in X ?d" using sf(2) K by (simp add: focus_in_def)
qed

lemma distinct_singleton_set: "distinct xs \<Longrightarrow> set xs \<subseteq> {x} \<Longrightarrow> xs \<noteq> [] \<Longrightarrow> xs = [x]"
  by (cases xs; cases "tl xs") auto

lemma promote_by_wrapping_root_sound:
  assumes I: "inv t" and op: "parent_of t i = Some op"
    and ne: "\<not> (split_len t (tree_root t) = Some 1 \<and> parent_of t i = Some (tree_root t))"
  shows "sound t (fst (promote_by_wrapping_root t i d))"
proof -
  have W: "wft {} {} t" and F: "forest {} {} t" using I by (auto dest: invD)
  let ?d = "fst (detach_subtree_only t i)"
  note df = detach_frame [OF W op]
  have root: "tree_root ?d = tree_root t" by (rule strip_fieldsD(1)) simp
  obtain lr cs ps m where r: "get_split t (tree_root t) = Some (lr, cs, ps, m)" using F by (rule forest_root_split)
  obtain cs1 ps1 where d: "get_split ?d (tree_root t) = Some (lr, cs1, ps1, m)" "set cs1 = set cs - {i}" "distinct cs1"
    by (rule detach_reads [OF F op r])
  have ne1: "cs1 \<noteq> []"
  proof
    assume "cs1 = []"
    then have "set cs \<subseteq> {i}" using d(2) by auto
    moreover have "cs \<noteq> []"
    proof -
      have "below t i (tree_root t)" using below_root [OF F parent_of_contains [OF op]] .
      moreover have "i \<noteq> tree_root t" using op forest_root_parent [OF F] by auto
      ultimately obtain x where "parent_of t x = Some (tree_root t)" by (auto elim: rtranclE)
      then show ?thesis using forest_parentD [OF F] r by fastforce
    qed
    ultimately have "cs = [i]" by (intro distinct_singleton_set forest_splitD(1) [OF F r])
    then have "parent_of t i = Some (tree_root t)" "split_len t (tree_root t) = Some 1"
      using r forest_splitD(2) [OF F r] by (simp_all add: split_len_def children_of_def)
    then show False using ne by blast
  qed
  have r1: "get_split ?d (tree_root ?d) = Some (lr, cs1, ps1, m)" using d(1) by (simp add: root)
  note ws = wrap_root_for_direction_structure [OF wfD(1) [OF df(1)] r1 ne1, of d]
  let ?u = "wrap_root_for_direction ?d i d"
  have "carries {op} ?d ?u"
    by (rule stale_frame [OF wfD(2-4) [OF df(1)] ws(4,1,3,5,6)]) (simp add: ws(7))
  then have "carries {op} t ?u" using df(2,3) steady_trans by (auto simp: carries_def)
  then have c: "carries {} t (reap_empty_from ?u op)" by (rule carries_reap)
  then have "carries {} t (squash_for_move (reap_empty_from ?u op) (Some i))"
    using carries_shrinks [OF c squash_for_move_props] by (simp add: carries_def)
  then show ?thesis
    using sound_finish [OF I] by (simp add: promote_by_wrapping_root_def Let_def case_prod_beta detach_forest(2) [OF F op])
qed

section \<open>The directional walk\<close>

lemma not_below_leaf:
  assumes F: "forest D E t" and i: "tile_at t i = Some w" and p: "get_split t p = Some s"
  shows "\<not> below t p i"
proof
  assume "below t p i"
  then show False
  proof (cases rule: rtranclE)
    case base
    then show False using leaf_not_split [OF i] p by simp
  next
    case (step y)
    then have "parent_of t y = Some i" by simp
    then show False using forest_parentD [OF F] leaf_not_split [OF i] by fastforce
  qed
qed

lemma not_below_parent:
  assumes F: "forest D E t" and b: "below t i x" "parent_of t x = Some p"
  shows "\<not> below t p i"
  using links.no_self_loop [OF arena_okI [OF F] b(2)] b(1) rtrancl_trans by metis

lemma relocate_sound:
  fixes k :: nat
  assumes I: "inv t" and op: "parent_of t i = Some op" and p: "get_split t p = Some (l, cs, ps, m)" and nb: "\<not> below t p i"
  defines "u \<equiv> reap_empty_from (insert_child_at (fst (detach_subtree_only t i)) p i k) op"
  shows "sound t (finish_directional_move u i)" "sound t (finish_directional_move (compact_tree u) i)"
proof -
  have c: "carries {} t u"
    unfolding u_def by (rule carries_reap [OF relocate_carries(1) [OF invD(1) [OF I] op p nb]])
  have c2: "carries {} t (compact_tree u)"
    using carries_shrinks [OF c shrinks_compact] c by (simp add: carries_def)
  show "sound t (finish_directional_move u i)" using I c by (rule sound_finish)
  show "sound t (finish_directional_move (compact_tree u) i)" using I c2 by (rule sound_finish)
qed

lemma first_window_leaf_leaf:
  assumes F: "forest {} E t" and "first_window_leaf t = Some l"
  shows "is_leaf t l"
proof -
  obtain w where "vec_get (windows t) 0 = Some (l, w)"
    using assms(2) prod.collapse unfolding first_window_leaf_def map_option_eq_Some by metis
  then have "(l, w) \<in> set (windows t)" by (rule vec_get_mem)
  then show ?thesis using windows_mem [OF F] by auto
qed

lemma move_only_window_sound:
  assumes I: "inv t"
  shows "sound t (move_only_window t i0 d wanted)"
proof (cases "walk_reaches_unparallel_root t i0 wanted")
  case True
  define t1 where "t1 = set_layout t (tree_root t) wanted"
  have s1: "sound t t1" unfolding t1_def using set_layout_lawful [OF I] by (rule lawful_sound)
  note I1 = soundD(1) [OF s1]
  have F1: "forest {} {} t1" using I1 by (rule invD)
  define tgt where "tgt = (if contains_key t1 i0 then Some i0 else first_window_leaf t1)"
  obtain lr cs ps m where r: "get_split t1 (tree_root t1) = Some (lr, cs, ps, m)" using F1 by (rule forest_root_split)
  have "sound t1 (move_only_window t i0 d wanted)"
  proof (cases "\<exists>i p. tgt = Some i \<and> parent_of t1 i = Some p \<and> p \<noteq> tree_root t1")
    case False
    then have "move_only_window t i0 d wanted = t1"
      using True unfolding move_only_window_def Let_def t1_def [symmetric] tgt_def [symmetric]
      by (auto split: option.splits)
    then show ?thesis using sound_refl [OF I1] by simp
  next
    case ex: True
    then obtain i p where ip: "tgt = Some i" "parent_of t1 i = Some p" "p \<noteq> tree_root t1" by blast
    have "i \<noteq> tree_root t1" using ip(2) forest_root_parent [OF F1] by auto
    then have nb: "\<not> below t1 (tree_root t1) i" using below_root_iff [OF F1] by auto
    have rt: "tree_root (fst (detach_subtree_only t1 i)) = tree_root t1" by (rule strip_fieldsD(1)) simp
    show ?thesis
      using relocate_sound(1) [OF I1 ip(2) r nb] True ip
      unfolding move_only_window_def Let_def t1_def [symmetric] tgt_def [symmetric] by (simp add: rt)
  qed
  then show ?thesis using s1 sound_trans by blast
next
  case False
  have F: "forest {} {} t" using I by (rule invD)
  show ?thesis
  proof (cases "\<exists>leaf op a dst k. first_window_leaf t = Some leaf \<and> parent_of t leaf = Some op \<and> op \<noteq> tree_root t \<and>
      promotion_ancestor (walk_fuel t) t leaf wanted leaf = Some a \<and> parent_of t a = Some dst \<and> child_index t dst a = Some k")
    case n: False
    then have "move_only_window t i0 d wanted = t"
      using False unfolding move_only_window_def by (auto split: option.splits)
    then show ?thesis using sound_refl [OF I] by simp
  next
    case True
    then obtain leaf op a dst k where h: "first_window_leaf t = Some leaf" "parent_of t leaf = Some op" "op \<noteq> tree_root t"
      "promotion_ancestor (walk_fuel t) t leaf wanted leaf = Some a" "parent_of t a = Some dst" "child_index t dst a = Some k"
      by blast
    obtain w where w: "tile_at t leaf = Some w" using first_window_leaf_leaf [OF F h(1)] by blast
    obtain l cs ps m where sp: "get_split t dst = Some (l, cs, ps, m)" using F h(5) by (rule forest_parentD)
    show ?thesis
      using False h relocate_sound(2) [OF I h(2) sp not_below_leaf [OF F w sp]] sound_refl [OF I]
      by (simp add: move_only_window_def Let_def cong: if_cong)
  qed
qed

lemma step_child_other:
  assumes "distinct cs" "position b cs = Some k" "step_child f cs k = Some c"
  shows "c \<in> set cs" "c \<noteq> b"
proof -
  have k: "k < length cs" "cs ! k = b" using position_Some [OF assms(2)] by auto
  show "c \<in> set cs" using assms(3) by (rule step_child_mem)
  obtain j where j: "j < length cs" "c = cs ! j" "j \<noteq> k"
    using assms(3) k by (auto simp: step_child_def vec_get_def split: if_splits)
  then show "c \<noteq> b" using assms(1) k nth_eq_iff_index_eq by metis
qed

lemma move_walk_sound:
  assumes I: "inv t" and op: "parent_of t i = Some op"
    and ne: "\<not> (split_len t (tree_root t) = Some 1 \<and> parent_of t i = Some (tree_root t))"
  shows "below t i b \<Longrightarrow> contains_key t b \<Longrightarrow> node_depth t b < k \<Longrightarrow>
    sound t (fst (move_walk k t i d br b (parent_of t b)))"
proof (induction k arbitrary: b)
  case (Suc k)
  have F: "forest {} {} t" using I by (rule invD)
  note rfl = sound_refl [OF I]
  show ?case
  proof (cases "parent_of t b")
    case None
    then show ?thesis using promote_by_wrapping_root_sound [OF I op ne, of d] rfl by simp
  next
    case (Some p)
    obtain l cs ps m where sp: "get_split t p = Some (l, cs, ps, m)" "b \<in> set cs" using F Some by (rule forest_parentD)
    have bp: "below t i p" using Suc.prems(1) Some by (meson rtrancl.rtrancl_into_rtrancl up_edges_iff)
    have pK: "contains_key t p" using sp(1) by (rule get_split_contains)
    have ih: "sound t (fst (move_walk k t i d br p (parent_of t p)))"
      by (rule Suc.IH [OF bp pK]) (use Suc.prems(3) node_depth_child [OF F Some] in simp)
    obtain x where x: "position b cs = Some x" using position_ex [OF sp(2)] by blast
    have into: "sound t (fst (move_into_directional_destination t i c d))" if "step_child f cs x = Some c" for c f
    proof (rule move_into_directional_destination_sound [OF I op])
      note c = step_child_other [OF forest_splitD(1) [OF F sp(1)] x that]
      show "contains_key t c" using F sp(1) c(1) by (rule child_contains)
      show "\<not> below t q i" if "below t q c" for q
        using siblings_disjoint [OF F sp(1) c(1) sp(2) c(2) that] Suc.prems(1) rtrancl_trans by metis
    qed
    have prom: "sound t (fst (promote_to_boundary t i p bw wanted))" if "b \<noteq> i" for bw wanted
    proof (rule promote_to_boundary_sound [OF I op sp(1)])
      show "\<not> below t p i" using F Suc.prems(1) Some by (rule not_below_parent)
      have "below t op b" using Suc.prems(1) that op by (auto elim: converse_rtranclE)
      then show "p \<noteq> op" using links.no_self_loop [OF arena_okI [OF F] Some] by auto
      show "cs \<noteq> []" using sp(2) by auto
    qed
    have idx: "sound t (fst (move_subtree_to_index_inner t i n))" for n
      using move_subtree_to_index_inner_lawful [OF I] by (rule lawful_sound)
    show ?thesis
      using ih into prom idx rfl Some sp(1) x by (auto simp: Let_def split: option.split)
  qed
qed simp

lemma move_direction_inner_sound:
  assumes I: "inv t"
  shows "sound t (fst (move_direction_inner t i d))"
proof -
  define u where "u = t\<lparr>interactive_resize_st := None\<rparr>"
  have L: "lawful t u" unfolding u_def by (rule lawful_same_core [OF I]) simp
  note Iu = lawfulD(1) [OF L]
  have F: "forest {} {} u" using Iu by (rule invD)
  have "sound u (fst (move_walk (walk_fuel u) u i d br i (parent_of u i)))"
    if i: "contains_key t i" "i \<noteq> tree_root t"
      and ne: "\<not> (split_len u (tree_root u) = Some 1 \<and> root_branch u i = Some i)" for br
  proof -
    have iK: "contains_key u i" "i \<noteq> tree_root u" using i by (simp_all add: u_def contains_key_def)
    obtain op where op: "parent_of u i = Some op" using forest_top [OF F iK(1)] iK(2) by blast
    have "root_branch u i = Some i" if "parent_of u i = Some (tree_root u)"
      using that by (simp add: root_branch_def walk_fuel_def)
    then show ?thesis
      using ne node_depth_bound [OF F iK(1)] by (intro move_walk_sound [OF Iu op _ _ iK(1)]) (auto simp: walk_fuel_def)
  qed
  moreover have "sound u (move_only_window u i d wanted)" for wanted using Iu by (rule move_only_window_sound)
  moreover have "sound u (set_layout u (tree_root u) wanted)" for wanted
    using set_layout_lawful [OF Iu] by (rule lawful_sound)
  moreover note sound_refl [OF Iu]
  ultimately have "sound t (fst (move_direction_inner t i d)) \<or> sound u (fst (move_direction_inner t i d))"
    unfolding move_direction_inner_def Let_def u_def [symmetric] using sound_refl [OF I] by simp
  then show ?thesis using sound_trans [OF lawful_sound [OF L]] by blast
qed

theorem move_direction_sound: "inv t \<Longrightarrow> sound t (fst (move_direction t i d))"
proof -
  assume "inv t"
  then have s: "sound t (fst (move_direction_inner t i d))" by (rule move_direction_inner_sound)
  note L = lawful_log [OF lawful_compact [OF soundD(1) [OF s]]]
  then show ?thesis
    using s sound_lawful [OF s L] by (simp add: move_direction_def Let_def case_prod_beta calls_are_log)
qed

section \<open>Moving a node without moving the focus\<close>

text \<open>The windows of one tree have different identifiers, as smithay hands out one per surface.\<close>

definition distinct_windows :: "tree \<Rightarrow> bool" where
  "distinct_windows t \<longleftrightarrow> (\<forall>i j x y. tile_at t i = Some x \<longrightarrow> tile_at t j = Some y \<longrightarrow>
     window_id x = window_id y \<longrightarrow> i = j)"

lemma node_for_own_window:
  assumes F: "forest {} E t" and dw: "distinct_windows t" and i: "tile_at t i = Some x"
  shows "node_for_window t (window_id x) = Some i"
proof (cases "node_for_window t (window_id x)")
  case None
  then show ?thesis using node_for_window_None [OF F] i None by auto
next
  case (Some j)
  then obtain y where "tile_at t j = Some y" "window_id y = window_id x" using F by (metis node_for_window_Some)
  then show ?thesis using Some dw i by (auto simp: distinct_windows_def)
qed

lemma map_filter_restore:
  assumes "\<And>i w. f i = Some w \<Longrightarrow> g w = Some i"
  shows "List.map_filter g (List.map_filter f xs) = filter (\<lambda>i. f i \<noteq> None) xs"
  using assms by (induction xs) (auto simp: List.map_filter_simps)

lemma restored_history:
  assumes I: "inv u" and dw: "distinct_windows t" and T: "tile_at u = tile_at t"
  shows "List.map_filter (node_for_window u) (window_focus_history t) =
    filter (\<lambda>i. tile_at t i \<noteq> None) (focus_history t)"
proof -
  have dwu: "distinct_windows u" using dw T by (simp add: distinct_windows_def)
  show ?thesis
    unfolding window_focus_history_def
    using map_filter_restore [where f = "\<lambda>i. map_option window_id (tile_at t i)" and g = "node_for_window u" and xs = "focus_history t"]
      node_for_own_window [OF invD(4) [OF I] dwu] by (auto simp: T)
qed

lemma append_histories_lawful:
  assumes "lawful t u"
  shows "lawful t (fold (\<lambda>n t. if contains_key t n \<and> n \<notin> set (focus_history t)
    then t\<lparr>focus_history := focus_history t @ [n]\<rparr> else t) xs u)"
  using assms
proof (induction xs arbitrary: u)
  case (Cons n xs)
  note Iu = lawfulD(1) [OF Cons.prems]
  have "lawful u (if contains_key u n \<and> n \<notin> set (focus_history u)
      then u\<lparr>focus_history := focus_history u @ [n]\<rparr> else u)"
    using side_okD(1,2) [OF invD(5) [OF Iu]] lawful_refl [OF Iu] by (auto intro!: lawful_history [OF Iu])
  then show ?case using Cons.IH lawful_trans [OF Cons.prems] by simp
qed simp

lemma lawful_put_focus:
  assumes I: "inv t" and x: "contains_key t x" and f: "focus t \<noteq> None"
  shows "lawful t (t\<lparr>focus := Some x\<rparr>)"
proof -
  let ?u = "t\<lparr>focus := Some x\<rparr>"
  have n: "nodes ?u = nodes t" "tree_root ?u = tree_root t" "next_id ?u = next_id t" by simp_all
  note r = same_nodes_reads [OF n(1)]
  have "side_ok ?u \<longleftrightarrow> side_ok t" unfolding side_ok_def r by simp
  moreover have "modes_ok ?u \<longleftrightarrow> modes_ok t" unfolding modes_ok_def r fullscreen_mode_def by simp
  ultimately have "inv ?u"
    using I f x forest_cong [OF n, of "{}" "{}"] unfolding inv_def wft_def focus_in_def r by simp
  moreover have "depth_ok ?u = depth_ok t" by (rule depth_ok_cong) (simp_all add: r)
  ultimately show ?thesis using f r(4) by (simp add: lawful_def steady_def)
qed

theorem move_node_direction_sound:
  assumes I: "inv t" and dw: "distinct_windows t"
  shows "sound t (fst (move_node_direction t i d))"
proof -
  let ?cs = "filter (is_split t) (focus_history t)"
  define t1 where "t1 = fst (move_direction t i d)"
  define ch where "ch = snd (move_direction t i d)"
  have s1: "sound t t1" unfolding t1_def using I by (rule move_direction_sound)
  note I1 = soundD(1) [OF s1]
  have "lawful t1 (restore_window_focus_history t1 (window_focus_history t))"
    unfolding restore_window_focus_history_def restored_history [OF I1 dw soundD(3) [OF s1]]
    using side_okD(1,2) [OF invD(5) [OF I]] soundD(3) [OF s1] tile_at_contains [of t1]
    by (intro lawful_history [OF I1]) auto
  define t2 where "t2 = (if ch then fold (\<lambda>n t. if contains_key t n \<and> n \<notin> set (focus_history t)
        then t\<lparr>focus_history := focus_history t @ [n]\<rparr> else t) ?cs (restore_window_focus_history t1 (window_focus_history t))
      else t1)"
  have "lawful t1 t2"
    unfolding t2_def using append_histories_lawful [OF \<open>lawful t1 (restore_window_focus_history t1 _)\<close>] lawful_refl [OF I1]
    by simp
  then have s2: "sound t t2" using s1 sound_lawful by blast
  have eq: "fst (move_node_direction t i d) =
      (if \<not> (case focus t of Some x \<Rightarrow> contains_node t i x | None \<Rightarrow> False) \<and>
          (case focus t of Some x \<Rightarrow> contains_key t2 x | None \<Rightarrow> False) then t2\<lparr>focus := focus t\<rparr> else t2)"
    unfolding move_node_direction_def Let_def case_prod_beta t1_def [symmetric] ch_def [symmetric] t2_def [symmetric]
    by simp
  have "lawful t2 (t2\<lparr>focus := focus t\<rparr>)" if "focus t = Some x" "contains_key t2 x" for x
    using lawful_put_focus [OF soundD(1) [OF s2] that(2)] soundD(2) [OF s2] that(1) by (auto simp: steady_def)
  then have "sound t (t2\<lparr>focus := focus t\<rparr>)" if "focus t = Some x" "contains_key t2 x" for x
    using sound_lawful [OF s2] that by blast
  then show ?thesis using s2 by (auto simp: eq split: option.split)
qed

end
