(* ===== verification/Exchange_Laws.thy ===== *)
theory Exchange_Laws
  imports Direction_Laws
begin

text \<open>
  Laws of swapping two subtrees, of expelling a node beside its parent and of consuming it into a
  new container with its neighbour: the invariant, every window in its node and the nesting bound.
\<close>

section \<open>Expelling\<close>

lemma detach_as_remove:
  assumes F: "forest D E t" and c: "parent_of t c = Some p"
  shows "fst (detach_subtree_only t c) = set_parent (remove_child t p c) c None"
proof -
  obtain l cs ps m where p: "get_split t p = Some (l, cs, ps, m)" using F c by (rule forest_parentD)
  obtain k where k: "remove_child t p c = set_value t p (Split l (remove_at k cs) (rescale (remove_at k ps)) m)"
    using F c p by (rule remove_child_eq)
  have "contains_key t c" using c by (rule parent_of_contains)
  then show ?thesis using c k by (auto simp: detach_subtree_only_def Let_def nodes_absent)
qed

lemma put_set_parent: "p \<noteq> c \<Longrightarrow> put (set_parent t c q) p v c = put t p v c"
  by (cases "nodes t c"; cases "nodes t p") (auto simp: put_def set_value_def set_parent_def fun_eq_iff fun_upd_def)

lemma insert_existing_put:
  assumes "get_split t p = Some (l, cs, ps, m)" "position b cs = Some k" "length ps = length cs" "contains_key t c"
  shows "insert_existing_child t p c j b =
    put t p (Split l (insert_at (min j (length cs)) c cs)
      (insert_at (min j (length cs)) (ps ! k / 2) (ps[k := ps ! k / 2])) m) c"
  using assms position_Some [OF assms(2)]
  by (simp add: insert_existing_child_def nodes_absent Let_def put_def)

lemma expel_lawful:
  assumes I: "inv t"
  shows "lawful t (fst (expel t i after))"
proof -
  define u where "u = t\<lparr>interactive_resize_st := None\<rparr>"
  have L: "lawful t u" unfolding u_def by (rule lawful_same_core [OF I]) simp
  note Iu = lawfulD(1) [OF L]
  have W: "wft {} {} u" and F: "forest {} {} u" using Iu by (auto dest: invD)
  have pu: "parent_of u = parent_of t" by (simp add: u_def parent_of_def fun_eq_iff)
  show ?thesis
  proof (cases "\<exists>p g. parent_of t i = Some p \<and> parent_of t p = Some g")
    case False
    then have "fst (expel t i after) = t" by (auto simp: expel_def split: option.splits)
    then show ?thesis using lawful_refl [OF I] by simp
  next
    case True
    then obtain p g where p: "parent_of u i = Some p" and g: "parent_of u p = Some g" using pu by auto
    obtain l cs ps m where sg: "get_split u g = Some (l, cs, ps, m)" "p \<in> set cs" using F g by (rule forest_parentD)
    have gp: "g \<noteq> p" using links.no_self_loop [OF arena_okI [OF F] g] by auto
    have nb: "\<not> below u g i" using not_below_parent [OF F _ g, of i] p by (metis r_into_rtrancl up_edges_iff)
    have gi: "g \<noteq> i" using nb by auto
    obtain k where k: "position p cs = Some k" using position_ex [OF sg(2)] by blast
    note kp = position_Some [OF k]
    let ?d = "fst (detach_subtree_only u i)"
    obtain cs1 ps1 where d: "get_split ?d g = Some (l, cs1, ps1, m)" "length ps1 = length cs1" "shares ps1"
      "distinct cs1" "i \<notin> set cs1" "cs1 = cs \<and> ps1 = ps"
      using gp by (auto intro: detach_reads [OF F p sg(1)])
    have iK: "contains_key ?d i" using detach_forest(4) [OF F p] parent_of_contains [OF p] by simp
    let ?n = "k + (if after then 1 else 0)"
    let ?cs = "insert_at (min ?n (length cs)) i cs"
    let ?ps = "insert_at (min ?n (length cs)) (ps ! k / 2) (ps[k := ps ! k / 2])"
    define t2 where "t2 = put ?d g (Split l ?cs ?ps m) i"
    have rm: "put (remove_child u p i) g (Split l ?cs ?ps m) i = t2"
      unfolding t2_def detach_as_remove [OF F p] by (rule put_set_parent [OF gi, symmetric])
    have rg: "get_split (remove_child u p i) g = Some (l, cs, ps, m)" "contains_key (remove_child u p i) i"
      using d iK detach_as_remove [OF F p] by auto
    have ins: "insert_existing_child (remove_child u p i) g i ?n p = t2"
      unfolding rm [symmetric] by (rule insert_existing_put [OF rg(1) k _ rg(2)]) (use d in simp)
    have kl: "k < length ps" using kp d by simp
    have sh: "shares ?ps" "length ?ps = length ?cs"
      using shares_split_half [of ps k "min ?n (length cs)"] kl d by simp_all
    have csd: "distinct ?cs" "set ?cs = insert i (set cs1)" using d by auto
    note pc = put_carries [OF W p nb d(1) csd sh(2,1), of l m, folded t2_def]
    have W2: "wft {} {p} t2" using pc(1) by (simp add: carries_def)
    note sc = collapse_from_props [OF W2]
    have c3: "carries {} u (collapse_from t2 p)" using carries_shrinks [OF pc(1) sc] .
    note s3 = carries_sound [OF Iu c3]
    have e: "(i, p) \<in> up_edges (parent_of u)" "(p, g) \<in> up_edges (parent_of u)" using p g by simp_all
    have "shortcuts u t2"
      unfolding shortcuts_def pc(3) using trancl.trancl_into_trancl [OF r_into_trancl [OF e(1)] e(2)]
      by (auto simp: up_edges_def split: if_splits)
    moreover have "shortcuts t2 (collapse_from t2 p)" "\<And>x. contains_key (collapse_from t2 p) x \<Longrightarrow> contains_key t2 x"
      using sc by (auto simp: shrinks_def)
    moreover have "tree_root (collapse_from t2 p) = tree_root u" using soundD(2) [OF s3] by (simp add: steady_def)
    ultimately have "depth_ok (collapse_from t2 p)" if "depth_ok u"
      unfolding depth_ok_def
      using shortcut_depth [OF F invD(4) [OF soundD(1) [OF s3]]] shortcuts_trans that pc(2)
      by (metis depth_ok_def order_trans)
    then have L3: "lawful u (collapse_from t2 p)" using s3 by (simp add: lawful_def sound_def)
    have "lawful u (request_window_sizes (animate_geometry_changes (compact_tree (collapse_from t2 p)) None))"
      unfolding calls_are_log
      by (intro lawful_log lawful_trans [OF L3 lawful_compact [OF lawfulD(1) [OF L3]]])
    moreover have "child_index u g p = Some k" using sg(1) k by (simp add: child_index_def children_of_def)
    ultimately have "lawful u (fst (expel t i after))"
      using p g ins unfolding expel_def Let_def u_def [symmetric] pu [symmetric] by simp
    with L show ?thesis by (rule lawful_trans)
  qed
qed

section \<open>Swapping\<close>

lemma swap_list_both:
  assumes "distinct cs" "ia < length cs" "ib < length cs" "cs ! ia = a" "cs ! ib = b"
  shows "cs[ia := b, ib := a] = map (\<lambda>x. if x = a then b else if x = b then a else x) cs"
  using assms by (intro nth_equalityI) (auto simp: nth_list_update nth_eq_iff_index_eq)

lemma swap_list_one:
  assumes "distinct cs" "ia < length cs" "cs ! ia = a" "b \<notin> set cs"
  shows "cs[ia := b] = map (\<lambda>x. if x = a then b else if x = b then a else x) cs"
  using assms by (intro nth_equalityI) (auto simp: nth_list_update nth_eq_iff_index_eq)

lemma swap_list_none:
  assumes "a \<notin> set cs" "b \<notin> set cs"
  shows "map (\<lambda>x. if x = a then b else if x = b then a else x) cs = cs"
  using assms by (intro map_idI) auto

text \<open>The links after the two replacements are those with the two nodes exchanged everywhere.\<close>

lemma swap_links:
  assumes F: "forest {} {} t" and a: "parent_of t a = Some pa" and b: "parent_of t b = Some pb" and ne: "a \<noteq> b"
    and ia: "child_index t pa a = Some ia" and ib: "child_index t pb b = Some ib"
  defines "u \<equiv> replace_child (replace_child t pa ia b) pb ib a"
  shows "get_split u i = (case get_split t i of
      Some (l, cs, ps, m) \<Rightarrow> Some (l, map (\<lambda>x. if x = a then b else if x = b then a else x) cs, ps, m)
    | None \<Rightarrow> None)"
    "contains_key u = contains_key t" "parent_of u = parent_of t" "tile_at u = tile_at t" "strip u = strip t"
    "panicked u = panicked t" "next_id u = next_id t"
proof -
  obtain la csa psa ma where sa: "get_split t pa = Some (la, csa, psa, ma)" using F a by (rule forest_parentD)
  obtain lb csb psb mb where sb: "get_split t pb = Some (lb, csb, psb, mb)" using F b by (rule forest_parentD)
  have ka: "ia < length csa" "csa ! ia = a"
    using position_Some [of a csa ia] ia sa by (auto simp: child_index_def children_of_def)
  have kb: "ib < length csb" "csb ! ib = b"
    using position_Some [of b csb ib] ib sb by (auto simp: child_index_def children_of_def)
  note da = forest_splitD [OF F sa] and db = forest_splitD [OF F sb]
  let ?f = "\<lambda>x. if x = a then b else if x = b then a else x"
  have paK: "contains_key t pa" using sa by (rule get_split_contains)
  have pbK: "contains_key t pb" using sb by (rule get_split_contains)
  define v where "v = set_value t pa (Split la (csa[ia := b]) psa ma)"
  have v: "replace_child t pa ia b = v" using sa ka by (simp add: replace_child_def v_def)
  have gv: "get_split v = (get_split t)(pa := Some (la, csa[ia := b], psa, ma))"
    using paK by (auto simp: v_def fun_eq_iff)
  define cs2 where "cs2 = (if pa = pb then csb[ia := b] else csb)"
  have sb2: "get_split v pb = Some (lb, cs2, psb, mb)" using gv sb sa by (auto simp: cs2_def)
  have u: "u = set_value v pb (Split lb (cs2[ib := a]) psb mb)"
    unfolding u_def v replace_child_def [of v] using sb2 kb by (simp add: cs2_def)
  have gu: "get_split u = (get_split v)(pb := Some (lb, cs2[ib := a], psb, mb))"
    using get_split_contains [OF sb2] by (auto simp: u fun_eq_iff)
  have other: "a \<notin> set cs" "b \<notin> set cs" if "get_split t i = Some (l, cs, ps, m)" "i \<noteq> pa" "i \<noteq> pb" for l cs ps m
    using forest_splitD(2) [OF F that(1)] a b that(2,3) by auto
  show "get_split u i = (case get_split t i of
      Some (l, cs, ps, m) \<Rightarrow> Some (l, map ?f cs, ps, m) | None \<Rightarrow> None)"
  proof (cases "pa = pb")
    case True
    then have e: "csb = csa" "ib < length csa" "csa ! ib = b" "lb = la" "psb = psa" "mb = ma" using sa sb kb by auto
    show ?thesis
    proof (cases "i = pa")
      case True
      then show ?thesis
        using gu gv \<open>pa = pb\<close> sa e swap_list_both [OF da(1) ka(1) e(2) ka(2) e(3)] by (simp add: cs2_def)
    next
      case False
      then have "get_split u i = get_split t i" using gu gv \<open>pa = pb\<close> by simp
      then show ?thesis using other False \<open>pa = pb\<close> by (auto simp: swap_list_none split: option.split)
    qed
  next
    case False
    have ab: "b \<notin> set csa" "a \<notin> set csb" using da(2) db(2) a b False by fastforce+
    have "csb[ib := a] = map (\<lambda>x. if x = b then a else if x = a then b else x) csb"
      using swap_list_one [OF db(1) kb ab(2)] .
    also have "\<dots> = map ?f csb" using ne by (intro map_cong) auto
    finally have fb: "csb[ib := a] = map ?f csb" .
    note fa = swap_list_one [OF da(1) ka ab(1)]
    consider "i = pa" | "i = pb" | "i \<noteq> pa" "i \<noteq> pb" by blast
    then show ?thesis
    proof cases
      case 1
      then show ?thesis using gu gv sa fa False by simp
    next
      case 2
      then show ?thesis using gu sb fb False by (simp add: cs2_def)
    next
      case 3
      then have "get_split u i = get_split t i" using gu gv by simp
      then show ?thesis using other 3 by (auto simp: swap_list_none split: option.split)
    qed
  qed
  show "contains_key u = contains_key t" "parent_of u = parent_of t" "strip u = strip t"
    "panicked u = panicked t" "next_id u = next_id t"
    by (simp_all add: u v_def fun_eq_iff)
  have "tile_at v = tile_at t" using relabel_tiles [OF sa] by (simp add: v_def)
  then show "tile_at u = tile_at t" using relabel_tiles [OF sb2] by (simp add: u)
qed

lemma swap_depth:
  assumes F: "forest {} {} t" and F': "forest {} {} u" and a: "parent_of t a = Some pa" and b: "parent_of t b = Some pb"
    and K: "contains_key u = contains_key t" and P: "parent_of u = (parent_of t)(a := Some pb, b := Some pa)"
    and inc: "\<not> below t a b" "\<not> below t b a"
    and fits: "fits_at t a (subtree_height t b)" "fits_at t b (subtree_height t a)" and ok: "depth_ok t"
  shows "depth_ok u"
proof -
  let ?n = "node_depth t"
  define h where "h = (\<lambda>x. if below t x a then ?n b + (?n x - ?n a) else if below t x b then ?n a + (?n x - ?n b) else ?n x)"
  have ne: "a \<noteq> b" using inc by auto
  have aK: "contains_key t a" and bK: "contains_key t b" using a b by (auto intro: parent_of_contains)
  have split: "\<exists>n. (x, y) \<in> steps t n \<and> ?n x = n + ?n y" if "below t x y" "contains_key t x" for x y
    using that node_depth_step [OF F] rtrancl_imp_relpow by metis
  have da: "?n a = Suc (?n pa)" "?n b = Suc (?n pb)" using node_depth_child [OF F] a b by auto
  have up: "\<not> below t pa a" "\<not> below t pb b" "\<not> below t pa b" "\<not> below t pb a"
    using not_below_parent [OF F _ a, of a] not_below_parent [OF F _ b, of b] inc a b
    by (auto, (meson converse_rtrancl_into_rtrancl up_edges_iff)+)
  have ha: "h a = ?n b" "h b = ?n a" using inc by (simp_all add: h_def)
  have "Suc (h q) \<le> h x" if q: "parent_of u x = Some q" for x q
  proof -
    consider "x = a" | "x = b" | "x \<noteq> a" "x \<noteq> b" by blast
    then show ?thesis
    proof cases
      case 1
      then have "q = pb" using q P ne by simp
      then show ?thesis using 1 ha da up by (simp add: h_def)
    next
      case 2
      then have "q = pa" using q P by simp
      then show ?thesis using 2 ha da up by (simp add: h_def)
    next
      case 3
      then have q: "parent_of t x = Some q" using q P by simp
      have step: "below t x y \<longleftrightarrow> below t q y" if "x \<noteq> y" for y
        using q that by (metis converse_rtranclE converse_rtrancl_into_rtrancl option.inject up_edges_iff)
      have qK: "contains_key t q" using F q by (rule forest_parentD) (rule get_split_contains)
      have "?n x = Suc (?n q)" using F q by (rule node_depth_child)
      moreover have "?n y \<le> ?n q" if "below t q y" for y using split [OF that qK] by auto
      ultimately show ?thesis using step 3 by (auto simp: h_def Suc_diff_le)
    qed
  qed
  then have le: "node_depth u x \<le> h x" if "contains_key u x" for x using depth_le_potential [OF F'] that by blast
  have "h x \<le> MAX_TREE_DEPTH" if x: "contains_key t x" for x
  proof -
    have bnd: "?n z + (?n x - ?n y) \<le> MAX_TREE_DEPTH"
      if "below t x y" "contains_key t y" "fits_at t z (subtree_height t y)" for y z
    proof -
      from split [OF that(1) x] obtain n where n: "(x, y) \<in> steps t n" "?n x = n + ?n y" by blast
      have "n < subtree_height t y" by (rule subtree_height_bound [OF F that(2) n(1)])
      then show ?thesis using that(3) n(2) by (simp add: fits_at_def)
    qed
    show ?thesis using bnd aK bK fits ok x by (auto simp: h_def depth_ok_def)
  qed
  then show ?thesis using le K by (auto simp: depth_ok_def intro: le_trans)
qed

lemma set_pending_commute:
  "a \<noteq> b \<Longrightarrow> set_pending_fullscreen (set_pending_fullscreen t a x) b y =
    set_pending_fullscreen (set_pending_fullscreen t b y) a x"
  by (cases "pending_modes t a"; cases "pending_modes t b") (simp_all add: set_pending_fullscreen_def fun_upd_twist)

lemma swap_fullscreen_modes_lawful:
  assumes I: "inv t" and K: "contains_key t a" "contains_key t b" and ne: "a \<noteq> b"
  shows "lawful t (swap_fullscreen_modes t a b)"
proof -
  have uniq: "fullscreen_mode t j = None" if "fullscreen_mode t i \<noteq> None" "j \<noteq> i" for i j
    using invD(6) [OF I] that by (auto simp: modes_ok_def)
  have "inv (swap_fullscreen_modes t a b)"
  proof (cases "fullscreen_mode t b")
    case None
    let ?t1 = "set_pending_fullscreen t a None"
    have "inv ?t1" using inv_set_pending [OF I K(1)] by simp
    moreover have "fullscreen_mode t a = None \<or> (\<forall>j. j \<noteq> b \<longrightarrow> fullscreen_mode ?t1 j = None)"
      using uniq by auto
    ultimately show ?thesis using inv_set_pending [of ?t1 b] K None by (simp add: swap_fullscreen_modes_def)
  next
    case (Some f)
    have fa: "fullscreen_mode t a = None" using uniq [of b a] Some ne by simp
    let ?t1 = "set_pending_fullscreen t b None"
    have "inv ?t1" using inv_set_pending [OF I K(2)] by simp
    moreover have "\<forall>j. j \<noteq> a \<longrightarrow> fullscreen_mode ?t1 j = None" using uniq [of b] Some by simp
    ultimately have "inv (set_pending_fullscreen ?t1 a (Some f))" using inv_set_pending [of ?t1 a] K by simp
    then show ?thesis using fa Some set_pending_commute [OF ne] by (simp add: swap_fullscreen_modes_def)
  qed
  moreover have "depth_ok (swap_fullscreen_modes t a b) = depth_ok t"
    by (rule depth_ok_cong) (simp_all add: swap_fullscreen_modes_def)
  ultimately show ?thesis by (simp add: lawful_def steady_def) (simp add: swap_fullscreen_modes_def)
qed

theorem swap_nodes_lawful:
  assumes I: "inv t"
  shows "lawful t (fst (swap_nodes t a b))"
proof (cases "\<exists>x pa pb ia ib. check_swappable t a b = Inr x \<and> parent_of t a = Some pa \<and> parent_of t b = Some pb \<and>
    child_index t pa a = Some ia \<and> child_index t pb b = Some ib")
  case False
  then have "fst (swap_nodes t a b) = t" by (auto simp: swap_nodes_def split: sum.splits option.splits)
  then show ?thesis using lawful_refl [OF I] by simp
next
  case True
  then obtain pa pb ia ib x where h: "check_swappable t a b = Inr x" "parent_of t a = Some pa" "parent_of t b = Some pb"
    "child_index t pa a = Some ia" "child_index t pb b = Some ib" by blast
  have W: "wft {} {} t" and F: "forest {} {} t" using I by (auto dest: invD)
  have c: "contains_key t a" "contains_key t b" "a \<noteq> b" "\<not> below t a b" "\<not> below t b a"
    "fits_at t a (subtree_height t b)" "fits_at t b (subtree_height t a)"
    using h(1) contains_node_iff [OF F] by (auto simp: check_swappable_def split: if_splits)
  define t2 where "t2 = replace_child (replace_child t pa ia b) pb ib a"
  note sl = swap_links [OF F h(2,3) c(3) h(4,5), folded t2_def]
  define t3 where "t3 = set_parent (set_parent t2 a (Some pb)) b (Some pa)"
  have K: "contains_key t3 = contains_key t" using sl(2) by (simp add: t3_def fun_eq_iff)
  have P: "parent_of t3 = (parent_of t)(a := Some pb, b := Some pa)"
    using sl(2,3) c(1,2,3) by (auto simp: t3_def fun_eq_iff)
  have T: "tile_at t3 = tile_at t" using sl(4) by (simp add: t3_def fun_eq_iff)
  have st: "strip t3 = strip t" using sl(5) by (simp add: t3_def)
  have "aforest (tree_root t) (next_id t) {} {} (contains_key t) ((parent_of t)(a := Some pb, b := Some pa)) (get_split t3)"
    by (rule aforest_swap [OF F [unfolded forest_iff] h(2,3) c(4,5)]) (simp add: t3_def sl(1))
  then have F3: "forest {} {} t3"
    unfolding forest_iff K P using sl(7) strip_fieldsD(1) [OF st] by (simp add: t3_def)
  have W3: "wft {} {} t3" by (rule wf_frame [OF W F3 st]) (simp_all add: K T, simp add: t3_def sl(6))
  have s3: "steady t t3" using T strip_fieldsD [OF st] sl(7) by (simp add: steady_def t3_def)
  have I3: "inv t3" by (rule inv_step [OF I s3 W3]) (use invD(2) [OF I] strip_fieldsD(2) [OF st] K in \<open>simp add: focus_in_def\<close>)
  have L3: "lawful t t3"
    using I3 s3 swap_depth [OF F F3 h(2,3) K P c(4-7)] by (simp add: lawful_def)
  define t4 where "t4 = swap_fullscreen_modes t3 a b"
  have "lawful t3 t4" unfolding t4_def by (rule swap_fullscreen_modes_lawful [OF I3]) (simp_all add: K c)
  with L3 have L4: "lawful t t4" by (rule lawful_trans)
  note I4 = lawfulD(1) [OF L4]
  have K4: "contains_key t4 = contains_key t" "focus t4 = focus t"
    using K strip_fieldsD(2) [OF st] by (simp_all add: t4_def swap_fullscreen_modes_def)
  define f where "f = focus_after_swap t a pa b pb"
  have "focusable t4 f"
  proof (cases "focus t")
    case None
    then have "f = focus t4" using K4 by (simp add: f_def focus_after_swap_def)
    then show ?thesis using focusable_old [OF I4] by simp
  next
    case (Some y)
    then have "f \<noteq> focus t4 \<Longrightarrow> f = Some a \<or> f = Some b" using K4 by (auto simp: f_def focus_after_swap_def split: if_splits)
    then show ?thesis using focusable_old [OF I4] focusable_Some [of t4] K4 c(1,2) Some by auto
  qed
  then have "lawful t4 (if focus t4 \<noteq> f then set_focus_id t4 f else t4)"
    using lawful_set_focus [OF I4] lawful_refl [OF I4] by simp
  with L4 have L5: "lawful t (if focus t4 \<noteq> f then set_focus_id t4 f else t4)" by (rule lawful_trans)
  have "fst (swap_nodes t a b) =
      request_window_sizes (animate_geometry_changes (if focus t4 \<noteq> f then set_focus_id t4 f else t4) None)"
    unfolding swap_nodes_def h sum.case option.case prod.case Let_def t2_def [symmetric] t3_def [symmetric]
      t4_def [symmetric] f_def [symmetric] by (rule fst_conv)
  then show ?thesis using L5 by (simp only: calls_are_log lawful_log)
qed

lemma swap_nodes_refused: "check_swappable t a b = Inl e \<Longrightarrow> swap_nodes t a b = (t, Inl e)"
  by (simp add: swap_nodes_def)

section \<open>Consuming\<close>

text \<open>
  The tree after \<^verbatim>\<open>remove_child\<close> and \<^verbatim>\<open>wrap_pair\<close>: the neighbour and the node under a fresh
  container that takes the neighbour's place.
\<close>

lemma consumed_forest:
  assumes F: "forest {} {} t" and i: "parent_of t i = Some p" and s: "parent_of t s = Some p" and ne: "s \<noteq> i"
    and d: "get_split (fst (detach_subtree_only t i)) p = Some (l, cs, ps, m)" "position s cs = Some k"
    and pair: "distinct pr" "set pr = {i, s}" and w: "w = next_id t"
  shows "aforest (tree_root t) (Suc w) {} {p} ((contains_key t)(w := True))
    ((parent_of t)(w := Some p, s := Some w, i := Some w))
    ((get_split (fst (detach_subtree_only t i)))(w := Some (SplitV, pr, [1 / 2, 1 / 2], mw), p := Some (l, cs[k := w], ps, m)))"
proof -
  let ?d = "fst (detach_subtree_only t i)"
  note det = detach_forest [OF F i]
  have nx: "next_id ?d = next_id t" "tree_root ?d = tree_root t"
    by (auto simp: detach_subtree_only_def remove_child_def panic_def Let_def split: option.split prod.split)
  have K: "contains_key ?d = contains_key t" using det(4) by (simp add: fun_eq_iff)
  have Fd: "aforest (tree_root t) (next_id t) {i} {p} (contains_key t) ((parent_of t)(i := None)) (get_split ?d)"
    using det(1) unfolding forest_iff nx K det(5) by simp
  have wK: "\<not> contains_key t w" using F unfolding w by (rule fresh_id)
  note k = position_Some [OF d(2)]
  note sp = aforestD(11,13,14) [OF Fd d(1)]
  have csw: "distinct (cs[k := w])" "set (cs[k := w]) = insert w (set cs - {s})" "length ps = length (cs[k := w])"
  proof -
    have wcs: "w \<notin> set cs" using aforestD(12) [OF Fd d(1)] wK parent_of_contains [of t] by (fastforce split: if_splits)
    show "set (cs[k := w]) = insert w (set cs - {s})" using set_update_distinct [OF sp(1)] k by auto
    show "distinct (cs[k := w])" using wcs by (intro distinct_list_update sp(1)) auto
    show "length ps = length (cs[k := w])" using sp(2) by simp
  qed
  let ?P = "((parent_of t)(i := None))(w := Some p, s := Some w)"
  have W: "aforest (tree_root t) (Suc w) {i} {p} ((contains_key t)(w := True)) ?P
      ((get_split ?d)(w := Some (SplitV, [s], [1], mw), p := Some (l, cs[k := w], ps, m)))"
    by (rule aforest_wrap [OF Fd d(1) _ wK _ _ csw sp(3)]) (use s ne w in simp_all)
  have iK: "contains_key t i" using i by (rule parent_of_contains)
  have pK: "contains_key t p" using F i by (rule forest_parentD) (rule get_split_contains)
  have wi: "w \<noteq> i" "w \<noteq> p" "w \<noteq> s" using iK pK wK parent_of_contains [OF s] by auto
  have nbi: "\<not> below t p i" "\<not> below t p s" using not_below_parent [OF F _ i, of i] not_below_parent [OF F _ s, of s] by auto
  have stay: "below t p x" if "(p, x) \<in> (up_edges ?P)\<^sup>*" for x
    using that
  proof (induction rule: rtrancl_induct)
    case (step x y)
    have "contains_key t x" using step.IH pK F by (rule below_contains)
    then have "x \<noteq> w" "x \<noteq> i" "x \<noteq> s" using wK nbi step.IH by auto
    then have "parent_of t x = Some y" using step.hyps(2) by simp
    then show ?case using step.IH by (meson rtrancl.rtrancl_into_rtrancl up_edges_iff)
  qed simp
  have out: "(w, i) \<notin> (up_edges ?P)\<^sup>*"
  proof
    assume "(w, i) \<in> (up_edges ?P)\<^sup>*"
    then show False
    proof (cases rule: converse_rtranclE)
      case (step y)
      then have "y = p" using wi by simp
      then show False using step(2) stay nbi by blast
    qed (use wi in simp)
  qed
  have "aforest (tree_root t) (Suc w) ({i} - {i}) ({p} - {w}) ((contains_key t)(w := True)) (?P(i := Some w))
      (((get_split ?d)(w := Some (SplitV, [s], [1], mw), p := Some (l, cs[k := w], ps, m)))(w := Some (SplitV, pr, [1 / 2, 1 / 2], mw)))"
  proof (rule aforest_attach [OF W _ _ out])
    show "((get_split ?d)(w := Some (SplitV, [s], [1], mw), p := Some (l, cs[k := w], ps, m))) w = Some (SplitV, [s], [1], mw)"
      using wi by simp
    show "distinct pr" "set pr = insert i (set [s])" using pair by auto
    have "length pr = card {i, s}" using pair distinct_card by metis
    then show "length [1 / 2, 1 / 2] = length pr" using ne by simp
    show "shares [1 / 2, 1 / 2]" by (simp add: shares_def)
  qed simp
  moreover have "?P(i := Some w) = (parent_of t)(w := Some p, s := Some w, i := Some w)"
    using wi ne by (auto simp: fun_eq_iff)
  moreover have "((get_split ?d)(w := Some (SplitV, [s], [1], mw), p := Some (l, cs[k := w], ps, m)))(w := Some (SplitV, pr, [1 / 2, 1 / 2], mw)) =
     (get_split ?d)(w := Some (SplitV, pr, [1 / 2, 1 / 2], mw), p := Some (l, cs[k := w], ps, m))"
    using wi by (auto simp: fun_eq_iff)
  ultimately show ?thesis using wi by simp
qed

lemma consumed_depth:
  assumes F: "forest {} {} t" and F': "forest {} E u" and i: "parent_of t i = Some p" and s: "parent_of t s = Some p"
    and K: "contains_key u = (contains_key t)(next_id t := True)"
    and P: "parent_of u = (parent_of t)(next_id t := Some p, s := Some (next_id t), i := Some (next_id t))"
    and can: "can_wrap t i" "can_wrap t s" and ok: "depth_ok t"
  shows "depth_ok u"
proof -
  let ?w = "next_id t" and ?n = "node_depth t"
  define h where "h = (\<lambda>x. if x = ?w then Suc (?n p) else ?n x + (if below t x i \<or> below t x s then 1 else 0))"
  have wK: "\<not> contains_key t ?w" using F by (rule fresh_id)
  have iK: "contains_key t i" and sK: "contains_key t s" using i s by (auto intro: parent_of_contains)
  have pK: "contains_key t p" using F i by (rule forest_parentD) (rule get_split_contains)
  have nb: "\<not> below t p i" "\<not> below t p s" using not_below_parent [OF F _ i, of i] not_below_parent [OF F _ s, of s] by auto
  have dp: "?n i = Suc (?n p)" "?n s = Suc (?n p)" using node_depth_child [OF F] i s by auto
  have hp: "h p = ?n p" using nb pK wK by (auto simp: h_def)
  have wn: "?w \<noteq> i" "?w \<noteq> s" using iK sK wK by auto
  have "Suc (h q) \<le> h x" if q: "parent_of u x = Some q" for x q
  proof -
    consider "x = ?w" | "x \<noteq> ?w" "x = i \<or> x = s" | "x \<noteq> ?w" "x \<noteq> i" "x \<noteq> s" by blast
    then show ?thesis
    proof cases
      case 1
      then have "q = p" using q P wn by simp
      then show ?thesis using 1 hp by (simp add: h_def)
    next
      case 2
      then have "q = ?w" using q P by (auto split: if_splits)
      then show ?thesis using 2 dp by (auto simp: h_def)
    next
      case 3
      then have q: "parent_of t x = Some q" using q P by simp
      have qw: "q \<noteq> ?w" using F q wK by (auto elim!: forest_parentD dest: get_split_contains)
      have "below t x y" if "below t q y" for y
        using q that by (meson converse_rtrancl_into_rtrancl up_edges_iff)
      then show ?thesis using 3 qw node_depth_child [OF F q] by (auto simp: h_def)
    qed
  qed
  then have le: "node_depth u x \<le> h x" if "contains_key u x" for x using depth_le_potential [OF F'] that by blast
  have "h x \<le> MAX_TREE_DEPTH" if x: "contains_key u x" for x
  proof (cases "x = ?w")
    case True
    then show ?thesis using ok dp(1) iK by (auto simp: h_def depth_ok_def)
  next
    case False
    then have xK: "contains_key t x" using x K by simp
    have "?n x < MAX_TREE_DEPTH" if "below t x y" "contains_key t y" "can_wrap t y" for y
      using that can_wrap_below [OF F that(2) _ xK that(3)] rtrancl_imp_relpow by metis
    then show ?thesis using False can iK sK ok xK by (auto simp: h_def depth_ok_def Suc_le_eq)
  qed
  then show ?thesis using le by (auto simp: depth_ok_def intro: le_trans)
qed

lemma can_wrap_cong:
  assumes "nodes t' = nodes t" "next_id t' = next_id t"
  shows "can_wrap t' i \<longleftrightarrow> can_wrap t i"
proof -
  note r = same_nodes_reads [OF assms(1)]
  have n: "node_depth_loop k t' j d = node_depth_loop k t j d" for k j d
    using r(2) by (induction k arbitrary: j d) (auto split: option.splits)
  have ch: "children_of t' = children_of t" using r(3) by (simp add: children_of_def fun_eq_iff)
  have h: "height_loop k t' q d = height_loop k t q d" for k q d
    by (induction k arbitrary: q d) (auto simp: ch Let_def split: list.split prod.split option.split)
  show ?thesis unfolding can_wrap_def node_depth_def subtree_height_def walk_fuel_def n h assms(2) ..
qed

theorem consume_lawful:
  assumes I: "inv t"
  shows "lawful t (fst (consume t i right))"
proof -
  define u where "u = t\<lparr>interactive_resize_st := None\<rparr>"
  have L: "lawful t u" unfolding u_def by (rule lawful_same_core [OF I]) simp
  note Iu = lawfulD(1) [OF L]
  have W: "wft {} {} u" and F: "forest {} {} u" using Iu by (auto dest: invD)
  have nu: "nodes u = nodes t" by (simp add: u_def)
  have pu: "parent_of u = parent_of t" "get_split u = get_split t" using same_nodes_reads [OF nu] by simp_all
  let ?nb = "\<lambda>p x. if right then child_at t p (x + 1) else if x = 0 then None else child_at t p (x - 1)"
  show ?thesis
  proof (cases "\<exists>p x s. parent_of t i = Some p \<and> child_index t p i = Some x \<and> ?nb p x = Some s \<and> can_wrap t i \<and> can_wrap t s")
    case False
    then have "fst (consume t i right) = t"
      unfolding consume_def by (auto split: option.split)
    then show ?thesis using lawful_refl [OF I] by simp
  next
    case True
    then obtain p x s where h: "parent_of t i = Some p" "child_index t p i = Some x" "?nb p x = Some s" "can_wrap t i" "can_wrap t s"
      by blast
    have i: "parent_of u i = Some p" using h(1) pu by simp
    obtain l cs0 ps0 m where sp: "get_split u p = Some (l, cs0, ps0, m)" using F i by (rule forest_parentD)
    have x: "position i cs0 = Some x" using h(2) sp pu by (simp add: child_index_def children_of_def)
    have st: "step_child right cs0 x = Some s"
      using h(3) sp pu by (auto simp: step_child_def child_at_def children_of_def split: if_splits)
    note so = step_child_other [OF forest_splitD(1) [OF F sp] x st]
    have s: "parent_of u s = Some p" using forest_splitD(2) [OF F sp so(1)] .
    let ?d = "fst (detach_subtree_only u i)"
    obtain cs ps where d: "get_split ?d p = Some (l, cs, ps, m)" "length ps = length cs" "distinct cs" "set cs = set cs0 - {i}"
      by (rule detach_reads [OF F i sp])
    obtain k where k: "position s cs = Some k" using position_ex [of s cs] so d(4) by auto
    note kp = position_Some [OF k]
    define t2 where "t2 = remove_child u p i"
    define w where "w = next_id u"
    have g2: "get_split t2 = get_split ?d" "contains_key t2 = contains_key u" "parent_of t2 = parent_of u"
      "tile_at t2 = tile_at u" "next_id t2 = w" "panicked t2 = panicked u" "strip t2 = strip u"
    proof -
      have e: "?d = set_parent t2 i None" unfolding t2_def by (rule detach_as_remove [OF F i])
      show "get_split t2 = get_split ?d" by (simp add: e fun_eq_iff)
      obtain y where y: "t2 = set_value u p (Split l (remove_at y cs0) (rescale (remove_at y ps0)) m)"
        unfolding t2_def using F i sp by (rule remove_child_eq)
      show "contains_key t2 = contains_key u" "parent_of t2 = parent_of u" "next_id t2 = w" "panicked t2 = panicked u"
        "strip t2 = strip u" by (simp_all add: y fun_eq_iff w_def)
      show "tile_at t2 = tile_at u" unfolding y by (rule relabel_tiles [OF sp])
    qed
    let ?pr = "if right then [s, i] else [i, s]"
    let ?n = "\<lparr>parent = Some p, node_value = Split SplitV ?pr [1 / 2, 1 / 2] split_meta_default\<rparr>"
    define t3 where "t3 = fst (alloc t2 ?n)"
    note al = alloc_reads [of t2 ?n, folded t3_def, unfolded g2]
    have ap: "alloc t2 ?n = (t3, w)" using al(1) by (simp add: t3_def prod_eq_iff)
    have pK: "contains_key u p" using sp by (rule get_split_contains)
    have wK: "\<not> contains_key u w" unfolding w_def using F by (rule fresh_id)
    have wn: "w \<noteq> p" "w \<noteq> i" "w \<noteq> s" using pK wK parent_of_contains [OF i] parent_of_contains [OF s] by auto
    have g3: "get_split t3 p = Some (l, cs, ps, m)" using al(4) wn d(1) by simp
    define v where "v = set_parent (set_parent (set_value t3 p (Split l (cs[k := w]) ps m)) s (Some w)) i (Some w)"
    have wp: "wrap_pair t2 p s i right = (v, True)"
    proof -
      have r: "child_index t2 p s = Some k" "percents_of t2 p = Some ps"
        using d(1) k g2(1) by (simp_all add: child_index_def children_of_def percents_of_def)
      have vg: "vec_get ps k = Some (ps ! k)" "k < length ps" using kp d(2) by (simp_all add: vec_get_def)
      have "contains_key t3 s" "contains_key t3 i" using al(2) parent_of_contains [OF i] parent_of_contains [OF s] by simp_all
      then show ?thesis
        unfolding wrap_pair_def r bind.bind_lunit vg(1) option.case ap Let_def prod.case g3 k using vg(2) by (simp add: v_def)
    qed
    have K: "contains_key v = (contains_key u)(w := True)" using al(2) by (simp add: v_def fun_eq_iff)
    have P: "parent_of v = (parent_of u)(w := Some p, s := Some w, i := Some w)"
      using al(2,3) parent_of_contains [OF i] parent_of_contains [OF s] wn by (auto simp: v_def fun_eq_iff)
    have S: "get_split v = (get_split ?d)(w := Some (SplitV, ?pr, [1 / 2, 1 / 2], split_meta_default), p := Some (l, cs[k := w], ps, m))"
      using al(4) get_split_contains [OF g3] wn by (auto simp: v_def fun_eq_iff)
    have T: "tile_at v = tile_at u"
    proof -
      have "tile_at u w = None" using wK tile_at_contains [of u w] by (cases "tile_at u w") auto
      then show ?thesis using al(5) split_not_leaf [OF sp] by (auto simp: v_def fun_eq_iff)
    qed
    have sv: "strip v = strip u" using g2(7) by (simp add: v_def t3_def)
    have "aforest (tree_root u) (Suc w) {} {p} (contains_key v) (parent_of v) (get_split v)"
      unfolding K P S by (rule consumed_forest [OF F i s so(2) d(1) k]) (use so in \<open>auto simp: w_def\<close>)
    then have Fv: "forest {} {p} v"
      unfolding forest_iff using strip_fieldsD(1) [OF sv] al(6) by (simp add: v_def)
    have "wft {} {p} v" by (rule wf_frame [OF W Fv sv]) (simp_all add: K T, simp add: v_def al(7))
    then have Wv: "wft {} {} v" by (rule wft_drop_empties) (use S kp in auto)
    have sd: "steady u v" using T strip_fieldsD [OF sv] al(6) by (simp add: steady_def) (simp add: v_def w_def)
    have Iv: "inv v" by (rule inv_step [OF Iu sd Wv]) (use invD(2) [OF Iu] strip_fieldsD(2) [OF sv] K in \<open>auto simp: focus_in_def\<close>)
    have cw: "can_wrap u i" "can_wrap u s" using h(4,5) can_wrap_cong [OF nu] by (simp_all add: u_def)
    have "lawful u v"
      using Iv sd consumed_depth [OF F Fv i s K [unfolded w_def] P [unfolded w_def] cw] by (simp add: lawful_def)
    then have "lawful u (request_window_sizes (animate_geometry_changes (compact_tree v) None))"
      unfolding calls_are_log by (intro lawful_log lawful_trans [OF _ lawful_compact [OF Iv]])
    moreover have "fst (consume t i right) = request_window_sizes (animate_geometry_changes (compact_tree v) None)"
      using h by (simp add: consume_def Let_def u_def [symmetric] t2_def [symmetric] wp)
    ultimately show ?thesis using L lawful_trans by simp
  qed
qed

lemma expel_or_consume_lawful:
  assumes I: "inv t"
  shows "lawful t (expel_or_consume t w right)"
proof (cases "or_else (Option.bind w (node_for_window t)) (focus t)")
  case None
  then show ?thesis using lawful_refl [OF I] by (simp add: expel_or_consume_def)
next
  case (Some i)
  have "focusable t (Some i)"
    using Some focusable_old [OF I] focusable_leaf [OF I] window_leaf [OF I]
    by (cases w) (auto elim!: or_else_SomeE split: Option.bind_splits)
  then have L1: "lawful t (set_focus_id t (Some i))" by (rule lawful_set_focus [OF I])
  define t2 where "t2 = fst (expel (set_focus_id t (Some i)) i right)"
  have L2: "lawful t t2" unfolding t2_def using L1 expel_lawful [OF lawfulD(1) [OF L1]] by (rule lawful_trans)
  have "lawful t (fst (consume t2 i right))" using L2 consume_lawful [OF lawfulD(1) [OF L2]] by (rule lawful_trans)
  then show ?thesis using Some L2 by (simp add: expel_or_consume_def Let_def case_prod_beta t2_def)
qed

end
