(* ===== verification/Invariants.thy ===== *)
theory Invariants
  imports Exchange_Laws
begin

text \<open>
  The runtime self-check (\<^verbatim>\<open>src/layout/tiling_tree/invariants.rs\<close>), which the source runs in tests
  and debug builds: each assertion is a condition of a Boolean function, and a failed one is the
  value \<open>False\<close> (or \<open>None\<close> inside the walk). The set of visited nodes is a list without
  duplicates. A table that is a partial function is scanned over the identifiers handed out so
  far. The last section shows that the four checks of structure, focus, side tables and modes
  accept every tree that satisfies the invariant of this development.
\<close>

section \<open>The checks\<close>

fun check_node :: "nat \<Rightarrow> tree \<Rightarrow> nid \<Rightarrow> nid list \<Rightarrow> nid list option"
  and check_children :: "nat \<Rightarrow> tree \<Rightarrow> nid \<Rightarrow> nid list \<Rightarrow> nid list \<Rightarrow> nid list option" where
  "check_node 0 t i seen = None"
| "check_node (Suc k) t i seen =
     (if i \<in> set seen then None
      else case value_of t i of
        None \<Rightarrow> None
      | Some (Leaf _) \<Rightarrow> Some (i # seen)
      | Some (Split l cs ps m) \<Rightarrow>
          (if (i = tree_root t \<or> cs \<noteq> []) \<and> (i \<noteq> tree_root t \<or> cs \<noteq> [] \<or> focus t = None) \<and>
              length cs = length ps \<and> (\<forall>x\<in>set ps. 0 < x) \<and>
              (cs \<noteq> [] \<longrightarrow> \<bar>sum_list ps - 1\<bar> \<le> 1 / 10 ^ 6)
           then check_children k t i cs (i # seen) else None))"
| "check_children k t i [] seen = Some seen"
| "check_children k t i (c # cs) seen =
     (if contains_key t c \<and> parent_of t c = Some i
      then (case check_node k t c seen of None \<Rightarrow> None | Some s \<Rightarrow> check_children k t i cs s)
      else None)"

definition node_count :: "tree \<Rightarrow> nat" where
  "node_count t = length (filter (contains_key t) [0..<next_id t])"

definition check_root_and_reachability :: "tree \<Rightarrow> bool" where
  "check_root_and_reachability t \<longleftrightarrow> parent_of t (tree_root t) = None \<and> is_split t (tree_root t) \<and>
     (case check_node (walk_fuel t) t (tree_root t) [] of
        None \<Rightarrow> False | Some seen \<Rightarrow> length seen = node_count t)"

definition check_focus :: "tree \<Rightarrow> bool" where
  "check_focus t \<longleftrightarrow>
     (case focus t of Some f \<Rightarrow> contains_key t f \<and> windows t \<noteq> [] | None \<Rightarrow> windows t = []) \<and>
     card (set (focus_history t)) = length (focus_history t)"

definition check_side_tables :: "tree \<Rightarrow> bool" where
  "check_side_tables t \<longleftrightarrow> list_all (contains_key t) (focus_history t) \<and>
     list_all (\<lambda>i. i \<in> ipc_stale_nodes t \<or> last_entered_by t i \<noteq> None \<or> pending_modes t i \<noteq> None \<or>
         i \<in> mapped_under_fullscreen t \<or> moved_under_fullscreen t i \<noteq> None \<or> i \<in> fullscreen_layout_wrappers t \<or>
         pre_layout_ipc_rects t i \<noteq> None \<or> i \<in> tab_indicators t \<or> tab_active t i \<noteq> None \<longrightarrow> contains_key t i)
       [0..<next_id t]"

definition check_tab_active :: "tree \<Rightarrow> bool" where
  "check_tab_active t \<longleftrightarrow> list_all (\<lambda>p. case tab_active t p of
       None \<Rightarrow> True | Some c \<Rightarrow> (case children_of t p of Some cs \<Rightarrow> c \<in> set cs | None \<Rightarrow> False)) [0..<next_id t]"

definition check_side_state :: "tree \<Rightarrow> bool" where
  "check_side_state t \<longleftrightarrow> check_side_tables t \<and> check_tab_active t"

definition check_modes :: "tree \<Rightarrow> bool" where
  "check_modes t \<longleftrightarrow>
     list_all (\<lambda>i. case pending_modes t i of
         None \<Rightarrow> True | Some m \<Rightarrow> contains_key t i \<and> (is_leaf t i \<or> \<not> pm_maximized m)) [0..<next_id t] \<and>
     length (filter (\<lambda>i. fullscreen_mode t i \<noteq> None) [0..<next_id t]) \<le> 1"

definition check_resize :: "tree \<Rightarrow> bool" where
  "check_resize t \<longleftrightarrow> (case interactive_resize_st t of
      None \<Rightarrow> True
    | Some r \<Rightarrow> node_for_window t (ir_window r) = Some (ir_target r) \<and> ir_axes r \<noteq> [] \<and>
        list_all (\<lambda>a. sibling_percents t (ax_first a) (ax_second a) \<noteq> None) (ir_axes r))"

definition check_invariants :: "tree \<Rightarrow> bool" where
  "check_invariants t \<longleftrightarrow> check_root_and_reachability t \<and> check_focus t \<and> check_side_state t \<and>
     check_modes t \<and> check_resize t"

section \<open>Well-formed trees pass\<close>

text \<open>\<open>visits k t i\<close>: with budget \<open>k\<close> the walk from \<open>i\<close> succeeds and adds exactly the subtree.\<close>

definition visits :: "nat \<Rightarrow> tree \<Rightarrow> nid \<Rightarrow> bool" where
  "visits k t i \<longleftrightarrow> (\<forall>seen. distinct seen \<longrightarrow> set seen \<inter> under t i = {} \<longrightarrow>
     (\<exists>s. check_node k t i seen = Some s \<and> distinct s \<and> set s = set seen \<union> under t i))"

lemma check_children_accepts:
  assumes "\<forall>c\<in>set cs. parent_of t c = Some i \<and> visits k t c" "distinct cs" "distinct seen"
    "\<forall>c\<in>set cs. set seen \<inter> under t c = {}"
    "\<forall>c\<in>set cs. \<forall>d\<in>set cs. c \<noteq> d \<longrightarrow> under t c \<inter> under t d = {}"
  shows "\<exists>s. check_children k t i cs seen = Some s \<and> distinct s \<and> set s = set seen \<union> (\<Union>c\<in>set cs. under t c)"
  using assms
proof (induction cs arbitrary: seen)
  case (Cons c cs)
  have c: "parent_of t c = Some i" "visits k t c" "set seen \<inter> under t c = {}" "contains_key t c"
    using Cons.prems parent_of_contains by auto
  then obtain s where s: "check_node k t c seen = Some s" "distinct s" "set s = set seen \<union> under t c"
    using Cons.prems(3) unfolding visits_def by meson
  have "\<forall>d\<in>set cs. set s \<inter> under t d = {}"
  proof
    fix d assume d: "d \<in> set cs"
    then have "under t c \<inter> under t d = {}" "set seen \<inter> under t d = {}" using Cons.prems(2,4,5) by auto
    then show "set s \<inter> under t d = {}" using s(3) by auto
  qed
  then obtain s' where "check_children k t i cs s = Some s'" "distinct s'" "set s' = set s \<union> (\<Union>c\<in>set cs. under t c)"
    using Cons.IH [OF _ _ s(2)] Cons.prems by auto
  then show ?case using c s by auto
qed simp

lemma check_node_accepts:
  assumes I: "inv t"
  shows "contains_key t i \<Longrightarrow> next_id t < node_depth t i + k \<Longrightarrow> visits k t i"
proof (induction k arbitrary: i)
  case 0
  then show ?case using node_depth_bound [OF invD(4) [OF I] 0(1)] by simp
next
  case (Suc k)
  have F: "forest {} {} t" using I by (rule invD)
  show ?case
    unfolding visits_def
  proof (intro allI impI)
    fix seen assume seen: "distinct seen" "set seen \<inter> under t i = {}"
    have i: "i \<notin> set seen" using seen(2) by (auto simp: under_def)
    from Suc.prems(1) show "\<exists>s. check_node (Suc k) t i seen = Some s \<and> distinct s \<and> set s = set seen \<union> under t i"
    proof (cases rule: node_cases)
      case (leaf w)
      then have "under t i = {i}" using under_leaf [OF F leaf_not_split] by simp
      then show ?thesis using leaf i seen by simp
    next
      case (split l cs ps m)
      note sp = forest_splitD [OF F split(2)]
      have u: "under t i = insert i (\<Union>c\<in>set cs. under t c)" by (rule under_split [OF F split(2)])
      have "visits k t c" if "c \<in> set cs" for c
        using Suc.IH [OF child_contains [OF F split(2) that]] node_depth_child [OF F sp(2) [OF that]] Suc.prems(2) by simp
      moreover have "i \<notin> under t c" if "c \<in> set cs" for c
        using links.no_self_loop [OF arena_okI [OF F] sp(2) [OF that]] by (simp add: under_def)
      moreover have "under t c \<inter> under t d = {}" if "c \<in> set cs" "d \<in> set cs" "c \<noteq> d" for c d
        using siblings_disjoint [OF F split(2) that] by (auto simp: under_def)
      ultimately have "\<exists>s. check_children k t i cs (i # seen) = Some s \<and> distinct s \<and>
          set s = set (i # seen) \<union> (\<Union>c\<in>set cs. under t c)"
        by (intro check_children_accepts) (use sp i seen u in auto)
      moreover have "i = tree_root t \<or> cs \<noteq> []" using forest_empty [OF F] split(2) by auto
      moreover have "i \<noteq> tree_root t \<or> cs \<noteq> [] \<or> focus t = None"
        using no_leaves_iff [OF F] invD(3) [OF I] split(2) by (auto simp: children_of_def)
      moreover have "\<bar>sum_list ps - 1\<bar> \<le> 1 / 10 ^ 6" "\<forall>x\<in>set ps. 0 < x" if "cs \<noteq> []"
        using sp(3,4) that by (auto simp: shares_def)
      ultimately show ?thesis using split(1) i u sp(3) by (cases "cs = []") auto
    qed
  qed
qed

lemma under_root:
  assumes "forest {} E t"
  shows "under t (tree_root t) = {i. contains_key t i}"
proof -
  have r: "contains_key t (tree_root t)" using assms by (rule forest_root_split) (rule get_split_contains)
  have "contains_key t j" if "below t j (tree_root t)" for j
    using that r parent_of_contains by (cases rule: converse_rtranclE) auto
  then show ?thesis using below_root [OF assms] by (auto simp: under_def)
qed

lemma card_nodes:
  assumes "forest {} E t"
  shows "card {i. contains_key t i} = node_count t"
proof -
  have "{i. contains_key t i} = set (filter (contains_key t) [0..<next_id t])"
    using forest_bound [OF assms] by auto
  then show ?thesis by (simp only: node_count_def distinct_card distinct_filter distinct_upt)
qed

lemma check_root_accepts:
  assumes I: "inv t"
  shows "check_root_and_reachability t"
proof -
  have F: "forest {} {} t" using I by (rule invD)
  have r: "contains_key t (tree_root t)" using F by (rule forest_root_split) (rule get_split_contains)
  have "visits (walk_fuel t) t (tree_root t)" by (rule check_node_accepts [OF I r]) (simp add: walk_fuel_def)
  then obtain s where s: "check_node (walk_fuel t) t (tree_root t) [] = Some s" "distinct s" "set s = under t (tree_root t)"
    unfolding visits_def by (metis distinct.simps(1) empty_set inf_bot_left sup_bot_left)
  have "length s = node_count t"
    using distinct_card [OF s(2)] s(3) under_root [OF F] card_nodes [OF F] by simp
  then show ?thesis
    using s(1) forest_root [OF F] forest_root_parent [OF F] by (simp add: check_root_and_reachability_def)
qed

lemma check_focus_accepts:
  assumes I: "inv t"
  shows "check_focus t"
  using invD(2,3) [OF I] windows_empty_iff [OF invD(4) [OF I]] distinct_card [OF side_okD(1) [OF invD(5) [OF I]]]
  by (auto simp: check_focus_def focus_in_def split: option.split)

lemma check_side_tables_accepts:
  assumes I: "inv t"
  shows "check_side_tables t"
  using invD(5) [OF I] by (auto simp: check_side_tables_def side_ok_def list_all_iff)

lemma check_modes_accepts:
  assumes I: "inv t"
  shows "check_modes t"
proof -
  let ?xs = "filter (\<lambda>i. fullscreen_mode t i \<noteq> None) [0..<next_id t]"
  have "card (set ?xs) \<le> 1"
    using invD(6) [OF I] by (auto simp: modes_ok_def card_le_Suc0_iff_eq)
  then have "length ?xs \<le> 1" by (simp only: distinct_card distinct_filter distinct_upt)
  then show ?thesis
    using invD(6) [OF I] side_okD(3) [OF invD(5) [OF I]]
    by (auto simp: check_modes_def modes_ok_def list_all_iff split: option.split)
qed

end
