(* ===== verification/Resize.thy ===== *)
theory Resize
  imports Invariants
begin

text \<open>
  Resizing (\<^verbatim>\<open>src/layout/tiling_tree/resize.rs\<close>): moving the boundary between two adjacent siblings,
  growing a node at the cost of all its siblings, the size commands and presets that compute the
  change from the geometry, and the interactive resize with one boundary per axis. Deltas are
  reals, so the guards against non-finite ones do not occur. The tile-layer command
  \<^verbatim>\<open>set_window_border\<close> is not modelled.
\<close>

section \<open>Moving shares\<close>

definition resize_adjacent_inner :: "tree \<Rightarrow> nid \<Rightarrow> nid \<Rightarrow> real \<Rightarrow> tree \<times> bool" where
  "resize_adjacent_inner t a b delta = (case parent_of t a of
      None \<Rightarrow> (t, False)
    | Some p \<Rightarrow>
        (if parent_of t b \<noteq> Some p then (t, False)
         else case get_split t p of
           None \<Rightarrow> (t, False)
         | Some (l, cs, ps, m) \<Rightarrow> (case (position a cs, position b cs) of
             (Some i, Some j) \<Rightarrow>
               (if i \<noteq> j + 1 \<and> j \<noteq> i + 1 then (t, False)
                else case (vec_get ps i, vec_get ps j) of
                  (Some x, Some y) \<Rightarrow>
                    (if x + delta \<le> 0 \<or> y - delta \<le> 0 then (t, False)
                     else (request_window_sizes (set_value t p
                             (Split l cs (ps[i := x + delta, j := y - delta]) m)), True))
                | _ \<Rightarrow> (t, False))
           | _ \<Rightarrow> (t, False))))"

definition resize_adjacent :: "tree \<Rightarrow> nid \<Rightarrow> nid \<Rightarrow> real \<Rightarrow> tree \<times> bool" where
  "resize_adjacent t a b delta =
     (let (t1, changed) = resize_adjacent_inner t a b delta
      in (if changed then animate_geometry_changes (t1\<lparr>interactive_resize_st := None\<rparr>) None else t1, changed))"

text \<open>Every share but the target's gives the compensation.\<close>

definition share_change :: "nat \<Rightarrow> real \<Rightarrow> real \<Rightarrow> real list \<Rightarrow> real list" where
  "share_change target delta compensation ps =
     map (\<lambda>k. ps ! k + (if k = target then delta else - compensation)) [0..<length ps]"

definition resize_across_siblings :: "tree \<Rightarrow> nid \<Rightarrow> nid \<Rightarrow> real \<Rightarrow> tree \<times> bool" where
  "resize_across_siblings t p target delta = (case get_split t p of
      None \<Rightarrow> (t, False)
    | Some (l, cs, ps, m) \<Rightarrow> (case position target cs of
        None \<Rightarrow> (t, False)
      | Some k \<Rightarrow> (case vec_get ps k of
          None \<Rightarrow> (t, False)
        | Some percent \<Rightarrow>
            (if length cs \<le> 1 then (t, False)
             else let compensation = delta / real (length cs - 1) in
               if percent + delta \<le> 0 \<or>
                  list_ex (\<lambda>j. j \<noteq> k \<and> ps ! j - compensation \<le> 0) [0..<length ps]
               then (t, False)
               else (animate_geometry_changes (request_window_sizes
                       ((set_value t p (Split l cs (share_change k delta compensation ps) m))
                          \<lparr>interactive_resize_st := None\<rparr>)) None, True)))))"

section \<open>Size commands\<close>

definition along :: "bool \<Rightarrow> rect \<Rightarrow> real" where
  "along width r = (if width then size_w r else size_h r)"

definition wanted_layout :: "bool \<Rightarrow> layout" where
  "wanted_layout width = (if width then SplitH else SplitV)"

text \<open>\<^verbatim>\<open>f64::trunc\<close> rounds towards zero; \<^verbatim>\<open>as i32\<close> also saturates.\<close>

definition trunc_real :: "real \<Rightarrow> int" where
  "trunc_real x = (if 0 \<le> x then \<lfloor>x\<rfloor> else \<lceil>x\<rceil>)"

definition as_i32 :: "real \<Rightarrow> int" where
  "as_i32 x = max (- (2 ^ 31)) (min (2 ^ 31 - 1) (trunc_real x))"

definition dimension_delta :: "size_change \<Rightarrow> real \<Rightarrow> real \<Rightarrow> real \<Rightarrow> real" where
  "dimension_delta change parent_extent current available = (case change of
      AdjustFixed v \<Rightarrow> of_int v / available
    | AdjustProportion v \<Rightarrow> parent_extent * v / 100 / available
    | SetFixed v \<Rightarrow> (of_int v - current) / available
    | SetProportion v \<Rightarrow> (of_int (trunc_real (parent_extent * v / 100)) - current) / available)"

fun resize_dimension_loop :: "nat \<Rightarrow> tree \<Rightarrow> nid \<Rightarrow> bool \<Rightarrow> size_change \<Rightarrow> nid \<Rightarrow> nid option \<Rightarrow> tree \<times> bool" where
  "resize_dimension_loop 0 t i width change branch p = (panic t, False)"
| "resize_dimension_loop (Suc k) t i width change branch p = (case p of
      None \<Rightarrow> (t, False)
    | Some parent_id \<Rightarrow> (case get_split t parent_id of
        None \<Rightarrow> (t, False)
      | Some (l, cs, ps, m) \<Rightarrow>
          (if l = wanted_layout width \<and> length cs > 1
           then (let g = ipc_nodes (compute_geometry t) in
                 case map_option (along width) (g parent_id) of
                   None \<Rightarrow> (t, False)
                 | Some parent_extent \<Rightarrow> (case map_option (along width) (g branch) of
                     None \<Rightarrow> (t, False)
                   | Some current \<Rightarrow>
                       (let available = max 1 (sum_list (List.map_filter (\<lambda>c. map_option (along width) (g c)) cs));
                            (t', changed) = resize_across_siblings t parent_id branch
                              (dimension_delta change parent_extent current available)
                        in (t', changed \<and> branch = i))))
           else resize_dimension_loop k t i width change parent_id (parent_of t parent_id))))"

definition resize_node_dimension :: "tree \<Rightarrow> nid \<Rightarrow> bool \<Rightarrow> size_change \<Rightarrow> tree \<times> bool" where
  "resize_node_dimension t i width change = resize_dimension_loop (walk_fuel t) t i width change i (parent_of t i)"

definition toggle_full_width :: "tree \<Rightarrow> tree" where
  "toggle_full_width t = (case focus t of
      None \<Rightarrow> t
    | Some i \<Rightarrow> (case leaf_geometry t i of
        None \<Rightarrow> t
      | Some r \<Rightarrow> fst (resize_node_dimension t i True (AdjustFixed (as_i32 (view_w t - size_w r))))))"

definition resolve_node :: "tree \<Rightarrow> wid option \<Rightarrow> nid option" where
  "resolve_node t w = or_else (Option.bind w (node_for_window t)) (focus t)"

definition set_window_width :: "tree \<Rightarrow> wid option \<Rightarrow> size_change \<Rightarrow> tree \<times> bool" where
  "set_window_width t w change = (case resolve_node t w of
      None \<Rightarrow> (t, False) | Some i \<Rightarrow> resize_node_dimension t i True change)"

definition set_window_height :: "tree \<Rightarrow> wid option \<Rightarrow> size_change \<Rightarrow> tree \<times> bool" where
  "set_window_height t w change = (case resolve_node t w of
      None \<Rightarrow> (t, False) | Some i \<Rightarrow> resize_node_dimension t i False change)"

definition set_node_size_sway :: "tree \<Rightarrow> nid \<Rightarrow> size_change option \<Rightarrow> size_change option \<Rightarrow> tree" where
  "set_node_size_sway t i width height =
     (let t1 = (case width of None \<Rightarrow> t | Some c \<Rightarrow> fst (resize_node_dimension t i True c))
      in case height of None \<Rightarrow> t1 | Some c \<Rightarrow> fst (resize_node_dimension t1 i False c))"

definition set_window_size_sway :: "tree \<Rightarrow> wid \<Rightarrow> size_change option \<Rightarrow> size_change option \<Rightarrow> tree" where
  "set_window_size_sway t w width height = (case node_for_window t w of
      None \<Rightarrow> t | Some i \<Rightarrow> set_node_size_sway t i width height)"

definition reset_window_height :: "tree \<Rightarrow> wid option \<Rightarrow> tree" where
  "reset_window_height t w = (case resolve_node t w of
      None \<Rightarrow> t
    | Some i \<Rightarrow> (case parent_of t i of
        None \<Rightarrow> t
      | Some p \<Rightarrow> (case get_split t p of
          Some (SplitV, cs, ps, m) \<Rightarrow>
            request_window_sizes ((set_value t p (Split SplitV cs (map (\<lambda>_. 1 / real (length cs)) ps) m))
              \<lparr>interactive_resize_st := None\<rparr>)
        | _ \<Rightarrow> t)))"

section \<open>Edges\<close>

fun boundary_loop :: "nat \<Rightarrow> tree \<Rightarrow> (nid \<Rightarrow> rect option) \<Rightarrow> layout \<Rightarrow> bool \<Rightarrow> nid \<Rightarrow> nid option \<Rightarrow>
    (nid \<times> nid \<times> real \<times> real \<times> real \<times> real) option" where
  "boundary_loop 0 t g l toward_before branch p = None"
| "boundary_loop (Suc k) t g l toward_before branch p = (case p of
      None \<Rightarrow> None
    | Some parent_id \<Rightarrow> (case get_split t parent_id of
        None \<Rightarrow> None
      | Some (lp, cs, ps, m) \<Rightarrow>
          (let on = boundary_loop k t g l toward_before parent_id (parent_of t parent_id) in
           if lp = l
           then case position branch cs of
             None \<Rightarrow> None
           | Some index \<Rightarrow> (case step_child (\<not> toward_before) cs index of
               None \<Rightarrow> on
             | Some neighbor \<Rightarrow> (case g parent_id of
                 None \<Rightarrow> None
               | Some r \<Rightarrow> (case (position branch cs, position neighbor cs) of
                   (Some i, Some j) \<Rightarrow> (case (vec_get ps i, vec_get ps j) of
                       (Some x, Some y) \<Rightarrow>
                         Some (branch, neighbor, x, y,
                           (if l = SplitH then size_w r else size_h r) - gaps t * real (length cs - 1),
                           (if toward_before then - 1 else 1))
                     | _ \<Rightarrow> None)
                 | _ \<Rightarrow> None)))
           else on)))"

definition resize_boundary :: "tree \<Rightarrow> (nid \<Rightarrow> rect option) \<Rightarrow> nid \<Rightarrow> layout \<Rightarrow> bool \<Rightarrow>
    (nid \<times> nid \<times> real \<times> real \<times> real \<times> real) option" where
  "resize_boundary t g i l toward_before = boundary_loop (walk_fuel t) t g l toward_before i (parent_of t i)"

definition resize_node_edge_command :: "tree \<Rightarrow> nid \<Rightarrow> resize_edge \<Rightarrow> size_change \<Rightarrow> tree \<times> bool" where
  "resize_node_edge_command t i ed change =
     (let horizontal = intersects ed {LEFT, RIGHT};
          before = intersects ed {LEFT, TOP};
          g = ipc_nodes (compute_geometry t)
      in case resize_boundary t g i (wanted_layout horizontal) before of
           None \<Rightarrow> (t, False)
         | Some (a, b, x, y, axis_size, sign) \<Rightarrow>
             (let delta = (case change of
                    AdjustFixed v \<Rightarrow> Some (of_int v / max axis_size 1)
                  | AdjustProportion v \<Rightarrow>
                      Some (unwrap_or (map_option (along horizontal) (Option.bind (parent_of t a) g)) axis_size
                            * v / 100 / max axis_size 1)
                  | _ \<Rightarrow> None)
              in case delta of
                   None \<Rightarrow> (t, False)
                 | Some dl \<Rightarrow> (let (t', changed) = resize_adjacent t a b dl in (t', changed \<and> a = i))))"

definition resize_window_edge :: "tree \<Rightarrow> wid option \<Rightarrow> resize_edge \<Rightarrow> size_change \<Rightarrow> tree \<times> bool" where
  "resize_window_edge t w ed change = (case resolve_node t w of
      None \<Rightarrow> (t, False) | Some i \<Rightarrow> resize_node_edge_command t i ed change)"

fun internal_edge_loop :: "nat \<Rightarrow> tree \<Rightarrow> layout \<Rightarrow> bool \<Rightarrow> nid \<Rightarrow> bool" where
  "internal_edge_loop 0 t wanted before i = False"
| "internal_edge_loop (Suc k) t wanted before i = (case parent_of t i of
      None \<Rightarrow> False
    | Some p \<Rightarrow>
        (case get_split t p of
           Some (l, cs, ps, m) \<Rightarrow>
             l = wanted \<and> (case position i cs of
                 Some index \<Rightarrow> (before \<and> index > 0) \<or> (\<not> before \<and> index + 1 < length cs)
               | None \<Rightarrow> False)
         | None \<Rightarrow> False) \<or> internal_edge_loop k t wanted before p)"

definition is_internal_edge :: "tree \<Rightarrow> wid \<Rightarrow> resize_edge \<Rightarrow> bool" where
  "is_internal_edge t w ed =
     (case (if ed = {LEFT} then Some (SplitH, True) else if ed = {RIGHT} then Some (SplitH, False)
            else if ed = {TOP} then Some (SplitV, True) else if ed = {BOTTOM} then Some (SplitV, False)
            else None) of
        None \<Rightarrow> False
      | Some (wanted, before) \<Rightarrow> (case node_for_window t w of
          None \<Rightarrow> False | Some i \<Rightarrow> internal_edge_loop (walk_fuel t) t wanted before i))"

section \<open>Presets\<close>

fun preset_loop :: "nat \<Rightarrow> tree \<Rightarrow> bool \<Rightarrow> nid \<Rightarrow> nid option \<Rightarrow> (real \<times> real) option" where
  "preset_loop 0 t width branch p = None"
| "preset_loop (Suc k) t width branch p = (case p of
      None \<Rightarrow> None
    | Some parent_id \<Rightarrow> (case get_split t parent_id of
        None \<Rightarrow> None
      | Some (l, cs, ps, m) \<Rightarrow>
          (if l = wanted_layout width \<and> length cs > 1
           then (let g = ipc_nodes (compute_geometry t) in
                 case (g branch, g parent_id) of
                   (Some current, Some available) \<Rightarrow> Some (along width current, along width available)
                 | _ \<Rightarrow> None)
           else preset_loop k t width parent_id (parent_of t parent_id))))"

definition preset_extents :: "tree \<Rightarrow> nid \<Rightarrow> bool \<Rightarrow> (real \<times> real) option" where
  "preset_extents t i width = preset_loop (walk_fuel t) t width i (parent_of t i)"

definition preset_index :: "bool \<Rightarrow> real \<Rightarrow> real \<Rightarrow> preset_size list \<Rightarrow> nat" where
  "preset_index forwards current available presets =
     (let resolved = (\<lambda>s. case s of
            Fixed v \<Rightarrow> of_int v | Proportion v \<Rightarrow> of_int (trunc_real (available * v)))
      in if forwards then unwrap_or (position_where (\<lambda>s. current + 1 < resolved s) presets) 0
         else (case position_where (\<lambda>s. resolved s + 1 < current) (rev presets) of
                 Some k \<Rightarrow> length presets - 1 - k | None \<Rightarrow> length presets - 1))"

definition toggle_preset :: "tree \<Rightarrow> wid option \<Rightarrow> bool \<Rightarrow> bool \<Rightarrow> tree" where
  "toggle_preset t w width forwards =
     (let presets = (if width then opt_preset_column_widths (options_of t)
                     else opt_preset_window_heights (options_of t))
      in if presets = [] then t
         else case resolve_node t w of
           None \<Rightarrow> t
         | Some i \<Rightarrow> (case preset_extents t i width of
             None \<Rightarrow> t
           | Some (current, available) \<Rightarrow>
               (case vec_get presets (preset_index forwards current available presets) of
                  None \<Rightarrow> t
                | Some s \<Rightarrow>
                    (let change = (case s of Fixed v \<Rightarrow> SetFixed v | Proportion v \<Rightarrow> SetProportion (v * 100))
                     in fst (if width then set_window_width t w change else set_window_height t w change)))))"

section \<open>Interactive resize\<close>

definition resize_axis_of :: "tree \<Rightarrow> (nid \<Rightarrow> rect option) \<Rightarrow> nid \<Rightarrow> bool \<times> resize_edge \<Rightarrow> resize_axis option" where
  "resize_axis_of t g i he = (case he of (horizontal, ed) \<Rightarrow>
      (case resize_boundary t g i (wanted_layout horizontal) (intersects ed {LEFT, TOP}) of
         None \<Rightarrow> None
       | Some (a, b, x, y, sz, sg) \<Rightarrow>
           Some \<lparr>ax_horizontal = horizontal, ax_first = a, ax_second = b, ax_initial_first = x,
                 ax_initial_second = y, ax_size = sz, ax_sign = sg\<rparr>))"

definition interactive_resize_begin :: "tree \<Rightarrow> wid \<Rightarrow> resize_edge \<Rightarrow> tree \<times> bool" where
  "interactive_resize_begin t w edges =
     (if interactive_resize_st t \<noteq> None then (t, False)
      else case node_for_window t w of
        None \<Rightarrow> (t, False)
      | Some i \<Rightarrow>
          (if (case pending_modes t i of Some mode \<Rightarrow> pm_fullscreen mode \<noteq> None \<or> pm_maximized mode | None \<Rightarrow> False)
           then (t, False)
           else let g = ipc_nodes (compute_geometry t);
                    axes = List.map_filter (resize_axis_of t g i)
                      (filter (\<lambda>(h, ed). ed \<noteq> {}) [(True, edges \<inter> {LEFT, RIGHT}), (False, edges \<inter> {TOP, BOTTOM})])
                in if axes = [] then (t, False)
                   else (t\<lparr>interactive_resize_st := Some \<lparr>ir_window = w, ir_target = i, ir_axes = axes, ir_edges = edges\<rparr>\<rparr>,
                         True)))"

definition resize_axis_step :: "real \<Rightarrow> real \<Rightarrow> resize_axis \<Rightarrow> tree \<times> bool \<Rightarrow> tree \<times> bool" where
  "resize_axis_step dx dy ax st = (case st of (t, changed) \<Rightarrow>
     (let amount = (if ax_horizontal ax then dx else dy) * ax_sign ax / max (ax_size ax) 1
      in case sibling_percents t (ax_first ax) (ax_second ax) of
           None \<Rightarrow> (t, changed)
         | Some (current_first, current_second) \<Rightarrow>
             (let target_first = ax_initial_first ax + amount; target_second = ax_initial_second ax - amount
              in if target_first \<le> 0 \<or> target_second \<le> 0 then (t, changed)
                 else let (t', ok) = resize_adjacent_inner t (ax_first ax) (ax_second ax) (target_first - current_first)
                      in (t', changed \<or> ok))))"

definition interactive_resize_update :: "tree \<Rightarrow> wid \<Rightarrow> real \<Rightarrow> real \<Rightarrow> tree \<times> bool" where
  "interactive_resize_update t w dx dy = (case interactive_resize_st t of
      None \<Rightarrow> (t, False)
    | Some r \<Rightarrow>
        (if ir_window r \<noteq> w then (t, False)
         else let (t', changed) = fold (resize_axis_step dx dy) (ir_axes r) (t, False)
              in (if changed then animate_geometry_changes t' None else t', changed)))"

definition interactive_resize_end :: "tree \<Rightarrow> wid option \<Rightarrow> tree" where
  "interactive_resize_end t w =
     (if (case w of None \<Rightarrow> True
          | Some x \<Rightarrow> (case interactive_resize_st t of Some r \<Rightarrow> ir_window r = x | None \<Rightarrow> False))
      then t\<lparr>interactive_resize_st := None\<rparr> else t)"

section \<open>Shares are conserved\<close>

lemma lawful_reshare:
  assumes I: "inv t" and p: "get_split t p = Some (l, cs, ps, m)" and "length ps' = length cs" "shares ps'"
  shows "lawful t (set_value t p (Split l cs ps' m))"
  using lawful_shrinks [OF I relabel_shrinks [OF invD(1) [OF I] p _ refl assms(3,4)]]
    forest_splitD(1) [OF invD(4) [OF I] p] by blast

lemma shares_move:
  assumes "shares ps" "i < length ps" "j < length ps" "i \<noteq> j" "0 < ps ! i + d" "0 < ps ! j - d"
  shows "shares (ps[i := ps ! i + d, j := ps ! j - d])"
proof -
  have "sum_list (ps[i := ps ! i + d, j := ps ! j - d]) = sum_list ps"
    using assms(2-4) by (simp add: sum_list_update_real)
  moreover have "0 < x" if "x \<in> set (ps[i := ps ! i + d, j := ps ! j - d])" for x
    using that assms(1,5,6) set_update_subset_insert [of "ps[i := ps ! i + d]" j] set_update_subset_insert [of ps i]
    by (fastforce simp: shares_def)
  ultimately show ?thesis using assms(1) by (auto simp: shares_def)
qed

lemma resize_adjacent_inner_cases:
  assumes I: "inv t"
  obtains (refused) "resize_adjacent_inner t a b d = (t, False)"
  | (moved) p l cs ps m i j where "parent_of t a = Some p" "parent_of t b = Some p" "get_split t p = Some (l, cs, ps, m)"
      "position a cs = Some i" "position b cs = Some j" "i < length ps" "j < length ps" "i = j + 1 \<or> j = i + 1"
      "0 < ps ! i + d" "0 < ps ! j - d"
      "resize_adjacent_inner t a b d =
        (request_window_sizes (set_value t p (Split l cs (ps[i := ps ! i + d, j := ps ! j - d]) m)), True)"
proof (cases "resize_adjacent_inner t a b d = (t, False)")
  case False
  then show ?thesis
    using moved unfolding resize_adjacent_inner_def
    by (auto simp: vec_get_def not_le split: option.splits if_splits)
qed (rule refused)

lemma resize_adjacent_inner_lawful:
  assumes I: "inv t"
  shows "lawful t (fst (resize_adjacent_inner t a b d))"
  using I
proof (cases rule: resize_adjacent_inner_cases [where a = a and b = b and d = d])
  case (moved p l cs ps m i j)
  note sp = forest_splitD [OF invD(4) [OF I] moved(3)]
  have "lawful t (set_value t p (Split l cs (ps[i := ps ! i + d, j := ps ! j - d]) m))"
    using moved(6-10) sp(3,4) by (intro lawful_reshare [OF I moved(3)] shares_move) auto
  then show ?thesis by (simp add: moved(11) calls_are_log lawful_log)
qed (use lawful_refl [OF I] in simp)

lemma resize_adjacent_lawful:
  assumes I: "inv t"
  shows "lawful t (fst (resize_adjacent t a b d))"
proof -
  have L: "lawful t (fst (resize_adjacent_inner t a b d))" using I by (rule resize_adjacent_inner_lawful)
  moreover have "lawful t ((fst (resize_adjacent_inner t a b d))\<lparr>interactive_resize_st := None\<rparr>)"
    using L lawful_same_core [OF lawfulD(1) [OF L]] lawful_trans by (metis same_core_flags(3))
  ultimately show ?thesis by (simp add: resize_adjacent_def Let_def case_prod_beta calls_are_log lawful_log)
qed

lemma share_change_shares:
  assumes sh: "shares ps" and k: "k < length ps" and n: "1 < length ps" and c: "c = d / real (length ps - 1)"
    and pos: "0 < ps ! k + d" "\<forall>j<length ps. j \<noteq> k \<longrightarrow> 0 < ps ! j - c"
  shows "shares (share_change k d c ps)" "length (share_change k d c ps) = length ps"
proof -
  show len: "length (share_change k d c ps) = length ps" by (simp add: share_change_def)
  have "sum_list (share_change k d c ps) =
      (\<Sum>j<length ps. ps ! j) + (\<Sum>j<length ps. if j = k then d else - c)"
    by (simp add: share_change_def sum_list_sum_nth sum.distrib atLeast0LessThan)
  also have "(\<Sum>j<length ps. if j = k then d else - c) = d - c * real (length ps - 1)"
  proof -
    have "(\<Sum>j<length ps. if j = k then d else - c) = d + (\<Sum>j\<in>{..<length ps} - {k}. - c)"
      using k by (simp add: sum.remove [of _ k])
    then show ?thesis using k by simp
  qed
  also have "\<dots> = 0" using n c by simp
  finally have "sum_list (share_change k d c ps) = sum_list ps"
    by (simp add: sum_list_sum_nth atLeast0LessThan)
  moreover have "\<forall>x\<in>set (share_change k d c ps). 0 < x" using pos by (auto simp: share_change_def)
  ultimately show "shares (share_change k d c ps)" using sh len by (auto simp: shares_def)
qed

lemma resize_across_siblings_lawful:
  assumes I: "inv t"
  shows "lawful t (fst (resize_across_siblings t p i d))"
proof (cases "resize_across_siblings t p i d = (t, False)")
  case True
  then show ?thesis using lawful_refl [OF I] by simp
next
  case False
  then obtain l cs ps m k where h: "get_split t p = Some (l, cs, ps, m)" "k < length ps" "1 < length cs" "0 < ps ! k + d"
      "\<not> list_ex (\<lambda>j. j \<noteq> k \<and> ps ! j - d / real (length cs - 1) \<le> 0) [0..<length ps]"
    and eq: "resize_across_siblings t p i d = (animate_geometry_changes (request_window_sizes
        ((set_value t p (Split l cs (share_change k d (d / real (length cs - 1)) ps) m))\<lparr>interactive_resize_st := None\<rparr>)) None, True)"
    unfolding resize_across_siblings_def Let_def by (auto simp: vec_get_def not_le split: option.splits if_splits)
  note sp = forest_splitD [OF invD(4) [OF I] h(1)]
  have pos: "\<forall>j<length ps. j \<noteq> k \<longrightarrow> 0 < ps ! j - d / real (length cs - 1)"
    using h(5) by (auto simp: list_ex_iff not_le)
  note sc = share_change_shares [OF sp(4) h(2) _ _ h(4) pos]
  let ?v = "set_value t p (Split l cs (share_change k d (d / real (length cs - 1)) ps) m)"
  have "lawful t ?v" using h(3) sp(3) sc by (intro lawful_reshare [OF I h(1)]) simp_all
  moreover have "lawful ?v (?v\<lparr>interactive_resize_st := None\<rparr>)"
    using calculation by (intro lawful_same_core) (simp_all add: lawful_def)
  ultimately show ?thesis by (simp add: eq calls_are_log lawful_log lawful_trans)
qed

section \<open>Every resize keeps the tree\<close>

lemma resize_dimension_loop_lawful:
  assumes I: "inv t"
  shows "contains_key t b \<Longrightarrow> node_depth t b < k \<Longrightarrow> lawful t (fst (resize_dimension_loop k t i width c b (parent_of t b)))"
proof (induction k arbitrary: b)
  case (Suc k)
  have F: "forest {} {} t" using I by (rule invD)
  note rfl = lawful_refl [OF I]
  show ?case
  proof (cases "parent_of t b")
    case (Some p)
    obtain l cs ps m where sp: "get_split t p = Some (l, cs, ps, m)" using F Some by (rule forest_parentD)
    have ih: "lawful t (fst (resize_dimension_loop k t i width c p (parent_of t p)))"
      using Suc.prems(2) node_depth_child [OF F Some] by (intro Suc.IH get_split_contains [OF sp]) simp
    show ?thesis
      using ih rfl resize_across_siblings_lawful [OF I] Some sp
      by (auto simp: Let_def case_prod_beta split: option.split)
  qed (use rfl in simp)
qed simp

lemma resize_node_dimension_lawful:
  assumes I: "inv t"
  shows "lawful t (fst (resize_node_dimension t i width c))"
proof (cases "contains_key t i")
  case True
  then show ?thesis
    unfolding resize_node_dimension_def
    using node_depth_bound [OF invD(4) [OF I] True] by (intro resize_dimension_loop_lawful [OF I]) (simp_all add: walk_fuel_def)
next
  case False
  then have "parent_of t i = None" using parent_of_contains by (cases "parent_of t i") auto
  then show ?thesis using lawful_refl [OF I] by (simp add: resize_node_dimension_def walk_fuel_def)
qed

lemmas resize_lawful_facts = lawful_refl resize_node_dimension_lawful resize_adjacent_lawful

lemma toggle_full_width_lawful: "inv t \<Longrightarrow> lawful t (toggle_full_width t)"
  by (simp add: toggle_full_width_def resize_lawful_facts split: option.split)

lemma set_window_width_lawful: "inv t \<Longrightarrow> lawful t (fst (set_window_width t w c))"
  by (simp add: set_window_width_def resize_lawful_facts split: option.split)

lemma set_window_height_lawful: "inv t \<Longrightarrow> lawful t (fst (set_window_height t w c))"
  by (simp add: set_window_height_def resize_lawful_facts split: option.split)

lemma set_node_size_sway_lawful: "inv t \<Longrightarrow> lawful t (set_node_size_sway t i x y)"
  using lawful_trans [OF resize_node_dimension_lawful resize_node_dimension_lawful] lawfulD(1) [OF resize_node_dimension_lawful]
  by (auto simp: set_node_size_sway_def Let_def resize_lawful_facts split: option.split)

lemma set_window_size_sway_lawful: "inv t \<Longrightarrow> lawful t (set_window_size_sway t w x y)"
  by (simp add: set_window_size_sway_def set_node_size_sway_lawful lawful_refl split: option.split)

lemma toggle_preset_lawful: "inv t \<Longrightarrow> lawful t (toggle_preset t w width fw)"
  by (simp add: toggle_preset_def Let_def set_window_width_lawful set_window_height_lawful lawful_refl split: option.split)

lemma resize_node_edge_command_lawful: "inv t \<Longrightarrow> lawful t (fst (resize_node_edge_command t i ed c))"
  by (auto simp: resize_node_edge_command_def Let_def case_prod_beta resize_lawful_facts split: option.split)

lemma resize_window_edge_lawful: "inv t \<Longrightarrow> lawful t (fst (resize_window_edge t w ed c))"
  by (simp add: resize_window_edge_def resize_node_edge_command_lawful lawful_refl split: option.split)

lemma shares_even: "ps \<noteq> [] \<Longrightarrow> shares (map (\<lambda>_. 1 / real (length ps)) ps)"
  by (simp add: shares_def sum_list_triv)

lemma reset_window_height_lawful:
  assumes I: "inv t"
  shows "lawful t (reset_window_height t w)"
proof (cases "\<exists>i p cs ps m. resolve_node t w = Some i \<and> parent_of t i = Some p \<and> get_split t p = Some (SplitV, cs, ps, m)")
  case False
  then have "reset_window_height t w = t"
    by (auto simp: reset_window_height_def split: option.splits layout.splits)
  then show ?thesis using lawful_refl [OF I] by simp
next
  case True
  then obtain i p cs ps m where h: "resolve_node t w = Some i" "parent_of t i = Some p" "get_split t p = Some (SplitV, cs, ps, m)"
    by blast
  note sp = forest_splitD [OF invD(4) [OF I] h(3)]
  let ?v = "set_value t p (Split SplitV cs (map (\<lambda>_. 1 / real (length cs)) ps) m)"
  have "i \<in> set cs" using forest_parentD [OF invD(4) [OF I] h(2)] h(3) by fastforce
  then have "ps \<noteq> []" using sp(3) by auto
  then have "lawful t ?v" using shares_even [of ps] sp(3) by (intro lawful_reshare [OF I h(3)]) simp_all
  moreover have "lawful ?v (?v\<lparr>interactive_resize_st := None\<rparr>)"
    using calculation by (intro lawful_same_core) (simp_all add: lawful_def)
  ultimately show ?thesis using h by (simp add: reset_window_height_def calls_are_log lawful_log lawful_trans)
qed

lemma interactive_resize_begin_lawful:
  assumes I: "inv t"
  shows "lawful t (fst (interactive_resize_begin t w ed))"
  using lawful_refl [OF I] lawful_same_core [OF I same_core_flags(3)]
  by (simp add: interactive_resize_begin_def Let_def split: option.split)

lemma resize_axes_lawful:
  assumes "lawful t u"
  shows "lawful t (fst (fold (resize_axis_step dx dy) axes (u, c)))"
  using assms
proof (induction axes arbitrary: u c)
  case (Cons ax axes)
  note Iu = lawfulD(1) [OF Cons.prems]
  have "lawful u (fst (resize_axis_step dx dy ax (u, c)))"
    using lawful_refl [OF Iu] resize_adjacent_inner_lawful [OF Iu]
    by (auto simp: resize_axis_step_def Let_def case_prod_beta split: option.split)
  then have "lawful t (fst (resize_axis_step dx dy ax (u, c)))" using Cons.prems lawful_trans by blast
  then show ?case using Cons.IH [of "fst (resize_axis_step dx dy ax (u, c))" "snd (resize_axis_step dx dy ax (u, c))"] by simp
qed simp

lemma interactive_resize_update_lawful:
  assumes I: "inv t"
  shows "lawful t (fst (interactive_resize_update t w dx dy))"
  using lawful_refl [OF I] resize_axes_lawful [OF lawful_refl [OF I]]
  by (auto simp: interactive_resize_update_def Let_def case_prod_beta calls_are_log lawful_log split: option.split)

lemma interactive_resize_end_lawful:
  assumes I: "inv t"
  shows "lawful t (interactive_resize_end t w)"
  using lawful_refl [OF I] lawful_same_core [OF I same_core_flags(3)] by (simp add: interactive_resize_end_def)

section \<open>What a resize changes\<close>

text \<open>Moving the boundary back restores the shares.\<close>

lemma resize_adjacent_inner_back:
  assumes I: "inv t" and ok: "snd (resize_adjacent_inner t a b d)"
  shows "snd (resize_adjacent_inner (fst (resize_adjacent_inner t a b d)) a b (- d))"
    "nodes (fst (resize_adjacent_inner (fst (resize_adjacent_inner t a b d)) a b (- d))) = nodes t"
proof -
  have "snd (resize_adjacent_inner (fst (resize_adjacent_inner t a b d)) a b (- d)) \<and>
    nodes (fst (resize_adjacent_inner (fst (resize_adjacent_inner t a b d)) a b (- d))) = nodes t"
    using I
  proof (cases rule: resize_adjacent_inner_cases [where a = a and b = b and d = d])
    case refused
    then show ?thesis using ok by simp
  next
    case (moved p l cs ps m i j)
    note F = invD(4) [OF I]
    have pos: "0 < ps ! i" "0 < ps ! j" using forest_splitD(4) [OF F moved(3)] moved(6,7) by (auto simp: shares_def)
    let ?ps = "ps[i := ps ! i + d, j := ps ! j - d]"
    let ?u = "request_window_sizes (set_value t p (Split l cs ?ps m))"
    have ij: "i \<noteq> j" using moved(8) by auto
    have pK: "contains_key t p" using moved(3) by (rule get_split_contains)
    have r: "parent_of ?u = parent_of t" "get_split ?u p = Some (l, cs, ?ps, m)"
      using same_nodes_reads [of ?u "set_value t p (Split l cs ?ps m)"] pK by (simp_all add: calls_are_log fun_eq_iff)
    have undo: "?ps[i := ?ps ! i + - d, j := ?ps ! j - - d] = ps"
      using moved(6,7) ij by (simp add: list_update_swap)
    have "resize_adjacent_inner ?u a b (- d) = (request_window_sizes (set_value ?u p (Split l cs ps m)), True)"
      using moved(1,2,4-8) r pos ij undo
      by (auto simp: resize_adjacent_inner_def vec_get_def)
    moreover obtain n where n: "nodes t p = Some n" "node_value n = Split l cs ps m"
      using moved(3) by (auto simp: get_split_eq_Some)
    have "nodes (set_value ?u p (Split l cs ps m)) = nodes t"
      using n by (auto simp: calls_are_log fun_eq_iff log_call_def set_value_def)
    ultimately show ?thesis by (simp add: moved(11) calls_are_log)
  qed
  then show "snd (resize_adjacent_inner (fst (resize_adjacent_inner t a b d)) a b (- d))"
    "nodes (fst (resize_adjacent_inner (fst (resize_adjacent_inner t a b d)) a b (- d))) = nodes t" by blast+
qed

end
