(* ===== verification/Examples.thy ===== *)
theory Examples
  imports Movement_Laws
begin

text \<open>
  The initial tree satisfies the invariant, and small concrete trees, built by the operations of
  the model from the initial one, on which the general theorems are instantiated.
\<close>

section \<open>The initial tree\<close>

lemma new_tree_reads:
  fixes c vw vh area e sc h s opts
  defines "t \<equiv> new_tree c vw vh area e sc h s opts"
  shows "contains_key t = (\<lambda>i. i = c)" "parent_of t = (\<lambda>_. None)" "tile_at t = (\<lambda>_. None)"
    "get_split t = (\<lambda>_. None)(c \<mapsto> (default_layout (opt_default_orientation opts) vw vh, [], [], split_meta_default))"
    "tree_root t = c" "next_id t = Suc c" "focus t = None"
  by (auto simp: t_def new_tree_def contains_key_def parent_of_def tile_at_def get_split_def value_of_def fun_eq_iff
      split: option.splits)

lemma no_edges: "up_edges (\<lambda>_. None) = {}"
  by (auto simp: up_edges_def)

lemma new_tree_forest: "forest {} {} (new_tree c vw vh area e sc h s opts)"
  by (rule forestI)
    (auto simp: new_tree_reads tops_def is_split_def shares_def no_edges acyclic_def split: if_splits)

theorem new_tree_inv: "inv (new_tree c vw vh area e sc h s opts)"
  using new_tree_forest [of c vw vh area e sc h s opts] new_tree_reads [of c vw vh area e sc h s opts]
  by (simp add: inv_def wft_def side_ok_def modes_ok_def focus_in_def leaves_def fullscreen_mode_def new_tree_def)

lemma new_tree_depth: "depth_ok (new_tree c vw vh area e sc h s opts)"
proof -
  let ?t = "new_tree c vw vh area e sc h s opts"
  have F: "forest {} {} ?t" by (rule new_tree_forest)
  have "node_depth ?t c = 0" using node_depth_eq [OF F, of c c 0] by (simp add: new_tree_reads)
  then show ?thesis by (simp add: depth_ok_def new_tree_reads)
qed

section \<open>Concrete trees\<close>

definition demo_options :: options where
  "demo_options = \<lparr>opt_focus_wrapping = FwYes, opt_workspace_layout = WlDefault,
     opt_default_orientation = DoHorizontal, opt_gaps = 0,
     opt_struts = \<lparr>strut_left = 0, strut_right = 0, strut_top = 0, strut_bottom = 0\<rparr>,
     opt_outer_gaps_configured = False, opt_hide_edge_borders = HebNone, opt_smart_borders = SbOff,
     opt_draw_uncovered_top_border = False, opt_preset_column_widths = [], opt_preset_window_heights = []\<rparr>"

definition demo_tile :: "wid \<Rightarrow> tile" where
  "demo_tile w = \<lparr>window_id = w, pending_sizing_mode = SmNormal, focus_timestamp = None, win_title = ''a'',
     win_marks = [], has_sway_titlebar = False, configured_border_width = 0\<rparr>"

definition demo_area :: rect where
  "demo_area = \<lparr>loc_x = 0, loc_y = 0, size_w = 1200, size_h = 900\<rparr>"

definition demo0 :: tree where
  "demo0 = new_tree 1 1200 900 demo_area False 1 20 (\<lambda>_ x. x) demo_options"

text \<open>A container and a window in the arena.\<close>

definition demo_split :: "nid option \<Rightarrow> layout \<Rightarrow> nid list \<Rightarrow> node" where
  "demo_split p l cs = \<lparr>parent = p, node_value = Split l cs (map (\<lambda>_. 1 / real (length cs)) cs) split_meta_default\<rparr>"

definition demo_leaf :: "nid \<Rightarrow> wid \<Rightarrow> node" where
  "demo_leaf p w = \<lparr>parent = Some p, node_value = Leaf (demo_tile w)\<rparr>"

text \<open>Two windows side by side: the nodes 2 and 3 under the root 1.\<close>

definition demo2 :: tree where
  "demo2 = demo0\<lparr>nodes := map_of [(1, demo_split None SplitH [2, 3]), (2, demo_leaf 1 10), (3, demo_leaf 1 11)],
     focus := Some 3, focus_history := [3, 2], has_had_tile := True, next_id := 4\<rparr>"

text \<open>The second window stacked over a third: the nodes 3 and 5 under the container 4.\<close>

definition demo3 :: tree where
  "demo3 = demo0\<lparr>nodes := map_of [(1, demo_split None SplitH [2, 4]), (2, demo_leaf 1 10),
       (3, demo_leaf 4 11), (4, demo_split (Some 1) SplitV [3, 5]), (5, demo_leaf 4 12)],
     focus := Some 3, focus_history := [3, 4, 5, 2], has_had_tile := True, next_id := 6\<rparr>"

lemmas demo_defs = demo_split_def demo_leaf_def demo0_def new_tree_def

lemma demo2_reads:
  "contains_key demo2 = (\<lambda>i. i \<in> {1, 2, 3})"
  "parent_of demo2 = map_of [(2, 1), (3, 1)]"
  "tile_at demo2 = map_of [(2, demo_tile 10), (3, demo_tile 11)]"
  "get_split demo2 = map_of [(1, (SplitH, [2, 3], [1 / 2, 1 / 2], split_meta_default))]"
  by (auto simp: demo2_def demo_defs contains_key_def parent_of_def tile_at_def get_split_def value_of_def fun_eq_iff)

lemma demo3_reads:
  "contains_key demo3 = (\<lambda>i. i \<in> {1, 2, 3, 4, 5})"
  "parent_of demo3 = map_of [(2, 1), (3, 4), (4, 1), (5, 4)]"
  "tile_at demo3 = map_of [(2, demo_tile 10), (3, demo_tile 11), (5, demo_tile 12)]"
  "get_split demo3 = map_of [(1, (SplitH, [2, 4], [1 / 2, 1 / 2], split_meta_default)),
      (4, (SplitV, [3, 5], [1 / 2, 1 / 2], split_meta_default))]"
  by (auto simp: demo3_def demo_defs contains_key_def parent_of_def tile_at_def get_split_def value_of_def fun_eq_iff)

lemma acyclic_rank:
  assumes "\<And>c p. P c = Some p \<Longrightarrow> h p < (h c :: nat)"
  shows "acyclic (up_edges P)"
proof -
  have "up_edges P \<subseteq> converse (measure h)" using assms by (auto simp: up_edges_def)
  then show ?thesis using wf_acyclic [OF wf_measure [of h]] acyclic_subset by (metis acyclic_converse)
qed

lemma demo2_inv: "inv demo2"
proof -
  have A: "acyclic (up_edges (parent_of demo2))"
    by (rule acyclic_rank [where h = "\<lambda>x. if x = 1 then 0 else 1 :: nat"]) (auto simp: demo2_reads split: if_splits)
  have F: "forest {} {} demo2"
    by (rule forestI [OF _ _ _ _ _ _ A])
      (auto simp: demo2_reads tops_def is_split_def shares_def split: if_splits, auto simp: demo2_def demo_defs)
  then show ?thesis
    by (auto simp: inv_def wft_def side_ok_def modes_ok_def focus_in_def leaves_def fullscreen_mode_def demo2_reads
        fun_eq_iff) (auto simp: demo2_def demo_defs)
qed

lemma demo3_inv: "inv demo3"
proof -
  have A: "acyclic (up_edges (parent_of demo3))"
    by (rule acyclic_rank [where h = "\<lambda>x. if x = 1 then 0 else if x = 4 then 1 else 2 :: nat"]) (auto simp: demo3_reads split: if_splits)
  have F: "forest {} {} demo3"
    by (rule forestI [OF _ _ _ _ _ _ A])
      (auto simp: demo3_reads tops_def is_split_def shares_def split: if_splits, auto simp: demo3_def demo_defs)
  then show ?thesis
    by (auto simp: inv_def wft_def side_ok_def modes_ok_def focus_in_def leaves_def fullscreen_mode_def demo3_reads
        fun_eq_iff) (auto simp: demo3_def demo_defs)
qed

end
