(* ===== verification/Commands.thy ===== *)
theory Commands
  imports Resize Examples
begin

text \<open>
  The tiling engine as a state machine. The public operations of the modules of
  \<^verbatim>\<open>src/layout/tiling_tree\<close> are commands, grouped by module; \<open>exec\<close> runs one of them with the
  definitions of the other theories. \<open>permitted\<close> is what the callers in \<^verbatim>\<open>workspace.rs\<close> and
  \<^verbatim>\<open>layout/mod.rs\<close> guarantee: a window is added once, a node that is focused or dropped on is a
  node of the tree, and a tree is given focus only when it has a window.

  The locales state what a component promises the dispatcher: \<open>steady_ops\<close>, that every permitted
  command keeps the invariant and every window in its node, and \<open>bounded_ops\<close>, that it also keeps
  the nesting bound. Each module is an instance of one of them.
\<close>

section \<open>The contract of a component\<close>

text \<open>Every command of a sequence is permitted in the state it meets.\<close>

fun permitted_run :: "('c \<Rightarrow> tree \<Rightarrow> bool) \<Rightarrow> ('c \<Rightarrow> tree \<Rightarrow> tree) \<Rightarrow> 'c list \<Rightarrow> tree \<Rightarrow> bool" where
  "permitted_run ok run [] t = True"
| "permitted_run ok run (c # cs) t = (ok c t \<and> permitted_run ok run cs (run c t))"

locale steady_ops =
  fixes ok :: "'c \<Rightarrow> tree \<Rightarrow> bool" and run :: "'c \<Rightarrow> tree \<Rightarrow> tree"
  assumes run_sound: "inv t \<Longrightarrow> ok c t \<Longrightarrow> sound t (run c t)"
begin

lemma run_inv: "inv t \<Longrightarrow> ok c t \<Longrightarrow> inv (run c t)"
  using run_sound soundD(1) by blast

lemma run_windows: "inv t \<Longrightarrow> ok c t \<Longrightarrow> tile_at (run c t) = tile_at t"
  using run_sound soundD(3) by blast

lemma run_list: "inv t \<Longrightarrow> permitted_run ok run cs t \<Longrightarrow> sound t (fold run cs t)"
proof (induction cs arbitrary: t)
  case (Cons c cs)
  then have s: "sound t (run c t)" by (simp add: run_sound)
  then show ?case using Cons.IH [OF soundD(1) [OF s]] Cons.prems sound_trans by auto
qed (simp add: sound_refl)

end

locale bounded_ops = steady_ops +
  assumes run_depth: "inv t \<Longrightarrow> ok c t \<Longrightarrow> depth_ok t \<Longrightarrow> depth_ok (run c t)"
begin

lemma run_lawful: "inv t \<Longrightarrow> ok c t \<Longrightarrow> lawful t (run c t)"
  using run_sound [of t c] run_depth [of t c] by (auto simp: sound_def lawful_def)

lemma run_list_depth: "inv t \<Longrightarrow> permitted_run ok run cs t \<Longrightarrow> depth_ok t \<Longrightarrow> depth_ok (fold run cs t)"
proof (induction cs arbitrary: t)
  case (Cons c cs)
  then show ?case using run_inv run_depth by simp
qed simp

end

section \<open>Focus\<close>

datatype focus_command =
  FSet nid | FRoot | FParent | FChild | FInactiveLeaf nid | FActivate wid | FFromOutput direction
| FScrollTab wid int | FSibling bool | FFirst | FLast | FInSubtree nid nat | FInParent nat | FRootChild nat
| FLastRootChild | FExtreme bool | FDirection direction | FDirectionNoWrap direction | FNextPrev bool
| FRestoreRank wid nat | FSortByTimestamp

fun focus_ok :: "focus_command \<Rightarrow> tree \<Rightarrow> bool" where
  "focus_ok (FSet i) t \<longleftrightarrow> focus t \<noteq> None"
| "focus_ok FRoot t \<longleftrightarrow> focus t \<noteq> None"
| "focus_ok (FInactiveLeaf i) t \<longleftrightarrow> contains_key t i"
| "focus_ok (FInSubtree i n) t \<longleftrightarrow> contains_key t i"
| "focus_ok _ t \<longleftrightarrow> True"

fun focus_run :: "focus_command \<Rightarrow> tree \<Rightarrow> tree" where
  "focus_run (FSet i) t = set_focus t i"
| "focus_run FRoot t = focus_root t"
| "focus_run FParent t = fst (focus_parent t)"
| "focus_run FChild t = fst (focus_child t)"
| "focus_run (FInactiveLeaf i) t = focus_inactive_leaf_of t i"
| "focus_run (FActivate w) t = fst (activate_window t w)"
| "focus_run (FFromOutput d) t = fst (focus_from_output_direction t d)"
| "focus_run (FScrollTab w n) t = fst (scroll_tab_indicator t w n)"
| "focus_run (FSibling nxt) t = fst (focus_next_prev_sibling t nxt)"
| "focus_run FFirst t = focus_first t"
| "focus_run FLast t = focus_last t"
| "focus_run (FInSubtree i n) t = focus_window_in_subtree t i n"
| "focus_run (FInParent n) t = focus_window_in_parent t n"
| "focus_run (FRootChild n) t = focus_root_child t n"
| "focus_run FLastRootChild t = focus_last_root_child t"
| "focus_run (FExtreme b) t = focus_extreme t b"
| "focus_run (FDirection d) t = fst (focus_direction t d)"
| "focus_run (FDirectionNoWrap d) t = fst (focus_direction_without_wrap t d)"
| "focus_run (FNextPrev nxt) t = fst (focus_next_or_prev t nxt)"
| "focus_run (FRestoreRank w n) t = restore_focus_rank t w n"
| "focus_run FSortByTimestamp t = sort_focus_history_by_timestamp t"

lemma focus_run_lawful: "inv t \<Longrightarrow> focus_ok c t \<Longrightarrow> lawful t (focus_run c t)"
  by (cases c)
    (simp_all add: set_focus_lawful focus_root_lawful focus_parent_lawful focus_child_lawful
      focus_inactive_leaf_of_lawful activate_window_lawful focus_from_output_direction_lawful scroll_tab_indicator_lawful
      focus_next_prev_sibling_lawful focus_first_lawful focus_last_lawful focus_window_in_subtree_lawful
      focus_window_in_parent_lawful focus_root_child_lawful focus_last_root_child_lawful focus_extreme_lawful
      focus_direction_def focus_direction_without_wrap_def focus_direction_inner_lawful focus_next_or_prev_lawful
      restore_focus_rank_lawful sort_focus_history_lawful)

interpretation focus_ops: bounded_ops focus_ok focus_run
  by unfold_locales (use focus_run_lawful in \<open>auto simp: lawful_def sound_def\<close>)

section \<open>Layouts\<close>

datatype layout_command =
  LSplit nid layout | LSplitFocused layout | LSet nid layout | LSetTarget nid layout | LSetFocused layout
| LSetFocusedParent layout | LToggleTabbed | LToggleSplit nid | LToggleFocusedSplit | LToggleFocused layout_toggle
| LToggleTarget nid layout_toggle | LToggleFocusedLayoutSplit | LRestoreFocused | LRestoreTarget nid
| LFlattenParent nid | LWrapWorkspace

fun layout_run :: "layout_command \<Rightarrow> tree \<Rightarrow> tree" where
  "layout_run (LSplit i l) t = split t i l"
| "layout_run (LSplitFocused l) t = split_focused t l"
| "layout_run (LSet i l) t = set_layout t i l"
| "layout_run (LSetTarget i l) t = fst (set_target_layout t i l)"
| "layout_run (LSetFocused l) t = fst (set_focused_layout t l)"
| "layout_run (LSetFocusedParent l) t = set_focused_parent_layout t l"
| "layout_run LToggleTabbed t = toggle_focused_tabbed t"
| "layout_run (LToggleSplit i) t = toggle_split t i"
| "layout_run LToggleFocusedSplit t = toggle_focused_split t"
| "layout_run (LToggleFocused g) t = fst (toggle_focused_layout t g)"
| "layout_run (LToggleTarget i g) t = fst (toggle_target_layout t i g)"
| "layout_run LToggleFocusedLayoutSplit t = fst (toggle_focused_layout_split t)"
| "layout_run LRestoreFocused t = fst (restore_focused_split_layout t)"
| "layout_run (LRestoreTarget i) t = fst (restore_target_layout t i)"
| "layout_run (LFlattenParent i) t = fst (flatten_parent t i)"
| "layout_run LWrapWorkspace t = wrap_workspace_children t"

lemma layout_run_lawful: "inv t \<Longrightarrow> lawful t (layout_run c t)"
  by (cases c)
    (simp_all add: split_lawful split_focused_lawful set_layout_lawful set_target_layout_lawful set_focused_layout_lawful
      set_focused_parent_layout_lawful toggle_focused_tabbed_lawful toggle_split_lawful toggle_focused_split_lawful
      toggle_focused_layout_lawful toggle_target_layout_lawful toggle_focused_layout_split_lawful
      restore_focused_split_layout_lawful restore_target_layout_lawful flatten_parent_lawful wrap_workspace_children_lawful)

interpretation layout_ops: bounded_ops "\<lambda>_ _. True" layout_run
  by unfold_locales (use layout_run_lawful in \<open>auto simp: lawful_def sound_def\<close>)

section \<open>Fullscreen, maximizing and configuration\<close>

datatype mode_command =
  MNodeFullscreen nid "fullscreen_mode option" | MFullscreen wid bool | MMaximized wid bool | MArrangeParent
| MArrived | MMovedUnder wid rect | MResetEmpty | MPreserveAuto | MTrackAuto
| MConfig real real rect bool real real options

fun mode_ok :: "mode_command \<Rightarrow> tree \<Rightarrow> bool" where
  "mode_ok MResetEmpty t \<longleftrightarrow> is_empty t"
| "mode_ok _ t \<longleftrightarrow> True"

fun mode_run :: "mode_command \<Rightarrow> tree \<Rightarrow> tree" where
  "mode_run (MNodeFullscreen i m) t = fst (set_node_fullscreen t i m)"
| "mode_run (MFullscreen w b) t = fst (set_fullscreen t w b)"
| "mode_run (MMaximized w b) t = fst (set_maximized t w b)"
| "mode_run MArrangeParent t = arrange_fullscreen_parent t"
| "mode_run MArrived t = mark_fullscreen_arrived t"
| "mode_run (MMovedUnder w r) t = mark_moved_under_fullscreen t w r"
| "mode_run MResetEmpty t = reset_empty_layout t"
| "mode_run MPreserveAuto t = preserve_empty_auto_layout t"
| "mode_run MTrackAuto t = track_empty_auto_layout t"
| "mode_run (MConfig vw vh area e sc tb opts) t = update_config t vw vh area e sc tb opts"

lemma lawful_tables:
  assumes "inv t'" "nodes t' = nodes t" "tree_root t' = tree_root t" "next_id t' = next_id t"
    "focus t' = None \<longleftrightarrow> focus t = None"
  shows "lawful t t'"
proof -
  note r = same_nodes_reads [OF assms(2)]
  have "depth_ok t' \<longleftrightarrow> depth_ok t" by (rule depth_ok_cong) (simp_all add: r assms)
  then show ?thesis using assms r by (simp add: lawful_def steady_def)
qed

lemma set_node_fullscreen_lawful: "inv t \<Longrightarrow> lawful t (fst (set_node_fullscreen t i m))"
  using lawful_replace_fullscreen [of t i m]
  by (simp add: set_node_fullscreen_def Let_def case_prod_beta calls_are_log lawful_log)

lemma set_fullscreen_lawful: "inv t \<Longrightarrow> lawful t (fst (set_fullscreen t w b))"
  by (simp add: set_fullscreen_def set_node_fullscreen_lawful lawful_refl split: option.split)

lemma cancel_resize_reads:
  "nodes (cancel_resize_for t i) = nodes t" "tree_root (cancel_resize_for t i) = tree_root t"
  "next_id (cancel_resize_for t i) = next_id t" "focus (cancel_resize_for t i) = focus t"
  by (simp_all add: cancel_resize_for_def split: option.split)

lemma set_maximized_lawful: "inv t \<Longrightarrow> lawful t (fst (set_maximized t w b))"
  by (rule lawful_tables [OF set_maximized_inv])
    (simp_all add: set_maximized_def Let_def calls_are_log cancel_resize_reads split: option.split)

lemma mark_moved_under_fullscreen_lawful: "inv t \<Longrightarrow> lawful t (mark_moved_under_fullscreen t w r)"
  by (rule lawful_tables [OF mark_moved_under_fullscreen_inv])
    (simp_all add: mark_moved_under_fullscreen_def Let_def split: option.split)

lemma arrange_fullscreen_parent_lawful: "inv t \<Longrightarrow> lawful t (arrange_fullscreen_parent t)"
  by (rule lawful_tables) (simp_all add: arrange_fullscreen_parent_def Let_def split: option.split)

lemma mark_fullscreen_arrived_lawful: "inv t \<Longrightarrow> lawful t (mark_fullscreen_arrived t)"
  by (rule lawful_tables) (simp_all add: mark_fullscreen_arrived_def)

lemma mode_run_lawful: "inv t \<Longrightarrow> mode_ok c t \<Longrightarrow> lawful t (mode_run c t)"
  by (cases c)
    (simp_all add: set_node_fullscreen_lawful set_fullscreen_lawful set_maximized_lawful mark_moved_under_fullscreen_lawful
      arrange_fullscreen_parent_lawful mark_fullscreen_arrived_lawful reset_empty_layout_lawful
      preserve_empty_auto_layout_lawful track_empty_auto_layout_lawful update_config_lawful)

interpretation mode_ops: bounded_ops mode_ok mode_run
  by unfold_locales (use mode_run_lawful in \<open>auto simp: lawful_def sound_def\<close>)

section \<open>Resizing\<close>

datatype resize_command =
  RAdjacent nid nid real | RFullWidth | RWidth "wid option" size_change | RHeight "wid option" size_change
| RSize wid "size_change option" "size_change option" | RNodeSize nid "size_change option" "size_change option"
| RNodeEdge nid resize_edge size_change | REdge "wid option" resize_edge size_change | RResetHeight "wid option"
| RPreset "wid option" bool bool | RBegin wid resize_edge | RUpdate wid real real | REnd "wid option"

fun resize_run :: "resize_command \<Rightarrow> tree \<Rightarrow> tree" where
  "resize_run (RAdjacent a b d) t = fst (resize_adjacent t a b d)"
| "resize_run RFullWidth t = toggle_full_width t"
| "resize_run (RWidth w c) t = fst (set_window_width t w c)"
| "resize_run (RHeight w c) t = fst (set_window_height t w c)"
| "resize_run (RSize w x y) t = set_window_size_sway t w x y"
| "resize_run (RNodeSize i x y) t = set_node_size_sway t i x y"
| "resize_run (RNodeEdge i ed c) t = fst (resize_node_edge_command t i ed c)"
| "resize_run (REdge w ed c) t = fst (resize_window_edge t w ed c)"
| "resize_run (RResetHeight w) t = reset_window_height t w"
| "resize_run (RPreset w width fw) t = toggle_preset t w width fw"
| "resize_run (RBegin w ed) t = fst (interactive_resize_begin t w ed)"
| "resize_run (RUpdate w dx dy) t = fst (interactive_resize_update t w dx dy)"
| "resize_run (REnd w) t = interactive_resize_end t w"

lemma resize_run_lawful: "inv t \<Longrightarrow> lawful t (resize_run c t)"
  by (cases c)
    (simp_all add: resize_adjacent_lawful toggle_full_width_lawful set_window_width_lawful set_window_height_lawful
      set_window_size_sway_lawful set_node_size_sway_lawful resize_node_edge_command_lawful resize_window_edge_lawful
      reset_window_height_lawful toggle_preset_lawful interactive_resize_begin_lawful interactive_resize_update_lawful
      interactive_resize_end_lawful)

interpretation resize_ops: bounded_ops "\<lambda>_ _. True" resize_run
  by unfold_locales (use resize_run_lawful in \<open>auto simp: lawful_def sound_def\<close>)

section \<open>Moves\<close>

datatype move_command =
  VSwap nid nid | VToNode nid nid | VToIndex nid nat | VFocusedToIndex nat | VExpelOrConsume "wid option" bool
| VConsume | VExpel

fun move_run :: "move_command \<Rightarrow> tree \<Rightarrow> tree" where
  "move_run (VSwap a b) t = fst (swap_nodes t a b)"
| "move_run (VToNode i j) t = fst (move_subtree_to_node t i j)"
| "move_run (VToIndex i n) t = fst (move_subtree_to_index t i n)"
| "move_run (VFocusedToIndex n) t = fst (move_focused_to_index t n)"
| "move_run (VExpelOrConsume w right) t = expel_or_consume t w right"
| "move_run VConsume t = consume_focused t"
| "move_run VExpel t = expel_focused t"

lemma move_run_lawful: "inv t \<Longrightarrow> lawful t (move_run c t)"
  by (cases c)
    (simp_all add: swap_nodes_lawful move_subtree_to_node_lawful move_subtree_to_index_lawful move_focused_to_index_def
      expel_or_consume_lawful consume_focused_def consume_lawful expel_focused_def expel_lawful lawful_refl
      split: option.split)

interpretation move_ops: bounded_ops "\<lambda>_ _. True" move_run
  by unfold_locales (use move_run_lawful in \<open>auto simp: lawful_def sound_def\<close>)

text \<open>The directional moves do not check the nesting bound, so they promise the weaker contract.\<close>

datatype direction_command = DFocused direction | DNode nid direction | DWindow wid direction

fun direction_run :: "direction_command \<Rightarrow> tree \<Rightarrow> tree" where
  "direction_run (DFocused d) t = fst (move_focused t d)"
| "direction_run (DNode i d) t = fst (move_node_direction t i d)"
| "direction_run (DWindow w d) t = fst (move_window_direction t w d)"

lemma direction_run_sound: "inv t \<Longrightarrow> distinct_windows t \<Longrightarrow> sound t (direction_run c t)"
  by (cases c)
    (simp_all add: move_focused_def move_direction_sound move_node_direction_sound move_window_direction_def sound_refl
      split: option.split)

interpretation direction_ops: steady_ops "\<lambda>_ t. distinct_windows t" direction_run
  by unfold_locales (rule direction_run_sound)

section \<open>Windows\<close>

datatype window_command =
  WAdd tile insert_target bool | WAddAtDrop tile nid resize_edge bool | WAddRightOf wid tile bool
| WAddToSubtree nid tile bool | WAddToParent tile nid bool | WRemove wid | WRemoveWithoutTransaction wid
| WRemoveForTransfer wid

definition fresh_window :: "tree \<Rightarrow> tile \<Rightarrow> bool" where
  "fresh_window t w \<longleftrightarrow> node_for_window t (window_id w) = None"

fun window_ok :: "window_command \<Rightarrow> tree \<Rightarrow> bool" where
  "window_ok (WAdd w target a) t \<longleftrightarrow> fresh_window t w"
| "window_ok (WAddAtDrop w i ed a) t \<longleftrightarrow> fresh_window t w \<and> is_leaf t i \<and>
     (\<not> intersects ed {LEFT, TOP} \<or> opt_workspace_layout (options_of t) = WlDefault)"
| "window_ok (WAddRightOf v w a) t \<longleftrightarrow> fresh_window t w"
| "window_ok (WAddToSubtree i w a) t \<longleftrightarrow> fresh_window t w"
| "window_ok (WAddToParent w p a) t \<longleftrightarrow> fresh_window t w \<and> is_split t p \<and> (a \<or> focus t \<noteq> None)"
| "window_ok _ t \<longleftrightarrow> True"

fun window_run :: "window_command \<Rightarrow> tree \<Rightarrow> tree" where
  "window_run (WAdd w target a) t = fst (add_tile_with_activation t w target a)"
| "window_run (WAddAtDrop w i ed a) t = fst (add_tile_at_drop t w i ed a)"
| "window_run (WAddRightOf v w a) t = fst (add_tile_right_of t v w a)"
| "window_run (WAddToSubtree i w a) t = fst (add_tile_to_subtree t i w a)"
| "window_run (WAddToParent w p a) t = fst (add_tile_to_existing_parent t w p a)"
| "window_run (WRemove w) t = fst (remove_tile t w)"
| "window_run (WRemoveWithoutTransaction w) t = fst (remove_tile_without_transaction t w)"
| "window_run (WRemoveForTransfer w) t = fst (remove_tile_for_transfer t w)"

text \<open>A window command adds one window in a new leaf, removes one leaf, or changes nothing.\<close>

lemma window_run_cases:
  assumes I: "inv t" and ok: "window_ok c t"
  obtains (same) "lawful t (window_run c t)"
  | (added) i w where "fresh_window t w" "\<not> contains_key t i" "gains t i w (window_run c t)"
  | (removed) i where "loses t i (window_run c t)"
proof -
  have fresh: "\<not> contains_key t (next_id t)" using forest_bound [OF invD(4) [OF I], of "next_id t"] by blast
  note add = add_tile_gains(1) [OF I]
  note rfl = lawful_refl [OF I]
  show ?thesis
  proof (cases c)
    case (WAdd w target a)
    then show ?thesis using added [OF _ fresh] ok add by simp
  next
    case (WAddAtDrop w i ed a)
    then show ?thesis using added add_tile_at_drop_gains [OF I, of i ed w a] ok by auto
  next
    case (WAddRightOf v w a)
    then show ?thesis
      using added [OF _ fresh, of w] ok add rfl same
      by (cases "node_for_window t v") (auto simp: add_tile_right_of_def case_prod_beta)
  next
    case (WAddToSubtree i w a)
    then show ?thesis
      using added [OF _ fresh, of w] ok add rfl same
      by (cases "contains_key t i") (auto simp: add_tile_to_subtree_def case_prod_beta)
  next
    case (WAddToParent w p a)
    then show ?thesis using added [OF _ fresh, of w] add_tile_to_existing_parent_gains [OF I] ok by simp
  next
    case (WRemove w)
    have "loses t i (fst (remove_tile t w))" if "node_for_window t w = Some i" for i
      using remove_tile_loses [OF I that] by metis
    then show ?thesis
      using WRemove removed same rfl remove_tile_absent(1) by (cases "node_for_window t w") auto
  next
    case (WRemoveWithoutTransaction w)
    have "loses t i (fst (remove_tile_without_transaction t w))" if "node_for_window t w = Some i" for i
      using I that by (rule remove_tile_without_transaction_loses)
    then show ?thesis
      using WRemoveWithoutTransaction removed same rfl remove_tile_absent(3) by (cases "node_for_window t w") auto
  next
    case (WRemoveForTransfer w)
    have "loses t i (fst (remove_tile_for_transfer t w))" if "node_for_window t w = Some i" for i
      using I that by (rule remove_tile_for_transfer_loses)
    then show ?thesis
      using WRemoveForTransfer removed same rfl remove_tile_absent(2) by (cases "node_for_window t w") auto
  qed
qed

section \<open>The machine\<close>

datatype command =
  Window window_command | Focus focus_command | LayoutCmd layout_command | Mode mode_command
| Resize resize_command | Move move_command | Direct direction_command

fun permitted :: "command \<Rightarrow> tree \<Rightarrow> bool" where
  "permitted (Window c) t = window_ok c t"
| "permitted (Focus c) t = focus_ok c t"
| "permitted (Mode c) t = mode_ok c t"
| "permitted _ t = True"

fun exec :: "command \<Rightarrow> tree \<Rightarrow> tree" where
  "exec (Window c) t = window_run c t"
| "exec (Focus c) t = focus_run c t"
| "exec (LayoutCmd c) t = layout_run c t"
| "exec (Mode c) t = mode_run c t"
| "exec (Resize c) t = resize_run c t"
| "exec (Move c) t = move_run c t"
| "exec (Direct c) t = direction_run c t"

fun is_direct :: "command \<Rightarrow> bool" where
  "is_direct (Direct c) = True"
| "is_direct _ = False"

definition good :: "tree \<Rightarrow> bool" where
  "good t \<longleftrightarrow> inv t \<and> distinct_windows t"

lemma distinct_windows_steady: "distinct_windows t \<Longrightarrow> tile_at t' = tile_at t \<Longrightarrow> distinct_windows t'"
  by (simp add: distinct_windows_def)

lemma distinct_windows_gains:
  assumes I: "inv t" and dw: "distinct_windows t" and f: "fresh_window t w" and T: "tile_at t' = (tile_at t)(i \<mapsto> w)"
  shows "distinct_windows t'"
proof -
  have "\<forall>j x. tile_at t j = Some x \<longrightarrow> window_id x \<noteq> window_id w"
    using f node_for_window_None [OF invD(4) [OF I]] by (simp add: fresh_window_def)
  then show ?thesis using dw by (auto simp: distinct_windows_def T split: if_splits) metis+
qed

lemma distinct_windows_loses: "distinct_windows t \<Longrightarrow> tile_at t' = (tile_at t)(i := None) \<Longrightarrow> distinct_windows t'"
  by (auto simp: distinct_windows_def split: if_splits)

lemma exec_sound:
  assumes "inv t" "distinct_windows t" "permitted c t" "\<And>w. c \<noteq> Window w"
  shows "sound t (exec c t)"
  using assms focus_ops.run_sound layout_ops.run_sound mode_ops.run_sound resize_ops.run_sound move_ops.run_sound
    direction_ops.run_sound
  by (cases c) auto

lemma exec_depth:
  assumes "inv t" "permitted c t" "\<not> is_direct c" "depth_ok t"
  shows "depth_ok (exec c t)"
proof (cases c)
  case (Window w)
  then have "window_ok w t" using assms(2) by simp
  with assms(1) show ?thesis
    by (cases rule: window_run_cases) (use Window assms(4) in \<open>auto simp: lawful_def gains_def loses_def\<close>)
qed (use assms focus_ops.run_depth layout_ops.run_depth mode_ops.run_depth resize_ops.run_depth move_ops.run_depth in auto)

theorem exec_good:
  assumes g: "good t" and p: "permitted c t"
  shows "good (exec c t)"
proof (cases "\<exists>w. c = Window w")
  case True
  then obtain w where w: "c = Window w" by blast
  have I: "inv t" and dw: "distinct_windows t" using g by (simp_all add: good_def)
  have "window_ok w t" using p w by simp
  with I show ?thesis
  proof (cases rule: window_run_cases)
    case same
    then show ?thesis using distinct_windows_steady [OF dw] w by (auto simp: good_def lawful_def steady_def)
  next
    case (added i x)
    then show ?thesis using distinct_windows_gains [OF I dw] w by (auto simp: good_def gains_def)
  next
    case (removed i)
    then show ?thesis using distinct_windows_loses [OF dw] w by (auto simp: good_def loses_def)
  qed
next
  case False
  then have "sound t (exec c t)" using exec_sound g p by (auto simp: good_def)
  then show ?thesis using g distinct_windows_steady by (auto simp: good_def dest: soundD)
qed

text \<open>The states the compositor can bring a tree into.\<close>

inductive reachable :: "tree \<Rightarrow> bool" where
  start: "reachable (new_tree c vw vh area e sc h s opts)"
| step: "reachable t \<Longrightarrow> permitted c t \<Longrightarrow> reachable (exec c t)"

inductive bounded_reachable :: "tree \<Rightarrow> bool" where
  start: "bounded_reachable (new_tree c vw vh area e sc h s opts)"
| step: "bounded_reachable t \<Longrightarrow> permitted c t \<Longrightarrow> \<not> is_direct c \<Longrightarrow> bounded_reachable (exec c t)"

lemma bounded_is_reachable: "bounded_reachable t \<Longrightarrow> reachable t"
  by (induction rule: bounded_reachable.induct) (auto intro: reachable.intros)

lemma new_tree_good: "good (new_tree c vw vh area e sc h s opts)"
  using new_tree_inv by (simp add: good_def distinct_windows_def new_tree_reads)

lemma reachable_is_good: "reachable t \<Longrightarrow> good t"
  by (induction rule: reachable.induct) (simp_all add: new_tree_good exec_good)

lemma bounded_depth: "bounded_reachable t \<Longrightarrow> depth_ok t"
proof (induction rule: bounded_reachable.induct)
  case (step t c)
  then show ?case using reachable_is_good [OF bounded_is_reachable] exec_depth by (auto simp: good_def)
qed (rule new_tree_depth)

end
