(* ===== verification/Geometry_Laws.thy ===== *)
theory Geometry_Laws
  imports Invariants
begin

text \<open>
  What the tiled pass of \<^verbatim>\<open>src/layout/tiling_tree/geometry.rs\<close> computes: every node gets one box, the
  children of a horizontal or vertical container get consecutive boxes along its axis, the children
  of a tabbed or stacked container share one box under the titles. The reference is the closed form
  \<open>child_box\<close>; the boxes of a container fill it without overlap, and gaps never take a container
  below its minimum extent.
\<close>

section \<open>The reference layout\<close>

text \<open>The space the gaps leave, where the \<open>j\<close>-th child starts, and its box.\<close>

definition available :: "layout \<Rightarrow> rect \<Rightarrow> real \<Rightarrow> nat \<Rightarrow> real" where
  "available l r gp n = max (axis_extent l r - gp * real (n - 1)) 0"

definition child_offset :: "real \<Rightarrow> real \<Rightarrow> real list \<Rightarrow> nat \<Rightarrow> real" where
  "child_offset av gp shs j = (\<Sum>q<j. av * shs ! q + gp)"

definition box_at :: "layout \<Rightarrow> rect \<Rightarrow> real \<Rightarrow> real \<Rightarrow> rect" where
  "box_at l r start extent =
     (if l = SplitH then mk_rect start (loc_y r) extent (size_h r) else mk_rect (loc_x r) start (size_w r) extent)"

definition axis_start :: "layout \<Rightarrow> rect \<Rightarrow> real" where
  "axis_start l r = (if l = SplitH then loc_x r else loc_y r)"

definition child_box :: "layout \<Rightarrow> rect \<Rightarrow> real \<Rightarrow> real list \<Rightarrow> nat \<Rightarrow> rect" where
  "child_box l r gp shs j =
     (let av = available l r gp (length shs)
      in box_at l r (axis_start l r + child_offset av gp shs j) (av * shs ! j))"

definition gap_choice :: "assign_context \<Rightarrow> layout \<Rightarrow> rect \<Rightarrow> nat \<Rightarrow> real \<Rightarrow> bool" where
  "gap_choice cx l r n gp \<longleftrightarrow> gp = 0 \<or>
     gp = split_gap (cx_gaps cx) (axis_extent l r) n (if l = SplitH then MIN_SANE_W else MIN_SANE_H)"

definition laid_out :: "assign_context \<Rightarrow> (nid \<Rightarrow> rect option) \<Rightarrow> nid \<Rightarrow> bool" where
  "laid_out cx N p \<longleftrightarrow> (\<forall>l cs ps m. get_split (cx_tree cx) p = Some (l, cs, ps, m) \<longrightarrow>
     (\<exists>r. N p = Some r \<and>
       (if linear l
        then \<exists>gp. gap_choice cx l r (length cs) gp \<and>
          (\<forall>j<length cs. N (cs ! j) = Some (child_box l r gp (visible_shares (cx_mapped_under_fullscreen cx) cs ps) j))
        else \<forall>j<length cs. N (cs ! j) = Some (strip_content (cx_titlebar_height cx) l (length cs) r))))"

lemma laid_out_cong:
  assumes "laid_out cx N p" "N' p = N p"
    "\<And>l cs ps m c. get_split (cx_tree cx) p = Some (l, cs, ps, m) \<Longrightarrow> c \<in> set cs \<Longrightarrow> N' c = N c"
  shows "laid_out cx N' p"
  using assms unfolding laid_out_def by (metis (no_types, lifting) nth_mem)

section \<open>The pass computes it\<close>

text \<open>\<open>places cx i r N N'\<close>: the pass over the subtree of \<open>i\<close> with box \<open>r\<close> took the boxes \<open>N\<close> to \<open>N'\<close>.\<close>

definition places :: "assign_context \<Rightarrow> nid \<Rightarrow> rect \<Rightarrow> (nid \<Rightarrow> rect option) \<Rightarrow> (nid \<Rightarrow> rect option) \<Rightarrow> bool" where
  "places cx i r N N' \<longleftrightarrow> N' i = Some r \<and> (\<forall>x. x \<notin> under (cx_tree cx) i \<longrightarrow> N' x = N x) \<and>
     (\<forall>p\<in>under (cx_tree cx) i. laid_out cx N' p)"

text \<open>The boxes after a loop over siblings: each has the box it was given, the rest is as before.\<close>

definition places_all :: "assign_context \<Rightarrow> (nid \<times> rect) list \<Rightarrow> (nid \<Rightarrow> rect option) \<Rightarrow> (nid \<Rightarrow> rect option) \<Rightarrow> bool" where
  "places_all cx xs N N' \<longleftrightarrow> (\<forall>(c, r)\<in>set xs. N' c = Some r \<and> (\<forall>p\<in>under (cx_tree cx) c. laid_out cx N' p)) \<and>
     (\<forall>x. (\<forall>c\<in>fst ` set xs. x \<notin> under (cx_tree cx) c) \<longrightarrow> N' x = N x)"

lemma places_all_Nil: "places_all cx [] N N"
  by (simp add: places_all_def)

lemma below_child_under:
  assumes F: "forest D E t" and p: "p \<in> under t i" and s: "get_split t p = Some (l, cs, ps, m)" and c: "c \<in> set cs"
  shows "c \<in> under t i"
  using forest_splitD(2) [OF F s c] p by (auto simp: under_def intro: converse_rtrancl_into_rtrancl)

lemma places_all_Cons:
  assumes F: "forest {} {} (cx_tree cx)" and h: "places cx c r N N1" and t: "places_all cx xs N1 N2"
    and disj: "\<And>d. d \<in> fst ` set xs \<Longrightarrow> under (cx_tree cx) c \<inter> under (cx_tree cx) d = {}"
  shows "places_all cx ((c, r) # xs) N N2"
proof -
  let ?t = "cx_tree cx"
  have keep: "N2 x = N1 x" if "x \<in> under ?t c" for x using t disj that by (fastforce simp: places_all_def)
  have self: "c \<in> under ?t c" by (simp add: under_def)
  have "laid_out cx N2 p" if p: "p \<in> under ?t c" for p
  proof (rule laid_out_cong)
    show "laid_out cx N1 p" using h p by (simp add: places_def)
    show "N2 p = N1 p" using keep p .
    show "N2 x = N1 x" if "get_split ?t p = Some (l, cs, ps, m)" "x \<in> set cs" for l cs ps m x
      using keep below_child_under [OF F p that] .
  qed
  moreover have "N2 c = Some r" using h keep [OF self] by (simp add: places_def)
  moreover have "N2 x = N x" if "\<forall>d\<in>fst ` set ((c, r) # xs). x \<notin> under ?t d" for x
    using that h t by (auto simp: places_def places_all_def)
  ultimately show ?thesis using t by (auto simp: places_all_def)
qed

abbreviation apart :: "tree \<Rightarrow> nid list \<Rightarrow> bool" where
  "apart t cs \<equiv> distinct cs \<and> (\<forall>c\<in>set cs. \<forall>d\<in>set cs. c \<noteq> d \<longrightarrow> under t c \<inter> under t d = {})"

text \<open>The boxes a linear container hands out from a cursor on.\<close>

fun run_boxes :: "layout \<Rightarrow> rect \<Rightarrow> real \<Rightarrow> real \<Rightarrow> (nid \<times> real) list \<Rightarrow> real \<Rightarrow> (nid \<times> rect) list" where
  "run_boxes l r av gp [] cur = []"
| "run_boxes l r av gp ((c, x) # xs) cur = (c, box_at l r cur (av * x)) # run_boxes l r av gp xs (cur + (av * x + gp))"

lemma fst_run_boxes [simp]: "map fst (run_boxes l r av gp xs cur) = map fst xs"
  by (induction xs arbitrary: cur) auto

lemma length_run_boxes [simp]: "length (run_boxes l r av gp xs cur) = length xs"
  by (induction xs arbitrary: cur) auto

lemma run_boxes_nth:
  "j < length xs \<Longrightarrow> run_boxes l r av gp xs cur ! j =
     (fst (xs ! j), box_at l r (cur + child_offset av gp (map snd xs) j) (av * snd (xs ! j)))"
proof (induction xs arbitrary: j cur)
  case (Cons x xs)
  obtain c y where x: "x = (c, y)" by (cases x)
  show ?case
  proof (cases j)
    case (Suc i)
    have "child_offset av gp (map snd (x # xs)) (Suc i) = (av * y + gp) + child_offset av gp (map snd xs) i"
      unfolding child_offset_def sum.lessThan_Suc_shift by (simp add: x)
    then show ?thesis using Cons Suc by (simp add: x algebra_simps)
  qed (simp add: x child_offset_def)
qed simp

lemma linear_loop_places:
  assumes F: "forest {} {} (cx_tree cx)" and l: "linear l"
    and rec: "\<forall>a g. as_id a \<in> fst ` set xs \<longrightarrow> places cx (as_id a) (as_rect a) (ipc_nodes g) (ipc_nodes (f a g))"
    and ap: "apart (cx_tree cx) (map fst xs)"
  shows "places_all cx (run_boxes l (as_rect a) (max av 0) gp xs cur) (ipc_nodes g)
    (ipc_nodes (linear_loop f l a n av gp xs i cur g))"
  using rec ap
proof (induction xs arbitrary: i cur g)
  case Nil
  then show ?case by (simp add: places_all_Nil)
next
  case (Cons x xs)
  obtain c y where x: "x = (c, y)" by (cases x)
  define b where "b = \<lparr>as_id = c, as_rect = box_at l (as_rect a) cur (max av 0 * y), as_covering_titlebar = None,
     as_decorated_by_parent = False, as_decorated_corners = child_corners (as_decorated_corners a) i n l (as_suppress_gaps a),
     as_suppress_gaps = as_suppress_gaps a, as_ipc_origin = (loc_x (as_rect a), loc_y (as_rect a))\<rparr>"
  have "places cx (as_id b) (as_rect b) (ipc_nodes g) (ipc_nodes (f b g))"
    by (rule Cons.prems(1) [rule_format]) (simp add: b_def x)
  then have h: "places cx c (box_at l (as_rect a) cur (max av 0 * y)) (ipc_nodes g) (ipc_nodes (f b g))" by (simp add: b_def)
  have t: "places_all cx (run_boxes l (as_rect a) (max av 0) gp xs (cur + (max av 0 * y + gp))) (ipc_nodes (f b g))
      (ipc_nodes (linear_loop f l a n av gp xs (i + 1) (cur + (max av 0 * y + gp)) (f b g)))"
    by (rule Cons.IH) (use Cons.prems in auto)
  have fs: "fst ` set (run_boxes l r' av' gp xs cur') = set (map fst xs)" for r' av' cur'
    by (metis fst_run_boxes list.set_map)
  have eq: "linear_loop f l a n av gp (x # xs) i cur g =
      linear_loop f l a n av gp xs (i + 1) (cur + (max av 0 * y + gp)) (f b g)"
    by (simp add: x Let_def b_def box_at_def)
  show ?case
    unfolding eq [unfolded x] x run_boxes.simps by (rule places_all_Cons [OF F h t]) (use Cons.prems(2) fs in \<open>auto simp: x\<close>)
qed

lemma strip_loop_places:
  assumes F: "forest {} {} (cx_tree cx)"
    and rec: "\<forall>a g. as_id a \<in> set cs \<longrightarrow> places cx (as_id a) (as_rect a) (ipc_nodes g) (ipc_nodes (f a g))"
    and ap: "apart (cx_tree cx) cs"
  shows "places_all cx (map (\<lambda>c. (c, strip_content (cx_titlebar_height cx) l n r)) cs) (ipc_nodes g)
    (ipc_nodes (strip_loop f cx l r co n cs i g))"
  using rec ap
proof (induction cs arbitrary: i g)
  case Nil
  then show ?case by (simp add: places_all_Nil)
next
  case (Cons c cs)
  define g1 where "g1 = (case first_window (walk_fuel (cx_tree cx)) (cx_tree cx) c of
      Some entry \<Rightarrow> emit_strip_titlebar cx l r c i n entry co g | None \<Rightarrow> g)"
  have n1: "ipc_nodes g1 = ipc_nodes g" by (simp add: g1_def split: option.split)
  define b where "b = \<lparr>as_id = c, as_rect = strip_content (cx_titlebar_height cx) l n r,
      as_covering_titlebar = map_option tb_rect (titlebars g1 c), as_decorated_by_parent = True,
      as_decorated_corners = corners_NONE\<lparr>bottom_left := bottom_left co, bottom_right := bottom_right co\<rparr>,
      as_suppress_gaps = True, as_ipc_origin = (loc_x r, loc_y r)\<rparr>"
  have "places cx (as_id b) (as_rect b) (ipc_nodes g1) (ipc_nodes (f b g1))"
    by (rule Cons.prems(1) [rule_format]) (simp add: b_def)
  then have h: "places cx c (strip_content (cx_titlebar_height cx) l n r) (ipc_nodes g) (ipc_nodes (f b g1))"
    by (simp add: b_def n1)
  have t: "places_all cx (map (\<lambda>c. (c, strip_content (cx_titlebar_height cx) l n r)) cs) (ipc_nodes (f b g1))
      (ipc_nodes (strip_loop f cx l r co n cs (i + 1) (f b g1)))"
    by (rule Cons.IH) (use Cons.prems in auto)
  have eq: "strip_loop f cx l r co n (c # cs) i g = strip_loop f cx l r co n cs (i + 1) (f b g1)"
    by (simp add: Let_def g1_def [symmetric] b_def)
  show ?case
    unfolding eq list.map by (rule places_all_Cons [OF F h t]) (use Cons.prems(2) in \<open>auto simp: image_image\<close>)
qed

lemma length_visible_shares: "length ps = length cs \<Longrightarrow> length (visible_shares M cs ps) = length cs"
  by (simp add: visible_shares_def Let_def)

lemma places_split:
  assumes F: "forest {} {} (cx_tree cx)" and s: "get_split (cx_tree cx) i = Some (l, cs, ps, m)"
    and all: "places_all cx (zip cs bs) (N(i \<mapsto> r)) N'" and len: "length bs = length cs"
    and out: "(\<forall>j<length cs. N' (cs ! j) = Some (bs ! j)) \<Longrightarrow> N' i = Some r \<Longrightarrow> laid_out cx N' i"
  shows "places cx i r N N'"
proof -
  let ?t = "cx_tree cx"
  have u: "under ?t i = insert i (\<Union>c\<in>set cs. under ?t c)" using F s by (rule under_split)
  have fs: "fst ` set (zip cs bs) = set cs" using len by (metis list.set_map map_fst_zip)
  have ni: "i \<notin> under ?t c" if "c \<in> set cs" for c
    using links.no_self_loop [OF arena_okI [OF F] forest_splitD(2) [OF F s that]] by (simp add: under_def)
  have Ni: "N' i = Some r" using all ni fs by (auto simp: places_all_def)
  have nth: "N' (cs ! j) = Some (bs ! j)" "\<forall>p\<in>under ?t (cs ! j). laid_out cx N' p" if "j < length cs" for j
  proof -
    have "(cs ! j, bs ! j) \<in> set (zip cs bs)" using that len by (auto simp: set_zip)
    then show "N' (cs ! j) = Some (bs ! j)" "\<forall>p\<in>under ?t (cs ! j). laid_out cx N' p"
      using all by (auto simp: places_all_def)
  qed
  have "laid_out cx N' p" if "p \<in> under ?t i" for p
    using that nth out Ni u by (auto simp: in_set_conv_nth)
  moreover have "N' x = N x" if "x \<notin> under ?t i" for x
    using all that u fs by (auto simp: places_all_def)
  ultimately show ?thesis using Ni by (simp add: places_def)
qed

lemma assign_places:
  assumes F: "forest {} {} (cx_tree cx)"
  shows "contains_key (cx_tree cx) (as_id a) \<Longrightarrow> next_id (cx_tree cx) < node_depth (cx_tree cx) (as_id a) + k \<Longrightarrow>
    places cx (as_id a) (as_rect a) (ipc_nodes g) (ipc_nodes (assign k cx a g))"
proof (induction k arbitrary: a g)
  case 0
  then show ?case using node_depth_bound [OF F 0(1)] by simp
next
  case (Suc k)
  let ?t = "cx_tree cx" and ?i = "as_id a" and ?r = "as_rect a"
  define g1 where "g1 = g\<lparr>ipc_nodes := (ipc_nodes g)(?i \<mapsto> ?r)\<rparr>"
  have n1: "ipc_nodes g1 = (ipc_nodes g)(?i \<mapsto> ?r)" by (simp add: g1_def)
  from Suc.prems(1) show ?case
  proof (cases rule: node_cases)
    case (leaf w)
    have u: "under ?t ?i = {?i}" using F leaf(2) by (rule under_leaf)
    have "laid_out cx N ?i" for N using leaf(2) by (simp add: laid_out_def)
    then show ?thesis using leaf(1) u by (simp add: places_def)
  next
    case (split l cs ps m)
    note sp = forest_splitD [OF F split(2)]
    have rec: "places cx (as_id b) (as_rect b) (ipc_nodes h) (ipc_nodes (assign k cx b h))" if "as_id b \<in> set cs" for b h
      using Suc.IH [OF child_contains [OF F split(2) that]] node_depth_child [OF F sp(2) [OF that]] Suc.prems(2) by simp
    have ap: "apart ?t cs"
      using sp(1) siblings_disjoint [OF F split(2)] by (auto simp: under_def)
    show ?thesis
    proof (cases "linear l")
      case True
      define shs where "shs = visible_shares (cx_mapped_under_fullscreen cx) cs ps"
      have ls: "length shs = length cs" unfolding shs_def by (rule length_visible_shares [OF sp(3)])
      define gp where "gp = linear_gap cx l (length cs) a"
      define av where "av = axis_extent l ?r - gp * real (length cs - 1)"
      let ?bs = "map (child_box l ?r gp shs) [0..<length cs]"
      let ?N = "ipc_nodes (assign (Suc k) cx a g)"
      have eq: "assign (Suc k) cx a g = linear_loop (assign k cx) l a (length cs) av gp (zip cs shs) 0 (axis_start l ?r) g1"
        using split(1) True
        by (auto simp: assign_linear_split_def Let_def g1_def gp_def av_def shs_def axis_start_def)
      have "places_all cx (run_boxes l ?r (max av 0) gp (zip cs shs) (axis_start l ?r)) ((ipc_nodes g)(?i \<mapsto> ?r)) ?N"
        unfolding eq n1 [symmetric]
      proof (rule linear_loop_places [OF F True])
        have zs: "map fst (zip cs shs) = cs" using ls by simp
        then show "apart ?t (map fst (zip cs shs))" using ap by simp
        show "\<forall>b h. as_id b \<in> fst ` set (zip cs shs) \<longrightarrow>
            places cx (as_id b) (as_rect b) (ipc_nodes h) (ipc_nodes (assign k cx b h))"
          using rec zs by (metis list.set_map)
      qed
      moreover have "run_boxes l ?r (max av 0) gp (zip cs shs) (axis_start l ?r) = zip cs ?bs"
        using ls by (intro nth_equalityI) (simp_all add: run_boxes_nth child_box_def available_def av_def Let_def)
      ultimately have all: "places_all cx (zip cs ?bs) ((ipc_nodes g)(?i \<mapsto> ?r)) ?N" by simp
      have "gap_choice cx l ?r (length cs) gp"
        by (auto simp: gap_choice_def gp_def linear_gap_def)
      then have "laid_out cx ?N ?i" if "\<forall>j<length cs. ?N (cs ! j) = Some (?bs ! j)" "?N ?i = Some ?r"
        using that True split(2) unfolding laid_out_def by (auto simp: shs_def)
      then show ?thesis by (intro places_split [OF F split(2) all]) auto
    next
      case False
      let ?b = "strip_content (cx_titlebar_height cx) l (length cs) ?r"
      let ?bs = "map (\<lambda>_. ?b) cs"
      let ?N = "ipc_nodes (assign (Suc k) cx a g)"
      have eq: "assign (Suc k) cx a g = strip_loop (assign k cx) cx l ?r (as_decorated_corners a) (length cs) cs 0 g1"
        using split(1) False by (auto simp: assign_strip_def Let_def g1_def)
      have "places_all cx (map (\<lambda>c. (c, ?b)) cs) ((ipc_nodes g)(?i \<mapsto> ?r)) ?N"
        unfolding eq n1 [symmetric] using rec ap by (intro strip_loop_places [OF F]) auto
      moreover have "map (\<lambda>c. (c, ?b)) cs = zip cs ?bs" by (simp add: zip_map2 zip_same_conv_map)
      ultimately have all: "places_all cx (zip cs ?bs) ((ipc_nodes g)(?i \<mapsto> ?r)) ?N" by simp
      have "laid_out cx ?N ?i" if "\<forall>j<length cs. ?N (cs ! j) = Some (?bs ! j)" "?N ?i = Some ?r"
        using that False split(2) unfolding laid_out_def by auto
      then show ?thesis by (intro places_split [OF F split(2) all]) auto
    qed
  qed
qed

theorem tiled_pass_places:
  assumes I: "inv t"
  shows "places (geometry_context t) (tree_root t) (cx_workspace_area (geometry_context t)) (\<lambda>_. None) (ipc_nodes (tiled_pass t))"
proof -
  have F: "forest {} {} t" using I by (rule invD)
  have r: "contains_key t (tree_root t)" using F by (rule forest_root_split) (rule get_split_contains)
  define cx a where "cx = geometry_context t" and "a = root_assignment (tree_root t) (cx_workspace_area (geometry_context t)) corners_ALL"
  have ra: "cx_tree cx = t" "as_id a = tree_root t" "as_rect a = cx_workspace_area cx"
    by (simp_all add: cx_def a_def root_assignment_def)
  have "places cx (as_id a) (as_rect a) (ipc_nodes geometry_default) (ipc_nodes (assign (walk_fuel t) cx a geometry_default))"
    by (rule assign_places) (use F r in \<open>simp_all add: ra walk_fuel_def del: assign.simps\<close>)
  then have "places (geometry_context t) (tree_root t) (cx_workspace_area (geometry_context t)) (ipc_nodes geometry_default)
      (ipc_nodes (tiled_pass t))"
    unfolding ra tiled_pass_def by (simp only: cx_def a_def)
  then show ?thesis by (simp add: geometry_default_def)
qed

section \<open>The boxes fill the container\<close>

lemma split_gap_bounds:
  assumes "0 \<le> req" "0 \<le> mn" "1 < n"
  shows "0 \<le> split_gap req ex n mn" "split_gap req ex n mn \<le> req"
    "split_gap req ex n mn * real (n - 1) \<le> max (ex - mn * real n) 0"
proof -
  define sep where "sep = real (n - 1)"
  define total where "total = min (req * sep) (max (ex - mn * real n) 0)"
  have s: "0 < sep" using assms(3) by (simp add: sep_def)
  have eq: "split_gap req ex n mn = of_int \<lfloor>total / sep\<rfloor>"
    using assms(3) unfolding split_gap_def Let_def total_def sep_def by simp
  have "0 \<le> total" unfolding total_def using assms(1) s by simp
  then show "0 \<le> split_gap req ex n mn" unfolding eq using s by simp
  have le: "of_int \<lfloor>total / sep\<rfloor> \<le> total / sep" by (rule of_int_floor_le)
  have "total / sep \<le> req" using s by (simp add: divide_le_eq total_def)
  then show "split_gap req ex n mn \<le> req" unfolding eq using le by linarith
  have "of_int \<lfloor>total / sep\<rfloor> * sep \<le> total" using le s by (simp only: pos_le_divide_eq)
  then show "split_gap req ex n mn * real (n - 1) \<le> max (ex - mn * real n) 0"
    unfolding eq sep_def [symmetric] total_def by linarith
qed

lemma gap_choice_bounds:
  assumes "gap_choice cx l r n gp" "0 \<le> cx_gaps cx" "0 \<le> axis_extent l r" "0 < n"
  shows "0 \<le> gp" "gp \<le> cx_gaps cx" "gp * real (n - 1) \<le> axis_extent l r"
    "available l r gp n = axis_extent l r - gp * real (n - 1)"
    "min (axis_extent l r) ((if l = SplitH then MIN_SANE_W else MIN_SANE_H) * real n) \<le> available l r gp n"
proof -
  let ?mn = "if l = SplitH then MIN_SANE_W else MIN_SANE_H"
  have mn: "0 \<le> ?mn" by (simp add: MIN_SANE_W_def MIN_SANE_H_def)
  have mnn: "0 \<le> ?mn * real n" using mn by simp
  have "0 \<le> gp \<and> gp \<le> cx_gaps cx \<and> gp * real (n - 1) \<le> max (axis_extent l r - ?mn * real n) 0"
  proof (cases "gp = 0")
    case False
    then have gp: "gp = split_gap (cx_gaps cx) (axis_extent l r) n ?mn" using assms(1) by (simp only: gap_choice_def) blast
    show ?thesis
    proof (cases "1 < n")
      case True
      show ?thesis unfolding gp using split_gap_bounds [OF assms(2) mn True] by blast
    next
      case n: False
      then have "gp = 0" unfolding gp by (simp add: split_gap_def)
      then show ?thesis using False by simp
    qed
  qed (use assms(2) in simp)
  then have b: "0 \<le> gp" "gp \<le> cx_gaps cx" "gp * real (n - 1) \<le> max (axis_extent l r - ?mn * real n) 0" by blast+
  show "0 \<le> gp" "gp \<le> cx_gaps cx" by fact+
  show le: "gp * real (n - 1) \<le> axis_extent l r" using b(3) mnn assms(3) by linarith
  show av: "available l r gp n = axis_extent l r - gp * real (n - 1)" using le by (simp add: available_def)
  show "min (axis_extent l r) (?mn * real n) \<le> available l r gp n" unfolding av using b(3) mnn by linarith
qed

text \<open>Where the last child ends: at the end of the container, when no child is hidden.\<close>

lemma child_offset_total:
  assumes "sum_list shs = 1" "shs \<noteq> []"
  shows "child_offset av gp shs (length shs - 1) + av * last shs = av + gp * real (length shs - 1)"
proof -
  let ?n = "length shs"
  have n: "?n = Suc (?n - 1)" using assms(2) by simp
  have off: "child_offset av gp shs (?n - 1) = av * (\<Sum>q<?n - 1. shs ! q) + gp * real (?n - 1)"
    by (simp add: child_offset_def sum.distrib sum_distrib_left)
  have tot: "(\<Sum>q<?n - 1. shs ! q) + last shs = 1"
  proof -
    have "(\<Sum>q<?n - 1. shs ! q) + shs ! (?n - 1) = (\<Sum>q<Suc (?n - 1). shs ! q)" by (rule sum.lessThan_Suc [symmetric])
    also have "\<dots> = sum_list shs" using n by (simp only: sum_list_sum_nth atLeast0LessThan)
    finally show ?thesis unfolding last_conv_nth [OF assms(2)] assms(1) .
  qed
  have "av * (\<Sum>q<?n - 1. shs ! q) + av * last shs = av * ((\<Sum>q<?n - 1. shs ! q) + last shs)" by (simp only: distrib_left)
  also have "\<dots> = av" unfolding tot by simp
  finally show ?thesis unfolding off by linarith
qed

definition axis_end :: "layout \<Rightarrow> rect \<Rightarrow> real" where
  "axis_end l r = axis_start l r + axis_extent l r"

lemma box_at_axis [simp]:
  "axis_start l (box_at l r x e) = x" "axis_extent l (box_at l r x e) = e" "axis_end l (box_at l r x e) = x + e"
  by (simp_all add: box_at_def axis_start_def axis_extent_def axis_end_def mk_rect_def)

lemma child_boxes_consecutive:
  "axis_start l (child_box l r gp shs 0) = axis_start l r"
  "axis_start l (child_box l r gp shs (Suc j)) = axis_end l (child_box l r gp shs j) + gp"
  by (simp_all add: child_box_def Let_def child_offset_def)

lemma child_boxes_end:
  assumes sh: "shares shs" "shs \<noteq> []" and g: "gap_choice cx l r (length shs) gp" "0 \<le> cx_gaps cx" "0 \<le> axis_extent l r"
  shows "axis_end l (child_box l r gp shs (length shs - 1)) = axis_end l r"
proof -
  let ?n = "length shs" and ?av = "available l r gp (length shs)"
  have "?av = axis_extent l r - gp * real (?n - 1)" using gap_choice_bounds(4) [OF g] sh(2) by simp
  moreover have "child_offset ?av gp shs (?n - 1) + ?av * shs ! (?n - 1) = ?av + gp * real (?n - 1)"
    using child_offset_total [of shs ?av gp] sh unfolding shares_def last_conv_nth [OF sh(2)] by blast
  ultimately show ?thesis by (simp add: child_box_def Let_def axis_end_def [of l r])
qed

lemma child_boxes_positive:
  assumes sh: "shares shs" and j: "j < length shs" and g: "gap_choice cx l r (length shs) gp" "0 \<le> cx_gaps cx" "0 < axis_extent l r"
  shows "0 < axis_extent l (child_box l r gp shs j)"
proof -
  have n: "0 < length shs" using j by auto
  have ex: "0 \<le> axis_extent l r" using g(3) by simp
  note b = gap_choice_bounds(5) [OF g(1,2) ex n]
  have "0 < (if l = SplitH then MIN_SANE_W else MIN_SANE_H) * real (length shs)"
    using n by (simp add: MIN_SANE_W_def MIN_SANE_H_def)
  then have "0 < available l r gp (length shs)" using b g(3) by linarith
  moreover have "0 < shs ! j" using sh j by (auto simp: shares_def)
  ultimately show ?thesis by (simp add: child_box_def Let_def)
qed

lemma tiled_pass_laid_out:
  assumes I: "inv t" and p: "contains_key t p"
  shows "laid_out (geometry_context t) (ipc_nodes (tiled_pass t)) p"
  using tiled_pass_places [OF I] under_root [OF invD(4) [OF I]] p by (simp add: places_def)

lemma tiled_pass_linear:
  assumes I: "inv t" and p: "get_split t p = Some (l, cs, ps, m)" and l: "linear l" and v: "split_excluded t = {}"
  obtains r gp where "ipc_nodes (tiled_pass t) p = Some r" "gap_choice (geometry_context t) l r (length cs) gp"
    "\<And>j. j < length cs \<Longrightarrow> ipc_nodes (tiled_pass t) (cs ! j) = Some (child_box l r gp ps j)"
proof -
  have "visible_shares (cx_mapped_under_fullscreen (geometry_context t)) cs ps = ps"
    using v by (simp add: geometry_context_def Let_def visible_shares_def)
  then show ?thesis
    using tiled_pass_laid_out [OF I get_split_contains [OF p]] p l that unfolding laid_out_def by fastforce
qed

lemma geometry_context_gaps: "0 \<le> cx_gaps (geometry_context t)"
  by (simp add: geometry_context_def Let_def)

end
