(* ===== verification/Effects.thy ===== *)
theory Effects
  imports Commands Geometry_Laws
begin

text \<open>
  What single operations do to the structure of the tree, beyond keeping it well formed: which
  node ends under which parent, at which place and with which share.
\<close>

lemma log_call_structure [simp]: "get_split (log_call t c) = get_split t" "parent_of (log_call t c) = parent_of t"
  by (simp_all add: same_nodes_reads [of "log_call t c" t])

section \<open>Swapping\<close>

lemma slot_of:
  assumes F: "forest {} {} t" and x: "contains_key t x" "x \<noteq> tree_root t"
  obtains p i where "parent_of t x = Some p" "child_index t p x = Some i"
proof -
  obtain p where p: "parent_of t x = Some p" using forest_top [OF F] x by fastforce
  obtain l cs ps m where s: "get_split t p = Some (l, cs, ps, m)" "x \<in> set cs" using F p by (rule forest_parentD)
  from position_ex [OF s(2)] obtain i where "position x cs = Some i" ..
  then show ?thesis using that p s(1) by (simp add: child_index_def children_of_def)
qed

text \<open>Two nodes that pass the check are not the root, so the exchange takes place.\<close>

lemma swappable_slots:
  assumes I: "inv t" and c: "check_swappable t a b = Inr x"
  obtains pa pb ia ib where "parent_of t a = Some pa" "parent_of t b = Some pb"
    "child_index t pa a = Some ia" "child_index t pb b = Some ib" "a \<noteq> b" "contains_key t a" "contains_key t b"
proof -
  have F: "forest {} {} t" using I by (rule invD)
  have h: "contains_key t a" "contains_key t b" "a \<noteq> b" "\<not> below t a b" "\<not> below t b a"
    using c contains_node_iff [OF F] by (auto simp: check_swappable_def split: if_splits)
  have ne: "a \<noteq> tree_root t" "b \<noteq> tree_root t" using h below_root [OF F] by auto
  show ?thesis using slot_of [OF F h(1) ne(1)] slot_of [OF F h(2) ne(2)] that h by metis
qed

text \<open>The exchange renames the two nodes in every list of children and trades their parents.\<close>

lemma swap_nodes_exchanges:
  assumes I: "inv t" and c: "check_swappable t a b = Inr x"
  defines "u \<equiv> fst (swap_nodes t a b)"
  defines "ex \<equiv> \<lambda>y. if y = a then b else if y = b then a else y"
  shows "snd (swap_nodes t a b) = Inr ()"
    "parent_of u = (parent_of t)(a := parent_of t b, b := parent_of t a)"
    "get_split u i = map_option (\<lambda>(l, cs, ps, m). (l, map ex cs, ps, m)) (get_split t i)"
proof -
  have F: "forest {} {} t" using I by (rule invD)
  obtain pa pb ia ib where h: "parent_of t a = Some pa" "parent_of t b = Some pb"
    "child_index t pa a = Some ia" "child_index t pb b = Some ib" "a \<noteq> b" "contains_key t a" "contains_key t b"
    using swappable_slots [OF I c] .
  define t2 where "t2 = replace_child (replace_child t pa ia b) pb ib a"
  note sl = swap_links [OF F h(1,2,5,3,4), folded t2_def]
  define t3 where "t3 = set_parent (set_parent t2 a (Some pb)) b (Some pa)"
  have P: "parent_of t3 = (parent_of t)(a := Some pb, b := Some pa)"
    using sl(2,3) h by (auto simp: t3_def fun_eq_iff)
  define t4 where "t4 = swap_fullscreen_modes t3 a b"
  have n4: "nodes t4 = nodes t3" by (simp add: t4_def swap_fullscreen_modes_def Let_def)
  define f where "f = focus_after_swap t a pa b pb"
  have eq: "swap_nodes t a b =
      (request_window_sizes (animate_geometry_changes (if focus t4 \<noteq> f then set_focus_id t4 f else t4) None), Inr ())"
    unfolding swap_nodes_def h c sum.case option.case prod.case Let_def t2_def [symmetric] t3_def [symmetric]
      t4_def [symmetric] f_def [symmetric] by (rule refl)
  have nu: "nodes u = nodes t3" using n4 unfolding u_def eq by (simp add: calls_are_log)
  note r = same_nodes_reads [OF nu]
  show "snd (swap_nodes t a b) = Inr ()" unfolding eq by simp
  show "parent_of u = (parent_of t)(a := parent_of t b, b := parent_of t a)" using r P h by simp
  show "get_split u i = map_option (\<lambda>(l, cs, ps, m). (l, map ex cs, ps, m)) (get_split t i)"
    using r sl(1) by (auto simp: t3_def ex_def split: option.split)
qed

section \<open>Places among siblings\<close>

lemma finish_directional_move_nodes: "nodes (finish_directional_move t i) = nodes t"
  by (simp add: finish_directional_move_def calls_are_log)

lemma move_subtree_to_index_places:
  assumes I: "inv t" and s: "get_split t p = Some (l, cs, ps, m)" and k: "k < length cs" "n < length cs"
  shows "get_split (fst (move_subtree_to_index t (cs ! k) n)) =
    (get_split t)(p \<mapsto> (l, insert_at n (cs ! k) (remove_at k cs), insert_at n (ps ! k) (remove_at k ps), m))"
    "snd (move_subtree_to_index t (cs ! k) n) \<longleftrightarrow> k \<noteq> n"
proof -
  have F: "forest {} {} t" using I by (rule invD)
  note sp = forest_splitD [OF F s]
  define u where "u = t\<lparr>interactive_resize_st := None\<rparr>"
  have ru: "nodes u = nodes t" by (simp add: u_def)
  note r = same_nodes_reads [OF ru]
  have par: "parent_of u (cs ! k) = Some p" "get_split u p = Some (l, cs, ps, m)" "position (cs ! k) cs = Some k"
    using r sp(2) [OF nth_mem [OF k(1)]] s position_nth [OF sp(1) k(1)] by simp_all
  have n: "min n (length cs - 1) = n" using k(2) by simp
  let ?v = "set_value u p (Split l (insert_at n (cs ! k) (remove_at k cs)) (insert_at n (ps ! k) (remove_at k ps)) m)"
  have eq: "move_subtree_to_index_inner t (cs ! k) n =
      (if k = n then (u, False) else (finish_directional_move ?v (cs ! k), True))"
    unfolding move_subtree_to_index_inner_def u_def [symmetric] Let_def using par n k sp(3) by simp
  have same: "insert_at k (xs ! k) (remove_at k xs) = xs" if "k < length xs" for xs :: "'a list"
    using id_take_nth_drop [OF that] that by (simp add: insert_at_def remove_at_def min_def)
  have v: "get_split ?v = (get_split u)(p \<mapsto> (l, insert_at n (cs ! k) (remove_at k cs), insert_at n (ps ! k) (remove_at k ps), m))"
    using get_split_contains [OF par(2)] by (auto simp: fun_eq_iff)
  show "get_split (fst (move_subtree_to_index t (cs ! k) n)) =
    (get_split t)(p \<mapsto> (l, insert_at n (cs ! k) (remove_at k cs), insert_at n (ps ! k) (remove_at k ps), m))"
  proof (cases "k = n")
    case True
    then show ?thesis using eq r s same [of cs] same [of ps] k sp(3) by (simp add: move_subtree_to_index_def fun_upd_idem)
  next
    case False
    then show ?thesis
      using eq v r(3) same_nodes_reads(3) [OF finish_directional_move_nodes [of ?v "cs ! k"]]
      by (simp add: move_subtree_to_index_def calls_are_log)
  qed
  show "snd (move_subtree_to_index t (cs ! k) n) \<longleftrightarrow> k \<noteq> n" using eq by (simp add: move_subtree_to_index_def)
qed

section \<open>Splits and layouts\<close>

text \<open>A window that is split ends alone in a container of the given layout, when there is room.\<close>

lemma split_leaf_encloses:
  assumes I: "inv t" and i: "is_leaf t i" and c: "can_wrap t i"
  shows "\<exists>q ps m. parent_of (split t i l) i = Some q \<and> get_split (split t i l) q = Some (l, [i], ps, m)"
proof -
  have F: "forest {} {} t" using I by (rule invD)
  define u where "u = t\<lparr>interactive_resize_st := None, fullscreen_tile_slot := False\<rparr>"
  have nu: "nodes u = nodes t" by (simp add: u_def)
  note r = same_nodes_reads [OF nu]
  have "inv u" using I by (simp add: u_def)
  then have W: "wft {} {} u" by (rule invD)
  have Fu: "forest {} {} u" using W by (rule wfD)
  have cu: "can_wrap u i" using c can_wrap_cong [OF nu] by (simp add: u_def)
  have ir: "i \<noteq> tree_root t" using forest_root [OF F] i split_not_leaf by (auto simp: is_split_def)
  have eq: "split t i l = split_leaf u i l"
    unfolding split_def u_def [symmetric] Let_def using ir i r by (simp add: u_def)
  obtain p where p: "parent_of u i = Some p"
    using slot_of [OF F _ ir] i tile_at_contains r(2) by (metis not_None_eq)
  obtain lp cs ps m where s: "get_split u p = Some (lp, cs, ps, m)" "i \<in> set cs" using Fu p by (rule forest_parentD)
  show ?thesis
  proof (cases "linear lp \<and> length cs = 1")
    case True
    then have "cs = [i]" using s(2) by (cases cs) auto
    then show ?thesis
      using True p s get_split_contains [OF s(1)] unfolding eq by (simp add: split_leaf_def set_split_layout_def)
  next
    case False
    then have e: "split t i l = fst (wrap_node u i l)" unfolding eq using p s by (auto simp: split_leaf_def)
    show ?thesis
      using W
    proof (cases rule: wrap_node_cases [where i = i and l = l])
      case unchanged
      then show ?thesis using cu ir i tile_at_contains r by (auto simp: u_def)
    next
      case (wrapped q lq cq pq mq k v)
      note ws = wrapped_structure [OF Fu wrapped(2-5), of l, folded wrapped(6)]
      have "parent_of (split t i l) i = Some (next_id u)" "get_split (split t i l) (next_id u) = Some (l, [i], [1], split_meta_default)"
        unfolding e wrapped(7) using ws fresh_neq [OF Fu wrapped(2)] by simp_all
      then show ?thesis by blast
    qed
  qed
qed

text \<open>Changing the layout of a container keeps its children; the last horizontal or vertical layout can be restored.\<close>

lemma set_layout_for_command_split:
  assumes "get_split t i = Some (l0, cs, ps, m)"
  shows "get_split (set_layout_for_command t i l) = (get_split t)(i \<mapsto> (l, cs, ps, remember_layout l0 l m))"
proof -
  have "contains_key t i" using assms by (rule get_split_contains)
  moreover have "get_split (t\<lparr>interactive_resize_st := None, fullscreen_tile_slot := False\<rparr>) = get_split t"
    "contains_key (t\<lparr>interactive_resize_st := None, fullscreen_tile_slot := False\<rparr>) = contains_key t"
    by (rule same_nodes_reads, simp)+
  ultimately show ?thesis using assms
    by (auto simp: set_layout_for_command_def Let_def calls_are_log fun_eq_iff)
qed

lemma restore_after_set_layout:
  assumes s: "get_split t i = Some (l0, cs, ps, m)" and l: "linear l0" "l \<noteq> l0"
  defines "u \<equiv> set_layout_for_command t i l"
  shows "snd (restore_node_layout u i)" "layout_of (fst (restore_node_layout u i)) i = Some l0"
    "children_of (fst (restore_node_layout u i)) i = Some cs" "percents_of (fst (restore_node_layout u i)) i = Some ps"
proof -
  have su: "get_split u i = Some (l, cs, ps, m\<lparr>previous_layout := Some l0\<rparr>)"
    using set_layout_for_command_split [OF s, of l] l by (auto simp: u_def remember_layout_def)
  then have "restore_node_layout u i = (set_layout_for_command u i l0, True)"
    by (simp add: restore_node_layout_def previous_layout_of_def split_meta_of_def)
  then show "snd (restore_node_layout u i)" "layout_of (fst (restore_node_layout u i)) i = Some l0"
    "children_of (fst (restore_node_layout u i)) i = Some cs" "percents_of (fst (restore_node_layout u i)) i = Some ps"
    using set_layout_for_command_split [OF su, of l0] by (simp_all add: layout_of_def children_of_def percents_of_def)
qed

fun next_layout :: "layout \<Rightarrow> layout" where
  "next_layout SplitH = SplitV"
| "next_layout SplitV = Stacked"
| "next_layout Stacked = Tabbed"
| "next_layout Tabbed = SplitH"

lemma toggle_all_run:
  assumes s: "get_split t i = Some (l0, cs, ps, m)"
  shows "layout_of (((\<lambda>t. fst (toggle_node_layout t i LtAll)) ^^ n) t) i = Some ((next_layout ^^ n) l0)"
proof -
  have "\<exists>m'. get_split (((\<lambda>t. fst (toggle_node_layout t i LtAll)) ^^ n) t) i = Some ((next_layout ^^ n) l0, cs, ps, m')"
  proof (induction n)
    case (Suc n)
    then obtain m' where "get_split (((\<lambda>t. fst (toggle_node_layout t i LtAll)) ^^ n) t) i =
        Some ((next_layout ^^ n) l0, cs, ps, m')" ..
    then show ?case
      using set_layout_for_command_split by (cases "(next_layout ^^ n) l0") (simp_all add: toggle_node_layout_def layout_of_def)
  qed (simp add: s)
  then show ?thesis by (auto simp: layout_of_def)
qed

section \<open>Emptying the tree\<close>

text \<open>Removing every window, in any order, leaves an empty tree.\<close>

lemma remove_all_windows:
  assumes "inv t" "distinct_windows t" "distinct ws" "set ws = window_id ` ran (tile_at t)"
  shows "inv (fold (\<lambda>w t. fst (remove_tile t w)) ws t) \<and> tile_at (fold (\<lambda>w t. fst (remove_tile t w)) ws t) = Map.empty"
  using assms
proof (induction ws arbitrary: t)
  case Nil
  then show ?case by (auto simp: ran_def fun_eq_iff) (metis not_None_eq)
next
  case (Cons w ws)
  have F: "forest {} {} t" using Cons.prems(1) by (rule invD)
  from Cons.prems(4) have "w \<in> window_id ` ran (tile_at t)" by auto
  then obtain i x where i: "tile_at t i = Some x" "window_id x = w" by (auto simp: ran_def)
  have n: "node_for_window t w = Some i" using node_for_own_window [OF F Cons.prems(2) i(1)] i(2) by simp
  let ?u = "fst (remove_tile t w)"
  have u: "inv ?u" "tile_at ?u = (tile_at t)(i := None)"
    using remove_tile_loses [OF Cons.prems(1) n] by (auto simp: loses_def)
  have dw: "distinct_windows ?u" using Cons.prems(2) u(2) by (rule distinct_windows_loses)
  have ids: "window_id ` ran f = {v. \<exists>j y. f j = Some y \<and> window_id y = v}" for f :: "nid \<Rightarrow> tile option"
    by (auto simp: ran_def)
  have only: "j = i" if "tile_at t j = Some y" "window_id y = w" for j y
    using Cons.prems(2) i that unfolding distinct_windows_def by metis
  have "window_id ` ran (tile_at ?u) = window_id ` ran (tile_at t) - {w}"
  proof (rule set_eqI)
    fix v
    have "(\<exists>j y. ((tile_at t)(i := None)) j = Some y \<and> window_id y = v) \<longleftrightarrow> (\<exists>j y. j \<noteq> i \<and> tile_at t j = Some y \<and> window_id y = v)"
      by (metis fun_upd_apply option.distinct(1))
    also have "\<dots> \<longleftrightarrow> (\<exists>j y. tile_at t j = Some y \<and> window_id y = v) \<and> v \<noteq> w"
      using only i by (metis option.inject)
    finally show "v \<in> window_id ` ran (tile_at ?u) \<longleftrightarrow> v \<in> window_id ` ran (tile_at t) - {w}"
      unfolding ids u(2) by simp
  qed
  then have "set ws = window_id ` ran (tile_at ?u)" using Cons.prems(3,4) by auto
  then show ?case using Cons.IH [OF u(1) dw] Cons.prems(3) by simp
qed

section \<open>Boxes\<close>

lemma compute_geometry_tiled:
  assumes "fullscreen_node t = None"
  shows "node_geometry t = ipc_nodes (tiled_pass t)"
  unfolding node_geometry_def compute_geometry_def Let_def assms option.case finish_geometry_reads by simp

lemma linear_boxes:
  assumes I: "inv t" and f: "fullscreen_node t = None" "split_excluded t = {}"
    and p: "get_split t p = Some (l, cs, ps, m)" "linear l" "cs \<noteq> []" and r: "node_geometry t p = Some r"
  obtains gp bs where "gap_choice (geometry_context t) l r (length ps) gp" "length bs = length cs"
    "\<And>j. j < length cs \<Longrightarrow> node_geometry t (cs ! j) = Some (bs ! j)"
    "\<And>j. j < length cs \<Longrightarrow> bs ! j = child_box l r gp ps j" "shares ps" "length ps = length cs"
proof -
  note sp = forest_splitD [OF invD(4) [OF I] p(1)]
  obtain r' gp where h: "node_geometry t p = Some r'" "gap_choice (geometry_context t) l r' (length cs) gp"
    "\<And>j. j < length cs \<Longrightarrow> node_geometry t (cs ! j) = Some (child_box l r' gp ps j)"
    unfolding compute_geometry_tiled [OF f(1)] using tiled_pass_linear [OF I p(1,2) f(2)] by blast
  then have "r' = r" using r by simp
  then show ?thesis using that [of gp "map (child_box l r gp ps) [0..<length cs]"] h sp by simp
qed

end
