(* ===== verification/Subtree_Transfer.thy ===== *)
theory Subtree_Transfer
  imports Direction_Laws
begin

text \<open>
  Taking a subtree out of one tree and attaching it to another (\<^verbatim>\<open>src/layout/tiling_tree/transfer.rs\<close>,
  the \<^verbatim>\<open>DetachedNode\<close> and \<^verbatim>\<open>DetachedSubtree\<close> methods of \<^verbatim>\<open>mod.rs\<close> and \<^verbatim>\<open>depth.rs\<close>, and the two
  conversions of \<^verbatim>\<open>state.rs\<close>). A detached node is a tree of its own that carries the old
  identifiers; on insertion an identifier that is taken is replaced by a fresh one and the pair is
  reported. The recursion over the arena carries the walk budget; a detached node is finite data.
\<close>

section \<open>Detached nodes\<close>

datatype detached_node =
  DSplit nid layout "detached_node list" "real list" split_meta "pending_mode option"
| DLeaf nid tile "pending_mode option" bool

record detached_subtree =
  dt_node :: detached_node
  dt_focus_history :: "wid list"
  dt_root_focused :: bool
  dt_wrapped_workspace :: bool

record detached_slot =
  sl_parent :: nid
  sl_index :: nat
  sl_percent :: real
  sl_focus_rank :: nat
  sl_focused :: bool

record detached_split =
  ds_old_id :: nid
  ds_layout :: layout
  ds_children :: "detached_node list"
  ds_percents :: "real list"
  ds_meta :: split_meta
  ds_pending_mode :: "pending_mode option"

text \<open>\<^verbatim>\<open>Result<DetachedSplit, Self>\<close> with the leaf on the left.\<close>

fun into_split :: "detached_node \<Rightarrow> detached_node + detached_split" where
  "into_split (DSplit i l ds ps m pm) = Inr \<lparr>ds_old_id = i, ds_layout = l, ds_children = ds, ds_percents = ps,
     ds_meta = m, ds_pending_mode = pm\<rparr>"
| "into_split (DLeaf i w pm mapped) = Inl (DLeaf i w pm mapped)"

fun old_id :: "detached_node \<Rightarrow> nid" where
  "old_id (DSplit i l ds ps m pm) = i"
| "old_id (DLeaf i w pm mapped) = i"

fun pending_mode_of :: "detached_node \<Rightarrow> pending_mode option" where
  "pending_mode_of (DSplit i l ds ps m pm) = pm"
| "pending_mode_of (DLeaf i w pm mapped) = pm"

fun set_pending_mode :: "pending_mode option \<Rightarrow> detached_node \<Rightarrow> detached_node" where
  "set_pending_mode pm (DSplit i l ds ps m _) = DSplit i l ds ps m pm"
| "set_pending_mode pm (DLeaf i w _ mapped) = DLeaf i w pm mapped"

definition detached_fullscreen :: "detached_node \<Rightarrow> fullscreen_mode option" where
  "detached_fullscreen d = Option.bind (pending_mode_of d) pm_fullscreen"

fun has_fullscreen :: "detached_node \<Rightarrow> bool" where
  "has_fullscreen (DSplit i l ds ps m pm) \<longleftrightarrow>
     detached_fullscreen (DSplit i l ds ps m pm) \<noteq> None \<or> (\<exists>d\<in>set ds. has_fullscreen d)"
| "has_fullscreen (DLeaf i w pm mapped) \<longleftrightarrow> detached_fullscreen (DLeaf i w pm mapped) \<noteq> None"

text \<open>\<^verbatim>\<open>walk_mut\<close> with the closure that clears fullscreen.\<close>

definition clear_mode :: "pending_mode option \<Rightarrow> pending_mode option" where
  "clear_mode pm = map_option (\<lambda>mode. mode\<lparr>pm_fullscreen := None\<rparr>) pm"

fun clear_fullscreen_below :: "detached_node \<Rightarrow> detached_node" where
  "clear_fullscreen_below (DSplit i l ds ps m pm) = DSplit i l (map clear_fullscreen_below ds) ps m (clear_mode pm)"
| "clear_fullscreen_below (DLeaf i w pm mapped) = DLeaf i w (clear_mode pm) mapped"

definition put_fullscreen :: "fullscreen_mode option \<Rightarrow> detached_node \<Rightarrow> detached_node" where
  "put_fullscreen fs d =
     set_pending_mode (Some ((unwrap_or (pending_mode_of d) pending_mode_default)\<lparr>pm_fullscreen := fs\<rparr>)) d"

definition swap_fullscreen_position :: "detached_subtree \<Rightarrow> detached_subtree \<Rightarrow> detached_subtree \<times> detached_subtree" where
  "swap_fullscreen_position a b =
     (let first = detached_fullscreen (dt_node a);
          second = detached_fullscreen (dt_node b)
      in (a\<lparr>dt_node := put_fullscreen second (clear_fullscreen_below (dt_node a))\<rparr>,
          b\<lparr>dt_node := put_fullscreen first (clear_fullscreen_below (dt_node b))\<rparr>))"

text \<open>\<^verbatim>\<open>for_each_window\<close> visits the tiles depth first.\<close>

fun detached_tiles :: "detached_node \<Rightarrow> tile list" where
  "detached_tiles (DSplit i l ds ps m pm) = concat (map detached_tiles ds)"
| "detached_tiles (DLeaf i w pm mapped) = [w]"

fun node_total :: "detached_node \<Rightarrow> nat" where
  "node_total (DSplit i l ds ps m pm) = Suc (sum_list (map node_total ds))"
| "node_total (DLeaf i w pm mapped) = 1"

text \<open>The height, with the explicit stack of the source; the budget is the number of nodes.\<close>

fun detached_height_loop :: "nat \<Rightarrow> (detached_node \<times> nat) list \<Rightarrow> nat \<Rightarrow> nat" where
  "detached_height_loop 0 stack height = height"
| "detached_height_loop (Suc k) stack height = (case stack of
      [] \<Rightarrow> height
    | (d, level) # rest \<Rightarrow>
        (case d of
           DSplit i l ds ps m pm \<Rightarrow>
             detached_height_loop k (rev (map (\<lambda>c. (c, level + 1)) ds) @ rest) (max height level)
         | DLeaf i w pm mapped \<Rightarrow> detached_height_loop k rest (max height level)))"

definition detached_height :: "detached_node \<Rightarrow> nat" where
  "detached_height d = detached_height_loop (Suc (node_total d)) [(d, 1)] 0"

section \<open>Taking\<close>

text \<open>\<^verbatim>\<open>map(..).collect::<Option<Vec<_>>>()\<close> stops at the first child that cannot be taken.\<close>

fun take_children :: "(tree \<Rightarrow> nid \<Rightarrow> tree \<times> detached_node option) \<Rightarrow> tree \<Rightarrow> nid list \<Rightarrow> tree \<times> detached_node list option" where
  "take_children f t [] = (t, Some [])"
| "take_children f t (c # cs) =
     (let (t1, d) = f t c in
      case d of
        None \<Rightarrow> (t1, None)
      | Some x \<Rightarrow> (let (t2, ds) = take_children f t1 cs in (t2, map_option (Cons x) ds)))"

fun take_detached_node :: "nat \<Rightarrow> tree \<Rightarrow> nid \<Rightarrow> tree \<times> detached_node option" where
  "take_detached_node 0 t i = (t, None)"
| "take_detached_node (Suc k) t i =
     (let pm = pending_modes t i;
          mapped = (i \<in> mapped_under_fullscreen t);
          (t1, n) = remove_node t i
      in case n of
           None \<Rightarrow> (t1, None)
         | Some nd \<Rightarrow> (case node_value nd of
             Split l cs ps m \<Rightarrow>
               (let (t2, ds) = take_children (take_detached_node k) t1 cs
                in (t2, map_option (\<lambda>ds. DSplit i l ds ps m pm) ds))
           | Leaf w \<Rightarrow> (t1, Some (DLeaf i w pm mapped))))"

definition take_root_as_detached :: "tree \<Rightarrow> tree \<times> detached_node option" where
  "take_root_as_detached t =
     (let r = tree_root t in
      case get_split t r of
        None \<Rightarrow> (t, None)
      | Some (l, cs, ps, m) \<Rightarrow>
          (let t1 = (set_value t r (Split SplitH [] [] split_meta_default))
                      \<lparr>empty_representation_layout := Some SplitH\<rparr>;
               (t2, ds) = take_children (take_detached_node (walk_fuel t)) t1 cs
           in case ds of
                None \<Rightarrow> (t2, None)
              | Some xs \<Rightarrow>
                  (t2\<lparr>next_id := Suc (next_id t2), pending_modes := forget_key r (pending_modes t2)\<rparr>,
                   Some (DSplit (next_id t2) l xs ps m (pending_modes t2 r)))))"

definition detach_subtree :: "tree \<Rightarrow> nid \<Rightarrow> tree \<times> (detached_subtree \<times> nid option) option" where
  "detach_subtree t0 i =
     (if \<not> contains_key t0 i then (t0, None)
      else
        (let t = t0\<lparr>interactive_resize_st := None\<rparr>;
             root_focused = (focus t = Some i);
             leaves_of = leaf_ids_in t i;
             history = List.map_filter (\<lambda>c. if c \<in> set leaves_of then map_option window_id (tile_at t c) else None)
                         (focus_history t);
             (t1, p) = (if i = tree_root t then (t, None) else detach_subtree_only t i)
         in if i \<noteq> tree_root t \<and> p = None then (t1, None)
            else
              (let moved_fullscreen = (fullscreen_node t1 = Some i);
                   (t2, d) = (if i = tree_root t1 then take_root_as_detached t1
                              else take_detached_node (walk_fuel t1) t1 i)
               in case d of
                    None \<Rightarrow> (t2, None)
                  | Some x \<Rightarrow>
                      (let t3 = t2\<lparr>fullscreen_tile_slot := False\<rparr>;
                           t4 = (if moved_fullscreen
                                 then t3\<lparr>mapped_under_fullscreen := {}, moved_under_fullscreen := (\<lambda>_. None),
                                         fullscreen_layout_wrappers := {}, pre_layout_ipc_rects := (\<lambda>_. None)\<rparr>
                                 else t3);
                           t5 = t4\<lparr>focus := focused_leaf_in t4 (tree_root t4)\<rparr>
                       in (request_window_sizes t5,
                           Some (\<lparr>dt_node = x, dt_focus_history = history, dt_root_focused = root_focused,
                                  dt_wrapped_workspace = (i = tree_root t5)\<rparr>, p))))))"

definition finish_subtree_detach :: "tree \<Rightarrow> nid option \<Rightarrow> tree" where
  "finish_subtree_detach t old_parent =
     (let target = (if old_parent = None then None else transfer_focus_target t None old_parent);
          t1 = (case old_parent of Some p \<Rightarrow> reap_empty_from t p | None \<Rightarrow> t);
          t2 = compact_tree t1;
          (t3, resolved) = resolve_transfer_focus t2 target;
          t4 = (if resolved then t3 else t3\<lparr>focus := focused_leaf_in t3 (tree_root t3)\<rparr>)
      in request_window_sizes t4)"

definition detach_subtree_for_swap :: "tree \<Rightarrow> nid \<Rightarrow> tree \<times> (detached_subtree \<times> detached_slot) option" where
  "detach_subtree_for_swap t i =
     (if i = tree_root t then (t, None)
      else case parent_of t i of
        None \<Rightarrow> (t, None)
      | Some p \<Rightarrow> (case child_index t p i of
          None \<Rightarrow> (t, None)
        | Some index \<Rightarrow> (case Option.bind (percents_of t p) (\<lambda>ps. vec_get ps index) of
            None \<Rightarrow> (t, None)
          | Some percent \<Rightarrow>
              (let rank = unwrap_or (position_where (\<lambda>c. contains_node t i c) (focus_history t)) (length (focus_history t));
                   focused = (case focus t of Some f \<Rightarrow> contains_node t i f | None \<Rightarrow> False);
                   (t1, r) = detach_subtree t i
               in (t1, map_option (\<lambda>(sub, _). (sub, \<lparr>sl_parent = p, sl_index = index, sl_percent = percent,
                         sl_focus_rank = rank, sl_focused = focused\<rparr>)) r)))))"

section \<open>Inserting\<close>

definition note_remap :: "nid \<Rightarrow> nid \<Rightarrow> (nid \<times> nid) list" where
  "note_remap old new = (if new \<noteq> old then [(old, new)] else [])"

definition restore_mode :: "tree \<Rightarrow> nid \<Rightarrow> pending_mode option \<Rightarrow> tree" where
  "restore_mode t i pm = (case pm of
      Some mode \<Rightarrow> t\<lparr>pending_modes := (pending_modes t)(i \<mapsto> mode)\<rparr> | None \<Rightarrow> t)"

fun insert_detached_node :: "tree \<Rightarrow> detached_node \<Rightarrow> nid option \<Rightarrow> tree \<times> nid \<times> (nid \<times> nid) list"
  and insert_detached_nodes :: "tree \<Rightarrow> detached_node list \<Rightarrow> nid option \<Rightarrow> tree \<times> nid list \<times> (nid \<times> nid) list" where
  "insert_detached_node t (DLeaf old w pm mapped) p =
     (let (t1, i) = insert_with_id (log_call t (UpdateConfig (window_id w))) old \<lparr>parent = p, node_value = Leaf w\<rparr>;
          t2 = restore_mode t1 i pm;
          t3 = (if mapped then t2\<lparr>mapped_under_fullscreen := insert i (mapped_under_fullscreen t2)\<rparr> else t2)
      in (t3, i, note_remap old i))"
| "insert_detached_node t (DSplit old l ds ps m pm) p =
     (let (t1, i) = insert_with_id t old \<lparr>parent = p, node_value = Split l [] ps m\<rparr>;
          (t2, is, remapped) = insert_detached_nodes t1 ds (Some i);
          t3 = (case get_split t2 i of
                  Some (l', _, ps', m') \<Rightarrow> set_value t2 i (Split l' is ps' m')
                | None \<Rightarrow> panic t2)
      in (restore_mode t3 i pm, i, note_remap old i @ remapped))"
| "insert_detached_nodes t [] p = (t, [], [])"
| "insert_detached_nodes t (d # ds) p =
     (let (t1, i, r) = insert_detached_node t d p;
          (t2, is, rs) = insert_detached_nodes t1 ds p
      in (t2, i # is, r @ rs))"

definition restore_transferred_focus :: "tree \<Rightarrow> wid list \<Rightarrow> tree" where
  "restore_transferred_focus t history =
     (let t1 = reinsert_focus_history t history (if focus t \<noteq> None then 1 else 0)
      in if focus t1 = None then set_focus_id t1 (focused_leaf_in t1 (tree_root t1)) else t1)"

definition attach_slot :: "tree \<Rightarrow> nid option \<Rightarrow> nid \<times> nid option" where
  "attach_slot t target = (case target of
      None \<Rightarrow> (tree_root t, None)
    | Some i \<Rightarrow> (case value_of t i of
        Some (Leaf _) \<Rightarrow> (case parent_of t i of Some p \<Rightarrow> (p, Some i) | None \<Rightarrow> (tree_root t, None))
      | Some (Split l cs ps m) \<Rightarrow> (i, None)
      | None \<Rightarrow> (tree_root t, None)))"

text \<open>The root keeps any metadata the detached split does not set.\<close>

definition merge_meta :: "split_meta \<Rightarrow> split_meta \<Rightarrow> split_meta" where
  "merge_meta root_meta m = root_meta\<lparr>
     previous_layout := or_else (previous_layout m) (previous_layout root_meta),
     title_format := or_else (title_format m) (title_format root_meta),
     sticky := sticky root_meta \<or> sticky m\<rparr>"

definition attach_split_to_empty_root :: "tree \<Rightarrow> detached_split \<Rightarrow> wid list \<Rightarrow> tree \<times> (nid \<times> nid) list" where
  "attach_split_to_empty_root t s history =
     (let r = tree_root t in
      case get_split t r of
        None \<Rightarrow> (panic t, note_remap (ds_old_id s) r)
      | Some (l0, cs0, ps0, m0) \<Rightarrow>
          (let t1 = restore_mode (set_value t r (Split (ds_layout s) cs0 ps0 (merge_meta m0 (ds_meta s)))) r
                      (ds_pending_mode s);
               (t2, is, remapped) = insert_detached_nodes t1 (ds_children s) (Some r);
               t3 = (case get_split t2 r of
                       Some (l', _, _, m') \<Rightarrow> set_value t2 r (Split l' is (ds_percents s) m')
                     | None \<Rightarrow> panic t2);
               t4 = restore_transferred_focus (t3\<lparr>has_had_tile := True\<rparr>) history
           in (request_window_sizes t4, note_remap (ds_old_id s) r @ remapped)))"

definition attach_under ::
  "tree \<Rightarrow> detached_node \<Rightarrow> wid list \<Rightarrow> bool \<Rightarrow> nid option \<Rightarrow> tree \<times> nid \<times> (nid \<times> nid) list" where
  "attach_under t d history wrapped target =
     (let height = detached_height d;
          (t1, i, remapped) = insert_detached_node t d None;
          (p, after) = (let (p, after) = attach_slot t1 target
                        in if fits_below t1 p height then (p, after) else (tree_root t1, None));
          t2 = insert_child t1 p i after;
          t3 = (if (case fullscreen_node t2 of Some f \<Rightarrow> contains_node t2 i f | None \<Rightarrow> False)
                then t2\<lparr>fullscreen_arrived := True\<rparr> else t2);
          t4 = (if wrapped then t3\<lparr>ipc_stale_nodes := insert i (ipc_stale_nodes t3)\<rparr> else t3);
          t5 = restore_transferred_focus t4 history;
          t6 = (if focus t5 = None then set_focus_id t5 (focused_leaf_in t5 i) else t5)
      in (request_window_sizes t6, i, remapped))"

definition attach_subtree_with ::
  "tree \<Rightarrow> detached_subtree \<Rightarrow> nid option \<Rightarrow> bool \<Rightarrow> tree \<times> nid \<times> (nid \<times> nid) list" where
  "attach_subtree_with t0 sub target unwrap =
     (let t = (if has_fullscreen (dt_node sub)
               then (case fullscreen_node t0 of
                       Some current \<Rightarrow> fst (replace_fullscreen_state t0 current None) | None \<Rightarrow> t0)
               else t0);
          under = (\<lambda>d. attach_under t d (dt_focus_history sub) (dt_wrapped_workspace sub) target)
      in if is_empty t \<and> unwrap
         then (case into_split (dt_node sub) of
                 Inr s \<Rightarrow> (let (t1, remapped) = attach_split_to_empty_root t s (dt_focus_history sub)
                          in (t1, tree_root t1, remapped))
               | Inl d \<Rightarrow> under d)
         else under (dt_node sub))"

definition attach_subtree_at :: "tree \<Rightarrow> detached_subtree \<Rightarrow> nid option \<Rightarrow> tree \<times> nid \<times> (nid \<times> nid) list" where
  "attach_subtree_at t sub target = attach_subtree_with t sub target True"

definition attach_subtree :: "tree \<Rightarrow> detached_subtree \<Rightarrow> tree \<times> nid \<times> (nid \<times> nid) list" where
  "attach_subtree t sub = attach_subtree_at t sub (focus t)"

definition attach_unfloated_subtree :: "tree \<Rightarrow> detached_subtree \<Rightarrow> tree \<times> nid \<times> (nid \<times> nid) list" where
  "attach_unfloated_subtree t sub = attach_subtree_with t sub (focus t) False"

text \<open>A missing parent is only reported in debug builds; the release build attaches at the root.\<close>

definition attach_subtree_for_swap :: "tree \<Rightarrow> detached_subtree \<Rightarrow> detached_slot \<Rightarrow> tree \<times> nid \<times> (nid \<times> nid) list" where
  "attach_subtree_for_swap t sub sl =
     (if \<not> is_split t (sl_parent sl) then attach_subtree_at t sub None
      else
        (let (t1, i, remapped) = insert_detached_node t (dt_node sub) None in
         case get_split t1 (sl_parent sl) of
           None \<Rightarrow> (panic t1, i, remapped)
         | Some (l, cs, ps, m) \<Rightarrow>
             (let index = min (sl_index sl) (length cs);
                  ps1 = map (\<lambda>x. x * (1 - sl_percent sl)) ps;
                  t2 = set_value t1 (sl_parent sl) (Split l (insert_at index i cs) (insert_at index (sl_percent sl) ps1) m);
                  t3 = expect_set_parent t2 i (Some (sl_parent sl));
                  t4 = reinsert_focus_history t3 (dt_focus_history sub) (sl_focus_rank sl);
                  t5 = (if sl_focused sl \<or> focus t4 = None then set_focus_id t4 (focused_leaf_in t4 i) else t4)
              in (request_window_sizes t5, i, remapped))))"

section \<open>Swapping between workspaces\<close>

text \<open>
  \<^verbatim>\<open>swap_tiling_nodes_between_workspaces\<close> of \<^verbatim>\<open>layout/subtree_transfer.rs\<close>, on the trees of two distinct
  workspaces: the lookups of the workspaces are the caller's, and the notifications of the windows
  about their output do not concern the trees. When the second subtree cannot be detached the first
  one has already left its tree.
\<close>

record swap_remap =
  sr_first :: "(nid \<times> nid) list"
  sr_second :: "(nid \<times> nid) list"

definition swap_tiling_nodes_between_workspaces ::
  "tree \<Rightarrow> nid \<Rightarrow> tree \<Rightarrow> nid \<Rightarrow> (tree \<times> tree) \<times> (swap_error + swap_remap)" where
  "swap_tiling_nodes_between_workspaces s a t b =
     (if \<not> fits_at s a (node_height t b) \<or> \<not> fits_at t b (node_height s a) then ((s, t), Inl TooDeep)
      else case detach_subtree_for_swap s a of
        (s1, None) \<Rightarrow> ((s1, t), Inl NoMatchingNode)
      | (s1, Some (first, first_slot)) \<Rightarrow> (case detach_subtree_for_swap t b of
          (t1, None) \<Rightarrow> ((s1, t1), Inl NoMatchingNode)
        | (t1, Some (second, second_slot)) \<Rightarrow>
            (let (first', second') = swap_fullscreen_position first second;
                 (s2, _, second_remapped) = attach_subtree_for_swap s1 second' first_slot;
                 (t2, _, first_remapped) = attach_subtree_for_swap t1 first' second_slot
             in ((finish_subtree_detach s2 None, finish_subtree_detach t2 None),
                 Inr \<lparr>sr_first = first_remapped, sr_second = second_remapped\<rparr>))))"

section \<open>Floating groups\<close>

definition from_detached_subtree ::
  "nat \<Rightarrow> real \<Rightarrow> real \<Rightarrow> rect \<Rightarrow> real \<Rightarrow> real \<Rightarrow> (real \<Rightarrow> real \<Rightarrow> real) \<Rightarrow> options \<Rightarrow> detached_subtree \<Rightarrow>
     tree \<times> nid \<times> (nid \<times> nid) list" where
  "from_detached_subtree counter vw vh area sc tb_height snap opts sub =
     (let t0 = (new_tree counter vw vh area False sc tb_height snap opts)\<lparr>has_resident_root := True\<rparr>;
          (t1, i, remapped) = insert_detached_node t0 (dt_node sub) None;
          t2 = insert_child t1 (tree_root t1) i None;
          t3 = restore_transferred_focus t2 (dt_focus_history sub);
          t4 = (if dt_root_focused sub then set_focus t3 i else t3)
      in (request_window_sizes (t4\<lparr>has_had_tile := True\<rparr>), i, remapped))"

definition detach_resident_root :: "tree \<Rightarrow> nid \<Rightarrow> detached_subtree option" where
  "detach_resident_root t i =
     (if resident_root t = Some i then map_option fst (snd (detach_subtree t i)) else None)"

end
