(* ===== verification/Subtree_Transfer_Laws.thy ===== *)
theory Subtree_Transfer_Laws
  imports Subtree_Transfer Examples
begin

text \<open>
  What taking and inserting do. A detached node is read back as the list of arena entries it stands
  for; taking a subtree removes exactly its nodes and returns a detached node whose entries are the
  ones the arena had, inserting adds exactly the entries of the detached node, with fresh
  identifiers where one is taken.
\<close>

section \<open>The entries of a detached node\<close>

fun ids :: "detached_node \<Rightarrow> nid list" where
  "ids (DSplit i l ds ps m pm) = i # concat (map ids ds)"
| "ids (DLeaf i w pm mapped) = [i]"

fun entries :: "nid option \<Rightarrow> detached_node \<Rightarrow> (nid \<times> node) list" where
  "entries p (DSplit i l ds ps m pm) =
     (i, \<lparr>parent = p, node_value = Split l (map old_id ds) ps m\<rparr>) # concat (map (entries (Some i)) ds)"
| "entries p (DLeaf i w pm mapped) = [(i, \<lparr>parent = p, node_value = Leaf w\<rparr>)]"

fun own_mode :: "nid \<Rightarrow> pending_mode option \<Rightarrow> (nid \<times> pending_mode) list" where
  "own_mode i None = []"
| "own_mode i (Some x) = [(i, x)]"

fun modes :: "detached_node \<Rightarrow> (nid \<times> pending_mode) list" where
  "modes (DSplit i l ds ps m pm) = own_mode i pm @ concat (map modes ds)"
| "modes (DLeaf i w pm mapped) = own_mode i pm"

fun mapped_ids :: "detached_node \<Rightarrow> nid set" where
  "mapped_ids (DSplit i l ds ps m pm) = (\<Union>d\<in>set ds. mapped_ids d)"
| "mapped_ids (DLeaf i w pm mapped) = (if mapped then {i} else {})"

text \<open>What every detached node satisfies: shares, non-empty containers, maximized leaves only.\<close>

fun detached_ok :: "detached_node \<Rightarrow> bool" where
  "detached_ok (DSplit i l ds ps m pm) \<longleftrightarrow> ds \<noteq> [] \<and> length ps = length ds \<and> shares ps \<and>
     (\<forall>x. pm = Some x \<longrightarrow> \<not> pm_maximized x) \<and> (\<forall>d\<in>set ds. detached_ok d)"
| "detached_ok (DLeaf i w pm mapped) \<longleftrightarrow> True"

lemma ids_entries: "map fst (entries p d) = ids d"
proof (induction p d rule: entries.induct)
  case (1 p i l ds ps m pm)
  then show ?case by (simp add: map_concat o_def cong: map_cong)
qed simp

lemma old_id_in [simp]: "old_id d \<in> set (ids d)"
  by (cases d) auto

lemma set_modes: "fst ` set (modes d) \<subseteq> set (ids d)"
proof (induction d rule: modes.induct)
  case (1 i l ds ps m pm)
  then show ?case by (cases pm) fastforce+
next
  case (2 i w pm mapped)
  then show ?case by (cases pm) auto
qed

lemma mapped_ids_in: "mapped_ids d \<subseteq> set (ids d)"
  by (induction d rule: mapped_ids.induct) auto

section \<open>Taking\<close>

lemma remove_all_append: "remove_all (xs @ ys) t = remove_all ys (remove_all xs t)"
  by (simp add: remove_all_def)

text \<open>Two trees that hold the same on a set of nodes.\<close>

definition agrees :: "tree \<Rightarrow> tree \<Rightarrow> nid set \<Rightarrow> bool" where
  "agrees t0 t X \<longleftrightarrow> (\<forall>x\<in>X. nodes t x = nodes t0 x \<and> pending_modes t x = pending_modes t0 x \<and>
     (x \<in> mapped_under_fullscreen t \<longleftrightarrow> x \<in> mapped_under_fullscreen t0))"

lemma agrees_remove_node: "agrees t0 t X \<Longrightarrow> i \<notin> X \<Longrightarrow> agrees t0 (fst (remove_node t i)) X"
  by (cases "nodes t i")
    (auto simp: agrees_def remove_node_def Let_def forget_side_tables_def forget_key_def)

lemma agrees_remove_all: "agrees t0 t X \<Longrightarrow> set xs \<inter> X = {} \<Longrightarrow> agrees t0 (remove_all xs t) X"
  by (induction xs arbitrary: t) (auto simp: agrees_remove_node)

lemma agrees_subset: "agrees t0 t X \<Longrightarrow> Y \<subseteq> X \<Longrightarrow> agrees t0 t Y"
  by (auto simp: agrees_def)

text \<open>\<open>snapshot t i d\<close>: the detached node \<open>d\<close> is the subtree of \<open>i\<close> as \<open>t\<close> has it.\<close>

definition snapshot :: "tree \<Rightarrow> nid \<Rightarrow> detached_node \<Rightarrow> bool" where
  "snapshot t i d \<longleftrightarrow> old_id d = i \<and> set (ids d) = under t i \<and> distinct (ids d) \<and>
     (\<forall>(x, n)\<in>set (entries (parent_of t i) d). nodes t x = Some n) \<and>
     (\<forall>x\<in>under t i. map_of (modes d) x = pending_modes t x) \<and>
     mapped_ids d = {x \<in> under t i. x \<in> mapped_under_fullscreen t \<and> is_leaf t x}"

lemma take_children_snapshots:
  assumes rec: "\<And>c t. c \<in> set cs \<Longrightarrow> agrees t0 t (under t0 c) \<Longrightarrow>
      \<exists>d. f t c = (remove_all (ids d) t, Some d) \<and> snapshot t0 c d"
    and dis: "distinct cs" "\<forall>c\<in>set cs. \<forall>d\<in>set cs. c \<noteq> d \<longrightarrow> under t0 c \<inter> under t0 d = {}"
    and ag: "\<forall>c\<in>set cs. agrees t0 t (under t0 c)"
  shows "\<exists>ds. take_children f t cs = (remove_all (concat (map ids ds)) t, Some ds) \<and> list_all2 (snapshot t0) cs ds"
  using assms
proof (induction cs arbitrary: t)
  case (Cons c cs)
  obtain d where d: "f t c = (remove_all (ids d) t, Some d)" "snapshot t0 c d"
    using Cons.prems(1) [of c t] Cons.prems(4) by auto
  have u: "set (ids d) = under t0 c" using d(2) by (simp add: snapshot_def)
  have "agrees t0 (remove_all (ids d) t) (under t0 x)" if x: "x \<in> set cs" for x
  proof (rule agrees_remove_all)
    show "agrees t0 t (under t0 x)" using Cons.prems(4) x by simp
    have "x \<noteq> c" using Cons.prems(2) x by auto
    then show "set (ids d) \<inter> under t0 x = {}" using Cons.prems(3) x u by auto
  qed
  then obtain ds where ds: "take_children f (remove_all (ids d) t) cs =
      (remove_all (concat (map ids ds)) (remove_all (ids d) t), Some ds)" "list_all2 (snapshot t0) cs ds"
    using Cons.IH [of "remove_all (ids d) t"] Cons.prems(1,2,3) by auto
  then have "take_children f t (c # cs) = (remove_all (concat (map ids (d # ds))) t, Some (d # ds))"
    using d(1) by (simp add: remove_all_append)
  then show ?case using d(2) ds(2) by blast
qed simp

lemma list_all2_concat_set:
  "list_all2 (\<lambda>c d. set (f d) = g c) cs ds \<Longrightarrow> set (concat (map f ds)) = (\<Union>c\<in>set cs. g c)"
  by (induction rule: list_all2_induct) auto

lemma list_all2_concat_distinct:
  assumes "list_all2 (\<lambda>c d. set (f d) = g c \<and> distinct (f d)) cs ds" "distinct cs"
    "\<forall>c\<in>set cs. \<forall>d\<in>set cs. c \<noteq> d \<longrightarrow> g c \<inter> g d = {}"
  shows "distinct (concat (map f ds))"
  using assms
proof (induction rule: list_all2_induct)
  case (Cons c cs d ds)
  have "set (concat (map f ds)) = (\<Union>c\<in>set cs. g c)"
    by (rule list_all2_concat_set) (use Cons.hyps(2) in \<open>auto elim: list_all2_mono\<close>)
  moreover have "g c \<inter> g x = {}" if "x \<in> set cs" for x using Cons.prems that by auto
  ultimately show ?case using Cons by auto
qed simp

lemma snapshots_split:
  assumes F: "forest D E t" and s: "get_split t i = Some (l, cs, ps, m)" and ds: "list_all2 (snapshot t) cs ds"
    and n: "nodes t i = Some \<lparr>parent = parent_of t i, node_value = Split l cs ps m\<rparr>"
  shows "snapshot t i (DSplit i l ds ps m (pending_modes t i))"
proof -
  note sp = forest_splitD [OF F s]
  have u: "under t i = insert i (\<Union>c\<in>set cs. under t c)" using F s by (rule under_split)
  have ni: "i \<notin> under t c" if "c \<in> set cs" for c
    using links.no_self_loop [OF arena_okI [OF F] sp(2) [OF that]] by (simp add: under_def)
  have dj: "\<forall>c\<in>set cs. \<forall>d\<in>set cs. c \<noteq> d \<longrightarrow> under t c \<inter> under t d = {}"
    using siblings_disjoint [OF F s] by (auto simp: under_def)
  have la: "list_all2 (\<lambda>c d. set (ids d) = under t c \<and> distinct (ids d)) cs ds"
    using ds by (rule list_all2_mono) (simp add: snapshot_def)
  have set_ids: "set (concat (map ids ds)) = (\<Union>c\<in>set cs. under t c)"
    by (rule list_all2_concat_set) (rule list_all2_mono [OF la], simp)
  have dist: "distinct (concat (map ids ds))" using la sp(1) dj by (rule list_all2_concat_distinct)
  have old: "map old_id ds = cs"
    using ds by (induction rule: list_all2_induct) (auto simp: snapshot_def)
  have kid: "\<exists>c\<in>set cs. snapshot t c d" if "d \<in> set ds" for d
    using ds that by (metis in_set_conv_nth list_all2_conv_all_nth)
  have ent: "nodes t x = Some y" if "(x, y) \<in> set (entries (Some i) d)" "d \<in> set ds" for x y d
    using kid [OF that(2)] that(1) sp(2) unfolding snapshot_def by fastforce
  have md: "map_of (concat (map modes ds)) x = (if \<exists>c\<in>set cs. x \<in> under t c then pending_modes t x else None)" for x
    using ds sp(1) dj
  proof (induction rule: list_all2_induct)
    case (Cons c cs d ds)
    have IH: "map_of (concat (map modes ds)) x = (if \<exists>c\<in>set cs. x \<in> under t c then pending_modes t x else None)"
      using Cons by auto
    have c: "set (ids d) = under t c" "\<forall>x\<in>under t c. map_of (modes d) x = pending_modes t x"
      using Cons.hyps(1) by (auto simp: snapshot_def)
    have "map_of (modes d) x = None" if "x \<notin> under t c"
      using that set_modes [of d] c(1) by (auto simp: map_of_eq_None_iff)
    moreover have "x \<notin> under t c'" if "x \<in> under t c" "c' \<in> set cs" for c' using Cons.prems that by auto
    ultimately show ?case using IH c(2) by (cases "x \<in> under t c") (auto simp: map_add_def split: option.split)
  qed simp
  have "map_of (own_mode i pm @ concat (map modes ds)) x = (if x = i then pm else map_of (concat (map modes ds)) x)"
    if "x = i \<longrightarrow> map_of (concat (map modes ds)) x = None" for x pm
    using that by (cases pm) (auto simp: map_add_def split: option.split)
  then have modes: "\<forall>x\<in>under t i. map_of (own_mode i (pending_modes t i) @ concat (map modes ds)) x = pending_modes t x"
    using md ni u by auto
  have mp: "(\<Union>d\<in>set ds. mapped_ids d) = {x \<in> under t i. x \<in> mapped_under_fullscreen t \<and> is_leaf t x}"
  proof -
    have "(\<Union>d\<in>set ds. mapped_ids d) = (\<Union>c\<in>set cs. {x \<in> under t c. x \<in> mapped_under_fullscreen t \<and> is_leaf t x})"
      using ds by (induction rule: list_all2_induct) (auto simp: snapshot_def)
    then show ?thesis using u split_not_leaf [OF s] by auto
  qed
  show ?thesis
    unfolding snapshot_def using set_ids dist ni u n old ent modes mp by auto
qed

lemma take_detached_node_snapshot:
  assumes F: "forest D E t0"
  shows "contains_key t0 i \<Longrightarrow> card (under t0 i) \<le> k \<Longrightarrow> agrees t0 t (under t0 i) \<Longrightarrow>
    \<exists>d. take_detached_node k t i = (remove_all (ids d) t, Some d) \<and> snapshot t0 i d"
proof (induction k arbitrary: i t)
  case 0
  have "i \<in> under t0 i" by (simp add: under_def)
  then show ?case using 0(2) finite_under [OF F] by (metis card_eq_0_iff empty_iff le_zero_eq)
next
  case (Suc k)
  have self: "i \<in> under t0 i" by (simp add: under_def)
  have ag: "nodes t i = nodes t0 i" "pending_modes t i = pending_modes t0 i"
    "i \<in> mapped_under_fullscreen t \<longleftrightarrow> i \<in> mapped_under_fullscreen t0"
    using Suc.prems(3) self by (auto simp: agrees_def)
  have iK: "contains_key t i" using Suc.prems(1) ag(1) by (simp add: contains_key_def)
  note rd = remove_node_reads(1,2) [OF iK]
  have par: "nodes t0 i = Some n \<Longrightarrow> parent n = parent_of t0 i" for n by (simp add: parent_of_def)
  from Suc.prems(1) show ?case
  proof (cases rule: node_cases)
    case (leaf w)
    then have n: "nodes t0 i = Some \<lparr>parent = parent_of t0 i, node_value = Leaf w\<rparr>"
      using par by (auto simp: value_of_def)
    have u: "under t0 i = {i}" using F leaf(2) by (rule under_leaf)
    let ?d = "DLeaf i w (pending_modes t i) (i \<in> mapped_under_fullscreen t)"
    have "take_detached_node (Suc k) t i = (remove_all (ids ?d) t, Some ?d)"
      using rd n ag by (simp add: case_prod_beta Let_def)
    moreover have "snapshot t0 i ?d"
      using u n ag leaf(3) by (cases "pending_modes t0 i") (auto simp: snapshot_def)
    ultimately show ?thesis by blast
  next
    case (split l cs ps m)
    then have n: "nodes t0 i = Some \<lparr>parent = parent_of t0 i, node_value = Split l cs ps m\<rparr>"
      using par by (auto simp: value_of_def)
    note sp = forest_splitD [OF F split(2)]
    have u: "under t0 i = insert i (\<Union>c\<in>set cs. under t0 c)" using F split(2) by (rule under_split)
    have ni: "i \<notin> under t0 c" if "c \<in> set cs" for c
      using links.no_self_loop [OF arena_okI [OF F] sp(2) [OF that]] by (simp add: under_def)
    have fuel: "card (under t0 c) \<le> k" if "c \<in> set cs" for c
    proof -
      have "under t0 c \<subset> under t0 i" using u ni [OF that] that by blast
      then have "card (under t0 c) < card (under t0 i)" using psubset_card_mono [OF finite_under [OF F]] by blast
      then show ?thesis using Suc.prems(2) by simp
    qed
    let ?t1 = "fst (remove_node t i)"
    have ag1: "agrees t0 ?t1 (under t0 c)" if "c \<in> set cs" for c
      by (rule agrees_remove_node [OF agrees_subset [OF Suc.prems(3)] ni [OF that]]) (use u that in auto)
    have "\<exists>ds. take_children (take_detached_node k) ?t1 cs = (remove_all (concat (map ids ds)) ?t1, Some ds) \<and>
        list_all2 (snapshot t0) cs ds"
    proof (rule take_children_snapshots)
      show "\<exists>d. take_detached_node k t c = (remove_all (ids d) t, Some d) \<and> snapshot t0 c d"
        if "c \<in> set cs" "agrees t0 t (under t0 c)" for c t
        by (rule Suc.IH [OF child_contains [OF F split(2) that(1)] fuel [OF that(1)] that(2)])
      show "\<forall>c\<in>set cs. \<forall>d\<in>set cs. c \<noteq> d \<longrightarrow> under t0 c \<inter> under t0 d = {}"
        using siblings_disjoint [OF F split(2)] by (auto simp: under_def)
    qed (use sp(1) ag1 in auto)
    then obtain ds where ds: "take_children (take_detached_node k) ?t1 cs = (remove_all (concat (map ids ds)) ?t1, Some ds)"
      "list_all2 (snapshot t0) cs ds" by blast
    let ?d = "DSplit i l ds ps m (pending_modes t i)"
    have "take_detached_node (Suc k) t i = (remove_all (ids ?d) t, Some ?d)"
      using rd n ag ds(1) by (simp add: case_prod_beta Let_def)
    moreover have "snapshot t0 i ?d" using snapshots_split [OF F split(2) ds(2) n] ag(2) by simp
    ultimately show ?thesis by blast
  qed
qed

section \<open>Inserting\<close>

text \<open>The detached node without its identifiers.\<close>

fun erase :: "detached_node \<Rightarrow> detached_node" where
  "erase (DSplit i l ds ps m pm) = DSplit 0 l (map erase ds) ps m pm"
| "erase (DLeaf i w pm mapped) = DLeaf 0 w pm mapped"

text \<open>The fields an insertion does not write.\<close>

definition rest :: "tree \<Rightarrow> tree" where
  "rest t = t\<lparr>nodes := (\<lambda>_. None), next_id := 0, pending_modes := (\<lambda>_. None), mapped_under_fullscreen := {},
     tile_calls := []\<rparr>"

text \<open>\<open>planted t t' p ds\<close>: the tree \<open>t'\<close> is \<open>t\<close> with the detached nodes \<open>ds\<close> added below \<open>p\<close>.\<close>

definition planted :: "tree \<Rightarrow> tree \<Rightarrow> nid option \<Rightarrow> detached_node list \<Rightarrow> bool" where
  "planted t t' p ds \<longleftrightarrow> distinct (concat (map ids ds)) \<and>
     (\<forall>x\<in>set (concat (map ids ds)). \<not> contains_key t x \<and> x < next_id t') \<and>
     nodes t' = nodes t ++ map_of (concat (map (entries p) ds)) \<and>
     pending_modes t' = pending_modes t ++ map_of (concat (map modes ds)) \<and>
     mapped_under_fullscreen t' = mapped_under_fullscreen t \<union> (\<Union>d\<in>set ds. mapped_ids d) \<and>
     next_id t \<le> next_id t' \<and> rest t' = rest t"

definition bounded :: "tree \<Rightarrow> bool" where
  "bounded t \<longleftrightarrow> (\<forall>x. contains_key t x \<longrightarrow> x < next_id t)"

lemma dom_entries: "dom (map_of (concat (map (entries p) ds))) = set (concat (map ids ds))"
proof -
  have "map fst (concat (map (entries p) ds)) = concat (map ids ds)" by (simp add: map_concat o_def ids_entries)
  then show ?thesis by (metis dom_map_of_conv_image_fst list.set_map)
qed

lemma dom_modes: "dom (map_of (concat (map modes ds))) \<subseteq> set (concat (map ids ds))"
proof
  fix x assume "x \<in> dom (map_of (concat (map modes ds)))"
  then obtain d where "d \<in> set ds" "x \<in> fst ` set (modes d)" by (auto simp: dom_map_of_conv_image_fst)
  then show "x \<in> set (concat (map ids ds))" using set_modes [of d] by auto
qed

lemma planted_contains:
  assumes "planted t t' p ds"
  shows "contains_key t' x \<longleftrightarrow> contains_key t x \<or> x \<in> set (concat (map ids ds))"
proof -
  have "nodes t' = nodes t ++ map_of (concat (map (entries p) ds))" using assms by (simp add: planted_def)
  then have "dom (nodes t') = set (concat (map ids ds)) \<union> dom (nodes t)" using dom_entries by simp
  then show ?thesis by (auto simp: contains_key_def)
qed

lemma planted_bounded: "planted t t' p ds \<Longrightarrow> bounded t \<Longrightarrow> bounded t'"
  unfolding bounded_def planted_contains by (auto simp: planted_def dest: order.strict_trans2)

lemma planted_Nil: "planted t t p []"
  by (simp add: planted_def)

lemma planted_Cons:
  assumes a: "planted t t1 p [d]" and b: "planted t1 t2 p ds"
  shows "planted t t2 p (d # ds)"
proof -
  let ?A = "concat (map (entries p) [d])" and ?B = "concat (map (entries p) ds)"
  have dis: "set (ids d) \<inter> set (concat (map ids ds)) = {}"
    using b planted_contains [OF a] by (auto simp: planted_def)
  have "dom (map_of ?A) \<inter> dom (map_of ?B) = {}" using dis dom_entries [of p "[d]"] dom_entries [of p ds] by auto
  then have n: "map_of ?A ++ map_of ?B = map_of (?A @ ?B)" unfolding map_of_append by (rule map_add_comm)
  have "dom (map_of (modes d)) \<inter> dom (map_of (concat (map modes ds))) = {}"
    using dis dom_modes [of "[d]"] dom_modes [of ds] by fastforce
  then have m: "map_of (modes d) ++ map_of (concat (map modes ds)) = map_of (modes d @ concat (map modes ds))"
    unfolding map_of_append by (rule map_add_comm)
  have "x < next_id t2" if "x \<in> set (ids d)" for x
    using a b that by (auto simp: planted_def dest: order.strict_trans2)
  then show ?thesis
    using a b dis n m planted_contains [OF a] unfolding planted_def by (auto simp flip: map_add_assoc)
qed

lemma insert_with_id_cases:
  assumes "bounded t" "old < next_id t"
  obtains i where "insert_with_id t old n = (t\<lparr>nodes := (nodes t)(i \<mapsto> n), next_id := max (next_id t) (Suc i)\<rparr>, i)"
    "\<not> contains_key t i" "\<not> contains_key t old \<longrightarrow> i = old" "i \<le> next_id t" "i = old \<or> i = next_id t"
proof (cases "contains_key t old")
  case True
  then have "insert_with_id t old n = (t\<lparr>nodes := (nodes t)(next_id t \<mapsto> n), next_id := max (next_id t) (Suc (next_id t))\<rparr>, next_id t)"
    by (auto simp: insert_with_id_def alloc_def contains_key_def)
  moreover have "\<not> contains_key t (next_id t)" using assms(1) by (auto simp: bounded_def)
  ultimately show ?thesis using that True by blast
next
  case False
  then have "insert_with_id t old n = (t\<lparr>nodes := (nodes t)(old \<mapsto> n), next_id := max (next_id t) (Suc old)\<rparr>, old)"
    using assms(2) by (simp add: insert_with_id_def contains_key_def max_def)
  then show ?thesis using that False assms(2) by simp
qed

lemma planted_leaf:
  assumes "\<not> contains_key t i" "t' = t\<lparr>nodes := (nodes t)(i \<mapsto> \<lparr>parent = p, node_value = Leaf w\<rparr>), next_id := max (next_id t) (Suc i),
      tile_calls := c\<rparr>"
  shows "planted t (let t2 = restore_mode t' i pm in
      if mapped then t2\<lparr>mapped_under_fullscreen := insert i (mapped_under_fullscreen t2)\<rparr> else t2) p [DLeaf i w pm mapped]"
  using assms by (cases pm) (auto simp: planted_def rest_def restore_mode_def Let_def)

lemma planted_split:
  assumes i: "\<not> contains_key t i" and t1: "t1 = t\<lparr>nodes := (nodes t)(i \<mapsto> \<lparr>parent = p, node_value = Split l [] ps m\<rparr>),
      next_id := max (next_id t) (Suc i)\<rparr>"
    and b: "planted t1 t2 (Some i) ds"
  shows "get_split t2 i = Some (l, [], ps, m)"
    "planted t (restore_mode (set_value t2 i (Split l (map old_id ds) ps m)) i pm) p [DSplit i l ds ps m pm]"
proof -
  have k1: "contains_key t1 x \<longleftrightarrow> contains_key t x \<or> x = i" for x by (simp add: t1 contains_key_def)
  have fr: "i \<notin> set (concat (map ids ds))" "\<forall>x\<in>set (concat (map ids ds)). \<not> contains_key t x"
    using b k1 by (auto simp: planted_def)
  let ?B = "concat (map (entries (Some i)) ds)"
  have n2: "nodes t2 = (nodes t)(i \<mapsto> \<lparr>parent = p, node_value = Split l [] ps m\<rparr>) ++ map_of ?B"
    using b by (simp add: planted_def t1)
  have Bi: "map_of ?B i = None" using dom_entries [of "Some i" ds] fr(1) by (metis domIff)
  then have ni: "nodes t2 i = Some \<lparr>parent = p, node_value = Split l [] ps m\<rparr>" by (simp add: n2 map_add_def)
  then show "get_split t2 i = Some (l, [], ps, m)" by (simp add: get_split_def value_of_def)
  have n3: "nodes (set_value t2 i (Split l (map old_id ds) ps m)) =
      nodes t ++ map_of ((i, \<lparr>parent = p, node_value = Split l (map old_id ds) ps m\<rparr>) # ?B)"
    using Bi by (auto simp: fun_eq_iff ni) (simp_all add: n2 map_add_def split: option.split)
  have Mi: "map_of (concat (map modes ds)) i = None"
    using fr(1) dom_modes [of ds] by (meson domIff subsetD)
  have p2: "pending_modes t2 = pending_modes t ++ map_of (concat (map modes ds))" using b by (simp add: planted_def t1)
  have pm: "pending_modes (restore_mode (set_value t2 i v) i pm) = pending_modes t ++ map_of (own_mode i pm @ concat (map modes ds))" for v
    using p2 Mi by (cases pm) (auto simp: restore_mode_def set_value_def fun_eq_iff map_add_def split: option.split)
  have r: "nodes (restore_mode u i pm) = nodes u" "next_id (restore_mode u i pm) = next_id u"
    "mapped_under_fullscreen (restore_mode u i pm) = mapped_under_fullscreen u" "rest (restore_mode u i pm) = rest u" for u
    by (cases pm; simp add: restore_mode_def rest_def)+
  have r1: "rest t1 = rest t" by (simp add: t1 rest_def)
  have sv: "mapped_under_fullscreen (set_value t2 i v) = mapped_under_fullscreen t2" "rest (set_value t2 i v) = rest t2" for v
    by (simp_all add: set_value_def rest_def)
  show "planted t (restore_mode (set_value t2 i (Split l (map old_id ds) ps m)) i pm) p [DSplit i l ds ps m pm]"
    using b fr i n3 pm r1 by (auto simp: planted_def r sv) (auto simp: t1)
qed

text \<open>
  Inserting adds exactly the detached nodes, with identifiers of its choice; when the old ones are
  free it keeps them and reports no change.
\<close>

definition free_ids :: "tree \<Rightarrow> detached_node list \<Rightarrow> bool" where
  "free_ids t ds \<longleftrightarrow> distinct (concat (map ids ds)) \<and> (\<forall>x\<in>set (concat (map ids ds)). \<not> contains_key t x)"

lemma insert_detached_plants:
  "bounded t \<Longrightarrow> \<forall>x\<in>set (ids d). x < next_id t \<Longrightarrow>
    \<exists>d'. erase d' = erase d \<and> old_id d' = fst (snd (insert_detached_node t d p)) \<and>
      planted t (fst (insert_detached_node t d p)) p [d'] \<and>
      (free_ids t [d] \<longrightarrow> d' = d \<and> snd (snd (insert_detached_node t d p)) = [] \<and>
        next_id (fst (insert_detached_node t d p)) = next_id t)"
  "bounded t \<Longrightarrow> \<forall>x\<in>set (concat (map ids ds)). x < next_id t \<Longrightarrow>
    \<exists>ds'. map erase ds' = map erase ds \<and> map old_id ds' = fst (snd (insert_detached_nodes t ds p)) \<and>
      planted t (fst (insert_detached_nodes t ds p)) p ds' \<and>
      (free_ids t ds \<longrightarrow> ds' = ds \<and> snd (snd (insert_detached_nodes t ds p)) = [] \<and>
        next_id (fst (insert_detached_nodes t ds p)) = next_id t)"
proof (induction t d p and t ds p rule: insert_detached_node_insert_detached_nodes.induct)
  case (1 t old w pm mapped p)
  let ?u = "log_call t (UpdateConfig (window_id w))"
  have "bounded ?u" "old < next_id ?u" using 1 by (auto simp: bounded_def)
  then obtain i where i: "insert_with_id ?u old \<lparr>parent = p, node_value = Leaf w\<rparr> =
      (?u\<lparr>nodes := (nodes ?u)(i \<mapsto> \<lparr>parent = p, node_value = Leaf w\<rparr>), next_id := max (next_id ?u) (Suc i)\<rparr>, i)"
    "\<not> contains_key ?u i" "\<not> contains_key ?u old \<longrightarrow> i = old" by (rule insert_with_id_cases)
  let ?t1 = "?u\<lparr>nodes := (nodes ?u)(i \<mapsto> \<lparr>parent = p, node_value = Leaf w\<rparr>), next_id := max (next_id ?u) (Suc i)\<rparr>"
  have "planted t (let t2 = restore_mode ?t1 i pm in
      if mapped then t2\<lparr>mapped_under_fullscreen := insert i (mapped_under_fullscreen t2)\<rparr> else t2) p [DLeaf i w pm mapped]"
    by (rule planted_leaf [where c = "tile_calls ?u"]) (use i(2) in simp, simp add: log_call_def)
  moreover have "old < next_id t" using 1 by simp
  ultimately show ?case
    using i(1,3) by (intro exI [of _ "DLeaf i w pm mapped"])
      (cases pm; auto simp: Let_def free_ids_def note_remap_def restore_mode_def)
next
  case (2 t old l ds ps m pm p)
  have "old < next_id t" using 2 by simp
  with 2(2) obtain i where i: "insert_with_id t old \<lparr>parent = p, node_value = Split l [] ps m\<rparr> =
      (t\<lparr>nodes := (nodes t)(i \<mapsto> \<lparr>parent = p, node_value = Split l [] ps m\<rparr>), next_id := max (next_id t) (Suc i)\<rparr>, i)"
    "\<not> contains_key t i" "\<not> contains_key t old \<longrightarrow> i = old" "i \<le> next_id t" by (rule insert_with_id_cases)
  define t1 where "t1 = t\<lparr>nodes := (nodes t)(i \<mapsto> \<lparr>parent = p, node_value = Split l [] ps m\<rparr>), next_id := max (next_id t) (Suc i)\<rparr>"
  have k1: "contains_key t1 x \<longleftrightarrow> contains_key t x \<or> x = i" for x by (simp add: t1_def contains_key_def)
  have b1: "bounded t1" using 2(2) unfolding bounded_def k1 by (auto simp: t1_def)
  have lt: "\<forall>x\<in>set (concat (map ids ds)). x < next_id t1" using 2(3) by (fastforce simp: t1_def less_max_iff_disj)
  obtain ds' where ds': "map erase ds' = map erase ds" "map old_id ds' = fst (snd (insert_detached_nodes t1 ds (Some i)))"
    "planted t1 (fst (insert_detached_nodes t1 ds (Some i))) (Some i) ds'"
    "free_ids t1 ds \<longrightarrow> ds' = ds \<and> snd (snd (insert_detached_nodes t1 ds (Some i))) = [] \<and>
        next_id (fst (insert_detached_nodes t1 ds (Some i))) = next_id t1"
    using 2(1) [OF refl i(1) [symmetric, folded t1_def] b1 lt] by blast
  define t2 where "t2 = fst (insert_detached_nodes t1 ds (Some i))"
  note root = planted_split(1) [OF i(2) t1_def ds'(3) [folded t2_def]]
  note grown = planted_split(2) [OF i(2) t1_def ds'(3) [folded t2_def], of pm]
  have eq: "insert_detached_node t (DSplit old l ds ps m pm) p =
      (restore_mode (set_value t2 i (Split l (map old_id ds') ps m)) i pm, i,
       note_remap old i @ snd (snd (insert_detached_nodes t1 ds (Some i))))"
    using i(1) root ds'(2) by (simp add: case_prod_beta Let_def t1_def [symmetric] t2_def [symmetric])
  have "free_ids t1 ds \<and> i = old" if "free_ids t [DSplit old l ds ps m pm]"
    using that i(3) k1 by (auto simp: free_ids_def)
  moreover have "next_id t1 = next_id t" if "i = old" using \<open>old < next_id t\<close> that by (simp add: t1_def)
  ultimately show ?case
    unfolding eq using grown ds'(1,4)
    by (intro exI [of _ "DSplit i l ds' ps m pm"]) (cases pm; auto simp: note_remap_def restore_mode_def t2_def)
next
  case (3 t p)
  then show ?case by (auto simp: planted_Nil)
next
  case (4 t d ds p)
  have "\<forall>x\<in>set (ids d). x < next_id t" using 4(4) by simp
  then obtain d' where d': "erase d' = erase d" "old_id d' = fst (snd (insert_detached_node t d p))"
    "planted t (fst (insert_detached_node t d p)) p [d']"
    "free_ids t [d] \<longrightarrow> d' = d \<and> snd (snd (insert_detached_node t d p)) = [] \<and> next_id (fst (insert_detached_node t d p)) = next_id t"
    using 4(1) [OF 4(3)] by blast
  define t1 where "t1 = fst (insert_detached_node t d p)"
  have b1: "bounded t1" unfolding t1_def using d'(3) 4(3) by (rule planted_bounded)
  have le: "next_id t \<le> next_id t1" using d'(3) by (simp add: planted_def t1_def)
  have "\<forall>x\<in>set (concat (map ids ds)). x < next_id t" using 4(4) by simp
  then have lt: "\<forall>x\<in>set (concat (map ids ds)). x < next_id t1" using le order.strict_trans2 by blast
  obtain ds' where ds': "map erase ds' = map erase ds" "map old_id ds' = fst (snd (insert_detached_nodes t1 ds p))"
    "planted t1 (fst (insert_detached_nodes t1 ds p)) p ds'"
    "free_ids t1 ds \<longrightarrow> ds' = ds \<and> snd (snd (insert_detached_nodes t1 ds p)) = [] \<and> next_id (fst (insert_detached_nodes t1 ds p)) = next_id t1"
    using 4(2) [OF refl prod.collapse prod.collapse b1 [unfolded t1_def] lt [unfolded t1_def], folded t1_def] by blast
  have "free_ids t [d] \<and> (d' = d \<longrightarrow> free_ids t1 ds)" if "free_ids t (d # ds)"
    using that planted_contains [OF d'(3)] by (auto simp: free_ids_def t1_def)
  moreover have "planted t (fst (insert_detached_nodes t1 ds p)) p (d' # ds')"
    using planted_Cons [OF d'(3) ds'(3) [unfolded t1_def]] by (simp add: t1_def)
  ultimately show ?case
    using d' ds' by (intro exI [of _ "d' # ds'"]) (auto simp: case_prod_beta Let_def t1_def)
qed

end
