(* ===== verification/Planting.thy ===== *)
theory Planting
  imports Subtree_Transfer_Laws
begin

text \<open>
  A tree that gains the entries of a detached node is a forest again: the links of the entries agree
  with one another, they are acyclic because each node lies one level below its parent, and the side
  tables stay inside the arena. The readings that do not depend on the identifiers (shares, height,
  windows, modes) survive the renaming an insertion may do.
\<close>

section \<open>The links of a detached node\<close>

lemma entries_of_child: "c \<in> set ds \<Longrightarrow> set (entries (Some i) c) \<subseteq> set (entries p (DSplit i l ds ps m pm))"
  by auto

lemma entries_ids: "(x, n) \<in> set (entries p d) \<Longrightarrow> x \<in> set (ids d)"
  using ids_entries [of p d] by (metis fst_conv image_eqI list.set_map)

lemma ids_have_entry: "x \<in> set (ids d) \<Longrightarrow> \<exists>n. (x, n) \<in> set (entries p d)"
proof -
  assume "x \<in> set (ids d)"
  then have "x \<in> fst ` set (entries p d)" using ids_entries [of p d] by (simp flip: list.set_map)
  then show ?thesis by auto
qed

lemma distinct_children:
  assumes "distinct (concat (map f ds))" "c \<in> set ds"
  shows "distinct (f c)" "c' \<in> set ds \<Longrightarrow> x \<in> set (f c) \<Longrightarrow> x \<in> set (f c') \<Longrightarrow> f c \<noteq> [] \<Longrightarrow> c' = c"
proof -
  obtain as bs where ds: "ds = as @ c # bs" using assms(2) by (auto dest: split_list)
  show "distinct (f c)" using assms(1) by (simp add: ds)
  show "c' \<in> set ds \<Longrightarrow> x \<in> set (f c) \<Longrightarrow> x \<in> set (f c') \<Longrightarrow> f c \<noteq> [] \<Longrightarrow> c' = c"
    using assms(1) by (auto simp: ds)
qed

lemma entries_old_id:
  assumes "(old_id d, n) \<in> set (entries p d)" "distinct (ids d)"
  shows "parent n = p"
proof (cases d)
  case (DSplit i l ds ps m pm)
  have "(i, n) \<notin> set (entries (Some i) c)" if "c \<in> set ds" for c
    using assms(2) that DSplit entries_ids by fastforce
  then show ?thesis using assms(1) DSplit by auto
qed (use assms in auto)

lemma entries_parent:
  assumes "(x, n) \<in> set (entries p d)" "x \<noteq> old_id d" "distinct (ids d)"
  shows "\<exists>q l cs ps m r. parent n = Some q \<and> (q, \<lparr>parent = r, node_value = Split l cs ps m\<rparr>) \<in> set (entries p d) \<and> x \<in> set cs"
  using assms
proof (induction p d rule: entries.induct)
  case (1 p i l ds ps m pm)
  then obtain c where c: "c \<in> set ds" "(x, n) \<in> set (entries (Some i) c)" by auto
  have dc: "distinct (ids c)" using distinct_children(1) [of ids ds c] 1(4) c(1) by simp
  show ?case
  proof (cases "x = old_id c")
    case False
    then show ?thesis using 1(1) [OF c(1,2) False dc] entries_of_child [OF c(1), of i p l ps m pm] by blast
  next
    case True
    then have "parent n = Some i" using entries_old_id c(2) dc by blast
    moreover have "(i, \<lparr>parent = p, node_value = Split l (map old_id ds) ps m\<rparr>) \<in> set (entries p (DSplit i l ds ps m pm))" by simp
    moreover have "x \<in> set (map old_id ds)" using True c(1) by simp
    ultimately show ?thesis by blast
  qed
qed simp

lemma entries_split:
  assumes "(x, n) \<in> set (entries p d)" "node_value n = Split l cs ps m" "detached_ok d" "distinct (ids d)"
  shows "cs \<noteq> [] \<and> distinct cs \<and> length ps = length cs \<and> shares ps \<and>
    (\<forall>c\<in>set cs. \<exists>nc. (c, nc) \<in> set (entries p d) \<and> parent nc = Some x)"
  using assms
proof (induction p d rule: entries.induct)
  case (1 p i l0 ds ps0 m0 pm)
  show ?case
  proof (cases "(x, n) = (i, \<lparr>parent = p, node_value = Split l0 (map old_id ds) ps0 m0\<rparr>)")
    case True
    have "distinct (map old_id ds)"
    proof -
      have d: "distinct (concat (map ids ds))" using 1(5) by simp
      have "inj_on old_id (set ds)"
        using distinct_children(2) [OF d] old_id_in by (intro inj_onI) (metis empty_iff empty_set)
      moreover have "distinct ds" using d
      proof (induction ds)
        case (Cons e es)
        have "e \<notin> set es"
        proof
          assume "e \<in> set es"
          then have "old_id e \<in> set (ids e) \<inter> set (concat (map ids es))"
            by (auto intro!: bexI [of _ e])
          moreover have "set (ids e) \<inter> set (concat (map ids es)) = {}" using Cons.prems by simp
          ultimately show False by blast
        qed
        then show ?case using Cons by simp
      qed simp
      ultimately show ?thesis by (simp add: distinct_map)
    qed
    moreover have "\<exists>nc. (old_id c, nc) \<in> set (entries p (DSplit i l0 ds ps0 m0 pm)) \<and> parent nc = Some i" if "c \<in> set ds" for c
    proof -
      obtain nc where nc: "(old_id c, nc) \<in> set (entries (Some i) c)" using ids_have_entry [OF old_id_in] by blast
      have "distinct (ids c)" using distinct_children(1) [of ids ds c] 1(5) that by simp
      then have "parent nc = Some i" using nc entries_old_id by blast
      then show ?thesis using nc that by auto
    qed
    ultimately show ?thesis using True 1(3,4) by auto
  next
    case False
    then obtain c where c: "c \<in> set ds" "(x, n) \<in> set (entries (Some i) c)" using 1(2) by auto
    have "distinct (ids c)" using distinct_children(1) [of ids ds c] 1(5) c(1) by simp
    then show ?thesis
      using 1(1) [OF c(1,2) 1(3)] 1(4) c(1) entries_of_child [OF c(1), of i p l0 ps0 m0 pm] by (meson detached_ok.simps(1) subsetD)
  qed
qed simp

text \<open>How far below its top each node of a detached node is.\<close>

fun depth_at :: "detached_node \<Rightarrow> nid \<Rightarrow> nat" where
  "depth_at (DSplit i l ds ps m pm) x =
     (if x = i then 0 else Suc (sum_list (map (\<lambda>d. if x \<in> set (ids d) then depth_at d x else 0) ds)))"
| "depth_at (DLeaf i w pm mapped) x = 0"

fun plain_height :: "detached_node \<Rightarrow> nat" where
  "plain_height (DSplit i l ds ps m pm) = Suc (Max (insert 0 (plain_height ` set ds)))"
| "plain_height (DLeaf i w pm mapped) = 1"

lemma sum_list_only:
  assumes "distinct (concat (map ids ds))" "c \<in> set ds" "x \<in> set (ids c)"
  shows "sum_list (map (\<lambda>d. if x \<in> set (ids d) then g d else (0 :: nat)) ds) = g c"
  using assms
proof (induction ds)
  case (Cons d ds)
  show ?case
  proof (cases "x \<in> set (ids d)")
    case True
    then have "\<forall>e\<in>set ds. x \<notin> set (ids e)" "c = d" using Cons.prems by auto
    then have "sum_list (map (\<lambda>d. if x \<in> set (ids d) then g d else 0) ds) = 0" by (simp add: sum_list_eq_0_iff)
    then show ?thesis using True \<open>c = d\<close> by simp
  next
    case False
    then show ?thesis using Cons by auto
  qed
qed simp

lemma depth_at_child:
  assumes "distinct (ids (DSplit i l ds ps m pm))" "c \<in> set ds" "x \<in> set (ids c)"
  shows "depth_at (DSplit i l ds ps m pm) x = Suc (depth_at c x)"
  using assms sum_list_only [of ds c x "\<lambda>d. depth_at d x"] by auto

lemma depth_at_parent:
  assumes "(x, n) \<in> set (entries p d)" "x \<noteq> old_id d" "parent n = Some q" "distinct (ids d)"
  shows "depth_at d x = Suc (depth_at d q)"
  using assms
proof (induction p d rule: entries.induct)
  case (1 p i l ds ps m pm)
  then obtain c where c: "c \<in> set ds" "(x, n) \<in> set (entries (Some i) c)" by auto
  have dc: "distinct (ids c)" using distinct_children(1) [of ids ds c] 1(5) c(1) by simp
  note dx = depth_at_child [OF 1(5) c(1) entries_ids [OF c(2)]]
  show ?case
  proof (cases "x = old_id c")
    case True
    then have "parent n = Some i" using entries_old_id c(2) dc by blast
    moreover have "depth_at c (old_id c) = 0" by (cases c) auto
    ultimately show ?thesis using dx True 1(4) by simp
  next
    case False
    from entries_parent [OF c(2) False dc] 1(4) obtain y where "(q, y) \<in> set (entries (Some i) c)" by auto
    then have "q \<in> set (ids c)" by (rule entries_ids)
    then show ?thesis using dx 1(1) [OF c False 1(4) dc] depth_at_child [OF 1(5) c(1)] by simp
  qed
qed simp

lemma depth_at_height:
  assumes "x \<in> set (ids d)" "distinct (ids d)"
  shows "depth_at d x < plain_height d"
  using assms
proof (induction d)
  case (DSplit i l ds ps m pm)
  show ?case
  proof (cases "x = i")
    case False
    then obtain c where c: "c \<in> set ds" "x \<in> set (ids c)" using DSplit.prems(1) by auto
    have "distinct (ids c)" using distinct_children(1) [of ids ds c] DSplit.prems(2) c(1) by simp
    then have "depth_at c x < plain_height c" using DSplit.IH c by blast
    also have "plain_height c \<le> Max (insert 0 (plain_height ` set ds))" using c(1) by (intro Max_ge) auto
    finally show ?thesis using depth_at_child [OF DSplit.prems(2) c] by simp
  qed simp
qed simp

section \<open>Planted trees are forests\<close>

text \<open>Reading the arena after entries have been added.\<close>

lemma planted_nodes:
  assumes n: "nodes t' = nodes t ++ map_of (entries p d)" and d: "distinct (ids d)"
  shows "(x, y) \<in> set (entries p d) \<Longrightarrow> nodes t' x = Some y" "x \<notin> set (ids d) \<Longrightarrow> nodes t' x = nodes t x"
    "x \<in> set (ids d) \<Longrightarrow> nodes t' x = Some y \<Longrightarrow> (x, y) \<in> set (entries p d)"
proof -
  have dd: "distinct (map fst (entries p d))" using d by (simp add: ids_entries)
  show e: "(x, y) \<in> set (entries p d) \<Longrightarrow> nodes t' x = Some y" for x y
    using map_of_is_SomeI [OF dd] by (simp add: n map_add_Some_iff)
  show "x \<notin> set (ids d) \<Longrightarrow> nodes t' x = nodes t x"
    using dom_entries [of p "[d]"] by (auto simp: n map_add_def split: option.split)
  show "(x, y) \<in> set (entries p d)" if "x \<in> set (ids d)" "nodes t' x = Some y"
    using ids_have_entry [OF that(1), of p] e that(2) by force
qed

lemma planted_reads:
  assumes n: "nodes t' = nodes t ++ map_of (entries p d)" and d: "distinct (ids d)"
    and fr: "\<forall>x\<in>set (ids d). \<not> contains_key t x"
  shows "contains_key t' x \<longleftrightarrow> contains_key t x \<or> x \<in> set (ids d)"
    "(x, y) \<in> set (entries p d) \<Longrightarrow> parent_of t' x = parent y"
    "(x, y) \<in> set (entries p d) \<Longrightarrow> get_split t' x = split_of (node_value y)"
    "x \<notin> set (ids d) \<Longrightarrow> parent_of t' x = parent_of t x"
    "x \<notin> set (ids d) \<Longrightarrow> get_split t' x = get_split t x"
    "x \<notin> set (ids d) \<Longrightarrow> tile_at t' x = tile_at t x"
proof -
  note p = planted_nodes [OF n d]
  show "contains_key t' x \<longleftrightarrow> contains_key t x \<or> x \<in> set (ids d)"
    using p(2) ids_have_entry [of x d p] p(1) by (cases "x \<in> set (ids d)") (auto simp: contains_key_def)
  show "(x, y) \<in> set (entries p d) \<Longrightarrow> parent_of t' x = parent y"
    "(x, y) \<in> set (entries p d) \<Longrightarrow> get_split t' x = split_of (node_value y)"
    using p(1) by (simp_all add: parent_of_def get_split_def value_of_def split_of_def)
  show "x \<notin> set (ids d) \<Longrightarrow> parent_of t' x = parent_of t x"
    "x \<notin> set (ids d) \<Longrightarrow> get_split t' x = get_split t x" "x \<notin> set (ids d) \<Longrightarrow> tile_at t' x = tile_at t x"
    using p(2) by (simp_all add: parent_of_def get_split_def value_of_def tile_at_def)
qed

lemma planted_linked:
  assumes n: "nodes t' = nodes t ++ map_of (entries None d)" and d: "distinct (ids d)" "detached_ok d"
    and fr: "\<forall>x\<in>set (ids d). \<not> contains_key t x" and L: "linked t"
  shows "linked t'"
proof -
  note rd = planted_reads [OF n d(1) fr]
  have old: "parent_of t' (old_id d) = None"
    using ids_have_entry [OF old_id_in, of d None] entries_old_id [OF _ d(1)] rd(2) by metis
  have "distinct cs \<and> (\<forall>c\<in>set cs. parent_of t' c = Some p) \<and> length ps = length cs \<and> shares ps"
    if s: "get_split t' p = Some (l, cs, ps, m)" for p l cs ps m
  proof (cases "p \<in> set (ids d)")
    case True
    then obtain y where y: "(p, y) \<in> set (entries None d)" using ids_have_entry by blast
    then have "node_value y = Split l cs ps m" using s rd(3) [OF y] by (simp add: split_of_def split: tree_node.splits)
    from entries_split [OF y this d(2,1)] rd(2) show ?thesis by fastforce
  next
    case False
    then have "get_split t p = Some (l, cs, ps, m)" using s rd(5) by simp
    then have "distinct cs \<and> (\<forall>c\<in>set cs. parent_of t c = Some p) \<and> length ps = length cs \<and> shares ps"
      using L unfolding linked_def by blast
    moreover have "parent_of t c = Some p \<Longrightarrow> parent_of t' c = Some p" for c using rd(4) fr parent_of_contains by metis
    ultimately show ?thesis by blast
  qed
  moreover have "\<exists>l cs ps m. get_split t' p = Some (l, cs, ps, m) \<and> c \<in> set cs" if p: "parent_of t' c = Some p" for c p
  proof (cases "c \<in> set (ids d)")
    case True
    then obtain y where y: "(c, y) \<in> set (entries None d)" using ids_have_entry by blast
    have "c \<noteq> old_id d" using old p by auto
    from entries_parent [OF y this d(1)] rd(2) [OF y] p rd(3) show ?thesis by fastforce
  next
    case False
    then have "parent_of t c = Some p" using p rd(4) by simp
    then obtain l cs ps m where s: "get_split t p = Some (l, cs, ps, m)" "c \<in> set cs" using L unfolding linked_def by blast
    then have "p \<notin> set (ids d)" using fr get_split_contains by blast
    then show ?thesis using s rd(5) by auto
  qed
  ultimately show ?thesis unfolding linked_def by blast
qed

lemma planted_acyclic:
  assumes n: "nodes t' = nodes t ++ map_of (entries None d)" and d: "distinct (ids d)"
    and fr: "\<forall>x\<in>set (ids d). \<not> contains_key t x"
    and h: "\<And>c p. parent_of t c = Some p \<Longrightarrow> h p < (h c :: nat) \<and> contains_key t p"
  shows "acyclic (up_edges (parent_of t'))"
proof (rule acyclic_rank)
  note rd = planted_reads [OF n d fr]
  let ?h = "\<lambda>x. if x \<in> set (ids d) then depth_at d x else h x"
  fix c p assume p: "parent_of t' c = Some p"
  show "?h p < ?h c"
  proof (cases "c \<in> set (ids d)")
    case True
    then obtain y where y: "(c, y) \<in> set (entries None d)" using ids_have_entry by blast
    have yp: "parent y = Some p" using p rd(2) [OF y] by simp
    then have ne: "c \<noteq> old_id d" using entries_old_id [OF _ d] y by fastforce
    then have "p \<in> set (ids d)" using entries_parent [OF y ne d] yp entries_ids by fastforce
    then show ?thesis using depth_at_parent [OF y ne yp d] True by simp
  next
    case False
    then have "parent_of t c = Some p" using p rd(4) by simp
    then have "h p < h c" "p \<notin> set (ids d)" using h fr by auto
    then show ?thesis using False by simp
  qed
qed

lemma planted_new_links:
  assumes n: "nodes t' = nodes t ++ map_of (entries None d)" and d: "distinct (ids d)"
    and fr: "\<forall>x\<in>set (ids d). \<not> contains_key t x" and ok: "detached_ok d"
  shows "parent_of t' (old_id d) = None" "x \<in> set (ids d) \<Longrightarrow> x \<noteq> old_id d \<Longrightarrow> parent_of t' x \<noteq> None"
    "x \<in> set (ids d) \<Longrightarrow> get_split t' x \<noteq> Some (l, [], ps, m)"
proof -
  note rd = planted_reads [OF n d fr]
  show "parent_of t' (old_id d) = None"
    using ids_have_entry [OF old_id_in, of d None] entries_old_id [OF _ d] rd(2) by metis
  assume "x \<in> set (ids d)"
  then obtain y where y: "(x, y) \<in> set (entries None d)" using ids_have_entry by blast
  show "x \<noteq> old_id d \<Longrightarrow> parent_of t' x \<noteq> None" using entries_parent [OF y _ d] rd(2) [OF y] by auto
  show "get_split t' x \<noteq> Some (l, [], ps, m)"
  proof
    assume "get_split t' x = Some (l, [], ps, m)"
    then have "node_value y = Split l [] ps m" using rd(3) [OF y] by (simp add: split_of_def split: tree_node.splits)
    then show False using entries_split [OF y _ ok d] by blast
  qed
qed

lemma planted_forest:
  assumes F: "forest D E t" and P: "planted t t' None [d]" and ok: "detached_ok d"
  shows "forest (insert (old_id d) D) E t'"
proof -
  have n: "nodes t' = nodes t ++ map_of (entries None d)" and d: "distinct (ids d)"
    and fr: "\<forall>x\<in>set (ids d). \<not> contains_key t x" and lt: "\<forall>x\<in>set (ids d). x < next_id t'"
    and nx: "next_id t \<le> next_id t'" and rs: "rest t' = rest t"
    using P by (auto simp: planted_def)
  note rd = planted_reads [OF n d fr] and nl = planted_new_links [OF n d fr ok]
  have root: "tree_root t' = tree_root t" using arg_cong [OF rs, of tree_root] by (simp add: rest_def)
  have rid: "tree_root t \<notin> set (ids d)" using fr forest_root [OF F] get_split_contains by (auto simp: is_split_def)
  have "i \<in> tops t' \<longleftrightarrow> i \<in> tops t \<or> i = old_id d" for i
    using rd(1) rd(4) nl(1) nl(2) [of i] fr by (cases "i \<in> set (ids d)"; cases "i = old_id d") (auto simp: tops_def)
  moreover have "tops t = insert (tree_root t) D" using F by (simp add: forest_def)
  ultimately have t: "tops t' = insert (tree_root t') (insert (old_id d) D)" using root by auto
  have e: "empties t' \<subseteq> insert (tree_root t') E"
  proof
    fix i assume "i \<in> empties t'"
    then obtain l ps m where s: "get_split t' i = Some (l, [], ps, m)" by (auto simp: empties_def)
    then have "i \<notin> set (ids d)" using nl(3) by blast
    then show "i \<in> insert (tree_root t') E" using s rd(5) forest_empty [OF F] root by auto
  qed
  have L: "linked t'" by (rule planted_linked [OF n d ok fr]) (use F in \<open>simp add: forest_def\<close>)
  have A: "acyclic (up_edges (parent_of t'))"
  proof (rule planted_acyclic [OF n d fr, where h = "node_depth t"])
    fix c p assume p: "parent_of t c = Some p"
    show "node_depth t p < node_depth t c \<and> contains_key t p"
      using node_depth_child [OF F p] forest_parentD [OF F p] get_split_contains by (metis lessI)
  qed
  have "old_id d \<noteq> tree_root t" using rid old_id_in by metis
  moreover have "i < next_id t'" if "contains_key t' i" for i
    using that rd(1) lt forest_bound [OF F, of i] nx by fastforce
  ultimately show ?thesis
    unfolding forest_def using L A t e root rd(5) [OF rid] forest_root [OF F] F
    by (simp add: is_split_def forest_def)
qed

text \<open>A detached container alone is a tree.\<close>

lemma planted_whole_forest:
  assumes n: "nodes t' = map_of (entries None d)" and d: "distinct (ids d)" and lt: "\<forall>x\<in>set (ids d). x < next_id t'"
    and ok: "detached_ok d" and r: "tree_root t' = old_id d" "is_split t' (old_id d)"
  shows "forest {} {} t'"
proof -
  define b where "b = t'\<lparr>nodes := \<lambda>_. None\<rparr>"
  have b: "\<not> contains_key b x" "parent_of b x = None" "get_split b x = None" for x
    by (simp_all add: b_def contains_key_def parent_of_def get_split_def value_of_def)
  have nb: "nodes t' = nodes b ++ map_of (entries None d)" and fr: "\<forall>x\<in>set (ids d). \<not> contains_key b x"
    using n b(1) by (simp_all add: b_def fun_eq_iff map_add_def split: option.split)
  note rd = planted_reads [OF nb d fr] and nl = planted_new_links [OF nb d fr ok]
  have L: "linked t'" by (rule planted_linked [OF nb d ok fr]) (simp add: linked_def b)
  have A: "acyclic (up_edges (parent_of t'))" by (rule planted_acyclic [OF nb d fr]) (simp add: b)
  have "i \<in> tops t' \<longleftrightarrow> i = old_id d" for i
    using rd(1) b(1) nl(1) nl(2) [of i] by (cases "i = old_id d") (auto simp: tops_def)
  then have "tops t' = {old_id d}" by auto
  moreover have "get_split t' x \<noteq> Some (l, [], ps, m)" for x l ps m
    using nl(3) [of x] rd(1) [of x] b(1) get_split_contains [of t' x] by blast
  then have "empties t' = {}" by (simp add: empties_def)
  ultimately show ?thesis using L A r lt rd(1) b(1) by (simp add: forest_def)
qed

section \<open>Modes and windows\<close>

fun leaf_entries :: "detached_node \<Rightarrow> (nid \<times> tile) list" where
  "leaf_entries (DSplit i l ds ps m pm) = concat (map leaf_entries ds)"
| "leaf_entries (DLeaf i w pm mapped) = [(i, w)]"

text \<open>What does not depend on the identifiers.\<close>

lemma erase_same:
  "detached_ok (erase d) = detached_ok d" "plain_height (erase d) = plain_height d"
  "detached_tiles (erase d) = detached_tiles d" "map snd (modes (erase d)) = map snd (modes d)"
  "map snd (leaf_entries (erase d)) = detached_tiles d"
proof (induction d)
  case (DSplit i l ds ps m pm)
  {
    case 1
    then show ?case using DSplit by simp
  next
    case 2
    then show ?case using DSplit by (simp add: image_image cong: image_cong)
  next
    case 3
    then show ?case using DSplit by (simp add: o_def cong: map_cong)
  next
    case 4
    have "map snd (own_mode j pm) = map snd (own_mode k pm)" for j k by (cases pm) auto
    then show ?case using DSplit by (simp add: map_concat o_def cong: map_cong)
  next
    case 5
    then show ?case using DSplit by (simp add: map_concat o_def cong: map_cong)
  }
next
  case (DLeaf i w pm mapped)
  {
    case 4
    then show ?case by (cases pm) auto
  }
qed simp_all

lemma erase_leaf_tiles: "map snd (leaf_entries d) = detached_tiles d"
  by (induction d) (simp_all add: map_concat o_def cong: map_cong)

lemma leaf_entries_iff: "(x, w) \<in> set (leaf_entries d) \<longleftrightarrow> (\<exists>r. (x, \<lparr>parent = r, node_value = Leaf w\<rparr>) \<in> set (entries p d))"
proof (induction p d rule: entries.induct)
  case (1 p i l ds ps m pm)
  then show ?case by auto
qed auto

lemma mode_entry: "(x, y) \<in> set (modes d) \<Longrightarrow> detached_ok d \<Longrightarrow> pm_maximized y \<Longrightarrow> x \<in> fst ` set (leaf_entries d)"
proof (induction d)
  case (DSplit i l ds ps m pm)
  then have "(x, y) \<notin> set (own_mode i pm)" by (cases pm) auto
  then obtain c where "c \<in> set ds" "(x, y) \<in> set (modes c)" using DSplit.prems(1) by auto
  then show ?case using DSplit.IH DSplit.prems by fastforce
next
  case (DLeaf i w pm mapped)
  then show ?case by (cases pm) auto
qed

lemma has_fullscreen_iff: "has_fullscreen d \<longleftrightarrow> (\<exists>y\<in>set (map snd (modes d)). pm_fullscreen y \<noteq> None)"
proof (induction d)
  case (DSplit i l ds ps m pm)
  then show ?case by (cases pm) (fastforce simp: detached_fullscreen_def)+
next
  case (DLeaf i w pm mapped)
  then show ?case by (cases pm) (auto simp: detached_fullscreen_def)
qed

definition one_fullscreen :: "detached_node \<Rightarrow> bool" where
  "one_fullscreen d \<longleftrightarrow> length (filter (\<lambda>y. pm_fullscreen y \<noteq> None) (map snd (modes d))) \<le> 1"

lemma one_fullscreen_unique:
  assumes "one_fullscreen d" "(x, y) \<in> set (modes d)" "(x', y') \<in> set (modes d)" "pm_fullscreen y \<noteq> None" "pm_fullscreen y' \<noteq> None"
  shows "x = x'"
proof -
  let ?f = "\<lambda>e. pm_fullscreen (snd e) \<noteq> None"
  have "length (filter ?f (modes d)) \<le> 1" using assms(1) by (simp add: one_fullscreen_def filter_map o_def)
  moreover have "(x, y) \<in> set (filter ?f (modes d))" "(x', y') \<in> set (filter ?f (modes d))" using assms by auto
  moreover have "a = b" if "length xs \<le> 1" "a \<in> set xs" "b \<in> set xs" for xs and a b :: "nid \<times> pending_mode"
    using that by (cases xs) auto
  ultimately show ?thesis by blast
qed

lemma leaf_ids: "fst ` set (leaf_entries d) \<subseteq> set (ids d)"
  by (induction d) auto

lemma distinct_leaf_ids: "distinct (ids d) \<Longrightarrow> distinct (map fst (leaf_entries d))"
proof (induction d)
  case (DSplit i l ds ps m pm)
  have "distinct (concat (map ids ds)) \<Longrightarrow> (\<And>e. e \<in> set ds \<Longrightarrow> distinct (map fst (leaf_entries e))) \<Longrightarrow>
      distinct (concat (map (\<lambda>e. map fst (leaf_entries e)) ds))"
  proof (induction ds)
    case (Cons e es)
    have "set (ids e) \<inter> (\<Union>a\<in>set es. set (ids a)) = {}" using Cons.prems(1) by simp
    then have "fst ` set (leaf_entries e) \<inter> (\<Union>a\<in>set es. fst ` set (leaf_entries a)) = {}"
      using leaf_ids by blast
    then show ?case using Cons by auto
  qed simp
  then show ?case using DSplit distinct_children(1) [of ids ds] by (simp add: map_concat o_def)
qed simp

lemma planted_tiles:
  assumes n: "nodes t' = nodes t ++ map_of (entries p d)" and d: "distinct (ids d)"
    and fr: "\<forall>x\<in>set (ids d). \<not> contains_key t x"
  shows "tile_at t' = tile_at t ++ map_of (leaf_entries d)"
proof
  fix x
  note le = leaf_ids [of d]
  have dl: "distinct (map fst (leaf_entries d))" using d by (rule distinct_leaf_ids)
  show "tile_at t' x = (tile_at t ++ map_of (leaf_entries d)) x"
  proof (cases "x \<in> set (ids d)")
    case False
    then have "map_of (leaf_entries d) x = None" using le by (auto simp: map_of_eq_None_iff)
    then show ?thesis using planted_reads(6) [OF n d fr False] by (simp add: map_add_def)
  next
    case True
    then obtain y where y: "(x, y) \<in> set (entries p d)" using ids_have_entry by blast
    have ty: "tile_at t' x = (case node_value y of Leaf w \<Rightarrow> Some w | _ \<Rightarrow> None)"
      using planted_nodes(1) [OF n d y] by (simp add: tile_at_def value_of_def)
    have t0: "tile_at t x = None" using fr True tile_at_contains by (cases "tile_at t x") auto
    show ?thesis
    proof (cases "node_value y")
      case (Leaf w)
      then have "y = \<lparr>parent = parent y, node_value = Leaf w\<rparr>" by simp
      then have "(x, w) \<in> set (leaf_entries d)" using y leaf_entries_iff [of x w d p] by metis
      then show ?thesis using ty Leaf map_of_is_SomeI [OF dl] by (simp add: map_add_Some_iff)
    next
      case (Split l cs ps m)
      have "map_of (leaf_entries d) x = None"
      proof (rule ccontr)
        assume "map_of (leaf_entries d) x \<noteq> None"
        then obtain w where "(x, w) \<in> set (leaf_entries d)" by (auto dest: map_of_SomeD)
        then obtain r where "(x, \<lparr>parent = r, node_value = Leaf w\<rparr>) \<in> set (entries p d)" using leaf_entries_iff by blast
        from planted_nodes(1) [OF n d this] planted_nodes(1) [OF n d y] show False using Split by auto
      qed
      then show ?thesis using ty Split t0 by (simp add: map_add_def)
    qed
  qed
qed

lemma planted_side_tables:
  assumes S: "side_ok t" and M: "modes_ok t" and ok: "detached_ok d" "one_fullscreen d"
    and fs: "has_fullscreen d \<longrightarrow> (\<forall>j. fullscreen_mode t j = None)"
    and keep: "\<And>x. contains_key t x \<or> x \<in> set (ids d) \<Longrightarrow> contains_key t' x"
    and leaf: "\<And>x. is_leaf t x \<or> x \<in> fst ` set (leaf_entries d) \<Longrightarrow> is_leaf t' x"
    and pm: "pending_modes t' = pending_modes t ++ map_of (modes d)"
    and mp: "mapped_under_fullscreen t' = mapped_under_fullscreen t \<union> mapped_ids d" and rs: "rest t' = rest t"
  shows "side_ok t'" "modes_ok t'"
proof -
  note r = arg_cong [OF rs, of focus_history] arg_cong [OF rs, of ipc_stale_nodes] arg_cong [OF rs, of last_entered_by]
    arg_cong [OF rs, of moved_under_fullscreen] arg_cong [OF rs, of fullscreen_layout_wrappers]
    arg_cong [OF rs, of pre_layout_ipc_rects] arg_cong [OF rs, of tab_indicators] arg_cong [OF rs, of tab_active]
  have pmc: "pending_modes t' x = Some y \<Longrightarrow> (x, y) \<in> set (modes d) \<or> pending_modes t x = Some y" for x y
    using pm by (auto simp: map_add_Some_iff dest: map_of_SomeD)
  have md: "(x, y) \<in> set (modes d) \<Longrightarrow> x \<in> set (ids d)" for x y using set_modes [of d] by force
  have "contains_key t' x" if "pending_modes t' x = Some y" for x y
    using pmc [OF that] md keep side_okD(3) [OF S] by blast
  moreover have "contains_key t' x" if "x \<in> mapped_under_fullscreen t'" for x
    using that mp mapped_ids_in [of d] keep side_okD(6) [OF S] by blast
  ultimately show "side_ok t'" using r side_okD [OF S] keep unfolding side_ok_def rest_def by simp
  have "is_leaf t' x" if y: "pending_modes t' x = Some y" "pm_maximized y" for x y
    using pmc [OF y(1)] mode_entry [OF _ ok(1) y(2)] M y(2) leaf unfolding modes_ok_def by blast
  moreover have "x = x'" if x: "fullscreen_mode t' x \<noteq> None" "fullscreen_mode t' x' \<noteq> None" for x x'
  proof -
    obtain y y' where y: "pending_modes t' x = Some y" "pm_fullscreen y \<noteq> None"
      "pending_modes t' x' = Some y'" "pm_fullscreen y' \<noteq> None"
      using x by (auto simp: fullscreen_mode_def split: option.splits Option.bind_splits)
    have old: "fullscreen_mode t z \<noteq> None" if "pending_modes t z = Some v" "pm_fullscreen v \<noteq> None" for z v
      using that by (simp add: fullscreen_mode_def)
    have new: "has_fullscreen d" if "(z, v) \<in> set (modes d)" "pm_fullscreen v \<noteq> None" for z v
      using that by (force simp: has_fullscreen_iff)
    show ?thesis
      using pmc [OF y(1)] pmc [OF y(3)] one_fullscreen_unique [OF ok(2)] old new fs y(2,4) M
      unfolding modes_ok_def by metis
  qed
  ultimately show "modes_ok t'" unfolding modes_ok_def by blast
qed

lemma planted_wft:
  assumes W: "wft D E t" and P: "planted t t' None [d]" and ok: "detached_ok d" "one_fullscreen d"
    and fs: "has_fullscreen d \<longrightarrow> (\<forall>j. fullscreen_mode t j = None)"
  shows "wft (insert (old_id d) D) E t'"
proof -
  have n: "nodes t' = nodes t ++ map_of (entries None d)" and d: "distinct (ids d)"
    and fr: "\<forall>x\<in>set (ids d). \<not> contains_key t x" and rs: "rest t' = rest t"
    and pm: "pending_modes t' = pending_modes t ++ map_of (modes d)"
    and mp: "mapped_under_fullscreen t' = mapped_under_fullscreen t \<union> mapped_ids d"
    using P by (auto simp: planted_def)
  have F: "forest (insert (old_id d) D) E t'" using planted_forest [OF wfD(1) [OF W] P ok(1)] .
  have leaf: "is_leaf t' x" if "is_leaf t x \<or> x \<in> fst ` set (leaf_entries d)" for x
  proof -
    have "tile_at t' x \<noteq> None" using that planted_tiles [OF n d fr]
      by (auto simp: map_add_def map_of_eq_None_iff split: option.split)
    then show ?thesis by auto
  qed
  note ST = planted_side_tables [OF wfD(2,3) [OF W] ok fs _ leaf pm mp rs]
  have keep: "contains_key t' x" if "contains_key t x \<or> x \<in> set (ids d)" for x
    using that planted_reads(1) [OF n d fr] by simp
  have "\<not> panicked t'" using W arg_cong [OF rs, of panicked] by (simp add: wft_def rest_def)
  then show ?thesis using F ST keep by (simp add: wft_def)
qed

end
