(* ===== verification/Attach_Laws.thy ===== *)
theory Attach_Laws
  imports Planting
begin

text \<open>
  Attaching a detached subtree to a well-formed tree: below a node, or as the content of an empty
  root. The result is well formed, holds the detached node as it is up to identifiers that were
  taken, and keeps every window it had; it is nowhere too deep when the subtree is not. The stack
  loop of \<^verbatim>\<open>DetachedNode::height\<close> computes the nesting \<open>plain_height\<close>.
\<close>

section \<open>Restoring the focus\<close>

lemma reinsert_focus_history_wft:
  assumes "wft {} {} t"
  shows "wft {} {} (reinsert_focus_history t ws r) \<and> nodes (reinsert_focus_history t ws r) = nodes t \<and>
    tree_root (reinsert_focus_history t ws r) = tree_root t \<and> focus (reinsert_focus_history t ws r) = focus t \<and>
    next_id (reinsert_focus_history t ws r) = next_id t"
proof -
  have "wft {} {} (fold f xs u) \<and> nodes (fold f xs u) = nodes u \<and> tree_root (fold f xs u) = tree_root u \<and>
      focus (fold f xs u) = focus u \<and> next_id (fold f xs u) = next_id u"
    if "wft {} {} u" and f: "f = (\<lambda>w t. case node_for_window t w of None \<Rightarrow> t
            | Some i \<Rightarrow> (let h = retain_ne i (focus_history t)
                        in t\<lparr>focus_history := insert_at (min r (length h)) i h\<rparr>))" for xs u f
    using that(1)
  proof (induction xs arbitrary: u)
    case (Cons w xs)
    show ?case
    proof (cases "node_for_window u w")
      case None
      then show ?thesis using Cons by (simp add: f)
    next
      case (Some i)
      let ?h = "insert_at (min r (length (retain_ne i (focus_history u)))) i (retain_ne i (focus_history u))"
      have "contains_key u i" using node_for_window_Some [OF wfD(1) [OF Cons.prems] Some] by blast
      then have "wft {} {} (u\<lparr>focus_history := ?h\<rparr>)"
        using side_okD(1,2) [OF wfD(2) [OF Cons.prems]] by (intro wft_history [OF Cons.prems]) auto
      moreover have "f w u = u\<lparr>focus_history := ?h\<rparr>" using Some by (simp add: f Let_def)
      ultimately show ?thesis using Cons.IH [of "f w u"] by simp
    qed
  qed simp
  then show ?thesis using assms by (simp add: reinsert_focus_history_def)
qed

text \<open>A tree that is well formed except that it may have windows and no focus.\<close>

definition unfocused :: "tree \<Rightarrow> bool" where
  "unfocused t \<longleftrightarrow> wft {} {} t \<and> focus_in {} t \<and> (focus t \<noteq> None \<longrightarrow> leaves t \<noteq> {})"

lemma focus_root_leaf:
  assumes W: "wft {} {} t"
  shows "inv (set_focus_id t (focused_leaf_in t (tree_root t)))" "inv (t\<lparr>focus := focused_leaf_in t (tree_root t)\<rparr>)"
proof -
  have F: "forest {} {} t" using W by (rule wfD)
  have r: "contains_key t (tree_root t)" using F by (rule forest_root_split) (rule get_split_contains)
  note fl = focused_leaf_in_props [OF F r] and fr = focused_leaf_in_root [OF F]
  show "inv (set_focus_id t (focused_leaf_in t (tree_root t)))"
    using wf_set_focus_id [OF W, of "focused_leaf_in t (tree_root t)"] fl fr
    by (auto simp: inv_def focus_in_def)
  let ?u = "t\<lparr>focus := focused_leaf_in t (tree_root t)\<rparr>"
  have n: "nodes ?u = nodes t" by simp
  have "side_ok ?u" "modes_ok ?u"
    using wfD(2,3) [OF W] same_nodes_reads [OF n] by (simp_all add: side_ok_def modes_ok_def fullscreen_mode_def)
  then have "wft {} {} ?u" by (intro wft_tables [OF W]) simp_all
  then show "inv ?u" using fl fr same_nodes_reads [OF n] by (auto simp: inv_def focus_in_def)
qed

lemma restore_transferred_focus_inv:
  assumes U: "unfocused t"
  shows "inv (restore_transferred_focus t ws)" "nodes (restore_transferred_focus t ws) = nodes t"
    "tree_root (restore_transferred_focus t ws) = tree_root t" "next_id (restore_transferred_focus t ws) = next_id t"
proof -
  define u where "u = reinsert_focus_history t ws (if focus t \<noteq> None then 1 else 0)"
  have u: "wft {} {} u" "nodes u = nodes t" "tree_root u = tree_root t" "focus u = focus t" "next_id u = next_id t"
    using reinsert_focus_history_wft [of t ws] U by (auto simp: u_def unfocused_def)
  have eq: "restore_transferred_focus t ws =
      (if focus u = None then set_focus_id u (focused_leaf_in u (tree_root u)) else u)"
    by (simp add: restore_transferred_focus_def u_def Let_def)
  show "inv (restore_transferred_focus t ws)"
    using focus_root_leaf(1) [OF u(1)] u U same_nodes_reads [OF u(2)]
    by (auto simp: eq inv_def unfocused_def focus_in_def)
  show "nodes (restore_transferred_focus t ws) = nodes t" "tree_root (restore_transferred_focus t ws) = tree_root t"
    "next_id (restore_transferred_focus t ws) = next_id t"
    using u by (simp_all add: eq)
qed

section \<open>Attaching below a node\<close>

lemma below_stays:
  assumes F: "forest D E t" and P: "\<And>x. contains_key t x \<Longrightarrow> parent_of t' x = parent_of t x"
  shows "below t' p x \<Longrightarrow> contains_key t p \<Longrightarrow> contains_key t x"
proof (induction rule: rtrancl_induct)
  case (step y z)
  then have "parent_of t y = Some z" using P by simp
  then show ?case using forest_parentD [OF F] get_split_contains by metis
qed

lemma detached_has_leaf: "detached_ok d \<Longrightarrow> leaf_entries d \<noteq> []"
proof (induction d)
  case (DSplit i l ds ps m pm)
  then obtain c where "c \<in> set ds" by (auto dest: hd_in_set)
  then show ?case using DSplit by auto
qed simp

text \<open>The state after the insertion and the link to the parent.\<close>

lemma planted_linked_below:
  fixes after :: "nid option"
  assumes I: "inv t" and P: "planted t t1 None [d]" and ok: "detached_ok d" "one_fullscreen d"
    and fs: "has_fullscreen d \<longrightarrow> (\<forall>j. fullscreen_mode t j = None)"
    and p: "get_split t p = Some (l, cs, ps, m)"
  defines "t2 \<equiv> insert_child t1 p (old_id d) after"
  shows "unfocused t2" "tile_at t2 = tile_at t ++ map_of (leaf_entries d)" "tree_root t2 = tree_root t"
    "contains_key t2 x \<longleftrightarrow> contains_key t x \<or> x \<in> set (ids d)"
    "parent_of t2 = (parent_of t1)(old_id d := Some p)" "leaves t2 \<noteq> {}" "next_id t2 = next_id t1"
    "x \<noteq> p \<Longrightarrow> get_split t2 x = get_split t1 x" "tile_at t2 = tile_at t1" "pending_modes t2 = pending_modes t1"
proof -
  have W: "wft {} {} t" and F: "forest {} {} t" using I by (auto dest: invD)
  have n: "nodes t1 = nodes t ++ map_of (entries None d)" and d: "distinct (ids d)"
    and fr: "\<forall>x\<in>set (ids d). \<not> contains_key t x" and rs: "rest t1 = rest t"
    using P by (auto simp: planted_def)
  note rd = planted_reads [OF n d fr]
  have W1: "wft {old_id d} {} t1" using planted_wft [OF W P ok fs] by simp
  note F1 = wfD(1) [OF W1]
  have pK: "contains_key t p" using p by (rule get_split_contains)
  have pn: "p \<notin> set (ids d)" using pK fr by blast
  have p1: "get_split t1 p = Some (l, cs, ps, m)" using p rd(5) [OF pn] by simp
  have nb: "\<not> below t1 p (old_id d)"
    using below_stays [OF F, of t1 p "old_id d"] rd(4) fr pK old_id_in by metis
  define k where "k = (case Option.bind after (\<lambda>a. position a cs) of None \<Rightarrow> length cs | Some k \<Rightarrow> k + 1)"
  have t2: "t2 = insert_child_at t1 p (old_id d) k" unfolding t2_def k_def by (rule insert_child_eq [OF p1])
  note ic = insert_child_at_forest [OF F1 p1 _ nb, of k, folded t2]
  have st: "strip t2 = strip t1" by (simp add: t2_def)
  have F2: "forest {} {} t2" using ic(1) by simp
  have K: "contains_key t2 = contains_key t1" using ic(3) by (simp add: fun_eq_iff)
  have W2: "wft {} {} t2" by (rule wf_frame [OF W1 F2 st]) (use ic in \<open>simp_all add: K\<close>)
  show tl: "tile_at t2 = tile_at t ++ map_of (leaf_entries d)" using ic(6) planted_tiles [OF n d fr] by simp
  have root: "tree_root t1 = tree_root t" "focus t1 = focus t" using arg_cong [OF rs, of tree_root] arg_cong [OF rs, of focus]
    by (simp_all add: rest_def)
  show "tree_root t2 = tree_root t" using strip_fieldsD(1) [OF st] root by simp
  show "contains_key t2 x \<longleftrightarrow> contains_key t x \<or> x \<in> set (ids d)" using K rd(1) by simp
  show "parent_of t2 = (parent_of t1)(old_id d := Some p)" using ic(4) by simp
  obtain e es where "leaf_entries d = e # es" using detached_has_leaf [OF ok(1)] by (cases "leaf_entries d") auto
  then have "tile_at t2 (fst e) \<noteq> None" by (cases e) (simp add: tl map_add_def)
  then show lv: "leaves t2 \<noteq> {}" by (auto simp: leaves_def)
  have "focus_in {} t2" using invD(2) [OF I] root strip_fieldsD(2) [OF st] rd(1) K by (simp add: focus_in_def)
  then show "unfocused t2" using W2 lv by (simp add: unfocused_def)
  show "x \<noteq> p \<Longrightarrow> get_split t2 x = get_split t1 x" "tile_at t2 = tile_at t1" using ic(5,6) by simp_all
  show "pending_modes t2 = pending_modes t1" using arg_cong [OF st, of pending_modes] by (simp add: strip_def)
  show "next_id t2 = next_id t1" by (simp add: t2 insert_child_at_def Let_def expect_set_parent_def panic_def split: option.split)
qed

section \<open>The height of a detached node\<close>

lemma plain_height_le: "l + plain_height (DSplit i y ds ps m pm) \<le> Suc b \<longleftrightarrow> l \<le> b \<and> (\<forall>c\<in>set ds. l + plain_height c \<le> b)"
proof -
  have "l + plain_height (DSplit i y ds ps m pm) \<le> Suc b \<longleftrightarrow> l + Max (insert 0 (plain_height ` set ds)) \<le> b" by simp
  also have "\<dots> \<longleftrightarrow> l \<le> b \<and> Max (insert 0 (plain_height ` set ds)) \<le> b - l" by linarith
  also have "\<dots> \<longleftrightarrow> l \<le> b \<and> (\<forall>c\<in>set ds. plain_height c \<le> b - l)" by simp
  also have "\<dots> \<longleftrightarrow> l \<le> b \<and> (\<forall>c\<in>set ds. l + plain_height c \<le> b)" by auto
  finally show ?thesis .
qed

lemma detached_height_loop_le:
  "sum_list (map (\<lambda>e. node_total (fst e)) stack) \<le> k \<Longrightarrow>
   detached_height_loop k stack h \<le> b \<longleftrightarrow> h \<le> b \<and> (\<forall>(d, l)\<in>set stack. l + plain_height d \<le> Suc b)"
proof (induction k arbitrary: stack h)
  case 0
  have "0 < node_total d" for d by (cases d) simp_all
  then have "stack = []" using 0 by (cases stack) (auto simp: neq0_conv [symmetric] simp del: neq0_conv)
  then show ?case by simp
next
  case (Suc k)
  show ?case
  proof (cases stack)
    case Nil
    then show ?thesis by simp
  next
    case (Cons e rest)
    obtain d l where e: "e = (d, l)" by (cases e)
    show ?thesis
    proof (cases d)
      case (DLeaf i w pm mapped)
      have "sum_list (map (\<lambda>e. node_total (fst e)) rest) \<le> k" using Suc.prems Cons e DLeaf by simp
      from Suc.IH [OF this] show ?thesis using Cons e DLeaf by auto
    next
      case (DSplit i y ds ps m pm)
      let ?s = "rev (map (\<lambda>c. (c, l + 1)) ds) @ rest"
      have "sum_list (map (\<lambda>e. node_total (fst e)) ?s) \<le> k"
        using Suc.prems Cons e DSplit by (simp add: rev_map [symmetric] sum_list_rev o_def split_def)
      from Suc.IH [OF this] have "detached_height_loop (Suc k) stack h \<le> b \<longleftrightarrow>
          max h l \<le> b \<and> (\<forall>(d, l)\<in>set ?s. l + plain_height d \<le> Suc b)"
        using Cons e DSplit by simp
      also have "\<dots> \<longleftrightarrow> h \<le> b \<and> l + plain_height d \<le> Suc b \<and> (\<forall>(d, l)\<in>set rest. l + plain_height d \<le> Suc b)"
        unfolding DSplit plain_height_le by (auto simp: ball_Un simp del: plain_height.simps)
      finally show ?thesis using Cons e by auto
    qed
  qed
qed

lemma detached_height_eq: "detached_height d = plain_height d"
proof -
  have "detached_height d \<le> b \<longleftrightarrow> plain_height d \<le> b" for b
    using detached_height_loop_le [of "[(d, 1)]" "Suc (node_total d)" 0 b] by (simp add: detached_height_def)
  then show ?thesis by (metis order_antisym order_refl)
qed

section \<open>What a tree holds of a detached node\<close>

definition holds :: "tree \<Rightarrow> detached_node \<Rightarrow> bool" where
  "holds t d \<longleftrightarrow> (\<forall>(x, n)\<in>set (entries (parent_of t (old_id d)) d). nodes t x = Some n) \<and>
     (\<forall>x\<in>set (ids d). pending_modes t x = map_of (modes d) x)"

lemma snapshot_holds: "snapshot t i d \<Longrightarrow> holds t d"
  by (auto simp: snapshot_def holds_def)

lemma node_from_reads:
  assumes "contains_key t' x" "contains_key t x" "parent_of t' x = parent_of t x" "get_split t' x = get_split t x"
    "tile_at t' x = tile_at t x"
  shows "nodes t' x = nodes t x"
proof -
  obtain a b where ab: "nodes t' x = Some a" "nodes t x = Some b" using assms by (auto simp: contains_key_def)
  have "node_value a = node_value b"
    using ab assms(4,5) by (cases "node_value a"; cases "node_value b")
      (auto simp: get_split_def tile_at_def value_of_def)
  then show ?thesis using ab assms(3) by (simp add: parent_of_def)
qed

lemma entries_reparent:
  assumes "(x, n) \<in> set (entries q d)" "distinct (ids d)"
  shows "(x, if x = old_id d then n\<lparr>parent := p\<rparr> else n) \<in> set (entries p d)" "x = old_id d \<Longrightarrow> parent n = q"
proof -
  show "x = old_id d \<Longrightarrow> parent n = q" using entries_old_id assms by blast
  show "(x, if x = old_id d then n\<lparr>parent := p\<rparr> else n) \<in> set (entries p d)"
  proof (cases d)
    case (DSplit i l ds ps m pm)
    have "(i, n) \<notin> set (entries (Some i) c)" if "c \<in> set ds" for c
      using assms(2) that DSplit entries_ids by fastforce
    then show ?thesis using assms(1) DSplit by auto
  next
    case (DLeaf i w pm mapped)
    then show ?thesis using assms(1) by simp
  qed
qed

lemma modes_none: "x \<notin> set (ids d) \<Longrightarrow> map_of (modes d) x = None"
  using set_modes [of d] by (auto simp: map_of_eq_None_iff)

text \<open>The nodes of a detached node stay what they are when its root is linked elsewhere.\<close>

lemma entries_relinked:
  assumes e: "\<forall>(x, n)\<in>set (entries q d). nodes t1 x = Some n" and d: "distinct (ids d)"
    and K: "\<And>x. x \<in> set (ids d) \<Longrightarrow> contains_key t2 x"
    and par: "\<And>x. x \<in> set (ids d) \<Longrightarrow> parent_of t2 x = (if x = old_id d then p else parent_of t1 x)"
    and gs: "\<And>x. x \<in> set (ids d) \<Longrightarrow> get_split t2 x = get_split t1 x"
    and tl: "\<And>x. x \<in> set (ids d) \<Longrightarrow> tile_at t2 x = tile_at t1 x"
  shows "\<forall>(x, n)\<in>set (entries p d). nodes t2 x = Some n"
proof safe
  fix x y assume xy: "(x, y) \<in> set (entries p d)"
  have x: "x \<in> set (ids d)" using entries_ids [OF xy] .
  have n1: "nodes t1 x = Some (if x = old_id d then y\<lparr>parent := q\<rparr> else y)" using e entries_reparent(1) [OF xy d, of q] by blast
  then have K1: "contains_key t1 x" by (simp add: contains_key_def)
  obtain z where z: "nodes t2 x = Some z" using K [OF x] by (auto simp: contains_key_def)
  show "nodes t2 x = Some y"
  proof (cases "x = old_id d")
    case False
    then show ?thesis using node_from_reads [OF K [OF x] K1] par [OF x] gs [OF x] tl [OF x] n1 by simp
  next
    case True
    have "parent z = p" using par [OF x] True z by (simp add: parent_of_def)
    moreover have "node_value z = node_value y"
      using gs [OF x] tl [OF x] n1 z True by (cases "node_value z"; cases "node_value y")
        (auto simp: get_split_def tile_at_def value_of_def)
    moreover have "parent y = p" using entries_reparent(2) [OF xy d True] .
    ultimately have "z = y" by simp
    then show ?thesis using z by simp
  qed
qed

lemma planted_linked_holds:
  assumes P: "planted t t1 None [d]" and pm: "\<forall>x\<in>set (ids d). pending_modes t x = None"
    and K: "\<And>x. x \<in> set (ids d) \<Longrightarrow> contains_key t2 x" and par: "parent_of t2 = (parent_of t1)(old_id d := Some p)"
    and gs: "\<And>x. x \<in> set (ids d) \<Longrightarrow> get_split t2 x = get_split t1 x" and tl: "tile_at t2 = tile_at t1"
    and st: "pending_modes t2 = pending_modes t1"
  shows "holds t2 d"
proof -
  have n: "nodes t1 = nodes t ++ map_of (entries None d)" and d: "distinct (ids d)"
    and m: "pending_modes t1 = pending_modes t ++ map_of (modes d)"
    using P by (auto simp: planted_def)
  have "\<forall>(x, n)\<in>set (entries None d). nodes t1 x = Some n" using planted_nodes(1) [OF n d] by blast
  then have "\<forall>(x, n)\<in>set (entries (Some p) d). nodes t2 x = Some n"
    by (rule entries_relinked [OF _ d K]) (simp_all add: par gs tl)
  moreover have "parent_of t2 (old_id d) = Some p" using par by simp
  moreover have "pending_modes t2 x = map_of (modes d) x" if "x \<in> set (ids d)" for x
    using pm that m st by (cases "map_of (modes d) x") (simp_all add: map_add_def)
  ultimately show ?thesis by (auto simp: holds_def)
qed

lemma steps_kept:
  assumes F: "forest D E t" and P: "\<And>x. contains_key t x \<Longrightarrow> parent_of t' x = parent_of t x"
  shows "contains_key t x \<Longrightarrow> (x, y) \<in> steps t n \<Longrightarrow> (x, y) \<in> steps t' n"
proof (induction n arbitrary: x)
  case (Suc n)
  obtain z where z': "(x, z) \<in> up_edges (parent_of t)" "(z, y) \<in> steps t n"
    using relpow_Suc_D2 [OF Suc.prems(2)] by (elim exE conjE)
  then have z: "parent_of t x = Some z" "(z, y) \<in> steps t n" by simp_all
  have "contains_key t z" using forest_parentD [OF F z(1)] get_split_contains by metis
  then have "(z, y) \<in> steps t' n" using Suc.IH z(2) by blast
  moreover have "parent_of t' x = Some z" using P [OF Suc.prems(1)] z(1) by simp
  ultimately show ?case by (intro relpow_Suc_I2) auto
qed simp

lemma node_depth_kept:
  assumes F: "forest {} E t" and F1: "forest D' E' t'" and P: "\<And>x. contains_key t x \<Longrightarrow> parent_of t' x = parent_of t x"
    and p: "contains_key t p"
  shows "node_depth t' p = node_depth t p"
proof -
  have "(p, tree_root t) \<in> steps t' (node_depth t p)" using steps_kept [OF F P p] node_depth_root [OF F p] by blast
  moreover have "parent_of t' (tree_root t) = None"
    using P forest_root_parent [OF F] forest_root_split [OF F] get_split_contains by metis
  ultimately show ?thesis by (rule node_depth_eq [OF F1])
qed

lemma planted_depth:
  assumes F: "forest {} E t" and P: "planted t t1 None [d]" and F2: "forest {} {} t2"
    and par: "parent_of t2 = (parent_of t1)(old_id d := Some p)"
    and K: "\<And>x. contains_key t2 x \<longleftrightarrow> contains_key t x \<or> x \<in> set (ids d)"
    and p: "contains_key t p" and fits: "node_depth t p + plain_height d \<le> MAX_TREE_DEPTH" and ok: "depth_ok t"
  shows "depth_ok t2"
proof -
  have n: "nodes t1 = nodes t ++ map_of (entries None d)" and d: "distinct (ids d)"
    and fr: "\<forall>x\<in>set (ids d). \<not> contains_key t x"
    using P by (auto simp: planted_def)
  note rd = planted_reads [OF n d fr]
  define h where "h = (\<lambda>x. if x \<in> set (ids d) then Suc (node_depth t p) + depth_at d x else node_depth t x)"
  have pn: "p \<notin> set (ids d)" using p fr by blast
  have up: "Suc (h q) \<le> h x" if q: "parent_of t2 x = Some q" for x q
  proof (cases "x = old_id d")
    case True
    then show ?thesis using q par pn by (simp add: h_def)
  next
    case False
    then have q1: "parent_of t1 x = Some q" using q par by simp
    show ?thesis
    proof (cases "x \<in> set (ids d)")
      case True
      obtain y where y: "(x, y) \<in> set (entries None d)" using ids_have_entry [OF True] by blast
      have "parent y = Some q" using rd(2) [OF y] q1 by simp
      then show ?thesis
        using depth_at_parent [OF y False _ d] entries_parent [OF y False d] True entries_ids by (fastforce simp: h_def)
    next
      case xn: False
      then have q0: "parent_of t x = Some q" using q1 rd(4) by simp
      then have "contains_key t q" using forest_parentD [OF F q0] get_split_contains by metis
      then show ?thesis using xn fr node_depth_child [OF F q0] by (auto simp: h_def)
    qed
  qed
  have "h x \<le> MAX_TREE_DEPTH" if "contains_key t2 x" for x
  proof (cases "x \<in> set (ids d)")
    case True
    then show ?thesis using depth_at_height [OF True d] fits by (simp add: h_def)
  next
    case False
    then show ?thesis using that K ok by (auto simp: h_def depth_ok_def)
  qed
  then show ?thesis using depth_le_potential [of "{}" t2 h, OF F2 up] unfolding depth_ok_def by (meson le_trans)
qed

lemma reinsert_only_history: "\<exists>h. reinsert_focus_history t ws r = t\<lparr>focus_history := h\<rparr>"
proof -
  have "\<exists>h. fold f xs u = t\<lparr>focus_history := h\<rparr>"
    if "\<exists>h. u = t\<lparr>focus_history := h\<rparr>" and f: "f = (\<lambda>w t. case node_for_window t w of None \<Rightarrow> t
            | Some i \<Rightarrow> (let h = retain_ne i (focus_history t)
                        in t\<lparr>focus_history := insert_at (min r (length h)) i h\<rparr>))" for xs u f
    using that(1)
  proof (induction xs arbitrary: u)
    case (Cons w xs)
    then have "\<exists>h. f w u = t\<lparr>focus_history := h\<rparr>" by (auto simp: f Let_def split: option.split)
    then show ?case using Cons.IH by simp
  qed simp
  note run = this
  have "\<exists>h. t = t\<lparr>focus_history := h\<rparr>" by (rule exI [of _ "focus_history t"]) simp
  from run [OF this refl] show ?thesis unfolding reinsert_focus_history_def .
qed

lemma restore_transferred_focus_modes: "pending_modes (restore_transferred_focus t ws) = pending_modes t"
  using reinsert_only_history [of t ws "if focus t \<noteq> None then 1 else 0"]
  by (auto simp: restore_transferred_focus_def Let_def)

lemma holds_cong: "nodes t' = nodes t \<Longrightarrow> pending_modes t' = pending_modes t \<Longrightarrow> holds t' d = holds t d"
  using same_nodes_reads [of t' t] by (simp add: holds_def)

section \<open>Attaching below a node\<close>

text \<open>\<open>attached t d d' t'\<close>: the tree \<open>t'\<close> is \<open>t\<close> with \<open>d'\<close>, which is \<open>d\<close> up to identifiers, as one more subtree.\<close>

definition attached :: "tree \<Rightarrow> detached_node \<Rightarrow> detached_node \<Rightarrow> tree \<Rightarrow> bool" where
  "attached t d d' t' \<longleftrightarrow> erase d' = erase d \<and> inv t' \<and> holds t' d' \<and> distinct (ids d') \<and>
     (\<forall>x\<in>set (ids d'). \<not> contains_key t x) \<and>
     (\<forall>x. contains_key t' x \<longleftrightarrow> contains_key t x \<or> x \<in> set (ids d')) \<and>
     tile_at t' = tile_at t ++ map_of (leaf_entries d') \<and> tree_root t' = tree_root t"

lemma attach_slot_props:
  assumes F: "forest {} E t" and F1: "forest D {} t1" and r: "tree_root t1 = tree_root t"
    and same: "\<And>x. contains_key t x \<Longrightarrow> nodes t1 x = nodes t x" and tg: "\<And>i. target = Some i \<Longrightarrow> contains_key t i"
  shows "\<exists>l cs ps m. get_split t (fst (attach_slot t1 target)) = Some (l, cs, ps, m)"
proof -
  obtain l cs ps m where root: "get_split t (tree_root t) = Some (l, cs, ps, m)" using F by (rule forest_root_split)
  show ?thesis
  proof (cases target)
    case None
    then show ?thesis using root r by (auto simp: attach_slot_def)
  next
    case (Some i)
    have n: "nodes t1 i = nodes t i" using same [OF tg [OF Some]] .
    then have eq: "value_of t1 i = value_of t i" "parent_of t1 i = parent_of t i" by (simp_all add: value_of_def parent_of_def)
    show ?thesis
    proof (cases "value_of t i")
      case None
      then show ?thesis using tg [OF Some] by (simp add: value_of_def contains_key_def)
    next
      case v: (Some nv)
      show ?thesis
      proof (cases nv)
        case (Split l cs ps m)
        then show ?thesis using Some eq v by (auto simp: attach_slot_def get_split_def)
      next
        case (Leaf w)
        show ?thesis
        proof (cases "parent_of t i")
          case None
          then show ?thesis using Some eq v Leaf root r by (auto simp: attach_slot_def)
        next
          case p: (Some p)
          obtain l' cs' ps' m' where "get_split t p = Some (l', cs', ps', m')" using F p by (rule forest_parentD)
          then show ?thesis using p Some eq v Leaf by (auto simp: attach_slot_def)
        qed
      qed
    qed
  qed
qed

lemma unfocused_stale:
  assumes U: "unfocused t" and i: "contains_key t i"
  shows "unfocused (t\<lparr>ipc_stale_nodes := insert i (ipc_stale_nodes t)\<rparr>)"
proof -
  let ?u = "t\<lparr>ipc_stale_nodes := insert i (ipc_stale_nodes t)\<rparr>"
  have W: "wft {} {} t" using U by (simp add: unfocused_def)
  note rd = same_nodes_reads [of ?u t]
  have "side_ok ?u" using wfD(2) [OF W] i rd by (simp add: side_ok_def)
  moreover have "modes_ok ?u" using wfD(3) [OF W] rd by (simp add: modes_ok_def fullscreen_mode_def)
  ultimately have "wft {} {} ?u" by (intro wft_tables [OF W]) simp_all
  then show ?thesis using U rd by (simp add: unfocused_def focus_in_def)
qed

lemma unfocused_same_core: "same_core t t' \<Longrightarrow> unfocused t' \<longleftrightarrow> unfocused t"
  using same_core_wft [of t t'] same_nodes_reads [of t' t]
  by (simp add: unfocused_def focus_in_def) (simp add: same_core_def)

lemma same_erase:
  assumes "erase d' = erase d"
  shows "detached_ok d' = detached_ok d" "plain_height d' = plain_height d" "one_fullscreen d' = one_fullscreen d"
    "has_fullscreen d' = has_fullscreen d" "detached_tiles d' = detached_tiles d"
  using assms erase_same [of d] erase_same [of d'] by (simp_all add: one_fullscreen_def has_fullscreen_iff)

lemma link_detached:
  fixes after :: "nid option"
  assumes I: "inv t" and P: "planted t t1 None [d]" and ok: "detached_ok d" "one_fullscreen d"
    and fs: "has_fullscreen d \<longrightarrow> (\<forall>j. fullscreen_mode t j = None)"
    and p: "get_split t p = Some (l, cs, ps, m)"
  defines "t2 \<equiv> insert_child t1 p (old_id d) after"
  shows "holds t2 d"
    "node_depth t p + plain_height d \<le> MAX_TREE_DEPTH \<Longrightarrow> depth_ok t \<Longrightarrow> depth_ok t2"
proof -
  note L = planted_linked_below [OF I P ok fs p, where after = after, folded t2_def]
  have F: "forest {} {} t" and S: "side_ok t" using I by (auto dest: invD)
  have F2: "forest {} {} t2" using L(1) by (simp add: unfocused_def wft_def)
  have pK: "contains_key t p" using p by (rule get_split_contains)
  have fr: "\<forall>x\<in>set (ids d). \<not> contains_key t x" using P by (simp add: planted_def)
  then have np: "x \<noteq> p" if "x \<in> set (ids d)" for x using that pK by blast
  have pm: "\<forall>x\<in>set (ids d). pending_modes t x = None" using fr side_okD(3) [OF S] by (metis not_None_eq)
  show "holds t2 d" using L(4,8) np by (intro planted_linked_holds [OF P pm _ L(5) _ L(9,10)]) simp_all
  show "node_depth t p + plain_height d \<le> MAX_TREE_DEPTH \<Longrightarrow> depth_ok t \<Longrightarrow> depth_ok t2"
    using planted_depth [OF F P F2 L(5) L(4) pK] by blast
qed

lemma attach_under_attached:
  assumes I: "inv t" and lt: "\<forall>x\<in>set (ids d). x < next_id t" and ok: "detached_ok d" "one_fullscreen d"
    and fs: "has_fullscreen d \<longrightarrow> (\<forall>j. fullscreen_mode t j = None)"
    and tg: "\<And>i. target = Some i \<Longrightarrow> contains_key t i"
    and r: "attach_under t d ws wrapped target = (t', i, rm)"
  shows "\<exists>d'. attached t d d' t' \<and> i = old_id d' \<and> (free_ids t [d] \<longrightarrow> d' = d \<and> rm = []) \<and>
    (depth_ok t \<and> plain_height d \<le> MAX_TREE_DEPTH \<longrightarrow> depth_ok t')"
proof -
  have W: "wft {} {} t" and F: "forest {} {} t" using I by (auto dest: invD)
  have "bounded t" using F by (auto simp: bounded_def intro: forest_bound)
  obtain t1 i1 rm1 where ins: "insert_detached_node t d None = (t1, i1, rm1)" by (rule prod_cases3)
  from insert_detached_plants(1) [OF \<open>bounded t\<close> lt, of None] obtain d' where d': "erase d' = erase d" "i1 = old_id d'"
      and P: "planted t t1 None [d']" and fresh: "free_ids t [d] \<longrightarrow> d' = d \<and> rm1 = []"
    unfolding ins by auto
  note e = same_erase [OF d'(1)]
  have ok': "detached_ok d'" "one_fullscreen d'" "has_fullscreen d' \<longrightarrow> (\<forall>j. fullscreen_mode t j = None)"
    using ok fs e by simp_all
  have n: "nodes t1 = nodes t ++ map_of (entries None d')" and dis: "distinct (ids d')"
    and fr: "\<forall>x\<in>set (ids d'). \<not> contains_key t x" and rs: "rest t1 = rest t"
    using P by (auto simp: planted_def)
  have root: "tree_root t1 = tree_root t" using arg_cong [OF rs, of tree_root] by (simp add: rest_def)
  have F1: "forest {old_id d'} {} t1" using planted_forest [OF F P ok'(1)] by simp
  have same: "nodes t1 x = nodes t x" if "contains_key t x" for x
    using planted_nodes(2) [OF n dis] fr that by blast
  define slot where "slot = (if fits_below t1 (fst (attach_slot t1 target)) (detached_height d) then attach_slot t1 target
      else (tree_root t1, None))"
  obtain l cs ps m where p: "get_split t (fst slot) = Some (l, cs, ps, m)"
  proof (cases "slot = attach_slot t1 target")
    case True
    then show ?thesis using attach_slot_props [OF F F1 root same, of target] tg that by auto
  next
    case False
    then have "fst slot = tree_root t" using root by (simp add: slot_def split: if_splits)
    then show ?thesis using forest_root_split [OF F] that by metis
  qed
  have pK: "contains_key t (fst slot)" using p by (rule get_split_contains)
  have par: "parent_of t1 x = parent_of t x" if "contains_key t x" for x using same [OF that] by (simp add: parent_of_def)
  have fits: "node_depth t (fst slot) + plain_height d' \<le> MAX_TREE_DEPTH" if "plain_height d \<le> MAX_TREE_DEPTH"
  proof (cases "fits_below t1 (fst (attach_slot t1 target)) (detached_height d)")
    case True
    then show ?thesis using node_depth_kept [OF F F1 par pK] e(2)
      by (simp add: fits_below_def slot_def detached_height_eq)
  next
    case False
    have "node_depth t (tree_root t) = 0" using node_depth_eq [OF F, of "tree_root t" "tree_root t" 0] forest_root_parent [OF F] by simp
    then show ?thesis using False that root e(2) by (simp add: slot_def)
  qed
  define t2 where "t2 = insert_child t1 (fst slot) (old_id d') (snd slot)"
  note L = planted_linked_below [OF I P ok' p, where after = "snd slot", folded t2_def]
  note H = link_detached [OF I P ok' p, where after = "snd slot", folded t2_def]
  define t3 where "t3 = (if (case fullscreen_node t2 of Some f \<Rightarrow> contains_node t2 i1 f | None \<Rightarrow> False)
                then t2\<lparr>fullscreen_arrived := True\<rparr> else t2)"
  define t4 where "t4 = (if wrapped then t3\<lparr>ipc_stale_nodes := insert i1 (ipc_stale_nodes t3)\<rparr> else t3)"
  define t5 where "t5 = restore_transferred_focus t4 ws"
  have slot: "(case attach_slot t1 target of (p, after) \<Rightarrow>
      if fits_below t1 p (detached_height d) then (p, after) else (tree_root t1, None)) = slot"
    by (simp add: slot_def case_prod_beta)
  have "attach_under t d ws wrapped target =
      (request_window_sizes (if focus t5 = None then set_focus_id t5 (focused_leaf_in t5 i1) else t5), i1, rm1)"
    unfolding t5_def t4_def t3_def t2_def d'(2) [symmetric] attach_under_def Let_def ins prod.case slot
    by (cases slot) (simp only: prod.case fst_conv snd_conv)
  then have t': "t' = request_window_sizes (if focus t5 = None then set_focus_id t5 (focused_leaf_in t5 i1) else t5)"
      "i = i1" "rm = rm1" using r by simp_all
  have s3: "same_core t2 t3" by (simp add: t3_def) (simp add: same_core_def)
  have n4: "nodes t4 = nodes t2" "pending_modes t4 = pending_modes t2" "next_id t4 = next_id t2" "tree_root t4 = tree_root t2"
    by (simp_all add: t4_def t3_def)
  have iK: "contains_key t2 i1" using L(4) d'(2) by simp
  have "unfocused t3" using unfocused_same_core [OF s3] L(1) by simp
  then have U4: "unfocused t4"
    using unfocused_stale [of t3 i1] iK same_nodes_reads(1) [of t3 t2] by (simp add: t4_def) (simp add: t3_def)
  note R = restore_transferred_focus_inv [OF U4, of ws, folded t5_def]
  have n5: "nodes t5 = nodes t2" "tree_root t5 = tree_root t" "next_id t5 = next_id t2" "pending_modes t5 = pending_modes t2"
    using R n4 L(3) restore_transferred_focus_modes [of t4 ws] by (simp_all add: t5_def)
  note rd = same_nodes_reads [OF n5(1)]
  have "focus t5 \<noteq> None" using R(1) L(6) rd(5) by (simp add: inv_def)
  then have t': "t' = log_call t5 (RequestWindowSizes False False)" "i = i1" "rm = rm1" using t' by (auto simp: calls_are_log)
  note rl = same_nodes_reads [of t' t5]
  have "attached t d d' t'"
    using d'(1) R(1) H(1) holds_cong [of t' t2 d'] dis fr n5 L(2,4) rd rl by (simp add: attached_def t'(1))
  moreover have "depth_ok t' = depth_ok t2" using n5 rd by (simp add: t'(1)) (rule depth_ok_cong, simp_all)
  ultimately show ?thesis using d'(2) fresh H(2) fits t' by blast
qed

section \<open>Attaching to an empty tree\<close>

lemma root_planted:
  fixes ps :: "real list"
  assumes n: "nodes t = [r \<mapsto> \<lparr>parent = None, node_value = Split l0 [] ps0 m0\<rparr>]"
    and P: "planted (restore_mode (set_value t r (Split l [] ps0 m)) r pm) t2 (Some r) ds" and b: "r < next_id t"
  defines "t3 \<equiv> set_value t2 r (Split l (map old_id ds) ps m)" and "d \<equiv> DSplit r l ds ps m pm"
  shows "get_split t2 r = Some (l, [], ps0, m)" "nodes t3 = map_of (entries None d)"
    "pending_modes t3 = pending_modes t ++ map_of (modes d)"
    "mapped_under_fullscreen t3 = mapped_under_fullscreen t \<union> mapped_ids d" "rest t3 = rest t"
    "distinct (ids d)" "\<forall>x\<in>set (ids d). x < next_id t3"
proof -
  define t1 where "t1 = restore_mode (set_value t r (Split l [] ps0 m)) r pm"
  have n1: "nodes t1 = [r \<mapsto> \<lparr>parent = None, node_value = Split l [] ps0 m\<rparr>]"
    using n by (cases pm) (simp_all add: t1_def restore_mode_def set_value_def)
  have o1: "pending_modes t1 = pending_modes t ++ map_of (own_mode r pm)"
      "mapped_under_fullscreen t1 = mapped_under_fullscreen t" "rest t1 = rest t" "next_id t1 = next_id t"
    by (cases pm; simp add: t1_def restore_mode_def set_value_def rest_def)+
  have P: "planted t1 t2 (Some r) ds" using P by (simp add: t1_def)
  have fr: "r \<notin> set (concat (map ids ds))" using P n1 unfolding planted_def contains_key_def by fastforce
  let ?B = "concat (map (entries (Some r)) ds)"
  have n2: "nodes t2 = [r \<mapsto> \<lparr>parent = None, node_value = Split l [] ps0 m\<rparr>] ++ map_of ?B"
    using P n1 by (simp add: planted_def)
  have Br: "map_of ?B r = None" using dom_entries [of "Some r" ds] fr by (metis domIff)
  then have nr: "nodes t2 r = Some \<lparr>parent = None, node_value = Split l [] ps0 m\<rparr>" by (simp add: n2 map_add_def)
  then show "get_split t2 r = Some (l, [], ps0, m)" by (simp add: get_split_def value_of_def)
  show "nodes t3 = map_of (entries None d)"
    using Br by (auto simp: t3_def d_def fun_eq_iff nr) (simp_all add: n2 map_add_def split: option.split)
  have Mr: "map_of (concat (map modes ds)) r = None" using fr dom_modes [of ds] by (meson domIff subsetD)
  have "pending_modes t3 = pending_modes t1 ++ map_of (concat (map modes ds))"
    using P by (simp add: planted_def t3_def set_value_def)
  then show "pending_modes t3 = pending_modes t ++ map_of (modes d)"
    using Mr by (cases pm) (auto simp: o1 d_def fun_eq_iff map_add_def split: option.split)
  show "mapped_under_fullscreen t3 = mapped_under_fullscreen t \<union> mapped_ids d"
    using P by (simp add: planted_def t3_def set_value_def o1 d_def)
  show "rest t3 = rest t" using P o1 by (simp add: planted_def t3_def set_value_def rest_def)
  show "distinct (ids d)" using P fr by (simp add: planted_def d_def)
  have "next_id t3 = next_id t2" by (simp add: t3_def)
  then show "\<forall>x\<in>set (ids d). x < next_id t3" using P b o1(4) by (auto simp: planted_def d_def)
qed

lemma only_root:
  assumes I: "inv t" and e: "is_empty t"
  obtains l m where "nodes t = [tree_root t \<mapsto> \<lparr>parent = None, node_value = Split l [] [] m\<rparr>]"
proof -
  have F: "forest {} {} t" using I by (rule invD)
  obtain l cs ps m where s: "get_split t (tree_root t) = Some (l, cs, ps, m)" using F by (rule forest_root_split)
  have "cs = []" using e s invD(3) [OF I] no_leaves_iff [OF F] by (simp add: is_empty_def children_of_def)
  moreover have "ps = []" using forest_splitD(3) [OF F s] calculation by simp
  ultimately have s: "get_split t (tree_root t) = Some (l, [], [], m)" using s by simp
  have "x = tree_root t" if "contains_key t x" for x
  proof -
    have "x \<in> under t (tree_root t)" using below_root [OF F that] by (simp add: under_def)
    then show ?thesis using under_split [OF F s] by simp
  qed
  then have "nodes t x = None" if "x \<noteq> tree_root t" for x using that unfolding contains_key_def by blast
  moreover obtain y where "nodes t (tree_root t) = Some y" "node_value y = Split l [] [] m"
    using s by (auto simp: get_split_eq_Some)
  moreover have "parent y = None" using forest_root_parent [OF F] calculation(2) by (simp add: parent_of_def)
  ultimately have "nodes t = [tree_root t \<mapsto> \<lparr>parent = None, node_value = Split l [] [] m\<rparr>]" by (auto simp: fun_eq_iff)
  then show ?thesis using that by blast
qed

lemma whole_depth:
  assumes n: "nodes t' = map_of (entries None d)" and d: "distinct (ids d)" and F: "forest {} {} t'"
    and h: "plain_height d \<le> Suc MAX_TREE_DEPTH"
  shows "depth_ok t'"
proof -
  have nd: "nodes t' x = Some y" if "(x, y) \<in> set (entries None d)" for x y
    using that d n by (simp add: ids_entries)
  have ids: "x \<in> set (ids d)" if "contains_key t' x" for x
    using that n ids_entries [of None d] by (metis contains_key_def map_of_eq_None_iff list.set_map)
  have "Suc (depth_at d q) \<le> depth_at d x" if q: "parent_of t' x = Some q" for x q
  proof -
    have "x \<in> set (ids d)" using ids parent_of_contains [OF q] by blast
    then obtain y where y: "(x, y) \<in> set (entries None d)" using ids_have_entry by blast
    have p: "parent y = Some q" using q nd [OF y] by (simp add: parent_of_def)
    then have "x \<noteq> old_id d" using entries_old_id [OF _ d] y by fastforce
    from depth_at_parent [OF y this p d] show ?thesis by simp
  qed
  then have "node_depth t' x \<le> depth_at d x" if "contains_key t' x" for x using depth_le_potential [OF F] that by blast
  then show ?thesis using depth_at_height [OF ids d] h unfolding depth_ok_def
    by (meson Suc_leI Suc_le_mono le_trans)
qed

lemma whole_tiles:
  assumes "nodes t' = map_of (entries None d)" "distinct (ids d)"
  shows "tile_at t' = map_of (leaf_entries d)"
proof -
  let ?b = "t'\<lparr>nodes := \<lambda>_. None\<rparr>"
  have "tile_at t' = tile_at ?b ++ map_of (leaf_entries d)"
    by (rule planted_tiles [where p = None]) (use assms in \<open>simp_all add: fun_eq_iff map_add_def contains_key_def split: option.split\<close>)
  moreover have "tile_at ?b = (\<lambda>_. None)" by (simp add: fun_eq_iff tile_at_def value_of_def)
  ultimately show ?thesis by (simp add: fun_eq_iff map_add_def split: option.split)
qed

lemma whole_unfocused:
  assumes n: "nodes t' = map_of (entries None d)" and d: "distinct (ids d)" "\<forall>x\<in>set (ids d). x < next_id t'"
    and t: "nodes t = [old_id d \<mapsto> \<lparr>parent = None, node_value = Split lr [] [] mr\<rparr>]" "tree_root t = old_id d"
    and S: "side_ok t" "modes_ok t" and ok: "detached_ok d" "one_fullscreen d"
    and fs: "has_fullscreen d \<longrightarrow> (\<forall>j. fullscreen_mode t j = None)"
    and pm: "pending_modes t' = pending_modes t ++ map_of (modes d)"
    and mp: "mapped_under_fullscreen t' = mapped_under_fullscreen t \<union> mapped_ids d" and rs: "rest t' = rest t"
    and f: "focus t = None" "\<not> panicked t" and sp: "is_split t' (old_id d)"
  shows "unfocused t'"
proof -
  have r: "tree_root t' = old_id d" "focus t' = None" "\<not> panicked t'"
    using arg_cong [OF rs, of tree_root] arg_cong [OF rs, of focus] arg_cong [OF rs, of panicked] t(2) f
    by (simp_all add: rest_def)
  have K: "contains_key t' x" if "contains_key t x \<or> x \<in> set (ids d)" for x
  proof -
    have "x \<in> set (ids d)" using that t(1) by (auto simp: contains_key_def split: if_splits)
    then obtain y where "(x, y) \<in> set (entries None d)" using ids_have_entry by blast
    then have "nodes t' x = Some y" using d(1) n by (simp add: ids_entries)
    then show ?thesis by (simp add: contains_key_def)
  qed
  have "tile_at t x = None" for x using t(1) by (simp add: tile_at_def value_of_def)
  then have "is_leaf t' x" if "is_leaf t x \<or> x \<in> fst ` set (leaf_entries d)" for x
    using that whole_tiles [OF n d(1)] by (cases "map_of (leaf_entries d) x") (auto simp: map_of_eq_None_iff)
  from planted_side_tables [OF S ok fs K this pm mp rs] planted_whole_forest [OF n d ok(1) r(1) sp]
  show ?thesis using r by (simp add: unfocused_def wft_def focus_in_def)
qed

lemma attach_split_to_empty_root_attached:
  assumes I: "inv t" and e: "is_empty t" and lt: "\<forall>x\<in>set (ids d). x < next_id t"
    and s: "into_split d = Inr s" and ok: "detached_ok d" "one_fullscreen d"
    and fs: "has_fullscreen d \<longrightarrow> (\<forall>j. fullscreen_mode t j = None)"
    and r: "attach_split_to_empty_root t s ws = (t', rm)"
  shows "\<exists>d'. inv t' \<and> tree_root t' = tree_root t \<and> old_id d' = tree_root t \<and> distinct (ids d') \<and>
    nodes t' = map_of (entries None d') \<and> detached_tiles d' = detached_tiles d \<and> plain_height d' = plain_height d"
proof -
  obtain i l ds ps m pm where d: "d = DSplit i l ds ps m pm" and s: "s = \<lparr>ds_old_id = i, ds_layout = l, ds_children = ds,
      ds_percents = ps, ds_meta = m, ds_pending_mode = pm\<rparr>" using s by (cases d) auto
  have F: "forest {} {} t" and S: "side_ok t" "modes_ok t" using I by (auto dest: invD)
  define rt where "rt = tree_root t"
  obtain l0 m0 where n: "nodes t = [rt \<mapsto> \<lparr>parent = None, node_value = Split l0 [] [] m0\<rparr>]"
    using only_root [OF I e] unfolding rt_def by blast
  have g: "get_split t rt = Some (l0, [], [], m0)" using n by (simp add: get_split_eq_Some)
  define m' where "m' = merge_meta m0 m"
  define t1 where "t1 = restore_mode (set_value t rt (Split l [] [] m')) rt pm"
  have n1: "nodes t1 = [rt \<mapsto> \<lparr>parent = None, node_value = Split l [] [] m'\<rparr>]" "next_id t1 = next_id t"
    using n by (cases pm; simp add: t1_def restore_mode_def set_value_def)+
  have rb: "rt < next_id t" unfolding rt_def by (rule forest_bound [OF F]) (use g in \<open>simp add: rt_def get_split_contains\<close>)
  have "bounded t1" using n1 rb by (auto simp: bounded_def contains_key_def split: if_splits)
  from insert_detached_plants(2) [OF this, of ds "Some rt"] obtain ds' where
      ds': "map erase ds' = map erase ds" "map old_id ds' = fst (snd (insert_detached_nodes t1 ds (Some rt)))"
      "planted t1 (fst (insert_detached_nodes t1 ds (Some rt))) (Some rt) ds'"
    using lt d n1(2) by auto
  define d' where "d' = DSplit rt l ds' ps m' pm"
  define t3 where "t3 = set_value (fst (insert_detached_nodes t1 ds (Some rt))) rt (Split l (map old_id ds') ps m')"
  note rs = root_planted(1) [OF n ds'(3) [unfolded t1_def] rb, folded t1_def]
  note rp = root_planted(2-7) [OF n ds'(3) [unfolded t1_def] rb, where ps = ps, folded t1_def d'_def t3_def]
  have "erase (DSplit i l ds' ps m pm) = erase d" using ds'(1) by (simp add: d)
  note se = same_erase [OF this]
  have sm: "map snd (modes d') = map snd (modes (DSplit i l ds' ps m pm))" by (cases pm) (simp_all add: d'_def)
  then have d'_ok: "detached_ok d'" "one_fullscreen d'" "has_fullscreen d' \<longrightarrow> (\<forall>j. fullscreen_mode t j = None)"
      "detached_tiles d' = detached_tiles d" "plain_height d' = plain_height d" "old_id d' = rt"
    using se ok fs unfolding one_fullscreen_def has_fullscreen_iff by (simp_all add: d'_def)
  have "get_split t3 rt = Some (l, map old_id ds', ps, m')"
    using rs by (auto simp: t3_def get_split_eq_Some set_value_def)
  then have "is_split t3 (old_id d')" using d'_ok(6) by (simp add: is_split_def)
  then have "unfocused t3"
    using n rp S d'_ok e invD(1) [OF I]
    by (intro whole_unfocused [where t = t and d = d' and lr = l0 and mr = m0]) (simp_all add: rt_def is_empty_def wft_def)
  then have U: "unfocused (t3\<lparr>has_had_tile := True\<rparr>)" using unfocused_same_core [OF same_core_flags(4)] by blast
  have "t' = request_window_sizes (restore_transferred_focus (t3\<lparr>has_had_tile := True\<rparr>) ws)"
    using r g rs ds'(2) unfolding attach_split_to_empty_root_def s
    by (simp add: Let_def rt_def [symmetric] case_prod_beta m'_def [symmetric] t1_def [symmetric] t3_def)
  moreover have "tree_root t3 = rt" using arg_cong [OF rp(4), of tree_root] by (simp add: rest_def rt_def)
  ultimately show ?thesis
    using restore_transferred_focus_inv [OF U, of ws] rp(1,5) d'_ok(4-6)
    by (intro exI [of _ d']) (simp add: calls_are_log rt_def)
qed

section \<open>Attaching\<close>

text \<open>The receiving tree first leaves fullscreen if the subtree brings a fullscreen node.\<close>

definition make_room :: "tree \<Rightarrow> detached_node \<Rightarrow> tree" where
  "make_room t d = (if has_fullscreen d
     then (case fullscreen_node t of Some current \<Rightarrow> fst (replace_fullscreen_state t current None) | None \<Rightarrow> t) else t)"

lemma make_room_props:
  assumes I: "inv t"
  shows "lawful t (make_room t d)" "nodes (make_room t d) = nodes t"
    "has_fullscreen d \<longrightarrow> (\<forall>j. fullscreen_mode (make_room t d) j = None)"
proof -
  have W: "wft {} {} t" using I by (rule invD)
  show "lawful t (make_room t d)" "nodes (make_room t d) = nodes t"
    using lawful_replace_fullscreen [OF I] replace_fullscreen_nodes [OF I] lawful_refl [OF I]
    by (simp_all add: make_room_def split: option.split)
  show "has_fullscreen d \<longrightarrow> (\<forall>j. fullscreen_mode (make_room t d) j = None)"
  proof
    assume h: "has_fullscreen d"
    show "\<forall>j. fullscreen_mode (make_room t d) j = None"
    proof (cases "fullscreen_node t")
      case None
      then show ?thesis using h fullscreen_node_None [OF W] by (simp add: make_room_def)
    next
      case (Some c)
      have "contains_key t c" "fullscreen_mode t c \<noteq> None"
        using fullscreen_node_contains [OF W Some] fullscreen_node_Some [OF Some] by simp_all
      then have "snd (replace_fullscreen_state t c None)" using Some by (simp add: replace_fullscreen_state_def Let_def)
      from replace_fullscreen_mode [OF I this] show ?thesis using h Some by (simp add: make_room_def)
    qed
  qed
qed

text \<open>What the receiving tree gains: one new leaf per window of the subtree, in order.\<close>

definition receives :: "(nid \<Rightarrow> tile option) \<Rightarrow> tile list \<Rightarrow> tree \<Rightarrow> bool" where
  "receives tiles ws t' \<longleftrightarrow> (\<exists>ls. map snd ls = ws \<and> distinct (map fst ls) \<and> (\<forall>x\<in>fst ` set ls. tiles x = None) \<and>
     tile_at t' = tiles ++ map_of ls)"

lemma attached_receives:
  assumes "attached t d d' t'"
  shows "receives (tile_at t) (detached_tiles d) t'"
proof -
  have a: "erase d' = erase d" "distinct (ids d')" "tile_at t' = tile_at t ++ map_of (leaf_entries d')"
      "\<forall>x\<in>set (ids d'). \<not> contains_key t x"
    using assms by (auto simp: attached_def)
  have "tile_at t x = None" if "x \<in> set (ids d')" for x using a(4) that tile_at_contains by (cases "tile_at t x") auto
  then show ?thesis unfolding receives_def
    using erase_leaf_tiles [of d'] same_erase(5) [OF a(1)] leaf_ids [of d'] distinct_leaf_ids [OF a(2)] a(3)
    by (intro exI [of _ "leaf_entries d'"]) auto
qed

lemma attach_subtree_with_eq:
  "attach_subtree_with t sub target unwrap =
     (let u = make_room t (dt_node sub) in
      if is_empty u \<and> unwrap
      then (case into_split (dt_node sub) of
              Inr s \<Rightarrow> (let (t1, remapped) = attach_split_to_empty_root u s (dt_focus_history sub) in (t1, tree_root t1, remapped))
            | Inl d \<Rightarrow> attach_under u d (dt_focus_history sub) (dt_wrapped_workspace sub) target)
      else attach_under u (dt_node sub) (dt_focus_history sub) (dt_wrapped_workspace sub) target)"
  by (simp add: attach_subtree_with_def make_room_def Let_def)

lemma into_split_Inl: "into_split d = Inl d' \<Longrightarrow> d' = d"
  by (cases d) auto

theorem attach_subtree_with_receives:
  assumes I: "inv t" and lt: "\<forall>x\<in>set (ids (dt_node sub)). x < next_id t"
    and ok: "detached_ok (dt_node sub)" "one_fullscreen (dt_node sub)"
    and tg: "\<And>i. target = Some i \<Longrightarrow> contains_key t i"
    and r: "attach_subtree_with t sub target unwrap = (t', i, rm)"
  shows "inv t'" "receives (tile_at t) (detached_tiles (dt_node sub)) t'"
    "depth_ok t \<Longrightarrow> plain_height (dt_node sub) \<le> MAX_TREE_DEPTH \<Longrightarrow> depth_ok t'"
    "\<not> (is_empty t \<and> unwrap) \<Longrightarrow> \<exists>d'. attached t (dt_node sub) d' t' \<and> i = old_id d' \<and>
       (free_ids t [dt_node sub] \<longrightarrow> d' = dt_node sub \<and> rm = [])"
proof -
  define d where "d = dt_node sub"
  define u where "u = make_room t d"
  note mr = make_room_props [OF I, of d, folded u_def]
  have Iu: "inv u" and st: "steady t u" using mr(1) by (auto simp: lawful_def)
  have ltu: "\<forall>x\<in>set (ids d). x < next_id u" using lt st by (auto simp: d_def steady_def dest: order.strict_trans2)
  note rd = same_nodes_reads [OF mr(2)]
  have fu: "free_ids u = free_ids t" using rd(1) by (simp add: fun_eq_iff free_ids_def)
  have em: "is_empty u = is_empty t" using st by (simp add: steady_def is_empty_def)
  have tgu: "target = Some i \<Longrightarrow> contains_key u i" for i using tg rd(1) by simp
  note okd = ok [folded d_def]
  have at: "attached t d d' t' = attached u d d' t'" for d' using rd st by (simp add: attached_def steady_def)
  have under: "inv t' \<and> receives (tile_at t) (detached_tiles d) t' \<and>
      (depth_ok t \<and> plain_height d \<le> MAX_TREE_DEPTH \<longrightarrow> depth_ok t') \<and>
      (\<exists>d'. attached t d d' t' \<and> i = old_id d' \<and> (free_ids t [d] \<longrightarrow> d' = d \<and> rm = []))"
    if un: "attach_under u d (dt_focus_history sub) (dt_wrapped_workspace sub) target = (t', i, rm)"
  proof -
    obtain d' where d': "attached u d d' t'" "i = old_id d'" "free_ids u [d] \<longrightarrow> d' = d \<and> rm = []"
        "depth_ok u \<and> plain_height d \<le> MAX_TREE_DEPTH \<longrightarrow> depth_ok t'"
      using attach_under_attached [OF Iu ltu okd mr(3) tgu un] by blast
    have "inv t'" using d'(1) by (simp add: attached_def)
    moreover have "receives (tile_at t) (detached_tiles d) t'" using attached_receives d'(1) at by blast
    ultimately show ?thesis using d' at fu mr(1) by (auto simp: lawful_def)
  qed
  have root: "inv t' \<and> receives (tile_at t) (detached_tiles d) t' \<and> (plain_height d \<le> MAX_TREE_DEPTH \<longrightarrow> depth_ok t')"
    if s: "is_empty u" "into_split d = Inr s" "attach_split_to_empty_root u s (dt_focus_history sub) = (t', rm)" for s
  proof -
    obtain d' where d': "inv t'" "distinct (ids d')" "nodes t' = map_of (entries None d')"
        "detached_tiles d' = detached_tiles d" "plain_height d' = plain_height d"
      using attach_split_to_empty_root_attached [OF Iu s(1) ltu s(2) okd mr(3) s(3)] by blast
    have "leaves t = {}" using invD(3) [OF I] s(1) em by (simp add: is_empty_def)
    then have t0: "tile_at t = (\<lambda>_. None)" by (auto simp: leaves_def fun_eq_iff)
    moreover have "tile_at t' = map_of (leaf_entries d')" using whole_tiles d' by blast
    ultimately have "receives (tile_at t) (detached_tiles d) t'" unfolding receives_def
      using erase_leaf_tiles [of d'] d'(4) distinct_leaf_ids [OF d'(2)] by (intro exI [of _ "leaf_entries d'"]) simp
    moreover have "plain_height d \<le> MAX_TREE_DEPTH \<longrightarrow> depth_ok t'"
      using whole_depth [OF d'(3,2) invD(4) [OF d'(1)]] d'(5) by simp
    ultimately show ?thesis using d'(1) by blast
  qed
  have all: "inv t' \<and> receives (tile_at t) (detached_tiles d) t' \<and> (depth_ok t \<and> plain_height d \<le> MAX_TREE_DEPTH \<longrightarrow> depth_ok t') \<and>
      (\<not> (is_empty t \<and> unwrap) \<longrightarrow> (\<exists>d'. attached t d d' t' \<and> i = old_id d' \<and> (free_ids t [d] \<longrightarrow> d' = d \<and> rm = [])))"
  proof (cases "is_empty u \<and> unwrap")
    case False
    then have "attach_under u d (dt_focus_history sub) (dt_wrapped_workspace sub) target = (t', i, rm)"
      using r unfolding attach_subtree_with_eq d_def [symmetric] u_def [symmetric] Let_def
      by (simp only: if_False)
    from under [OF this] show ?thesis by blast
  next
    case True
    show ?thesis
    proof (cases "into_split d")
      case (Inl e)
      have "e = d" using Inl by (rule into_split_Inl)
      then have "attach_under u d (dt_focus_history sub) (dt_wrapped_workspace sub) target = (t', i, rm)"
        using r True Inl unfolding attach_subtree_with_eq d_def [symmetric] u_def [symmetric] Let_def by simp
      from under [OF this] show ?thesis by blast
    next
      case (Inr s)
      then have "attach_split_to_empty_root u s (dt_focus_history sub) = (t', rm)"
        using r True unfolding attach_subtree_with_eq d_def [symmetric] u_def [symmetric] Let_def
        by (auto simp: case_prod_beta)
      from root [OF _ Inr this] True show ?thesis using em by blast
    qed
  qed
  then show "inv t'" "receives (tile_at t) (detached_tiles (dt_node sub)) t'"
    "depth_ok t \<Longrightarrow> plain_height (dt_node sub) \<le> MAX_TREE_DEPTH \<Longrightarrow> depth_ok t'"
    "\<not> (is_empty t \<and> unwrap) \<Longrightarrow> \<exists>d'. attached t (dt_node sub) d' t' \<and> i = old_id d' \<and>
       (free_ids t [dt_node sub] \<longrightarrow> d' = dt_node sub \<and> rm = [])"
    by (auto simp: d_def)
qed

end
