(* ===== verification/Detach_Laws.thy ===== *)
theory Detach_Laws
  imports Attach_Laws
begin

text \<open>
  Detaching a subtree, or the whole content of a workspace, from a well-formed tree: the detached
  value is exactly what the tree held (\<open>stored\<close>), the tree loses exactly that, and it is well formed
  after the emptied containers are reaped. A search of \<^verbatim>\<open>focus_inactive_in\<close> finds nothing, so the
  focus after a detach is always the leaf the root shows.
\<close>

section \<open>Detaching\<close>

text \<open>\<^verbatim>\<open>focus_inactive_in\<close> excludes the node whose inside it searches, so it never finds an entry.\<close>

lemma focus_inactive_in_None: "focus_inactive_in t i = None"
  by (auto simp: focus_inactive_in_def focus_inactive_in_excluding_def find_None_iff)

lemma transfer_focus_target_None: "transfer_focus_target t None p = None"
  by (simp add: transfer_focus_target_def focus_inactive_in_None or_else_def Let_def split: option.split)

lemma finish_subtree_detach_eq:
  "finish_subtree_detach t p =
     (let u = compact_tree (case p of Some q \<Rightarrow> reap_empty_from t q | None \<Rightarrow> t)
      in request_window_sizes (u\<lparr>focus := focused_leaf_in u (tree_root u)\<rparr>))"
  by (simp add: finish_subtree_detach_def transfer_focus_target_None resolve_transfer_focus_def Let_def)

text \<open>A detached subtree can be removed as a whole.\<close>

lemma under_parent: "parent_of t c = Some p \<Longrightarrow> c \<in> under t i \<longleftrightarrow> c = i \<or> p \<in> under t i"
  unfolding under_def mem_Collect_eq
  by (metis converse_rtranclE converse_rtrancl_into_rtrancl option.inject rtrancl.rtrancl_refl up_edges_iff)

lemma under_keys: "contains_key t i \<Longrightarrow> j \<in> under t i \<Longrightarrow> contains_key t j"
  unfolding under_def mem_Collect_eq by (erule converse_rtranclE) (auto intro: parent_of_contains)

lemma remove_subtree_forest:
  assumes F: "forest {i} E t" and rs: "distinct rs" "set rs = under t i"
  shows "forest {} E (remove_all rs t)"
proof -
  have iK: "contains_key t i" "parent_of t i = None" using forest_detached [OF F] by simp_all
  have K: "\<forall>r\<in>set rs. contains_key t r" using under_keys [OF iK(1)] rs(2) by blast
  note rd = remove_all_reads [OF rs(1) K]
  let ?u = "remove_all rs t"
  have r: "tree_root t \<notin> set rs"
  proof
    assume "tree_root t \<in> set rs"
    then have "below t (tree_root t) i" using rs(2) by (simp add: under_def)
    then have "tree_root t = i" by (rule converse_rtranclE) (use forest_root_parent [OF F] in auto)
    then show False using F by (simp add: forest_def)
  qed
  have up: "c \<in> set rs \<longleftrightarrow> c = i \<or> p \<in> set rs" if "parent_of t c = Some p" for c p
    using under_parent [OF that] rs(2) by simp
  show ?thesis
  proof (rule forestI)
    show "contains_key ?u x \<Longrightarrow> x < next_id ?u" for x using rd forest_bound [OF F] by simp
    show "is_split ?u (tree_root ?u)" using rd r forest_root [OF F] by (simp add: is_split_def)
    show "tree_root ?u \<notin> {}" by simp
    have t: "tops t = {tree_root t, i}" using F by (auto simp: forest_def)
    have "i \<in> set rs" using rs(2) by (simp add: under_def)
    then have "x \<in> tops ?u \<longleftrightarrow> x \<in> tops t \<and> x \<noteq> i" for x
      using rd r t by (auto simp: tops_def) 
    then show "tops ?u = insert (tree_root ?u) {}" using t rd r \<open>i \<in> set rs\<close> by auto
    show "acyclic (up_edges (parent_of ?u))"
      by (rule acyclic_subset [OF forest_acyclic [OF F]]) (use rd in \<open>auto simp: up_edges_def split: if_splits\<close>)
    show "distinct cs \<and> (\<forall>c\<in>set cs. parent_of ?u c = Some p) \<and> length ps = length cs \<and> shares ps"
      if "get_split ?u p = Some (l, cs, ps, m)" for p l cs ps m
    proof -
      have p: "p \<notin> set rs" "get_split t p = Some (l, cs, ps, m)" using that rd by (auto split: if_splits)
      note sp = forest_splitD [OF F p(2)]
      have "c \<notin> set rs" if "c \<in> set cs" for c using up [OF sp(2) [OF that]] p(1) sp(2) [OF that] iK(2) by auto
      then show ?thesis using sp rd by simp
    qed
    show "\<exists>l cs ps m. get_split ?u p = Some (l, cs, ps, m) \<and> c \<in> set cs" if "parent_of ?u c = Some p" for c p
    proof -
      have c: "c \<notin> set rs" "parent_of t c = Some p" using that rd by (auto split: if_splits)
      then have "p \<notin> set rs" using up by blast
      moreover obtain l cs ps m where "get_split t p = Some (l, cs, ps, m)" "c \<in> set cs" using F c(2) by (rule forest_parentD)
      ultimately show ?thesis using rd by simp
    qed
    show "x = tree_root ?u \<or> x \<in> E" if "get_split ?u x = Some (l, [], ps, m)" for x l ps m
      using that rd forest_empty [OF F, of x l ps m] by (auto split: if_splits)
  qed
qed

lemma remove_subtree_wft:
  assumes W: "wft {i} E t" and rs: "distinct rs" "set rs = under t i"
  shows "wft {} E (remove_all rs t)"
proof -
  have F: "forest {i} E t" using W by (rule wfD)
  have "contains_key t i" using forest_detached [OF F] by simp
  then have K: "\<forall>r\<in>set rs. contains_key t r" using under_keys rs(2) by blast
  note rd = remove_all_reads [OF rs(1) K]
  have "modes_ok (remove_all rs t)"
    using wfD(3) [OF W] rd unfolding modes_ok_def by (auto split: if_splits)
  then show ?thesis
    using remove_subtree_forest [OF F rs] side_ok_remove_all [OF wfD(2) [OF W]] W rd by (simp add: wft_def)
qed

section \<open>What a well-formed tree holds\<close>

lemma modes_child:
  assumes "distinct (ids (DSplit i l ds ps m pm))" "c \<in> set ds" "x \<in> set (ids c)"
  shows "map_of (modes (DSplit i l ds ps m pm)) x = map_of (modes c) x"
proof -
  obtain as bs where ds: "ds = as @ c # bs" using assms(2) by (auto dest: split_list)
  have ni: "x \<noteq> i" using assms by auto
  have a: "map_of (modes e) x = None" if "e \<in> set as \<or> e \<in> set bs" for e
    using that assms(1,3) ds by (intro modes_none) auto
  have c: "map_of (concat (map modes es)) x = None" if "\<And>e. e \<in> set es \<Longrightarrow> map_of (modes e) x = None" for es
    using that by (induction es) (auto simp: map_add_def)
  have o: "map_of (own_mode i pm) x = None" using ni by (cases pm) simp_all
  have "map_of (concat (map modes as)) x = None" "map_of (concat (map modes bs)) x = None" using a c by blast+
  then show ?thesis using o by (simp add: ds map_add_def split: option.split)
qed

lemma modes_own:
  assumes "distinct (ids (DSplit i l ds ps m pm))"
  shows "map_of (modes (DSplit i l ds ps m pm)) i = pm"
proof -
  have "i \<notin> set (concat (map ids ds))" using assms by simp
  then have "i \<notin> dom (map_of (concat (map modes ds)))" using dom_modes [of ds] by blast
  then have "map_of (concat (map modes ds)) i = None" by (simp only: domIff not_not)
  then show ?thesis by (cases pm) (simp_all add: map_add_def)
qed

definition stored :: "tree \<Rightarrow> nid option \<Rightarrow> detached_node \<Rightarrow> bool" where
  "stored t q d \<longleftrightarrow> (\<forall>(x, n)\<in>set (entries q d). nodes t x = Some n) \<and>
     (\<forall>x\<in>set (ids d). pending_modes t x = map_of (modes d) x) \<and> distinct (ids d)"

lemma holds_stored: "holds t d \<Longrightarrow> distinct (ids d) \<Longrightarrow> stored t (parent_of t (old_id d)) d"
  by (simp add: holds_def stored_def)

lemma stored_child:
  assumes "stored t q (DSplit i l ds ps m pm)" "c \<in> set ds"
  shows "stored t (Some i) c"
  using assms modes_child [of i l ds ps m pm c] distinct_children(1) [of ids ds c]
  unfolding stored_def by fastforce

lemma stored_ok:
  assumes W: "wft D {} t"
  shows "stored t q d \<Longrightarrow> tree_root t \<notin> set (ids d) \<Longrightarrow> detached_ok d"
proof (induction d arbitrary: q)
  case (DSplit i l ds ps m pm)
  have n: "nodes t i = Some \<lparr>parent = q, node_value = Split l (map old_id ds) ps m\<rparr>"
    using DSplit.prems(1) by (simp add: stored_def)
  then have s: "get_split t i = Some (l, map old_id ds, ps, m)" by (simp add: get_split_eq_Some)
  note sp = forest_splitD [OF wfD(1) [OF W] s]
  have "pending_modes t i = pm"
    using DSplit.prems(1) modes_own [of i l ds ps m pm] by (simp add: stored_def del: modes.simps)
  then have "\<not> pm_maximized x" if "pm = Some x" for x
    using modes_ok_leaf [OF wfD(3) [OF W], of i x] that n by (auto simp: tile_at_def value_of_def)
  moreover have "ds \<noteq> []" using forest_empty [OF wfD(1) [OF W], of i l ps m] s DSplit.prems(2) by auto
  moreover have "detached_ok c" if "c \<in> set ds" for c
    using DSplit.IH [OF that stored_child [OF DSplit.prems(1) that]] DSplit.prems(2) that by auto
  ultimately show ?case using sp by simp
qed simp

lemma distinct_modes: "distinct (ids d) \<Longrightarrow> distinct (map fst (modes d))"
proof (induction d)
  case (DSplit i l ds ps m pm)
  have "distinct (concat (map ids ds)) \<Longrightarrow> (\<And>e. e \<in> set ds \<Longrightarrow> distinct (map fst (modes e))) \<Longrightarrow>
      distinct (concat (map (\<lambda>e. map fst (modes e)) ds))"
  proof (induction ds)
    case (Cons e es)
    have "set (ids e) \<inter> (\<Union>a\<in>set es. set (ids a)) = {}" using Cons.prems(1) by simp
    then have "fst ` set (modes e) \<inter> (\<Union>a\<in>set es. fst ` set (modes a)) = {}" using set_modes by blast
    then show ?case using Cons by auto
  qed simp
  then have "distinct (map fst (concat (map modes ds)))"
    using DSplit distinct_children(1) [of ids ds] by (simp add: map_concat o_def)
  moreover have "i \<notin> fst ` set (concat (map modes ds))" using DSplit.prems set_modes by fastforce
  ultimately show ?case by (cases pm) simp_all
next
  case (DLeaf i w pm mapped)
  then show ?case by (cases pm) simp_all
qed

lemma stored_one_fullscreen:
  assumes "modes_ok t" "stored t q d"
  shows "one_fullscreen d"
proof -
  let ?f = "\<lambda>e. pm_fullscreen (snd e) \<noteq> None"
  have dm: "distinct (map fst (modes d))" using assms(2) by (simp add: stored_def distinct_modes)
  have fm: "fullscreen_mode t (fst e) \<noteq> None" if "e \<in> set (filter ?f (modes d))" for e
  proof -
    have "fst e \<in> set (ids d)" using that set_modes [of d] by auto
    moreover have "map_of (modes d) (fst e) = Some (snd e)" using that dm by auto
    ultimately show ?thesis using assms(2) that by (simp add: stored_def fullscreen_mode_def)
  qed
  have "distinct (map fst (filter ?f (modes d)))" using dm by (rule distinct_map_filter)
  moreover have "fst e = fst e'" if "e \<in> set (filter ?f (modes d))" "e' \<in> set (filter ?f (modes d))" for e e'
    using fm [OF that(1)] fm [OF that(2)] assms(1) unfolding modes_ok_def by blast
  moreover have "length xs \<le> 1"
    if "distinct (map fst xs)" "\<And>e e'. e \<in> set xs \<Longrightarrow> e' \<in> set xs \<Longrightarrow> fst e = fst e'" for xs :: "(nid \<times> pending_mode) list"
  proof (rule ccontr)
    assume "\<not> length xs \<le> 1"
    then obtain a b ys where xs: "xs = a # b # ys" by (cases xs rule: remdups_adj.cases) auto
    have "fst a = fst b" using that(2) [of a b] xs by simp
    then show False using that(1) xs by simp
  qed
  ultimately have "length (filter ?f (modes d)) \<le> 1" by blast
  then show ?thesis by (simp add: one_fullscreen_def filter_map o_def)
qed

lemma plain_height_attained: "distinct (ids d) \<Longrightarrow> \<exists>x\<in>set (ids d). Suc (depth_at d x) = plain_height d"
proof (induction d)
  case (DSplit i l ds ps m pm)
  let ?M = "Max (insert 0 (plain_height ` set ds))"
  have "?M \<in> insert 0 (plain_height ` set ds)" by (rule Max_in) simp_all
  then consider "?M = 0" | c where "c \<in> set ds" "?M = plain_height c" by auto
  then show ?case
  proof cases
    case 1
    then show ?thesis by (intro bexI [of _ i]) simp_all
  next
    case 2
    then obtain x where x: "x \<in> set (ids c)" "Suc (depth_at c x) = plain_height c"
      using DSplit distinct_children(1) [of ids ds c] by auto
    have "depth_at (DSplit i l ds ps m pm) x = Suc (depth_at c x)" using depth_at_child DSplit.prems 2(1) x(1) by blast
    then show ?thesis using x 2 by (intro bexI [of _ x]) (auto simp del: depth_at.simps)
  qed
qed simp

lemma stored_depth:
  assumes F: "forest D E t" and s: "stored t q d"
  shows "x \<in> set (ids d) \<Longrightarrow> node_depth t x = node_depth t (old_id d) + depth_at d x"
proof (induction "depth_at d x" arbitrary: x rule: less_induct)
  case less
  have dis: "distinct (ids d)" using s by (simp add: stored_def)
  show ?case
  proof (cases "x = old_id d")
    case True
    then show ?thesis by (cases d) simp_all
  next
    case False
    obtain y where y: "(x, y) \<in> set (entries q d)" using ids_have_entry [OF less.prems] by blast
    obtain a where a: "parent y = Some a" "a \<in> set (ids d)" using entries_parent [OF y False dis] entries_ids by blast
    have "parent_of t x = Some a" using s y a(1) by (auto simp: stored_def parent_of_def)
    then have "node_depth t x = Suc (node_depth t a)" by (rule node_depth_child [OF F])
    then show ?thesis using less.hyps [of a] depth_at_parent [OF y False a(1) dis] a(2) by simp
  qed
qed

lemma stored_height:
  assumes F: "forest {} {} t" and s: "stored t (Some p) d" and ok: "depth_ok t"
  shows "plain_height d \<le> MAX_TREE_DEPTH"
proof -
  have dis: "distinct (ids d)" using s by (simp add: stored_def)
  obtain x where x: "x \<in> set (ids d)" "Suc (depth_at d x) = plain_height d" using plain_height_attained [OF dis] by blast
  obtain y where y: "(x, y) \<in> set (entries (Some p) d)" using ids_have_entry [OF x(1)] by blast
  have K: "contains_key t x" using s y by (auto simp: stored_def contains_key_def)
  obtain z where z: "(old_id d, z) \<in> set (entries (Some p) d)" using ids_have_entry [OF old_id_in] by blast
  have "parent_of t (old_id d) = Some p" using entries_old_id [OF z dis] s z by (auto simp: stored_def parent_of_def)
  then have "node_depth t (old_id d) \<ge> 1" using node_depth_child [OF F] by simp
  then show ?thesis using stored_depth [OF F s x(1)] x(2) ok K by (fastforce simp: depth_ok_def)
qed

section \<open>Detaching a subtree\<close>

lemma cut_under:
  assumes "parent_of u = (parent_of t)(i := None)"
  shows "under u i = under t i"
proof (intro set_eqI iffI)
  fix j
  assume "j \<in> under u i"
  then have "below u j i" by (simp add: under_def)
  then have "below t j i"
  proof (induction rule: converse_rtrancl_induct)
    case (step y z)
    then have "parent_of t y = Some z" using assms by (auto split: if_splits)
    then show ?case using step.IH by (meson converse_rtrancl_into_rtrancl up_edges_iff)
  qed simp
  then show "j \<in> under t i" by (simp add: under_def)
next
  fix j
  assume "j \<in> under t i"
  then have "below t j i" by (simp add: under_def)
  then have "below u j i"
  proof (induction rule: converse_rtrancl_induct)
    case (step y z)
    show ?case
    proof (cases "y = i")
      case False
      then have "parent_of u y = Some z" using assms step.hyps(1) by simp
      then show ?thesis using step.IH by (meson converse_rtrancl_into_rtrancl up_edges_iff)
    qed simp
  qed simp
  then show "j \<in> under u i" by (simp add: under_def)
qed

text \<open>
  \<open>departs t i p t' d\<close>: the tree \<open>t'\<close> is \<open>t\<close> without the subtree of \<open>i\<close>, whose old parent \<open>p\<close> may be
  left empty, and \<open>d\<close> is that subtree.
\<close>

definition departs :: "tree \<Rightarrow> nid \<Rightarrow> nid \<Rightarrow> tree \<Rightarrow> detached_node \<Rightarrow> bool" where
  "departs t i p t' d \<longleftrightarrow> wft {} {p} t' \<and> old_id d = i \<and> set (ids d) = under t i \<and> stored t (Some p) d \<and>
     contains_key t' = (\<lambda>x. contains_key t x \<and> x \<notin> under t i) \<and>
     tile_at t' = (\<lambda>x. if x \<in> under t i then None else tile_at t x) \<and>
     fullscreen_mode t' = (\<lambda>x. if x \<in> under t i then None else fullscreen_mode t x) \<and>
     tree_root t' = tree_root t \<and> next_id t' = next_id t \<and> shortcuts t t' \<and>
     (\<exists>l cs ps m k. get_split t p = Some (l, cs, ps, m) \<and> k < length cs \<and> cs ! k = i \<and>
        get_split t' p = Some (l, remove_at k cs, rescale (remove_at k ps), m))"

lemma take_cut_subtree:
  assumes W: "wft {} {} t" and p: "parent_of t i = Some p"
  defines "t1 \<equiv> fst (detach_subtree_only t i)"
  shows "\<exists>d. take_detached_node (walk_fuel t1) t1 i = (remove_all (ids d) t1, Some d) \<and> departs t i p (remove_all (ids d) t1) d"
proof -
  have F: "forest {} {} t" using W by (rule wfD)
  note det = detach_forest [OF F p, folded t1_def]
  have st: "strip t1 = strip t" by (simp add: t1_def)
  have K1: "contains_key t1 = contains_key t" using det(4) by (simp add: fun_eq_iff)
  have W1: "wft {i} {p} t1" by (rule wf_frame [OF W det(1) st det(3)]) (simp_all add: K1 det(7))
  have F1: "forest {i} {p} t1" using W1 by (rule wfD)
  have iK: "contains_key t1 i" using parent_of_contains [OF p] K1 by simp
  have u: "under t1 i = under t i" by (rule cut_under [OF det(5)])
  have "card (under t1 i) \<le> card {x. contains_key t1 x}"
    using forest_bound [OF F1] under_keys [OF iK]
    by (intro card_mono finite_subset [of "{x. contains_key t1 x}" "{..<next_id t1}"]) auto
  then have "card (under t1 i) \<le> walk_fuel t1" using card_keys [OF F1] by (simp add: walk_fuel_def)
  then obtain d where d: "take_detached_node (walk_fuel t1) t1 i = (remove_all (ids d) t1, Some d)" "snapshot t1 i d"
    using take_detached_node_snapshot [OF F1 iK] by (auto simp: agrees_def)
  have ids: "old_id d = i" "set (ids d) = under t1 i" "distinct (ids d)" using d(2) by (simp_all add: snapshot_def)
  have Wr: "wft {} {p} (remove_all (ids d) t1)" by (rule remove_subtree_wft [OF W1 ids(3,2)])
  note rd = remove_all_reads [OF ids(3), of t1]
  have "\<forall>r\<in>set (ids d). contains_key t1 r" using ids(2) under_keys [OF iK] by blast
  note rd = rd [OF this]
  have n1: "next_id t1 = next_id t"
    by (simp add: t1_def detach_subtree_only_def remove_child_def panic_def Let_def split: option.splits tree_node.splits)
  obtain l cs ps m k where s: "get_split t p = Some (l, cs, ps, m)" "k < length cs" "cs ! k = i" and g: "get_split t1 = (get_split t)(p := Some (l, remove_at k cs, rescale (remove_at k ps), m))"
    using det(6) by blast
  have pn: "p \<notin> under t i" using links.no_self_loop [OF arena_okI [OF F] p] by (simp add: under_def)
  have "\<forall>(x, n)\<in>set (entries None d). nodes t1 x = Some n" using d(2) det(5) by (simp add: snapshot_def)
  then have "\<forall>(x, n)\<in>set (entries (Some p) d). nodes t x = Some n"
    by (rule entries_relinked [OF _ ids(3)])
      (use ids K1 under_keys [OF iK] p det(5,7) g pn u in \<open>auto split: if_splits\<close>)
  moreover have "\<forall>x\<in>set (ids d). pending_modes t x = map_of (modes d) x"
    using d(2) ids(2) strip_fieldsD(6) [OF st] by (simp add: snapshot_def)
  ultimately have "stored t (Some p) d" using ids(3) by (simp add: stored_def)
  moreover have "shortcuts t (remove_all (ids d) t1)"
    using rd det(5) unfolding shortcuts_def by (auto split: if_splits)
  moreover have "get_split (remove_all (ids d) t1) p = Some (l, remove_at k cs, rescale (remove_at k ps), m)"
    using rd g pn ids(2) u by simp
  moreover have "fullscreen_mode t1 = fullscreen_mode t" using strip_fieldsD(6) [OF st] by (simp add: fun_eq_iff fullscreen_mode_def)
  ultimately show ?thesis using d ids Wr rd K1 u det(7) strip_fieldsD(1) [OF st] n1 s unfolding departs_def
    by (intro exI [of _ d]) (auto simp: fun_eq_iff)
qed

lemma departs_frame:
  assumes d: "departs t i p t1 d" and n: "nodes t2 = nodes t1" "tree_root t2 = tree_root t1" "next_id t2 = next_id t1"
    "panicked t2 = panicked t1" and s: "side_ok t2" and m: "pending_modes t2 = pending_modes t1"
  shows "departs t i p t2 d"
proof -
  note rd = same_nodes_reads [OF n(1)]
  have W: "wft {} {p} t1" using d by (simp add: departs_def)
  have "modes_ok t2" using wfD(3) [OF W] m rd by (simp add: modes_ok_def fullscreen_mode_def)
  then have "wft {} {p} t2" by (intro wft_tables [OF W n s])
  moreover have "fullscreen_mode t2 = fullscreen_mode t1" using m by (simp add: fun_eq_iff fullscreen_mode_def)
  ultimately show ?thesis using d n rd by (simp add: departs_def shortcuts_def)
qed

lemma departs_source:
  assumes "departs t' i p u d" "nodes t' = nodes t" "pending_modes t' = pending_modes t" "tree_root t' = tree_root t" "next_id t' = next_id t"
  shows "departs t i p u d"
proof -
  note rd = same_nodes_reads [OF assms(2)]
  have "fullscreen_mode t' = fullscreen_mode t" using assms(3) by (simp add: fun_eq_iff fullscreen_mode_def)
  then show ?thesis using assms rd by (simp add: departs_def stored_def shortcuts_def under_def cong: if_cong)
qed

theorem detach_subtree_departs:
  assumes I: "inv t" and p: "parent_of t i = Some p"
  shows "\<exists>t' sub. detach_subtree t i = (t', Some (sub, Some p)) \<and> departs t i p t' (dt_node sub)"
proof -
  define u where "u = t\<lparr>interactive_resize_st := None\<rparr>"
  have W: "wft {} {} u" using invD(1) [OF I] same_core_wft [OF same_core_flags(3)] by (simp add: u_def)
  have pu: "parent_of u i = Some p" using p same_nodes_reads [of u t] by (simp add: u_def)
  note det = detach_forest [OF wfD(1) [OF W] pu]
  define t1 where "t1 = fst (detach_subtree_only u i)"
  have t1: "detach_subtree_only u i = (t1, Some p)" using det(2) by (simp add: t1_def prod_eq_iff)
  obtain d where d: "take_detached_node (walk_fuel t1) t1 i = (remove_all (ids d) t1, Some d)"
      "departs u i p (remove_all (ids d) t1) d"
    using take_cut_subtree [OF W pu] unfolding t1_def [symmetric] by blast
  have nr: "i \<noteq> tree_root u" using forest_root_parent [OF wfD(1) [OF W]] pu by auto
  have r1: "tree_root t1 = tree_root u" using strip_fieldsD(1) [of t1 u] by (simp add: t1_def)
  define t2 where "t2 = remove_all (ids d) t1"
  define t3 where "t3 = (if fullscreen_node t1 = Some i
      then (t2\<lparr>fullscreen_tile_slot := False\<rparr>)\<lparr>mapped_under_fullscreen := {}, moved_under_fullscreen := (\<lambda>_. None),
          fullscreen_layout_wrappers := {}, pre_layout_ipc_rects := (\<lambda>_. None)\<rparr> else t2\<lparr>fullscreen_tile_slot := False\<rparr>)"
  define t5 where "t5 = request_window_sizes (t3\<lparr>focus := focused_leaf_in t3 (tree_root t3)\<rparr>)"
  have n5: "nodes t5 = nodes t2" "tree_root t5 = tree_root t2" "next_id t5 = next_id t2" "panicked t5 = panicked t2"
      "pending_modes t5 = pending_modes t2"
    by (simp_all add: t5_def t3_def calls_are_log)
  have "side_ok t2" using d(2) by (simp add: departs_def wft_def t2_def)
  then have "side_ok t5" using same_nodes_reads(1) [OF n5(1)]
    by (simp add: side_ok_def t5_def t3_def calls_are_log log_call_def)
  then have D: "departs t i p t5 d"
    using departs_source [OF departs_frame [OF d(2) [folded t2_def] n5(1-4) _ n5(5)], of t] by (simp add: u_def)
  have iK: "contains_key t i" using p by (rule parent_of_contains)
  have "\<exists>sub. detach_subtree t i = (t5, Some (sub, Some p)) \<and> dt_node sub = d"
    using iK nr t1 d(1) r1 unfolding detach_subtree_def u_def [symmetric]
    by (simp add: Let_def t2_def [symmetric] t3_def [symmetric] t5_def)
  then show ?thesis using D by blast
qed

section \<open>Finishing\<close>

lemma finish_subtree_detach_inv:
  assumes W: "wft {} (set_option p) t"
  shows "inv (finish_subtree_detach t p)" "tile_at (finish_subtree_detach t p) = tile_at t"
    "\<And>x. contains_key (finish_subtree_detach t p) x \<Longrightarrow> contains_key t x"
    "tree_root (finish_subtree_detach t p) = tree_root t" "next_id (finish_subtree_detach t p) = next_id t"
    "depth_ok t \<Longrightarrow> depth_ok (finish_subtree_detach t p)"
    "\<And>i. squashable_child (finish_subtree_detach t p) i = None"
proof -
  define r where "r = (case p of Some q \<Rightarrow> reap_empty_from t q | None \<Rightarrow> t)"
  define c where "c = compact_tree r"
  have sr: "shrinks t r" using W reap_shrinks shrinks_refl by (cases p) (simp_all add: r_def)
  have Wr: "wft {} {} r" using sr by (rule shrinks_wf)
  note cp = compact_tree_props [OF Wr, folded c_def]
  have sc: "shrinks r c" using cp by (simp add: shrinks_def)
  have s: "shrinks t c" using sr sc by (rule shrinks_trans)
  have eq: "finish_subtree_detach t p = log_call (c\<lparr>focus := focused_leaf_in c (tree_root c)\<rparr>) (RequestWindowSizes False False)"
    by (simp add: finish_subtree_detach_eq r_def [symmetric] c_def [symmetric] Let_def calls_are_log)
  have n: "nodes (finish_subtree_detach t p) = nodes c" "tree_root (finish_subtree_detach t p) = tree_root c"
      "next_id (finish_subtree_detach t p) = next_id c"
    by (simp_all add: eq)
  note rd = same_nodes_reads [OF n(1)]
  show "inv (finish_subtree_detach t p)" using focus_root_leaf(2) [OF cp(1)] by (simp add: eq)
  have sd: "tile_at c = tile_at t" "tree_root c = tree_root t" "next_id c = next_id t" "\<And>x. contains_key c x \<Longrightarrow> contains_key t x"
      "shortcuts t c"
    using s by (auto simp: shrinks_def steady_def)
  show "tile_at (finish_subtree_detach t p) = tile_at t" "tree_root (finish_subtree_detach t p) = tree_root t"
    "next_id (finish_subtree_detach t p) = next_id t" "contains_key (finish_subtree_detach t p) x \<Longrightarrow> contains_key t x" for x
    using sd n rd by simp_all
  have dc: "depth_ok (finish_subtree_detach t p) = depth_ok c" using rd n by (intro depth_ok_cong) simp_all
  show "depth_ok t \<Longrightarrow> depth_ok (finish_subtree_detach t p)"
    unfolding dc using shortcut_depth [OF wfD(1) [OF W] wfD(1) [OF cp(1)] sd(2,5,4)] sd(4) unfolding depth_ok_def
    by (meson order_trans)
  have hr: "has_resident_root (finish_subtree_detach t p) = has_resident_root c" by (simp add: eq)
  have "is_squashable (finish_subtree_detach t p) i x = is_squashable c i x" for i x
    unfolding is_squashable_def rd n(2) hr by (rule refl)
  then have "squashable_child (finish_subtree_detach t p) i = squashable_child c i" for i
    using rd(3) by (simp add: squashable_child_def children_of_def cong: if_cong option.case_cong list.case_cong)
  then show "squashable_child (finish_subtree_detach t p) i = None" for i using cp(4) by simp
qed

section \<open>Detaching a whole workspace\<close>

lemma bare_root_forest:
  assumes n: "nodes t = [tree_root t \<mapsto> \<lparr>parent = None, node_value = Split l [] [] m\<rparr>]" and b: "tree_root t < next_id t"
  shows "forest {} {} t"
proof -
  have K: "contains_key t = (\<lambda>x. x = tree_root t)" "parent_of t = (\<lambda>_. None)"
      "get_split t = (\<lambda>_. None)(tree_root t \<mapsto> (l, [], [], m))"
    using n by (auto simp: fun_eq_iff contains_key_def parent_of_def get_split_def value_of_def)
  show ?thesis by (rule forestI) (use b in \<open>auto simp: K tops_def is_split_def shares_def no_edges acyclic_def split: if_splits\<close>)
qed

lemma take_root_children:
  assumes F: "forest {} {} t" and s: "get_split t r = Some (l, cs, ps, m)"
    and ag: "\<And>c. c \<in> set cs \<Longrightarrow> agrees t t1 (under t c)"
  shows "\<exists>ds. take_children (take_detached_node (walk_fuel t)) t1 cs = (remove_all (concat (map ids ds)) t1, Some ds) \<and>
    list_all2 (snapshot t) cs ds"
proof (rule take_children_snapshots)
  show "\<exists>d. take_detached_node (walk_fuel t) u c = (remove_all (ids d) u, Some d) \<and> snapshot t c d"
    if "c \<in> set cs" "agrees t u (under t c)" for c u
  proof (rule take_detached_node_snapshot [OF F _ _ that(2)])
    show K: "contains_key t c" using child_contains [OF F s that(1)] .
    have "card (under t c) \<le> card {x. contains_key t x}"
      using forest_bound [OF F] under_keys [OF K]
      by (intro card_mono finite_subset [of "{x. contains_key t x}" "{..<next_id t}"]) auto
    then show "card (under t c) \<le> walk_fuel t" using card_keys [OF F] by (simp add: walk_fuel_def)
  qed
  show "\<forall>c\<in>set cs. \<forall>d\<in>set cs. c \<noteq> d \<longrightarrow> under t c \<inter> under t d = {}"
    using siblings_disjoint [OF F s] by (auto simp: under_def)
qed (use forest_splitD(1) [OF F s] ag in auto)

text \<open>What is left is the bare root, and the detached container has the root's children under a fresh identifier.\<close>

lemma take_root_as_detached_takes:
  assumes I: "inv t" and r: "tree_root t = r" and s: "get_split t r = Some (l, cs, ps, m)" and ne: "cs \<noteq> []"
  shows "\<exists>t' ds. take_root_as_detached t = (t', Some (DSplit (next_id t) l ds ps m (pending_modes t r))) \<and>
    wft {} {} t' \<and> nodes t' = [r \<mapsto> \<lparr>parent = None, node_value = Split SplitH [] [] split_meta_default\<rparr>] \<and>
    tree_root t' = r \<and> next_id t' = Suc (next_id t) \<and> fullscreen_mode t' = (\<lambda>_. None) \<and>
    snapshot t r (DSplit r l ds ps m (pending_modes t r))"
proof -
  have W: "wft {} {} t" and F: "forest {} {} t" using I by (auto dest: invD)
  define t1 where "t1 = (set_value t r (Split SplitH [] [] split_meta_default))\<lparr>empty_representation_layout := Some SplitH\<rparr>"
  have n: "nodes t r = Some \<lparr>parent = parent_of t r, node_value = Split l cs ps m\<rparr>"
    using s by (auto simp: get_split_eq_Some parent_of_def)
  have pr: "parent_of t r = None" using forest_root_parent [OF F] r by simp
  have n1: "nodes t1 = (nodes t)(r \<mapsto> \<lparr>parent = None, node_value = Split SplitH [] [] split_meta_default\<rparr>)"
    using n pr by (simp add: t1_def set_value_def)
  have o1: "pending_modes t1 = pending_modes t" "mapped_under_fullscreen t1 = mapped_under_fullscreen t"
      "tree_root t1 = r" "next_id t1 = next_id t" "panicked t1 = panicked t"
    using r by (simp_all add: t1_def set_value_def)
  have ni: "r \<notin> under t c" if "c \<in> set cs" for c
    using links.no_self_loop [OF arena_okI [OF F] forest_splitD(2) [OF F s that]] by (simp add: under_def)
  have "agrees t t1 (under t c)" if "c \<in> set cs" for c using ni [OF that] by (auto simp: agrees_def n1 o1)
  then obtain ds where ds: "take_children (take_detached_node (walk_fuel t)) t1 cs = (remove_all (concat (map ids ds)) t1, Some ds)"
      "list_all2 (snapshot t) cs ds"
    using take_root_children [OF F s] by blast
  let ?d = "DSplit r l ds ps m (pending_modes t r)" and ?ids = "concat (map ids ds)"
  have sn: "snapshot t r ?d" by (rule snapshots_split [OF F s ds(2) n])
  have ids: "distinct ?ids" "r \<notin> set ?ids" "insert r (set ?ids) = under t r" using sn by (auto simp: snapshot_def)
  have all: "x \<in> under t r \<longleftrightarrow> contains_key t x" for x
    using below_root [OF F, of x] under_keys [OF get_split_contains [OF s]] r by (auto simp: under_def)
  have K1: "contains_key t1 x \<longleftrightarrow> contains_key t x" for x using n by (auto simp: n1 contains_key_def)
  define t2 where "t2 = remove_all ?ids t1"
  have "\<forall>x\<in>set ?ids. contains_key t1 x" using ids(3) all K1 by blast
  note rd = remove_all_reads [OF ids(1) this, folded t2_def]
  have K2: "contains_key t2 x \<longleftrightarrow> x = r" for x using rd K1 all ids by auto
  have r2: "get_split t2 r = Some (SplitH, [], [], split_meta_default)" "parent_of t2 r = None"
    using rd ids(2) by (simp_all add: n1 get_split_def value_of_def parent_of_def)
  then obtain y where y: "nodes t2 r = Some y" "node_value y = Split SplitH [] [] split_meta_default" "parent y = None"
    by (auto simp: get_split_eq_Some parent_of_def)
  have n2: "nodes t2 = [r \<mapsto> \<lparr>parent = None, node_value = Split SplitH [] [] split_meta_default\<rparr>]"
    using y K2 by (auto simp: fun_eq_iff contains_key_def) (metis option.exhaust)
  define t' where "t' = t2\<lparr>next_id := Suc (next_id t2), pending_modes := forget_key r (pending_modes t2)\<rparr>"
  have S1: "side_ok t1" using wfD(2) [OF W] K1 by (simp add: side_ok_def t1_def set_value_def)
  have pm: "pending_modes t' = (\<lambda>_. None)"
    using side_okD(3) [OF side_ok_remove_all [OF S1, of ?ids]] K2
    by (auto simp: t'_def fun_eq_iff forget_key_def t2_def [symmetric]) (metis not_None_eq)
  have Kt: "contains_key t' = contains_key t2" using same_nodes_reads(1) [of t' t2] by (simp add: t'_def)
  have "side_ok t'" using side_ok_remove_all [OF S1, of ?ids] pm
    unfolding side_ok_def t2_def [symmetric] Kt by (simp add: t'_def)
  moreover have fm: "fullscreen_mode t' = (\<lambda>_. None)" using pm by (simp add: fun_eq_iff fullscreen_mode_def)
  moreover have "modes_ok t'" using pm fm by (simp add: modes_ok_def)
  moreover have "tree_root t' = r" "next_id t' = Suc (next_id t)" "\<not> panicked t'"
    using rd o1 W by (simp_all add: t'_def wft_def)
  moreover have "r < next_id t" using forest_bound [OF F get_split_contains [OF s]] .
  ultimately have Wt: "wft {} {} t'" using n2 bare_root_forest [of t' SplitH split_meta_default] by (simp add: wft_def t'_def)
  have "take_root_as_detached t = (t', Some (DSplit (next_id t) l ds ps m (pending_modes t r)))"
    using s ds(1) rd o1 ids(2) unfolding take_root_as_detached_def r
    by (simp add: Let_def t1_def [symmetric] t2_def [symmetric] t'_def)
  then show ?thesis using Wt n2 fm sn \<open>tree_root t' = r\<close> \<open>next_id t' = Suc (next_id t)\<close>
    by (intro exI [of _ t'] exI [of _ ds]) (simp add: t'_def)
qed

section \<open>The windows of a subtree\<close>

lemma stored_leaves:
  assumes "stored t q d"
  shows "set (leaf_entries d) = {(x, w). x \<in> set (ids d) \<and> tile_at t x = Some w}"
proof (intro set_eqI iffI; clarify)
  fix x w assume l: "(x, w) \<in> set (leaf_entries d)"
  then obtain r where "(x, \<lparr>parent = r, node_value = Leaf w\<rparr>) \<in> set (entries q d)" using leaf_entries_iff by blast
  then have "nodes t x = Some \<lparr>parent = r, node_value = Leaf w\<rparr>" using assms by (auto simp: stored_def)
  then show "x \<in> set (ids d) \<and> tile_at t x = Some w" using l leaf_ids by (force simp: tile_at_def value_of_def)
next
  fix x w assume x: "x \<in> set (ids d)" "tile_at t x = Some w"
  obtain y where y: "(x, y) \<in> set (entries q d)" using ids_have_entry [OF x(1)] by blast
  then have "nodes t x = Some y" using assms by (auto simp: stored_def)
  then have "y = \<lparr>parent = parent y, node_value = Leaf w\<rparr>"
    using x(2) by (cases y) (auto simp: tile_at_def value_of_def split: tree_node.splits)
  then show "(x, w) \<in> set (leaf_entries d)" using y leaf_entries_iff by metis
qed

definition windows_below :: "tree \<Rightarrow> nid \<Rightarrow> tile list \<Rightarrow> bool" where
  "windows_below t i ws \<longleftrightarrow> (\<exists>ls. map snd ls = ws \<and> distinct (map fst ls) \<and>
     set ls = {(x, w). contains_node t i x \<and> tile_at t x = Some w})"

lemma stored_windows:
  assumes F: "forest D E t" and s: "stored t q d" and i: "set (ids d) = under t i"
  shows "windows_below t i (detached_tiles d)"
proof -
  have "contains_node t i x \<longleftrightarrow> x \<in> set (ids d)" if "tile_at t x = Some w" for x w
    using contains_node_iff [OF F] i by (simp add: under_def)
  then have "set (leaf_entries d) = {(x, w). contains_node t i x \<and> tile_at t x = Some w}"
    using stored_leaves [OF s] by auto
  moreover have "distinct (map fst (leaf_entries d))" using s by (simp add: stored_def distinct_leaf_ids)
  ultimately show ?thesis unfolding windows_below_def
    using erase_leaf_tiles [of d] by (intro exI [of _ "leaf_entries d"]) simp
qed

lemma departs_detached:
  assumes W: "wft {} {} t" and d: "departs t i p t' d"
  shows "detached_ok d" "one_fullscreen d" "windows_below t i (detached_tiles d)"
    "depth_ok t \<Longrightarrow> plain_height d \<le> MAX_TREE_DEPTH" "\<forall>x\<in>set (ids d). contains_key t x"
proof -
  have F: "forest {} {} t" using W by (rule wfD)
  have s: "stored t (Some p) d" and ids: "set (ids d) = under t i" "old_id d = i"
    and K: "contains_key t' = (\<lambda>x. contains_key t x \<and> x \<notin> under t i)" and r: "tree_root t' = tree_root t"
    and F': "forest {} {p} t'"
    using d by (auto simp: departs_def wft_def)
  have "contains_key t' (tree_root t')" using F' by (rule forest_root_split) (rule get_split_contains)
  then have "tree_root t \<notin> set (ids d)" using K r ids(1) by simp
  then show "detached_ok d" using stored_ok [OF W s] by blast
  show "one_fullscreen d" using stored_one_fullscreen [OF wfD(3) [OF W] s] .
  show "windows_below t i (detached_tiles d)" using stored_windows [OF F s ids(1)] .
  show "depth_ok t \<Longrightarrow> plain_height d \<le> MAX_TREE_DEPTH" using stored_height [OF F s] .
  show "\<forall>x\<in>set (ids d). contains_key t x"
  proof
    fix x assume "x \<in> set (ids d)"
    then obtain y where "(x, y) \<in> set (entries (Some p) d)" using ids_have_entry by blast
    then show "contains_key t x" using s by (auto simp: stored_def contains_key_def)
  qed
qed

lemma rename_root:
  "detached_ok (DSplit j l ds ps m pm) = detached_ok (DSplit i l ds ps m pm)"
  "one_fullscreen (DSplit j l ds ps m pm) = one_fullscreen (DSplit i l ds ps m pm)"
  "detached_tiles (DSplit j l ds ps m pm) = detached_tiles (DSplit i l ds ps m pm)"
  by (cases pm; simp add: one_fullscreen_def)+

lemma stored_root_ok:
  assumes W: "wft {} {} t" and s: "stored t q (DSplit (tree_root t) l ds ps m pm)" and ne: "ds \<noteq> []"
  shows "detached_ok (DSplit (tree_root t) l ds ps m pm)"
proof -
  let ?r = "tree_root t"
  have n: "nodes t ?r = Some \<lparr>parent = q, node_value = Split l (map old_id ds) ps m\<rparr>" using s by (simp add: stored_def)
  then have g: "get_split t ?r = Some (l, map old_id ds, ps, m)" by (simp add: get_split_eq_Some)
  note sp = forest_splitD [OF wfD(1) [OF W] g]
  have "pending_modes t ?r = pm" using s modes_own [of ?r l ds ps m pm] by (simp add: stored_def del: modes.simps)
  then have "\<not> pm_maximized x" if "pm = Some x" for x
    using modes_ok_leaf [OF wfD(3) [OF W], of ?r x] that n by (auto simp: tile_at_def value_of_def)
  moreover have "detached_ok c" if c: "c \<in> set ds" for c
  proof (rule stored_ok [OF W stored_child [OF s c]])
    show "?r \<notin> set (ids c)" using s c by (auto simp: stored_def)
  qed
  ultimately show ?thesis using sp ne by simp
qed

lemma detach_root:
  assumes I: "inv t" and ne: "\<not> is_empty t"
  shows "\<exists>t' sub. detach_subtree t (tree_root t) = (t', Some (sub, None)) \<and> inv t' \<and> is_empty t' \<and>
    tree_root t' = tree_root t \<and> next_id t' = Suc (next_id t) \<and> tile_at t' = (\<lambda>_. None) \<and>
    detached_ok (dt_node sub) \<and> one_fullscreen (dt_node sub) \<and> dt_wrapped_workspace sub \<and>
    windows_below t (tree_root t) (detached_tiles (dt_node sub)) \<and> (\<forall>x\<in>set (ids (dt_node sub)). x \<le> next_id t)"
proof -
  define u where "u = t\<lparr>interactive_resize_st := None\<rparr>"
  have Iu: "inv u" using I same_core_inv [OF same_core_flags(3)] by (simp add: u_def)
  have W: "wft {} {} u" and F: "forest {} {} u" using Iu by (auto dest: invD)
  define r where "r = tree_root t"
  have ru: "tree_root u = r" by (simp add: u_def r_def)
  obtain l cs ps m where s: "get_split u r = Some (l, cs, ps, m)" using forest_root_split [OF F] ru by metis
  have "leaves u \<noteq> {}" using invD(3) [OF Iu] ne by (simp add: is_empty_def u_def)
  then have "cs \<noteq> []" using no_leaves_iff [OF F] s ru by (simp add: children_of_def)
  from take_root_as_detached_takes [OF Iu ru s this] obtain t2 ds where
      tk: "take_root_as_detached u = (t2, Some (DSplit (next_id u) l ds ps m (pending_modes u r)))" and W2: "wft {} {} t2"
      and n2: "nodes t2 = [r \<mapsto> \<lparr>parent = None, node_value = Split SplitH [] [] split_meta_default\<rparr>]"
      and r2: "tree_root t2 = r" "next_id t2 = Suc (next_id u)" and fm: "fullscreen_mode t2 = (\<lambda>_. None)"
      and sn: "snapshot u r (DSplit r l ds ps m (pending_modes u r))" by blast
  let ?own = "DSplit r l ds ps m (pending_modes u r)" and ?d = "DSplit (next_id u) l ds ps m (pending_modes u r)"
  have st: "stored u (parent_of u r) ?own" using holds_stored [OF snapshot_holds [OF sn]] sn by (simp add: snapshot_def)
  have "nodes u r = Some \<lparr>parent = parent_of u r, node_value = Split l (map old_id ds) ps m\<rparr>"
    using st by (simp add: stored_def)
  then have "map old_id ds = cs" using s by (simp add: get_split_eq_Some)
  then have "ds \<noteq> []" using \<open>cs \<noteq> []\<close> by auto
  then have ok: "detached_ok ?own" using stored_root_ok [OF W, of "parent_of u r" l ds ps m] st ru by simp
  have one: "one_fullscreen ?own" using stored_one_fullscreen [OF wfD(3) [OF W] st] .
  have "windows_below u r (detached_tiles ?own)" using stored_windows [OF F st] sn by (simp add: snapshot_def)
  moreover have "parent_of u = parent_of t" "tile_at u = tile_at t" using same_nodes_reads [of u t] by (simp_all add: u_def)
  moreover from this(1) have "contains_node u x y = contains_node t x y" for x y
    unfolding contains_node_iff [OF F] contains_node_iff [OF invD(4) [OF I]] by simp
  ultimately have wb: "windows_below t r (detached_tiles ?d)" unfolding windows_below_def by simp
  have bound: "x \<le> next_id t" if "x \<in> set (ids ?d)" for x
  proof -
    have "x = next_id t \<or> x \<in> under u r" using that sn by (auto simp: snapshot_def u_def)
    then show ?thesis using under_keys [OF get_split_contains [OF s]] forest_bound [OF F, of x] by (auto simp: u_def)
  qed
  define t3 where "t3 = (if fullscreen_node u = Some r
      then (t2\<lparr>fullscreen_tile_slot := False\<rparr>)\<lparr>mapped_under_fullscreen := {}, moved_under_fullscreen := (\<lambda>_. None),
          fullscreen_layout_wrappers := {}, pre_layout_ipc_rects := (\<lambda>_. None)\<rparr> else t2\<lparr>fullscreen_tile_slot := False\<rparr>)"
  have n3: "nodes t3 = nodes t2" "tree_root t3 = tree_root t2" "next_id t3 = next_id t2" "panicked t3 = panicked t2"
      "pending_modes t3 = pending_modes t2"
    by (simp_all add: t3_def)
  note rd = same_nodes_reads [OF n3(1)]
  have "side_ok t3" using wfD(2) [OF W2] rd(1) by (simp add: side_ok_def t3_def)
  moreover have "modes_ok t3" using wfD(3) [OF W2] rd n3(5) by (simp add: modes_ok_def fullscreen_mode_def)
  ultimately have W3: "wft {} {} t3" by (intro wft_tables [OF W2 n3(1-4)])
  define t5 where "t5 = request_window_sizes (t3\<lparr>focus := focused_leaf_in t3 (tree_root t3)\<rparr>)"
  have I5: "inv t5" using focus_root_leaf(2) [OF W3] by (simp add: t5_def calls_are_log)
  have n5: "nodes t5 = nodes t2" "tree_root t5 = r" "next_id t5 = Suc (next_id t)"
    using n3 r2 by (simp_all add: t5_def calls_are_log u_def)
  have tl: "tile_at t5 = (\<lambda>_. None)" using n5(1) n2 by (simp add: fun_eq_iff tile_at_def value_of_def)
  then have "is_empty t5" using invD(3) [OF I5] by (simp add: is_empty_def leaves_def)
  moreover have "\<exists>sub. detach_subtree t r = (t5, Some (sub, None)) \<and> dt_node sub = ?d \<and> dt_wrapped_workspace sub"
  proof -
    have "contains_key t r" using get_split_contains [OF s] same_nodes_reads(1) [of u t] by (simp add: u_def)
    then show ?thesis using tk ru n5(2) n3(2) r2(1) unfolding detach_subtree_def u_def [symmetric]
      by (simp add: Let_def t3_def [symmetric] t5_def)
  qed
  ultimately show ?thesis
    using I5 n5 tl ok one wb bound rename_root [of "next_id u" l ds ps m "pending_modes u r" r]
    unfolding r_def by (metis (no_types, lifting))
qed

end
