(* ===== verification/Tree_Exchange.thy ===== *)
theory Tree_Exchange
  imports Detach_Laws
begin

text \<open>
  Swapping a subtree of one tree with a subtree of another: each goes to the slot the other left,
  with its share, and takes over whether that place was fullscreen.
\<close>

section \<open>Swapping subtrees between trees\<close>

lemma share_below_one:
  assumes "shares ps" "k < length ps" "1 < length ps"
  shows "ps ! k < 1"
proof -
  have pos: "\<forall>x\<in>set (remove_at k ps). 0 < x" using shares_pos [OF assms(1)] subsetD [OF set_remove_at_subset] by metis
  have "remove_at k ps \<noteq> []"
  proof
    assume "remove_at k ps = []"
    then have "length (remove_at k ps) = 0" by (simp only: list.size)
    then show False using assms(2,3) by simp
  qed
  then have "0 < sum_list (remove_at k ps)" by (rule sum_list_pos [OF _ pos])
  moreover have "sum_list ps = ps ! k + sum_list (remove_at k ps)" using sum_list_remove_at [OF assms(2)] by simp
  moreover have "sum_list ps = 1" using assms by (auto simp: shares_def)
  ultimately show ?thesis by simp
qed

text \<open>A slot in the tree a subtree has left.\<close>

definition slot_fits :: "tree \<Rightarrow> detached_slot \<Rightarrow> bool" where
  "slot_fits t sl \<longleftrightarrow> (\<exists>l cs ps m. get_split t (sl_parent sl) = Some (l, cs, ps, m) \<and> 0 < sl_percent sl \<and>
     (sl_percent sl < 1 \<or> ps = []) \<and> (ps = [] \<longrightarrow> sl_percent sl = 1))"

lemma detach_subtree_for_swap_departs:
  assumes I: "inv t" and p: "parent_of t i = Some p"
  shows "\<exists>t' sub sl. detach_subtree_for_swap t i = (t', Some (sub, sl)) \<and> departs t i p t' (dt_node sub) \<and>
    sl_parent sl = p \<and> slot_fits t' sl"
proof -
  have F: "forest {} {} t" using I by (rule invD)
  obtain t' sub where d: "detach_subtree t i = (t', Some (sub, Some p))" "departs t i p t' (dt_node sub)"
    using detach_subtree_departs [OF I p] by blast
  then obtain l cs ps m k where s: "get_split t p = Some (l, cs, ps, m)" "k < length cs" "cs ! k = i"
      "get_split t' p = Some (l, remove_at k cs, rescale (remove_at k ps), m)"
    unfolding departs_def by blast
  note sp = forest_splitD [OF F s(1)]
  have ci: "child_index t p i = Some k"
    using s(1-3) position_nth [OF sp(1) s(2)] by (simp add: child_index_def children_of_def)
  have pc: "Option.bind (percents_of t p) (\<lambda>ps. vec_get ps k) = Some (ps ! k)"
    using s(1,2) sp(3) by (simp add: percents_of_def vec_get_def)
  have nr: "i \<noteq> tree_root t" using forest_root_parent [OF F] p by auto
  have k: "k < length ps" using s(2) sp(3) by simp
  have "length (rescale xs) = length xs" for xs by (simp add: rescale_def Let_def)
  then have "length (rescale (remove_at k ps)) = length ps - 1" using k by (simp only: length_remove_at)
  then have one: "rescale (remove_at k ps) = [] \<longleftrightarrow> \<not> 1 < length ps" using k by (metis One_nat_def diff_is_0_eq leD length_0_conv not_le_imp_less)
  have "ps ! k = 1" if short: "\<not> 1 < length ps"
  proof -
    obtain x where "ps = [x]" using short k by (cases ps) auto
    then show ?thesis using sp(4) k by simp
  qed
  then have "0 < ps ! k" "ps ! k < 1 \<or> rescale (remove_at k ps) = []" "rescale (remove_at k ps) = [] \<longrightarrow> ps ! k = 1"
    using shares_nth [OF sp(4) k] share_below_one [OF sp(4) k] one by blast+
  then have "slot_fits t' sl" if "sl_parent sl = p" "sl_percent sl = ps ! k" for sl
    using s(4) that by (auto simp: slot_fits_def)
  moreover have "\<exists>sl. detach_subtree_for_swap t i = (t', Some (sub, sl)) \<and> sl_parent sl = p \<and> sl_percent sl = ps ! k"
    using nr p ci pc d(1) by (simp add: detach_subtree_for_swap_def Let_def)
  ultimately show ?thesis using d(2) by blast
qed

lemma clear_fullscreen_below_same:
  "ids (clear_fullscreen_below d) = ids d" "detached_ok (clear_fullscreen_below d) = detached_ok d"
  "detached_tiles (clear_fullscreen_below d) = detached_tiles d" "\<not> has_fullscreen (clear_fullscreen_below d)"
  "plain_height (clear_fullscreen_below d) = plain_height d"
proof (induction d)
  case (DSplit i l ds ps m pm)
  {
    case 1
    show ?case using DSplit(1) by (simp add: o_def cong: map_cong)
  next
    case 2
    show ?case using DSplit(2) by (auto simp: clear_mode_def)
  next
    case 3
    show ?case using DSplit(3) by (simp add: o_def cong: map_cong)
  next
    case 4
    show ?case using DSplit(4) by (auto simp: detached_fullscreen_def clear_mode_def bind_eq_Some_conv)
  next
    case 5
    show ?case using DSplit(5) by (simp add: image_image cong: image_cong)
  }
qed (auto simp: detached_fullscreen_def clear_mode_def bind_eq_Some_conv)

text \<open>The subtree takes over the place of the other one, fullscreen or not; nothing below is fullscreen.\<close>

definition placed :: "fullscreen_mode option \<Rightarrow> detached_node \<Rightarrow> detached_node" where
  "placed fs d = put_fullscreen fs (clear_fullscreen_below d)"

lemma placed_same:
  shows "ids (placed fs d) = ids d" "detached_tiles (placed fs d) = detached_tiles d" "plain_height (placed fs d) = plain_height d"
    "detached_ok d \<Longrightarrow> detached_ok (placed fs d)" "has_fullscreen (placed fs d) \<longleftrightarrow> fs \<noteq> None" "one_fullscreen (placed fs d)"
proof -
  have put: "ids (put_fullscreen fs e) = ids e" "detached_tiles (put_fullscreen fs e) = detached_tiles e"
      "plain_height (put_fullscreen fs e) = plain_height e" for e
    by (cases e; simp add: put_fullscreen_def)+
  show "ids (placed fs d) = ids d" "detached_tiles (placed fs d) = detached_tiles d" "plain_height (placed fs d) = plain_height d"
    by (simp_all add: placed_def put clear_fullscreen_below_same)
  have ok: "detached_ok e \<Longrightarrow> detached_ok (put_fullscreen fs e)" for e
  proof (cases e)
    case (DSplit i l ds ps m pm)
    then show "detached_ok e \<Longrightarrow> detached_ok (put_fullscreen fs e)"
      by (cases pm) (auto simp: put_fullscreen_def unwrap_or_def pending_mode_default_def)
  qed (simp add: put_fullscreen_def)
  then show "detached_ok d \<Longrightarrow> detached_ok (placed fs d)" by (simp add: placed_def clear_fullscreen_below_same)
  have none: "\<forall>y\<in>set (map snd (modes e)). pm_fullscreen y = None" if "\<not> has_fullscreen e" for e
    using that has_fullscreen_iff by blast
  have put2: "filter (\<lambda>y. pm_fullscreen y \<noteq> None) (map snd (modes (put_fullscreen fs e))) = (if fs = None then [] else
      [(unwrap_or (pending_mode_of e) pending_mode_default)\<lparr>pm_fullscreen := fs\<rparr>])" if nf: "\<not> has_fullscreen e" for e
  proof (cases e)
    case (DSplit i l ds ps m pm)
    have "modes e = own_mode i pm @ concat (map modes ds)" by (simp add: DSplit)
    then have "set (map snd (concat (map modes ds))) \<subseteq> set (map snd (modes e))" by (simp only: map_append set_append Un_upper2)
    then have "\<forall>y\<in>set (map snd (concat (map modes ds))). pm_fullscreen y = None" using none [OF nf] by (meson subsetD)
    then have "filter (\<lambda>y. pm_fullscreen y \<noteq> None) (map snd (concat (map modes ds))) = []" by (simp add: filter_empty_conv)
    then show ?thesis using DSplit by (simp add: put_fullscreen_def)
  qed (simp add: put_fullscreen_def)
  note m = put2 [OF clear_fullscreen_below_same(4) [of d]]
  show "one_fullscreen (placed fs d)" unfolding one_fullscreen_def placed_def m by simp
  have h: "has_fullscreen e \<longleftrightarrow> filter (\<lambda>y. pm_fullscreen y \<noteq> None) (map snd (modes e)) \<noteq> []" for e
    by (auto simp: has_fullscreen_iff filter_empty_conv)
  show "has_fullscreen (placed fs d) \<longleftrightarrow> fs \<noteq> None" unfolding placed_def h m by simp
qed

lemma swap_fullscreen_position_eq:
  "dt_node (fst (swap_fullscreen_position a b)) = placed (detached_fullscreen (dt_node b)) (dt_node a)"
  "dt_node (snd (swap_fullscreen_position a b)) = placed (detached_fullscreen (dt_node a)) (dt_node b)"
  by (simp_all add: swap_fullscreen_position_def placed_def Let_def)

lemma attach_subtree_for_swap_receives:
  assumes W: "wft {} {sl_parent sl} t" and lt: "\<forall>x\<in>set (ids (dt_node sub)). x < next_id t"
    and ok: "detached_ok (dt_node sub)" "one_fullscreen (dt_node sub)"
    and fs: "has_fullscreen (dt_node sub) \<longrightarrow> (\<forall>j. fullscreen_mode t j = None)" and sl: "slot_fits t sl"
    and r: "attach_subtree_for_swap t sub sl = (t', i, rm)"
  shows "wft {} {} t' \<and> receives (tile_at t) (detached_tiles (dt_node sub)) t' \<and>
    (depth_ok t \<and> node_depth t (sl_parent sl) + plain_height (dt_node sub) \<le> MAX_TREE_DEPTH \<longrightarrow> depth_ok t')"
proof -
  define p where "p = sl_parent sl"
  define d where "d = dt_node sub"
  have F: "forest {} {p} t" using W by (auto simp: p_def dest: wfD)
  obtain l cs ps m where s: "get_split t p = Some (l, cs, ps, m)" and sh: "0 < sl_percent sl" "sl_percent sl < 1 \<or> ps = []"
      "ps = [] \<longrightarrow> sl_percent sl = 1"
    using sl by (auto simp: slot_fits_def p_def)
  have pK: "contains_key t p" using s by (rule get_split_contains)
  have "bounded t" using forest_bound [OF F] by (simp add: bounded_def)
  obtain t1 i1 rm1 where ins: "insert_detached_node t d None = (t1, i1, rm1)" by (rule prod_cases3)
  from insert_detached_plants(1) [OF \<open>bounded t\<close>, of d None] obtain d' where d': "erase d' = erase d" "i1 = old_id d'"
      and P: "planted t t1 None [d']"
    using lt unfolding d_def [symmetric] ins by auto
  note e = same_erase [OF d'(1)]
  have W1: "wft {i1} {p} t1" using planted_wft [OF W P] ok fs e by (simp add: d_def p_def d'(2))
  have F1: "forest {i1} {p} t1" using W1 by (rule wfD)
  have n: "nodes t1 = nodes t ++ map_of (entries None d')" and dis: "distinct (ids d')"
    and fr: "\<forall>x\<in>set (ids d'). \<not> contains_key t x"
    using P by (auto simp: planted_def)
  note rd = planted_reads [OF n dis fr]
  have pn: "p \<notin> set (ids d')" using fr pK by blast
  have s1: "get_split t1 p = Some (l, cs, ps, m)" using rd(5) [OF pn] s by simp
  have nb: "\<not> below t1 p i1"
    using below_stays [OF F, of t1 p i1] rd(4) fr pK old_id_in d'(2) by metis
  note sp = forest_splitD [OF F1 s1]
  have cK: "contains_key t1 i1" "parent_of t1 i1 = None" using forest_detached [OF F1] by auto
  have ccs: "i1 \<notin> set cs" using sp(2) cK(2) by auto
  define k where "k = min (sl_index sl) (length cs)"
  define cs' where "cs' = insert_at k i1 cs"
  define ps' where "ps' = insert_at k (sl_percent sl) (map (\<lambda>x. x * (1 - sl_percent sl)) ps)"
  define t3 where "t3 = set_parent (set_value t1 p (Split l cs' ps' m)) i1 (Some p)"
  have "shares ps'" unfolding ps'_def using shares_insert_scaled [OF sp(4) sh(1,2)] sh(3) by blast
  then have A: "aforest (tree_root t1) (next_id t1) ({i1} - {i1}) ({p} - {p}) (contains_key t1) ((parent_of t1)(i1 := Some p))
      ((get_split t1)(p := Some (l, cs', ps', m)))"
    by (intro aforest_attach [OF F1 [unfolded forest_iff] s1 _ nb])
      (use sp ccs in \<open>simp_all add: cs'_def ps'_def k_def\<close>)
  have ne: "i1 \<noteq> p" using nb by auto
  have par: "parent_of t3 = (parent_of t1)(i1 := Some p)" and gs: "get_split t3 = (get_split t1)(p := Some (l, cs', ps', m))"
    and K3: "contains_key t3 = contains_key t1" and tl: "tile_at t3 = tile_at t1"
    using cK(1) pK rd(1) [of p] split_not_leaf [OF s1] by (auto simp: t3_def fun_eq_iff)
  have st: "strip t3 = strip t1" by (simp add: t3_def)
  have "forest {} {} t3" using A unfolding forest_iff par gs K3 by (simp add: t3_def)
  then have W3: "wft {} {} t3" by (rule wf_frame [OF W1 _ st]) (simp_all add: K3 tl, simp add: t3_def)
  define t4 where "t4 = reinsert_focus_history t3 (dt_focus_history sub) (sl_focus_rank sl)"
  have W4: "wft {} {} t4" "nodes t4 = nodes t3" using reinsert_focus_history_wft [OF W3] by (simp_all add: t4_def)
  define t5 where "t5 = (if sl_focused sl \<or> focus t4 = None then set_focus_id t4 (focused_leaf_in t4 i1) else t4)"
  have i4: "contains_key t4 i1" using same_nodes_reads(1) [OF W4(2)] K3 cK(1) by simp
  have "wft {} {} (set_focus_id t4 (focused_leaf_in t4 i1))"
    using wf_set_focus_id [OF W4(1), of "focused_leaf_in t4 i1"] focused_leaf_in_props(3) [OF wfD(1) [OF W4(1)] i4] by blast
  then have W5: "wft {} {} t5" "nodes t5 = nodes t3" using W4 by (simp_all add: t5_def)
  have "attach_subtree_for_swap t sub sl = (request_window_sizes t5, i1, rm1)"
    using s s1 cK(1) pK rd(1) [of p] unfolding attach_subtree_for_swap_def p_def [symmetric] d_def [symmetric]
    by (simp add: ins Let_def k_def [symmetric] cs'_def [symmetric] ps'_def [symmetric] expect_set_parent_def
        t3_def [symmetric] t4_def [symmetric] t5_def is_split_def)
  then have t': "t' = request_window_sizes t5" using r by simp
  have "tile_at t' = tile_at t ++ map_of (leaf_entries d')"
    using same_nodes_reads(4) [of t' t3] W5(2) tl planted_tiles [OF n dis fr] by (simp add: t' calls_are_log)
  moreover have "tile_at t x = None" if "x \<in> set (ids d')" for x using fr that tile_at_contains by (cases "tile_at t x") auto
  ultimately have "receives (tile_at t) (detached_tiles d) t'" unfolding receives_def
    using erase_leaf_tiles [of d'] e(5) leaf_ids [of d'] distinct_leaf_ids [OF dis]
    by (intro exI [of _ "leaf_entries d'"]) auto
  moreover have "depth_ok t3" if "depth_ok t" "node_depth t p + plain_height d \<le> MAX_TREE_DEPTH"
    using planted_depth [OF F P wfD(1) [OF W3]] par K3 rd(1) d'(2) pK e(2) that by simp
  moreover have "depth_ok t' = depth_ok t3"
    using same_nodes_reads [OF W5(2)] W4(2) reinsert_focus_history_wft [OF W3, of "dt_focus_history sub" "sl_focus_rank sl"]
    by (simp add: t' calls_are_log) (rule depth_ok_cong, simp_all add: t5_def t4_def)
  ultimately show ?thesis using W5(1) by (simp add: t' calls_are_log d_def p_def)
qed

lemma stored_height_le:
  assumes F: "forest D E t" and s: "stored t q d" and b: "old_id d = b" "contains_key t b"
  shows "plain_height d \<le> subtree_height t b"
proof -
  have dis: "distinct (ids d)" using s by (simp add: stored_def)
  obtain x where x: "x \<in> set (ids d)" "Suc (depth_at d x) = plain_height d" using plain_height_attained [OF dis] by blast
  have "(x, b) \<in> steps t (depth_at d x)" using x(1)
  proof (induction "depth_at d x" arbitrary: x)
    case 0
    then have "x = old_id d" using depth_at_parent [OF _ _ _ dis] entries_parent [OF _ _ dis] ids_have_entry
      by (metis nat.distinct(1))
    then show ?case using b(1) 0 by simp
  next
    case (Suc n)
    have ne: "x \<noteq> old_id d" using Suc.hyps(2) by (cases d) auto
    obtain y where y: "(x, y) \<in> set (entries q d)" using ids_have_entry [OF Suc.prems] by blast
    obtain a where a: "parent y = Some a" "a \<in> set (ids d)" using entries_parent [OF y ne dis] entries_ids by blast
    have pa: "parent_of t x = Some a" using s y a(1) by (auto simp: stored_def parent_of_def)
    have da: "depth_at d x = Suc (depth_at d a)" by (rule depth_at_parent [OF y ne a(1) dis])
    then have "(a, b) \<in> steps t (depth_at d a)" using Suc.hyps a(2) by simp
    then show ?case unfolding da using pa by (intro relpow_Suc_I2) auto
  qed
  then have "depth_at d x < subtree_height t b" by (rule subtree_height_bound [OF F b(2)])
  then show ?thesis using x(2) by simp
qed

lemma stored_height_eq:
  assumes F: "forest D E t" and s: "stored t q d" and b: "old_id d = b" "contains_key t b" and ids: "set (ids d) = under t b"
  shows "plain_height d = subtree_height t b"
proof (rule antisym)
  show "plain_height d \<le> subtree_height t b" by (rule stored_height_le [OF F s b])
  have dis: "distinct (ids d)" using s by (simp add: stored_def)
  have "n \<le> plain_height d - 1" if n: "n \<in> chain_lengths t b" for n
  proof -
    obtain j where j: "(j, b) \<in> steps t n" using n by (auto simp: chain_lengths_def)
    have u: "j \<in> under t b" using relpow_imp_rtrancl [OF j] by (simp add: under_def)
    then have "node_depth t j = n + node_depth t b" using node_depth_step [OF F j under_keys [OF b(2)]] by blast
    moreover have "node_depth t j = node_depth t b + depth_at d j" using stored_depth [OF F s] u ids b(1) by simp
    ultimately show ?thesis using depth_at_height [of j d] dis u ids by simp
  qed
  then have "deepest t b \<le> plain_height d - 1" using deepest_le [OF F] by blast
  moreover have "0 < plain_height d" by (cases d) simp_all
  ultimately show "subtree_height t b \<le> plain_height d" using subtree_height_eq [OF F b(2)] by simp
qed

text \<open>One half of the exchange: a tree whose subtree has left takes in another one.\<close>

lemma exchange_half:
  assumes I: "inv s" and p: "parent_of s a = Some p" and dp: "departs s a p s1 d" and sl: "sl_parent sl = p" "slot_fits s1 sl"
    and e: "detached_ok e" "\<forall>x\<in>set (ids e). x < next_id s" "plain_height e \<le> h" and fits: "fits_at s a h"
    and sub: "dt_node sub = placed (detached_fullscreen d) e"
    and r: "attach_subtree_for_swap s1 sub sl = (s2, i, rm)"
  shows "inv (finish_subtree_detach s2 None)"
    "receives (tile_at s1) (detached_tiles e) (finish_subtree_detach s2 None)"
    "depth_ok s \<Longrightarrow> depth_ok (finish_subtree_detach s2 None)"
proof -
  have F: "forest {} {} s" using I by (rule invD)
  have D: "wft {} {p} s1" "old_id d = a" "set (ids d) = under s a" "stored s (Some p) d" "next_id s1 = next_id s"
      "tree_root s1 = tree_root s" "shortcuts s s1"
      "fullscreen_mode s1 = (\<lambda>x. if x \<in> under s a then None else fullscreen_mode s x)"
      "contains_key s1 = (\<lambda>x. contains_key s x \<and> x \<notin> under s a)"
    using dp by (auto simp: departs_def)
  note pl = placed_same [where fs = "detached_fullscreen d" and d = e]
  have "fullscreen_mode s a = detached_fullscreen d"
  proof -
    have "pending_modes s a = map_of (modes d) a" "distinct (ids d)" using D(2,4) old_id_in [of d] by (auto simp: stored_def)
    moreover have "map_of (modes d) a = pending_mode_of d" if "distinct (ids d)"
      using that D(2) modes_own by (cases d) (auto split: option.splits simp del: modes.simps, cases "pending_mode_of d", auto)
    ultimately show ?thesis by (simp add: fullscreen_mode_def detached_fullscreen_def)
  qed
  then have fs: "has_fullscreen (dt_node sub) \<longrightarrow> (\<forall>j. fullscreen_mode s1 j = None)"
    using pl(5) D(8) invD(6) [OF I] unfolding sub modes_ok_def by (metis under_def mem_Collect_eq rtrancl.rtrancl_refl)
  have W: "wft {} {sl_parent sl} s1" using D(1) sl(1) by simp
  have A: "wft {} {} s2 \<and> receives (tile_at s1) (detached_tiles (dt_node sub)) s2 \<and>
      (depth_ok s1 \<and> node_depth s1 (sl_parent sl) + plain_height (dt_node sub) \<le> MAX_TREE_DEPTH \<longrightarrow> depth_ok s2)"
    by (rule attach_subtree_for_swap_receives [OF W _ _ _ fs sl(2) r]) (use pl e D(5) in \<open>simp_all add: sub\<close>)
  have fin: "wft {} (set_option None) s2" using A by simp
  note f = finish_subtree_detach_inv [OF fin]
  show "inv (finish_subtree_detach s2 None)" by (rule f)
  show "receives (tile_at s1) (detached_tiles e) (finish_subtree_detach s2 None)"
    using A f(2) pl(2) by (simp add: receives_def sub)
  assume ok: "depth_ok s"
  have K: "contains_key s1 x \<Longrightarrow> contains_key s x" for x using D(9) by simp
  have sd: "node_depth s1 x \<le> node_depth s x" if "contains_key s1 x" for x
    using shortcut_depth [OF F wfD(1) [OF D(1)] D(6,7) _ that] K by blast
  have ok1: "depth_ok s1" using sd ok K unfolding depth_ok_def by (meson order_trans)
  have pK: "contains_key s1 p" using sl by (auto simp: slot_fits_def intro: get_split_contains)
  have "node_depth s a = Suc (node_depth s p)" by (rule node_depth_child [OF F p])
  then have "node_depth s1 p + plain_height (dt_node sub) \<le> MAX_TREE_DEPTH"
    using sd [OF pK] fits e(3) pl(3) by (simp add: sub fits_at_def)
  then show "depth_ok (finish_subtree_detach s2 None)" using A ok1 f(6) sl(1) by simp
qed

lemma departs_tiles:
  assumes "forest D E t" "departs t i p t' d"
  shows "tile_at t' = (\<lambda>x. if contains_node t i x then None else tile_at t x)"
  using assms contains_node_iff [OF assms(1)] by (simp add: departs_def under_def)

text \<open>A swap that is refused changes nothing; otherwise each tree gets the windows of the other subtree.\<close>

definition exchanges :: "tree \<Rightarrow> nid \<Rightarrow> tile list \<Rightarrow> tile list \<Rightarrow> tree \<Rightarrow> bool" where
  "exchanges t i ws vs t' \<longleftrightarrow> inv t' \<and> (depth_ok t \<longrightarrow> depth_ok t') \<and> windows_below t i ws \<and>
     receives (\<lambda>x. if contains_node t i x then None else tile_at t x) vs t'"

lemma swap_between_exchanges:
  assumes I: "inv s" "inv t" and p: "parent_of s a = Some p" and q: "parent_of t b = Some q"
    and lt: "\<forall>x. contains_key s x \<longrightarrow> x < next_id t" "\<forall>x. contains_key t x \<longrightarrow> x < next_id s"
    and fits: "fits_at s a (node_height t b)" "fits_at t b (node_height s a)"
  shows "\<exists>s' t' m ws vs. swap_tiling_nodes_between_workspaces s a t b = ((s', t'), Inr m) \<and>
    exchanges s a ws vs s' \<and> exchanges t b vs ws t'"
proof -
  have F: "forest {} {} s" "forest {} {} t" and W: "wft {} {} s" "wft {} {} t" using I by (auto dest: invD)
  obtain s1 A sa where A: "detach_subtree_for_swap s a = (s1, Some (A, sa))" "departs s a p s1 (dt_node A)"
      "sl_parent sa = p" "slot_fits s1 sa"
    using detach_subtree_for_swap_departs [OF I(1) p] by blast
  obtain t1 B tb where B: "detach_subtree_for_swap t b = (t1, Some (B, tb))" "departs t b q t1 (dt_node B)"
      "sl_parent tb = q" "slot_fits t1 tb"
    using detach_subtree_for_swap_departs [OF I(2) q] by blast
  note dA = departs_detached [OF W(1) A(2)] and dB = departs_detached [OF W(2) B(2)]
  have hA: "plain_height (dt_node A) \<le> node_height s a"
    using stored_height_le [OF F(1), of "Some p" "dt_node A" a] A(2) parent_of_contains [OF p]
    by (simp add: departs_def node_height_def)
  have hB: "plain_height (dt_node B) \<le> node_height t b"
    using stored_height_le [OF F(2), of "Some q" "dt_node B" b] B(2) parent_of_contains [OF q]
    by (simp add: departs_def node_height_def)
  obtain s2 i rs where as: "attach_subtree_for_swap s1 (snd (swap_fullscreen_position A B)) sa = (s2, i, rs)" by (rule prod_cases3)
  obtain t2 j rt where at: "attach_subtree_for_swap t1 (fst (swap_fullscreen_position A B)) tb = (t2, j, rt)" by (rule prod_cases3)
  note sf = swap_fullscreen_position_eq [of A B]
  have lB: "\<forall>x\<in>set (ids (dt_node B)). x < next_id s" and lA: "\<forall>x\<in>set (ids (dt_node A)). x < next_id t"
    using dA(5) dB(5) lt by blast+
  note S = exchange_half [OF I(1) p A(2,3,4) dB(1) lB hB fits(1) sf(2) as]
  note T = exchange_half [OF I(2) q B(2,3,4) dA(1) lA hA fits(2) sf(1) at]
  have "exchanges s a (detached_tiles (dt_node A)) (detached_tiles (dt_node B)) (finish_subtree_detach s2 None)"
    using S dA(3) departs_tiles [OF F(1) A(2)] by (simp add: exchanges_def)
  moreover have "exchanges t b (detached_tiles (dt_node B)) (detached_tiles (dt_node A)) (finish_subtree_detach t2 None)"
    using T dB(3) departs_tiles [OF F(2) B(2)] by (simp add: exchanges_def)
  moreover have "swap_tiling_nodes_between_workspaces s a t b =
      ((finish_subtree_detach s2 None, finish_subtree_detach t2 None), Inr \<lparr>sr_first = rt, sr_second = rs\<rparr>)"
    using fits A(1) B(1) as at by (simp add: swap_tiling_nodes_between_workspaces_def case_prod_beta Let_def)
  ultimately show ?thesis by blast
qed

section \<open>Moving a subtree\<close>

lemma move_between_trees:
  assumes I: "inv s" "inv t" and p: "parent_of s i = Some p" and lt: "\<forall>x. contains_key s x \<longrightarrow> x < next_id t"
    and tg: "\<forall>j. target = Some j \<longrightarrow> contains_key t j"
  shows "\<exists>s' sub t' j remapped. detach_subtree s i = (s', Some (sub, Some p)) \<and>
    attach_subtree_at t sub target = (t', j, remapped) \<and>
    windows_below s i (detached_tiles (dt_node sub)) \<and> inv (finish_subtree_detach s' (Some p)) \<and>
    tile_at (finish_subtree_detach s' (Some p)) = (\<lambda>x. if contains_node s i x then None else tile_at s x) \<and>
    inv t' \<and> receives (tile_at t) (detached_tiles (dt_node sub)) t' \<and>
    (depth_ok s \<and> depth_ok t \<longrightarrow> depth_ok (finish_subtree_detach s' (Some p)) \<and> depth_ok t')"
proof -
  have F: "forest {} {} s" and W: "wft {} {} s" using I by (auto dest: invD)
  obtain s' sub where d: "detach_subtree s i = (s', Some (sub, Some p))" "departs s i p s' (dt_node sub)"
    using detach_subtree_departs [OF I(1) p] by blast
  note dd = departs_detached [OF W d(2)]
  have W': "wft {} (set_option (Some p)) s'" using d(2) by (simp add: departs_def)
  note f = finish_subtree_detach_inv [OF W']
  have l: "\<forall>x\<in>set (ids (dt_node sub)). x < next_id t" using dd(5) lt by blast
  obtain t' j rm where a: "attach_subtree_at t sub target = (t', j, rm)" by (rule prod_cases3)
  note at = attach_subtree_with_receives [OF I(2) l dd(1,2) _ a [unfolded attach_subtree_at_def]]
  have "depth_ok s'" if "depth_ok s"
    using that shortcut_depth [OF F, of "{p}" s'] d(2) unfolding departs_def wft_def depth_ok_def
    by (metis (no_types, lifting) order_trans)
  then show ?thesis using d(1) a at tg f dd(3,4) departs_tiles [OF F d(2)] by auto
qed

lemma detach_attach_same_tree:
  assumes I: "inv t" and p: "parent_of t i = Some p" and d: "detach_subtree t i = (t1, Some (sub, op))"
    and u: "u = finish_subtree_detach t1 op" and ne: "\<not> is_empty u" and a: "attach_subtree u sub = (t', j, rm)"
  shows "j = i" "rm = []" "inv t'" "tile_at t' = tile_at t"
    "\<forall>x. contains_node t i x \<and> x \<noteq> i \<longrightarrow> nodes t' x = nodes t x"
proof -
  have F: "forest {} {} t" and W: "wft {} {} t" using I by (auto dest: invD)
  have dp: "departs t i p t1 (dt_node sub)" and op: "op = Some p" using detach_subtree_departs [OF I p] d by auto
  note dd = departs_detached [OF W dp]
  define e where "e = dt_node sub"
  have D: "old_id e = i" "set (ids e) = under t i" "stored t (Some p) e" "next_id t1 = next_id t"
      "tile_at t1 = (\<lambda>x. if x \<in> under t i then None else tile_at t x)"
      "contains_key t1 = (\<lambda>x. contains_key t x \<and> x \<notin> under t i)"
    using dp by (auto simp: departs_def e_def)
  have dis: "distinct (ids e)" using D(3) by (simp add: stored_def)
  have W1: "wft {} (set_option (Some p)) t1" using dp by (simp add: departs_def)
  note f = finish_subtree_detach_inv [OF W1, folded op, folded u]
  have lt: "\<forall>x\<in>set (ids e). x < next_id u" using dd(5) forest_bound [OF F] f(5) D(4) by (simp add: e_def)
  have fr: "free_ids u [e]" using dis f(3) D(2,6) by (auto simp: free_ids_def)
  have tg: "focus u = Some k \<Longrightarrow> contains_key u k" for k using invD(2) [OF f(1)] by (simp add: focus_in_def)
  note at = attach_subtree_with_receives [OF f(1) lt [unfolded e_def] dd(1,2) tg a [unfolded attach_subtree_def attach_subtree_at_def]]
  obtain e' where e': "attached u e e' t'" "j = old_id e'" "free_ids u [e] \<longrightarrow> e' = e \<and> rm = []"
    using at(4) ne by (auto simp: e_def)
  have h: "attached u e e t'" "j = i" "rm = []" using e' fr D(1) by auto
  show "j = i" "rm = []" "inv t'" using h at(1) by simp_all
  have tl: "tile_at t' = tile_at u ++ map_of (leaf_entries e)" using h(1) by (simp add: attached_def)
  show "tile_at t' = tile_at t"
  proof
    fix x
    have sl: "set (leaf_entries e) = {(x, w). x \<in> under t i \<and> tile_at t x = Some w}" using stored_leaves [OF D(3)] D(2) by simp
    have "map_of (leaf_entries e) x = (if x \<in> under t i then tile_at t x else None)"
    proof (cases "x \<in> under t i \<and> tile_at t x \<noteq> None")
      case True
      then obtain w where "(x, w) \<in> set (leaf_entries e)" "tile_at t x = Some w" using sl by auto
      then show ?thesis using True map_of_is_SomeI [OF distinct_leaf_ids [OF dis]] by simp
    next
      case False
      then have "map_of (leaf_entries e) x = None" using sl by (auto simp: map_of_eq_None_iff)
      then show ?thesis using False by auto
    qed
    then show "tile_at t' x = tile_at t x" using f(2) D(5) by (auto simp: tl map_add_def split: option.split)
  qed
  show "\<forall>x. contains_node t i x \<and> x \<noteq> i \<longrightarrow> nodes t' x = nodes t x"
  proof (intro allI impI)
    fix x assume x: "contains_node t i x \<and> x \<noteq> i"
    then have "x \<in> set (ids e)" using contains_node_iff [OF F] D(2) by (simp add: under_def)
    then obtain y where y: "(x, y) \<in> set (entries (Some p) e)" using ids_have_entry by blast
    then have "nodes t x = Some y" using D(3) by (auto simp: stored_def)
    moreover have "(x, y) \<in> set (entries (parent_of t' (old_id e)) e)"
      using entries_reparent(1) [OF y dis, of "parent_of t' (old_id e)"] x D(1) by simp
    then have "nodes t' x = Some y" using h(1) by (auto simp: attached_def holds_def)
    ultimately show "nodes t' x = nodes t x" by simp
  qed
qed

text \<open>A higher counter, as another tree leaves it, keeps a tree well formed.\<close>

lemma inv_counter:
  assumes "inv t" "next_id t \<le> n"
  shows "inv (t\<lparr>next_id := n\<rparr>)"
proof -
  have "forest {} {} (t\<lparr>next_id := n\<rparr>)"
    using invD(4) [OF assms(1)] assms(2) same_nodes_reads [of "t\<lparr>next_id := n\<rparr>" t]
    by (auto simp: forest_def tops_def empties_def linked_def is_split_def)
  moreover have "side_ok (t\<lparr>next_id := n\<rparr>)" "modes_ok (t\<lparr>next_id := n\<rparr>)"
    using invD(5,6) [OF assms(1)] same_nodes_reads [of "t\<lparr>next_id := n\<rparr>" t]
    by (simp_all add: side_ok_def modes_ok_def fullscreen_mode_def)
  ultimately show ?thesis
    using assms(1) same_nodes_reads [of "t\<lparr>next_id := n\<rparr>" t] by (simp add: inv_def wft_def focus_in_def)
qed

end
