(* ===== verification/Workspace_Naming.thy ===== *)
theory Workspace_Naming
  imports Prelude
begin

text \<open>
  Workspace names, numbers and identities: the decimal prefix of a name, the identity a name
  gives a workspace (\<^verbatim>\<open>layout/workspace_naming.rs\<close>), the identity methods of a workspace
  (\<^verbatim>\<open>layout/workspace/identity.rs\<close>), and the rules that choose the name of an output's first
  workspace. Numbers are \<^verbatim>\<open>i32\<close>: \<open>parse_i32\<close> fails beyond \<open>i32_max\<close>. A workspace's contents are
  reduced to the windows of its tiling tree and of its floating roots, with the sticky flags: what
  the lifecycle of workspaces reads of them.
\<close>

section \<open>Searching by a predicate\<close>

text \<open>\<^verbatim>\<open>iter().position(pred)\<close>.\<close>

fun position_by :: "('a \<Rightarrow> bool) \<Rightarrow> 'a list \<Rightarrow> nat option" where
  "position_by P [] = None"
| "position_by P (x # xs) = (if P x then Some 0 else map_option Suc (position_by P xs))"

lemma position_by_Some:
  "position_by P xs = Some i \<Longrightarrow> i < length xs \<and> P (xs ! i)"
  by (induction xs arbitrary: i) (auto split: if_splits)

lemma position_by_None [simp]: "position_by P xs = None \<longleftrightarrow> (\<forall>x\<in>set xs. \<not> P x)"
  by (induction xs) auto

lemma position_by_key:
  assumes "distinct (map f xs)" "i < length xs"
  shows "position_by (\<lambda>x. f x = f (xs ! i)) xs = Some i"
  using assms by (induction xs arbitrary: i) (auto simp: nth_Cons split: nat.splits)

section \<open>Decimal numbers\<close>

definition ascii_digits :: string where
  "ascii_digits = ''0123456789''"

definition is_ascii_digit :: "char \<Rightarrow> bool" where
  "is_ascii_digit c \<longleftrightarrow> c \<in> set ascii_digits"

definition digit_value :: "char \<Rightarrow> int" where
  "digit_value c = (case position c ascii_digits of Some i \<Rightarrow> int i | None \<Rightarrow> 0)"

definition dec_value :: "string \<Rightarrow> int" where
  "dec_value ds = foldl (\<lambda>n c. 10 * n + digit_value c) 0 ds"

definition i32_max :: int where
  "i32_max = 2147483647"

text \<open>\<^verbatim>\<open>str::parse::<i32>\<close> on a string of digits, and \<^verbatim>\<open>i32::to_string\<close>.\<close>

definition parse_i32 :: "string \<Rightarrow> int option" where
  "parse_i32 ds = (let v = dec_value ds in if v \<le> i32_max then Some v else None)"

fun nat_digits :: "nat \<Rightarrow> string" where
  "nat_digits n =
    (if n < 10 then [ascii_digits ! n] else nat_digits (n div 10) @ [ascii_digits ! (n mod 10)])"

declare nat_digits.simps [simp del]

definition i32_to_string :: "int \<Rightarrow> string" where
  "i32_to_string i = (if i < 0 then ''-'' @ nat_digits (nat (- i)) else nat_digits (nat i))"

definition parse_workspace_num :: "string \<Rightarrow> int option" where
  "parse_workspace_num name =
    (let ds = takeWhile is_ascii_digit name in if ds = [] then None else parse_i32 ds)"

definition sway_workspace_num :: "string \<Rightarrow> int" where
  "sway_workspace_num name = unwrap_or (parse_workspace_num name) (- 1)"

text \<open>
  The loop of \<^verbatim>\<open>workspace_name_matches_number\<close> eats one character of the name per digit of the
  target; \<open>None\<close> is its early \<^verbatim>\<open>return false\<close>, \<open>Some\<close> what is left of the name.
\<close>

fun consume_digits :: "string \<Rightarrow> string \<Rightarrow> string option" where
  "consume_digits name [] = Some name"
| "consume_digits [] (d # ds) = None"
| "consume_digits (c # cs) (d # ds) = (if c = d then consume_digits cs ds else None)"

definition workspace_name_matches_number :: "string \<Rightarrow> string \<Rightarrow> bool" where
  "workspace_name_matches_number name target =
    (case consume_digits name (takeWhile is_ascii_digit target) of
       None \<Rightarrow> False
     | Some [] \<Rightarrow> True
     | Some (c # _) \<Rightarrow> \<not> is_ascii_digit c)"

definition sway_identity_from_name :: "string \<Rightarrow> string option \<times> int option" where
  "sway_identity_from_name name =
    (let number = parse_workspace_num name;
         keep_name = (case number of None \<Rightarrow> True | Some n \<Rightarrow> name \<noteq> i32_to_string n)
     in (if keep_name then Some name else None, number))"

definition ascii_upper :: string where
  "ascii_upper = ''ABCDEFGHIJKLMNOPQRSTUVWXYZ''"

definition ascii_lower :: string where
  "ascii_lower = ''abcdefghijklmnopqrstuvwxyz''"

definition to_ascii_lowercase :: "char \<Rightarrow> char" where
  "to_ascii_lowercase c = (case position c ascii_upper of Some i \<Rightarrow> ascii_lower ! i | None \<Rightarrow> c)"

definition eq_ignore_ascii_case :: "string \<Rightarrow> string \<Rightarrow> bool" where
  "eq_ignore_ascii_case a b \<longleftrightarrow> map to_ascii_lowercase a = map to_ascii_lowercase b"

section \<open>Workspaces\<close>

text \<open>
  A floating root that is one window (\<^verbatim>\<open>FloatingEntry\<close>) with its tile's sticky flag and whether its
  pending sizing mode is normal, and a floating root that is a group (\<^verbatim>\<open>FloatingTreeEntry\<close>).
\<close>

record float_entry =
  fe_window :: nat
  fe_sticky :: bool
  fe_normal :: bool

record float_tree =
  ft_root :: nat
  ft_windows :: "nat list"
  ft_sticky :: bool

record workspace =
  ws_id :: nat
  ws_name :: "string option"
  ws_number :: "int option"
  ws_persistent :: bool
  ws_output :: "nat option"
  ws_tiling :: "nat list"
  ws_entries :: "float_entry list"
  ws_trees :: "float_tree list"

definition ws_windows :: "workspace \<Rightarrow> nat list" where
  "ws_windows ws = ws_tiling ws @ map fe_window (ws_entries ws) @ concat (map ft_windows (ws_trees ws))"

definition has_windows :: "workspace \<Rightarrow> bool" where
  "has_windows ws \<longleftrightarrow> ws_windows ws \<noteq> []"

definition sway_name :: "workspace \<Rightarrow> string option" where
  "sway_name ws = or_else (ws_name ws) (map_option i32_to_string (ws_number ws))"

definition sway_display_name :: "workspace \<Rightarrow> nat \<Rightarrow> string" where
  "sway_display_name ws index = unwrap_or (sway_name ws) (nat_digits (index + 1))"

definition sway_display_number :: "workspace \<Rightarrow> nat \<Rightarrow> int" where
  "sway_display_number ws index =
    (case ws_number ws of
       Some n \<Rightarrow> n
     | None \<Rightarrow>
         (case ws_name ws of
            None \<Rightarrow> (if int (index + 1) \<le> i32_max then int (index + 1) else - 1)
          | Some name \<Rightarrow> sway_workspace_num name))"

definition set_sway_identity :: "string option \<Rightarrow> int option \<Rightarrow> workspace \<Rightarrow> workspace" where
  "set_sway_identity name number ws = ws\<lparr>ws_name := name, ws_number := number\<rparr>"

definition set_persistent_name :: "string \<Rightarrow> workspace \<Rightarrow> workspace" where
  "set_persistent_name name ws = ws\<lparr>ws_name := Some name, ws_number := None, ws_persistent := True\<rparr>"

definition set_persistent :: "bool \<Rightarrow> workspace \<Rightarrow> workspace" where
  "set_persistent p ws = ws\<lparr>ws_persistent := p\<rparr>"

definition has_sway_identity :: "workspace \<Rightarrow> bool" where
  "has_sway_identity ws \<longleftrightarrow> ws_name ws \<noteq> None \<or> ws_number ws \<noteq> None"

definition must_be_kept :: "workspace \<Rightarrow> bool" where
  "must_be_kept ws \<longleftrightarrow> has_windows ws \<or> ws_persistent ws"

definition unname :: "workspace \<Rightarrow> workspace" where
  "unname ws = ws\<lparr>ws_name := None, ws_number := None, ws_persistent := False\<rparr>"

text \<open>\<^verbatim>\<open>Workspace::new\<close> on an output: no identity, not persistent, empty, with the next id.\<close>

definition workspace_new :: "nat \<Rightarrow> nat \<Rightarrow> workspace" where
  "workspace_new wid output =
    \<lparr>ws_id = wid, ws_name = None, ws_number = None, ws_persistent = False,
     ws_output = Some output, ws_tiling = [], ws_entries = [], ws_trees = []\<rparr>"

section \<open>Targets\<close>

datatype workspace_target =
  TgName string | TgNumber string | TgNext | TgPrev | TgNextOnOutput | TgPrevOnOutput
| TgBackAndForth | TgCurrent

definition workspace_matches_target :: "workspace \<Rightarrow> workspace_target \<Rightarrow> bool" where
  "workspace_matches_target ws target =
    (case target of
       TgNumber value \<Rightarrow>
         has_sway_identity ws \<and>
         (case sway_name ws of Some name \<Rightarrow> workspace_name_matches_number name value | None \<Rightarrow> False)
     | TgName value \<Rightarrow>
         (case sway_name ws of Some name \<Rightarrow> eq_ignore_ascii_case name value | None \<Rightarrow> False)
     | _ \<Rightarrow> False)"

datatype naming_error = InvalidWorkspaceNumber string | RelativeTarget

definition sway_workspace_identity ::
    "workspace_target \<Rightarrow> naming_error + (string option \<times> int option)" where
  "sway_workspace_identity target =
    (case target of
       TgNumber name \<Rightarrow>
         (case parse_workspace_num name of
            None \<Rightarrow> Inl (InvalidWorkspaceNumber name)
          | Some n \<Rightarrow> Inr (if name \<noteq> i32_to_string n then Some name else None, Some n))
     | TgName name \<Rightarrow> Inr (sway_identity_from_name name)
     | _ \<Rightarrow> Inl RelativeTarget)"

section \<open>Free numbers\<close>

text \<open>
  \<^verbatim>\<open>(1..).find(|n| !used.contains(n))\<close>: among the first \<open>length used + 1\<close> candidates one is free,
  so the bounded search below finds what the unbounded iterator finds.
\<close>

definition first_free :: "int list \<Rightarrow> int option" where
  "first_free used = find (\<lambda>n. n \<notin> set used) [1..int (length used) + 1]"

text \<open>
  What the naming rules read of the layout: each workspace with the output of its monitor and its
  index there, the outputs of the monitors, the workspace configurations and the names bound in
  the configuration. \<open>om\<close> is \<^verbatim>\<open>output_matches_name\<close>, which compares the connector and the
  make, model and serial number the output carries with a name.
\<close>

record workspace_config =
  wc_name :: string
  wc_open_on_output :: "string option"
  wc_sway_output_assignment :: "string list option"

record naming_state =
  ns_workspaces :: "(nat option \<times> nat \<times> workspace) list"
  ns_outputs :: "nat list"
  ns_active_monitor :: nat
  ns_configs :: "workspace_config list"
  ns_initial_names :: "string list"

definition workspace_assignment :: "workspace_config \<Rightarrow> string list option" where
  "workspace_assignment c =
    or_else (wc_sway_output_assignment c) (map_option (\<lambda>output. [output]) (wc_open_on_output c))"

definition config_named :: "naming_state \<Rightarrow> string \<Rightarrow> workspace_config option" where
  "config_named st name = find (\<lambda>c. wc_name c = name) (ns_configs st)"

definition workspace_assigned_to_output ::
    "(nat \<Rightarrow> string \<Rightarrow> bool) \<Rightarrow> naming_state \<Rightarrow> string \<Rightarrow> nat \<Rightarrow> bool" where
  "workspace_assigned_to_output om st name output =
    (case config_named st name of
       None \<Rightarrow> False
     | Some c \<Rightarrow>
         (case workspace_assignment c of
            None \<Rightarrow> False
          | Some outputs \<Rightarrow>
              (case find (\<lambda>n. om output n \<or> (\<exists>o'\<in>set (ns_outputs st). om o' n)) outputs of
                 None \<Rightarrow> False
               | Some n \<Rightarrow> om output n)))"

definition workspace_valid_on_output ::
    "(nat \<Rightarrow> string \<Rightarrow> bool) \<Rightarrow> naming_state \<Rightarrow> string \<Rightarrow> nat \<Rightarrow> bool" where
  "workspace_valid_on_output om st name output =
    (case config_named st name of
       None \<Rightarrow> True
     | Some c \<Rightarrow>
         if workspace_assignment c = None then True
         else workspace_assigned_to_output om st name output)"

text \<open>The numbers that configured assignments reserve for another output.\<close>

definition reserved_numbers ::
    "(nat \<Rightarrow> string \<Rightarrow> bool) \<Rightarrow> naming_state \<Rightarrow> nat \<Rightarrow> int list" where
  "reserved_numbers om st output =
    List.map_filter (\<lambda>c.
      case workspace_assignment c of
        None \<Rightarrow> None
      | Some outputs \<Rightarrow>
          if workspace_assigned_to_output om st (wc_name c) output then None
          else if \<not> (\<exists>n\<in>set outputs. \<exists>o'\<in>set (ns_outputs st). om o' n) then None
          else parse_workspace_num (wc_name c)) (ns_configs st)"

definition used_numbers :: "naming_state \<Rightarrow> int list" where
  "used_numbers st =
    filter (\<lambda>n. 0 < n)
      (List.map_filter parse_workspace_num
        (List.map_filter (\<lambda>(_, _, ws). sway_name ws) (ns_workspaces st)))"

definition next_free_workspace_identity_for_output ::
    "(nat \<Rightarrow> string \<Rightarrow> bool) \<Rightarrow> naming_state \<Rightarrow> nat option \<Rightarrow> (string option \<times> int option) option" where
  "next_free_workspace_identity_for_output om st output =
    (let used = used_numbers st @ (case output of None \<Rightarrow> [] | Some o' \<Rightarrow> reserved_numbers om st o')
     in map_option (\<lambda>n. (None, Some n)) (first_free used))"

definition next_initial_workspace_name_for_output ::
    "(nat \<Rightarrow> string \<Rightarrow> bool) \<Rightarrow> naming_state \<Rightarrow> nat option \<Rightarrow> string option" where
  "next_initial_workspace_name_for_output om st output =
    (let existing = List.map_filter (\<lambda>(_, _, ws). sway_name ws) (ns_workspaces st);
         unused = (\<lambda>name. \<not> (\<exists>e\<in>set existing. eq_ignore_ascii_case e name))
     in case output of
          None \<Rightarrow> None
        | Some o' \<Rightarrow>
            (case find (\<lambda>c. workspace_assigned_to_output om st (wc_name c) o')
                    (filter (\<lambda>c. unused (wc_name c)) (ns_configs st)) of
               Some c \<Rightarrow> Some (wc_name c)
             | None \<Rightarrow>
                 find (\<lambda>name. unused name \<and> workspace_valid_on_output om st name o')
                   (ns_initial_names st)))"

text \<open>The identity of the workspace that replaces one leaving an output.\<close>

definition replacement_identity_for ::
    "(nat \<Rightarrow> string \<Rightarrow> bool) \<Rightarrow> naming_state \<Rightarrow> nat option \<Rightarrow> (string option \<times> int option) option" where
  "replacement_identity_for om st old_output =
    (case old_output of
       Some _ \<Rightarrow>
         (case next_initial_workspace_name_for_output om st old_output of
            Some name \<Rightarrow> Some (sway_identity_from_name name)
          | None \<Rightarrow> next_free_workspace_identity_for_output om st old_output)
     | None \<Rightarrow> next_free_workspace_identity_for_output om st old_output)"

definition initial_monitor_for_workspace ::
    "(nat \<Rightarrow> string \<Rightarrow> bool) \<Rightarrow> naming_state \<Rightarrow> string \<Rightarrow> nat option" where
  "initial_monitor_for_workspace om st name =
    (if ns_outputs st = [] then None
     else
       let assigned =
         Option.bind (config_named st name) (\<lambda>c.
           Option.bind (workspace_assignment c) (\<lambda>outputs.
             find_map (\<lambda>n. position_by (\<lambda>o'. om o' n) (ns_outputs st)) outputs))
       in Some (unwrap_or assigned (ns_active_monitor st)))"

text \<open>A stable sort puts the named matches before the numbered ones; the first wins.\<close>

definition find_sway_workspace_position ::
    "naming_state \<Rightarrow> workspace_target \<Rightarrow> (nat option \<times> nat) option" where
  "find_sway_workspace_position st target =
    (let found = filter (\<lambda>(_, _, ws). workspace_matches_target ws target) (ns_workspaces st);
         sorted = sort_key (\<lambda>(_, _, ws). ws_name ws = None) found
     in case sorted of [] \<Rightarrow> None | (output, index, _) # _ \<Rightarrow> Some (output, index))"

section \<open>Names and numbers agree\<close>

lemma consume_digits_Some:
  "consume_digits name ds = Some rest \<longleftrightarrow> name = ds @ rest"
  by (induction name ds rule: consume_digits.induct) auto

lemma takeWhile_all_append:
  "\<forall>x\<in>set ds. P x \<Longrightarrow> takeWhile P (ds @ rest) = ds @ takeWhile P rest"
  by (induction ds) auto

text \<open>
  \<^verbatim>\<open>workspace number\<close> matches exactly the names with the same leading digits as the target.
\<close>

lemma workspace_name_matches_number_iff:
  "workspace_name_matches_number name target \<longleftrightarrow>
   takeWhile is_ascii_digit name = takeWhile is_ascii_digit target"
proof -
  define ds where "ds = takeWhile is_ascii_digit target"
  have ds: "\<forall>c\<in>set ds. is_ascii_digit c"
    unfolding ds_def by (auto dest: set_takeWhileD)
  show ?thesis
  proof (cases "consume_digits name ds")
    case None
    have "takeWhile is_ascii_digit name \<noteq> ds"
    proof
      assume "takeWhile is_ascii_digit name = ds"
      then have "name = ds @ dropWhile is_ascii_digit name"
        by (metis takeWhile_dropWhile_id)
      then have "consume_digits name ds = Some (dropWhile is_ascii_digit name)"
        by (simp only: consume_digits_Some)
      then show False using None by simp
    qed
    then show ?thesis
      using None by (simp add: workspace_name_matches_number_def ds_def)
  next
    case (Some rest)
    then have "name = ds @ rest" by (simp only: consume_digits_Some)
    then have "takeWhile is_ascii_digit name = ds @ takeWhile is_ascii_digit rest"
      using takeWhile_all_append [OF ds] by simp
    then show ?thesis
      using Some by (auto simp: workspace_name_matches_number_def ds_def split: list.splits)
  qed
qed

lemma digit_nth:
  assumes "n < 10"
  shows "is_ascii_digit (ascii_digits ! n) \<and> digit_value (ascii_digits ! n) = int n"
proof -
  have l: "length ascii_digits = 10" and d: "distinct ascii_digits"
    by (simp_all add: ascii_digits_def)
  have "position (ascii_digits ! n) ascii_digits = Some n"
    using position_nth [OF d] assms l by simp
  then show ?thesis
    using assms l by (simp add: is_ascii_digit_def digit_value_def)
qed

lemma dec_value_snoc [simp]: "dec_value (ds @ [c]) = 10 * dec_value ds + digit_value c"
  by (simp add: dec_value_def)

lemma nat_digits_spec:
  "nat_digits n \<noteq> [] \<and> (\<forall>c\<in>set (nat_digits n). is_ascii_digit c) \<and> dec_value (nat_digits n) = int n"
proof (induction n rule: nat_digits.induct)
  case (1 n)
  show ?case
  proof (cases "n < 10")
    case True
    then show ?thesis
      using digit_nth [OF True] by (simp add: nat_digits.simps [of n] dec_value_def)
  next
    case False
    have m: "n mod 10 < 10" by simp
    have "int n = 10 * int (n div 10) + int (n mod 10)"
      by (metis mult_div_mod_eq of_nat_add of_nat_mult of_nat_numeral)
    then show ?thesis
      using False 1 [OF False] digit_nth [OF m] by (simp add: nat_digits.simps [of n])
  qed
qed

text \<open>Printing a workspace number and reading it back gives the number.\<close>

lemma parse_workspace_num_to_string:
  assumes "0 \<le> n" "n \<le> i32_max"
  shows "parse_workspace_num (i32_to_string n) = Some n"
proof -
  have s: "i32_to_string n = nat_digits (nat n)"
    using assms(1) by (simp add: i32_to_string_def)
  have t: "takeWhile is_ascii_digit (nat_digits (nat n)) = nat_digits (nat n)"
    using nat_digits_spec [of "nat n"] by (simp add: takeWhile_eq_all_conv)
  show ?thesis
    unfolding parse_workspace_num_def s t
    using nat_digits_spec [of "nat n"] assms by (simp add: parse_i32_def Let_def)
qed

lemma digit_value_nonneg: "0 \<le> digit_value c"
  by (simp add: digit_value_def split: option.splits)

lemma dec_value_nonneg: "0 \<le> dec_value ds"
  by (induction ds rule: rev_induct) (auto simp: dec_value_def [of "[]"] digit_value_nonneg)

lemma parse_workspace_num_bounds:
  "parse_workspace_num name = Some n \<Longrightarrow> 0 \<le> n \<and> n \<le> i32_max"
  by (auto simp: parse_workspace_num_def parse_i32_def Let_def dec_value_nonneg split: if_splits)

text \<open>
  A workspace given the identity of a name answers to exactly that name, and is addressable.
\<close>

lemma sway_name_of_identity:
  assumes "sway_identity_from_name name = (nm, num)"
  shows "sway_name (set_sway_identity nm num ws) = Some name
    \<and> has_sway_identity (set_sway_identity nm num ws)"
  using assms
  by (auto simp: sway_identity_from_name_def Let_def sway_name_def set_sway_identity_def
      has_sway_identity_def split: option.splits if_splits)

lemma eq_ignore_ascii_case_refl [simp]: "eq_ignore_ascii_case a a"
  by (simp add: eq_ignore_ascii_case_def)

text \<open>
  A workspace created for a target is found by that target: no command that creates a workspace
  on a miss creates a second one for the same target.
\<close>

lemma created_workspace_matches:
  assumes "sway_workspace_identity target = Inr (nm, num)"
  shows "workspace_matches_target (set_sway_identity nm num ws) target"
proof (cases target)
  case (TgName name)
  then have "sway_identity_from_name name = (nm, num)"
    using assms by (simp add: sway_workspace_identity_def)
  then show ?thesis
    using sway_name_of_identity [of name nm num ws] TgName by (simp add: workspace_matches_target_def)
next
  case (TgNumber name)
  then have "sway_identity_from_name name = (nm, num)"
    using assms
    by (auto simp: sway_workspace_identity_def sway_identity_from_name_def Let_def split: option.splits)
  then show ?thesis
    using sway_name_of_identity [of name nm num ws] TgNumber
    by (simp add: workspace_matches_target_def workspace_name_matches_number_iff)
qed (use assms in \<open>simp_all add: sway_workspace_identity_def\<close>)

section \<open>A free number exists\<close>

lemma in_set_map_filter: "y \<in> set (List.map_filter f xs) \<longleftrightarrow> (\<exists>x\<in>set xs. f x = Some y)"
  by (induction xs) (auto simp: List.map_filter_simps split: option.splits)

lemma find_Some_least:
  assumes "find P xs = Some x" "sorted (xs :: 'a :: linorder list)"
  shows "P x \<and> x \<in> set xs \<and> (\<forall>y\<in>set xs. y < x \<longrightarrow> \<not> P y)"
  using assms by (induction xs) (auto split: if_splits)

text \<open>There always is a free number; it is positive, at most one more than the numbers in use, and the least.\<close>

lemma first_free_least:
  "\<exists>n. first_free used = Some n \<and> 1 \<le> n \<and> n \<le> int (length used) + 1 \<and> n \<notin> set used
    \<and> (\<forall>k. 1 \<le> k \<longrightarrow> k < n \<longrightarrow> k \<in> set used)"
proof -
  define cs where "cs = [1..int (length used) + 1]"
  have "\<not> set cs \<subseteq> set used"
  proof
    assume "set cs \<subseteq> set used"
    then have "card (set cs) \<le> card (set used)" by (simp add: card_mono)
    also have "\<dots> \<le> length used" by (rule card_length)
    finally show False by (simp add: cs_def)
  qed
  then obtain n where n: "find (\<lambda>n. n \<notin> set used) cs = Some n"
    by (metis find_None_iff not_None_eq subsetI)
  have "sorted cs" by (simp add: cs_def)
  from find_Some_least [OF n this] n show ?thesis
    by (fastforce simp: first_free_def cs_def)
qed

lemma next_free_identity_is_free:
  "\<exists>n. next_free_workspace_identity_for_output om st output = Some (None, Some n)
    \<and> 1 \<le> n \<and> n \<notin> set (used_numbers st)
    \<and> (\<forall>ow\<in>set (ns_workspaces st). \<forall>name. sway_name (snd (snd ow)) = Some name
         \<longrightarrow> parse_workspace_num name \<noteq> Some n)"
proof -
  define used where
    "used = used_numbers st @ (case output of None \<Rightarrow> [] | Some o' \<Rightarrow> reserved_numbers om st o')"
  obtain n where n: "first_free used = Some n" "1 \<le> n" "n \<notin> set used"
    using first_free_least [of used] by blast
  have "parse_workspace_num name \<noteq> Some n"
    if ow: "ow \<in> set (ns_workspaces st)" "sway_name (snd (snd ow)) = Some name" for ow name
  proof
    assume p: "parse_workspace_num name = Some n"
    have "name \<in> set (List.map_filter (\<lambda>(_, _, ws). sway_name ws) (ns_workspaces st))"
      unfolding in_set_map_filter using ow by (intro bexI [of _ ow]) (simp_all add: case_prod_beta)
    then have "n \<in> set (List.map_filter parse_workspace_num
        (List.map_filter (\<lambda>(_, _, ws). sway_name ws) (ns_workspaces st)))"
      using p in_set_map_filter [of n parse_workspace_num] by blast
    then have "n \<in> set (used_numbers st)"
      using n(2) by (simp add: used_numbers_def)
    then show False using n(3) by (simp add: used_def)
  qed
  then show ?thesis
    using n by (auto simp: next_free_workspace_identity_for_output_def used_def Let_def)
qed

end
