(* ===== verification/Monitor.thy ===== *)
theory Monitor
  imports Workspace_Naming "HOL-Library.Monad_Syntax" "HOL-Library.Product_Lexorder"
begin

text \<open>
  The workspaces of one output (\<^verbatim>\<open>layout/monitor.rs\<close>, \<^verbatim>\<open>layout/monitor/workspace_moves.rs\<close>): creation,
  activation, sorting, destruction, moves, the drag-and-drop scroll of the overview, and the move
  of a workspace to another output (\<^verbatim>\<open>layout/mod.rs\<close>). An operation returns \<open>None\<close> where the code
  panics: an index out of range, a failed assertion, an \<^verbatim>\<open>unwrap\<close> of nothing.

  The clock enters through \<open>clock_view\<close>, what time-dependent reads return at the moment of the
  call: the rendered workspace index (\<^verbatim>\<open>workspace_render_idx\<close>), the value of the gesture's
  animation, and which animations are done. Options, sizes, the focus inside a workspace and the
  drawing of hints are left out: no lifecycle decision reads them. \<open>id_counter\<close> is the global
  \<^verbatim>\<open>WORKSPACE_ID_COUNTER\<close>, which the monitors share.
\<close>

section \<open>State\<close>

record swipe_tracker =
  st_history :: "(real \<times> real) list"
  st_pos :: real

record dnd_gesture =
  center_idx :: nat
  start_idx :: real
  current_idx :: real
  dnd_animation :: "(real \<times> real) option"
  tracker :: swipe_tracker
  dnd_last_event_time :: real
  dnd_nonzero_start_time :: "real option"

datatype workspace_switch = SwAnimation real real | SwDndScroll dnd_gesture

record monitor =
  mon_output :: nat
  workspaces :: "workspace list"
  sway_workspace_order :: "nat list"
  active_workspace_idx :: nat
  workspace_focus_history :: "nat list"
  previous_workspace_id :: "nat option"
  previous_workspace_name :: "string option"
  workspace_switch :: "workspace_switch option"
  overview_open :: bool
  id_counter :: nat

record clock_view =
  cv_render_idx :: real
  cv_gesture_value :: real
  cv_switch_done :: bool
  cv_gesture_done :: bool
  cv_now :: real

definition target_idx :: "workspace_switch \<Rightarrow> real" where
  "target_idx sw =
    (case sw of SwAnimation from to \<Rightarrow> to | SwDndScroll g \<Rightarrow> current_idx g)"

definition switch_offset :: "int \<Rightarrow> workspace_switch \<Rightarrow> workspace_switch" where
  "switch_offset delta sw =
    (case sw of
       SwAnimation from to \<Rightarrow> SwAnimation (from + of_int delta) (to + of_int delta)
     | SwDndScroll g \<Rightarrow>
         SwDndScroll (g\<lparr>center_idx := nat (int (center_idx g) + delta),
                        start_idx := start_idx g + of_int delta,
                        current_idx := current_idx g + of_int delta\<rparr>))"

definition animate_from :: "clock_view \<Rightarrow> real \<Rightarrow> dnd_gesture \<Rightarrow> dnd_gesture" where
  "animate_from cv from g =
    (let current = (case dnd_animation g of None \<Rightarrow> 0 | Some _ \<Rightarrow> cv_gesture_value cv)
     in g\<lparr>dnd_animation := Some (from + current, 0)\<rparr>)"

section \<open>Reading\<close>

definition idx_of_ws :: "monitor \<Rightarrow> nat \<Rightarrow> nat option" where
  "idx_of_ws m i = position_by (\<lambda>ws. ws_id ws = i) (workspaces m)"

definition active_workspace_ref :: "monitor \<Rightarrow> workspace option" where
  "active_workspace_ref m = vec_get (workspaces m) (active_workspace_idx m)"

definition find_named_workspace_index :: "monitor \<Rightarrow> string \<Rightarrow> nat option" where
  "find_named_workspace_index m name =
    position_by (\<lambda>ws. case ws_name ws of Some n \<Rightarrow> eq_ignore_ascii_case n name | None \<Rightarrow> False)
      (workspaces m)"

definition find_named_workspace :: "monitor \<Rightarrow> string \<Rightarrow> workspace option" where
  "find_named_workspace m name =
    find (\<lambda>ws. case sway_name ws of Some n \<Rightarrow> eq_ignore_ascii_case n name | None \<Rightarrow> False)
      (workspaces m)"

text \<open>The number a client sees: its own, its name's, or the lowest no other workspace owns.\<close>

definition numbers_taken :: "monitor \<Rightarrow> nat \<Rightarrow> int list" where
  "numbers_taken m index =
    List.map_filter (\<lambda>(i, ws).
      if i = index then None
      else or_else (ws_number ws) (map_option sway_workspace_num (ws_name ws)))
      (enumerate 0 (workspaces m))"

definition sway_workspace_number :: "monitor \<Rightarrow> nat \<Rightarrow> int option" where
  "sway_workspace_number m index = do {
     ws \<leftarrow> vec_get (workspaces m) index;
     case ws_number ws of
       Some n \<Rightarrow> Some n
     | None \<Rightarrow>
         if ws_name ws \<noteq> None then Some (sway_display_number ws index)
         else Some (unwrap_or (first_free (numbers_taken m index)) (- 1))
   }"

definition sway_workspace_name :: "monitor \<Rightarrow> nat \<Rightarrow> string option" where
  "sway_workspace_name m index = do {
     ws \<leftarrow> vec_get (workspaces m) index;
     case sway_name ws of
       Some name \<Rightarrow> Some name
     | None \<Rightarrow> map_option i32_to_string (sway_workspace_number m index)
   }"

definition sway_workspaces :: "monitor \<Rightarrow> (nat \<times> workspace) list" where
  "sway_workspaces m =
    List.map_filter (\<lambda>i. map_option (\<lambda>index. (index, workspaces m ! index)) (idx_of_ws m i))
      (sway_workspace_order m)"

definition previous_workspace_idx :: "monitor \<Rightarrow> nat option" where
  "previous_workspace_idx m = do { i \<leftarrow> previous_workspace_id m; idx_of_ws m i }"

section \<open>Sorting\<close>

definition sort_class :: "monitor \<Rightarrow> nat \<times> workspace \<Rightarrow> nat \<times> int" where
  "sort_class m iw =
    (case iw of (index, ws) \<Rightarrow>
       if \<not> has_sway_identity ws then (2, 0)
       else if ws_number ws \<noteq> None then (0, unwrap_or (sway_workspace_number m index) 0)
       else (1, 0))"

definition sort_keys :: "monitor \<Rightarrow> (nat \<times> nat \<times> int) list" where
  "sort_keys m =
    map (\<lambda>iw. (ws_id (snd iw), sort_class m iw)) (enumerate 0 (workspaces m))"

definition key_of :: "(nat \<times> nat \<times> int) list \<Rightarrow> nat \<Rightarrow> nat \<times> int" where
  "key_of keys i = unwrap_or (map_of keys i) (2, 0)"

definition sort_sway_workspaces :: "monitor \<Rightarrow> monitor option" where
  "sort_sway_workspaces m =
    (let keys = sort_keys m;
         order = filter (\<lambda>i. i \<in> fst ` set keys) (sway_workspace_order m);
         order' = sort_key (key_of keys) order
     in do {
       active \<leftarrow> active_workspace_ref m;
       let sorted = sort_key (\<lambda>ws. (fst (key_of keys (ws_id ws)), snd (key_of keys (ws_id ws)), ws_id ws))
                      (workspaces m);
       idx \<leftarrow> position_by (\<lambda>ws. ws_id ws = ws_id active) sorted;
       Some (m\<lparr>sway_workspace_order := order', workspaces := sorted, active_workspace_idx := idx\<rparr>)
     })"

section \<open>Creation\<close>

definition order_index_before :: "monitor \<Rightarrow> nat list \<Rightarrow> nat \<Rightarrow> nat" where
  "order_index_before m order idx =
    unwrap_or
      (case vec_get (workspaces m) idx of Some nx \<Rightarrow> position (ws_id nx) order | None \<Rightarrow> None)
      (length order)"

definition insert_new_workspace_at :: "nat \<Rightarrow> workspace \<Rightarrow> monitor \<Rightarrow> monitor option" where
  "insert_new_workspace_at idx ws m =
    (if length (workspaces m) < idx then None
     else Some (m\<lparr>
       sway_workspace_order :=
         insert_at (order_index_before m (sway_workspace_order m) idx) (ws_id ws)
           (sway_workspace_order m),
       workspace_focus_history := workspace_focus_history m @ [ws_id ws],
       workspaces := insert_at idx ws (workspaces m),
       active_workspace_idx :=
         (if idx \<le> active_workspace_idx m then active_workspace_idx m + 1 else active_workspace_idx m),
       workspace_switch :=
         map_option (\<lambda>sw. if real idx \<le> target_idx sw then switch_offset 1 sw else sw)
           (workspace_switch m)\<rparr>))"

definition add_workspace_at :: "nat \<Rightarrow> monitor \<Rightarrow> monitor option" where
  "add_workspace_at idx m =
    insert_new_workspace_at idx (workspace_new (id_counter m) (mon_output m))
      (m\<lparr>id_counter := id_counter m + 1\<rparr>)"

definition add_workspace_top :: "monitor \<Rightarrow> monitor option" where
  "add_workspace_top m = add_workspace_at 0 m"

definition add_workspace_bottom :: "monitor \<Rightarrow> monitor option" where
  "add_workspace_bottom m = add_workspace_at (length (workspaces m)) m"

definition add_sway_workspace_at ::
    "nat \<Rightarrow> string option \<Rightarrow> int option \<Rightarrow> monitor \<Rightarrow> (nat \<times> monitor) option" where
  "add_sway_workspace_at idx name number m = do {
     let ws = set_sway_identity name number (workspace_new (id_counter m) (mon_output m));
     let i = ws_id ws;
     m1 \<leftarrow> insert_new_workspace_at idx ws (m\<lparr>id_counter := id_counter m + 1\<rparr>);
     Some (i, m1\<lparr>sway_workspace_order := retain_ne i (sway_workspace_order m1) @ [i]\<rparr>)
   }"

text \<open>The monitor's part of \<^verbatim>\<open>Layout::create_sway_workspace\<close>.\<close>

definition create_sway_workspace :: "string option \<Rightarrow> int option \<Rightarrow> monitor \<Rightarrow> (nat \<times> monitor) option" where
  "create_sway_workspace name number m = do {
     let index = length (workspaces m) - 1;
     (i, m1) \<leftarrow> add_sway_workspace_at index name number m;
     m2 \<leftarrow> sort_sway_workspaces m1;
     Some (unwrap_or (idx_of_ws m2 i) index, m2)
   }"

section \<open>Sticky windows\<close>

text \<open>Takes out the first element with each key, in the order of the keys.\<close>

fun take_by_key :: "('a \<Rightarrow> nat) \<Rightarrow> nat list \<Rightarrow> 'a list \<Rightarrow> 'a list \<times> 'a list" where
  "take_by_key f [] xs = ([], xs)"
| "take_by_key f (k # ks) xs =
    (case position_by (\<lambda>x. f x = k) xs of
       None \<Rightarrow> take_by_key f ks xs
     | Some i \<Rightarrow>
         (let (taken, rest) = take_by_key f ks (remove_at i xs) in (xs ! i # taken, rest)))"

definition take_sticky_trees :: "workspace \<Rightarrow> float_tree list \<times> workspace" where
  "take_sticky_trees ws =
    (let roots = map ft_root (filter ft_sticky (ws_trees ws));
         (taken, rest) = take_by_key ft_root roots (ws_trees ws)
     in (taken, ws\<lparr>ws_trees := rest\<rparr>))"

definition take_sticky_tiles :: "workspace \<Rightarrow> float_entry list \<times> workspace" where
  "take_sticky_tiles ws =
    (let ids = map fe_window (filter fe_sticky (ws_entries ws));
         (taken, rest) = take_by_key fe_window ids (ws_entries ws)
     in (taken, ws\<lparr>ws_entries := rest\<rparr>))"

definition add_floating_tree :: "float_tree \<Rightarrow> workspace \<Rightarrow> workspace" where
  "add_floating_tree t ws = ws\<lparr>ws_trees := t # ws_trees ws\<rparr>"

text \<open>A tile whose pending mode is not normal opens in the tiling tree, where it can take that mode.\<close>

definition add_sticky_tile :: "float_entry \<Rightarrow> workspace \<Rightarrow> workspace" where
  "add_sticky_tile e ws =
    (if fe_normal e then ws\<lparr>ws_entries := e # ws_entries ws\<rparr>
     else ws\<lparr>ws_tiling := ws_tiling ws @ [fe_window e]\<rparr>)"

definition move_sticky_to_active_workspace :: "nat \<Rightarrow> monitor \<Rightarrow> monitor option" where
  "move_sticky_to_active_workspace old_idx m =
    (if old_idx = active_workspace_idx m then Some m
     else do {
       source \<leftarrow> vec_get (workspaces m) old_idx;
       let (sticky_trees, source1) = take_sticky_trees source;
       let (sticky, source2) = take_sticky_tiles source1;
       target \<leftarrow> vec_get (workspaces m) (active_workspace_idx m);
       let target1 = fold add_floating_tree sticky_trees target;
       let target2 = fold add_sticky_tile sticky target1;
       Some (m\<lparr>workspaces := (workspaces m)[old_idx := source2, active_workspace_idx m := target2]\<rparr>)
     })"

section \<open>Activation\<close>

definition remember_previous :: "nat \<Rightarrow> monitor \<Rightarrow> monitor option" where
  "remember_previous idx m =
    (if active_workspace_idx m \<noteq> idx then do {
       previous \<leftarrow> active_workspace_ref m;
       Some (m\<lparr>previous_workspace_id := Some (ws_id previous),
               previous_workspace_name := sway_name previous\<rparr>)
     } else Some m)"

definition switch_to :: "clock_view \<Rightarrow> nat \<Rightarrow> nat \<Rightarrow> workspace_switch option \<Rightarrow> workspace_switch option" where
  "switch_to cv prev idx sw =
    (case sw of
       Some (SwDndScroll g) \<Rightarrow>
         (let current_pos = current_idx g - start_idx g;
              g1 = g\<lparr>center_idx := idx, start_idx := real idx - current_pos, current_idx := real idx\<rparr>
          in Some (SwDndScroll (animate_from cv (- (real idx - current_idx g)) g1)))
     | _ \<Rightarrow> if prev = idx then sw else Some (SwAnimation (cv_render_idx cv) (real idx)))"

definition activate_workspace :: "clock_view \<Rightarrow> nat \<Rightarrow> monitor \<Rightarrow> monitor option" where
  "activate_workspace cv idx m = do {
     m1 \<leftarrow> remember_previous idx m;
     let prev = active_workspace_idx m1;
     let m2 = m1\<lparr>active_workspace_idx := idx\<rparr>;
     active \<leftarrow> active_workspace_ref m2;
     let m3 = m2\<lparr>workspace_focus_history :=
                  ws_id active # retain_ne (ws_id active) (workspace_focus_history m2)\<rparr>;
     m4 \<leftarrow> move_sticky_to_active_workspace prev m3;
     Some (m4\<lparr>workspace_switch := switch_to cv prev idx (workspace_switch m4)\<rparr>)
   }"

section \<open>Destruction\<close>

definition drop_workspace :: "nat \<Rightarrow> monitor \<Rightarrow> monitor" where
  "drop_workspace idx m = m\<lparr>
     workspaces := remove_at idx (workspaces m),
     sway_workspace_order := retain_ne (ws_id (workspaces m ! idx)) (sway_workspace_order m),
     active_workspace_idx :=
       (if idx < active_workspace_idx m then active_workspace_idx m - 1 else active_workspace_idx m)\<rparr>"

definition consider_destroy_workspace :: "nat \<Rightarrow> monitor \<Rightarrow> monitor option" where
  "consider_destroy_workspace i m =
    (if workspace_switch m \<noteq> None then None
     else
       case idx_of_ws m i of
         None \<Rightarrow> Some m
       | Some idx \<Rightarrow>
           if idx = active_workspace_idx m \<or> must_be_kept (workspaces m ! idx) then Some m
           else if length (workspaces m) = 1 then Some m
           else Some (drop_workspace idx m))"

fun consider_each :: "nat list \<Rightarrow> monitor \<Rightarrow> monitor option" where
  "consider_each [] m = Some m"
| "consider_each (i # is) m = do { m1 \<leftarrow> consider_destroy_workspace i m; consider_each is m1 }"

definition clean_up_workspaces :: "monitor \<Rightarrow> monitor option" where
  "clean_up_workspaces m =
    consider_each (map ws_id (filter (\<lambda>ws. \<not> ws_persistent ws) (workspaces m))) m"

definition unname_workspace :: "nat \<Rightarrow> monitor \<Rightarrow> (bool \<times> monitor) option" where
  "unname_workspace i m =
    (case idx_of_ws m i of
       None \<Rightarrow> Some (False, m)
     | Some idx \<Rightarrow> do {
         let m1 = m\<lparr>workspaces := (workspaces m)[idx := unname (workspaces m ! idx)]\<rparr>;
         m2 \<leftarrow> (if workspace_switch m1 = None then clean_up_workspaces m1 else Some m1);
         Some (True, m2)
       })"

fun reap_each :: "nat list \<Rightarrow> monitor \<Rightarrow> monitor option" where
  "reap_each [] m = Some m"
| "reap_each (idx # is) m =
    (if idx \<noteq> active_workspace_idx m then
       (if idx < length (workspaces m) then reap_each is (drop_workspace idx m) else None)
     else reap_each is m)"

definition fresh_only :: "monitor \<Rightarrow> monitor option" where
  "fresh_only m = do { m1 \<leftarrow> add_workspace_bottom m; Some (m1\<lparr>active_workspace_idx := 0\<rparr>) }"

definition reap_empty_workspaces :: "monitor \<Rightarrow> monitor option" where
  "reap_empty_workspaces m =
    (if workspaces m = [] then fresh_only m
     else do {
       active \<leftarrow> active_workspace_ref m;
       let m1 = m\<lparr>workspace_switch := None\<rparr>;
       let doomed = map fst (filter (\<lambda>iw. \<not> must_be_kept (snd iw)) (enumerate 0 (workspaces m1)));
       m2 \<leftarrow> reap_each (rev doomed) m1;
       if workspaces m2 = [] then fresh_only m2
       else do {
         m3 \<leftarrow> sort_sway_workspaces m2;
         Some (m3\<lparr>active_workspace_idx := unwrap_or (idx_of_ws m3 (ws_id active)) 0\<rparr>)
       }
     })"

section \<open>Leaving and joining\<close>

definition detach_workspace :: "nat \<Rightarrow> monitor \<Rightarrow> workspace option \<times> monitor" where
  "detach_workspace i m =
    (case idx_of_ws m i of
       None \<Rightarrow> (None, m)
     | Some idx \<Rightarrow>
         (Some ((workspaces m ! idx)\<lparr>ws_output := None\<rparr>),
          m\<lparr>workspaces := remove_at idx (workspaces m),
            sway_workspace_order := retain_ne i (sway_workspace_order m),
            active_workspace_idx :=
              (if idx \<le> active_workspace_idx m \<and> 0 < active_workspace_idx m
               then active_workspace_idx m - 1 else active_workspace_idx m),
            workspace_switch := None\<rparr>))"

definition insert_attached :: "nat \<Rightarrow> workspace \<Rightarrow> monitor \<Rightarrow> monitor" where
  "insert_attached idx ws m =
    (let order = retain_ne (ws_id ws) (sway_workspace_order m)
     in m\<lparr>
       sway_workspace_order := insert_at (order_index_before m order idx) (ws_id ws) order,
       workspace_focus_history := workspace_focus_history m @ [ws_id ws],
       workspaces := insert_at idx ws (workspaces m),
       active_workspace_idx :=
         (if idx \<le> active_workspace_idx m then active_workspace_idx m + 1 else active_workspace_idx m)\<rparr>)"

definition attach_workspace :: "clock_view \<Rightarrow> workspace \<Rightarrow> nat \<Rightarrow> bool \<Rightarrow> monitor \<Rightarrow> monitor option" where
  "attach_workspace cv ws idx0 activate m = do {
     let idx = min idx0 (length (workspaces m));
     let m1 = insert_attached idx (ws\<lparr>ws_output := Some (mon_output m)\<rparr>) m;
     m2 \<leftarrow> (if activate then activate_workspace cv idx (m1\<lparr>workspace_switch := None\<rparr>) else Some m1);
     clean_up_workspaces (m2\<lparr>workspace_switch := None\<rparr>)
   }"

definition insert_workspace :: "clock_view \<Rightarrow> workspace \<Rightarrow> nat \<Rightarrow> bool \<Rightarrow> monitor \<Rightarrow> monitor option" where
  "insert_workspace cv ws idx activate m = do {
     m1 \<leftarrow> attach_workspace cv ws idx activate m;
     clean_up_workspaces m1
   }"

definition append_workspaces :: "workspace list \<Rightarrow> monitor \<Rightarrow> monitor option" where
  "append_workspaces wss m =
    (if wss = [] then Some m
     else do {
       let wss1 = map (\<lambda>ws. ws\<lparr>ws_output := Some (mon_output m)\<rparr>) wss;
       active \<leftarrow> active_workspace_ref m;
       m1 \<leftarrow> reap_empty_workspaces
              (m\<lparr>sway_workspace_order := sway_workspace_order m @ map ws_id wss1,
                 workspaces := workspaces m @ wss1\<rparr>);
       idx \<leftarrow> idx_of_ws m1 (ws_id active);
       clean_up_workspaces (m1\<lparr>active_workspace_idx := idx, workspace_switch := None\<rparr>)
     })"

section \<open>Switching\<close>

definition clamp_idx :: "real \<Rightarrow> monitor \<Rightarrow> nat" where
  "clamp_idx x m = nat \<lfloor>max 0 (min x (real (length (workspaces m) - 1)))\<rfloor>"

definition switch_workspace_up :: "clock_view \<Rightarrow> monitor \<Rightarrow> monitor option" where
  "switch_workspace_up cv m =
    (case workspace_switch m of
       Some (SwDndScroll g) \<Rightarrow>
         if workspaces m = [] then None
         else activate_workspace cv (clamp_idx (of_int \<lceil>current_idx g\<rceil> - 1) m) m
     | _ \<Rightarrow> activate_workspace cv (active_workspace_idx m - 1) m)"

definition switch_workspace_down :: "clock_view \<Rightarrow> monitor \<Rightarrow> monitor option" where
  "switch_workspace_down cv m =
    (if workspaces m = [] then None
     else
       case workspace_switch m of
         Some (SwDndScroll g) \<Rightarrow>
           activate_workspace cv (clamp_idx (of_int \<lfloor>current_idx g\<rfloor> + 1) m) m
       | _ \<Rightarrow> activate_workspace cv (min (active_workspace_idx m + 1) (length (workspaces m) - 1)) m)"

definition switch_workspace_up_wrapping :: "clock_view \<Rightarrow> monitor \<Rightarrow> monitor option" where
  "switch_workspace_up_wrapping cv m =
    (if workspace_switch m \<noteq> None \<or> length (workspaces m) < 2 then switch_workspace_up cv m
     else activate_workspace cv
       (if active_workspace_idx m = 0 then length (workspaces m) - 1 else active_workspace_idx m - 1) m)"

definition switch_workspace_down_wrapping :: "clock_view \<Rightarrow> monitor \<Rightarrow> monitor option" where
  "switch_workspace_down_wrapping cv m =
    (if workspace_switch m \<noteq> None \<or> length (workspaces m) < 2 then switch_workspace_down cv m
     else activate_workspace cv ((active_workspace_idx m + 1) mod length (workspaces m)) m)"

definition switch_workspace :: "clock_view \<Rightarrow> nat \<Rightarrow> monitor \<Rightarrow> monitor option" where
  "switch_workspace cv idx m =
    (if workspaces m = [] then None
     else activate_workspace cv (min idx (length (workspaces m) - 1)) m)"

definition switch_workspace_auto_back_and_forth :: "clock_view \<Rightarrow> nat \<Rightarrow> monitor \<Rightarrow> monitor option" where
  "switch_workspace_auto_back_and_forth cv idx m =
    (if workspaces m = [] then None
     else
       let i = min idx (length (workspaces m) - 1) in
       if i = active_workspace_idx m then
         (case previous_workspace_idx m of Some p \<Rightarrow> switch_workspace cv p m | None \<Rightarrow> Some m)
       else switch_workspace cv i m)"

definition switch_workspace_previous :: "clock_view \<Rightarrow> monitor \<Rightarrow> monitor option" where
  "switch_workspace_previous cv m =
    (case previous_workspace_idx m of Some p \<Rightarrow> switch_workspace cv p m | None \<Rightarrow> Some m)"

definition refresh_previous_workspace_name :: "nat \<Rightarrow> monitor \<Rightarrow> monitor" where
  "refresh_previous_workspace_name i m =
    (if previous_workspace_id m \<noteq> Some i then m
     else m\<lparr>previous_workspace_name :=
              Option.bind (find (\<lambda>ws. ws_id ws = i) (workspaces m)) sway_name\<rparr>)"

definition finish_workspace_switch :: "nat option \<Rightarrow> monitor \<Rightarrow> monitor option" where
  "finish_workspace_switch target m =
    (case workspace_switch m of
       Some (SwAnimation _ _) \<Rightarrow> do {
         active \<leftarrow> active_workspace_ref m;
         if \<not> has_windows active then Some m
         else do {
           let m1 = m\<lparr>workspace_switch := None\<rparr>;
           m2 \<leftarrow> (case previous_workspace_id m1 of
                  Some p \<Rightarrow> if Some p \<noteq> target then consider_destroy_workspace p m1 else Some m1
                | None \<Rightarrow> Some m1);
           clean_up_workspaces m2
         }
       }
     | _ \<Rightarrow> Some m)"

definition advance_animations :: "clock_view \<Rightarrow> monitor \<Rightarrow> monitor option" where
  "advance_animations cv m =
    (case workspace_switch m of
       None \<Rightarrow> Some m
     | Some (SwAnimation _ _) \<Rightarrow>
         if \<not> cv_switch_done cv then Some m
         else do {
           let m1 = m\<lparr>workspace_switch := None\<rparr>;
           m2 \<leftarrow> (case previous_workspace_id m1 of
                  Some p \<Rightarrow> consider_destroy_workspace p m1
                | None \<Rightarrow> Some m1);
           m3 \<leftarrow> clean_up_workspaces m2;
           reap_empty_workspaces m3
         }
     | Some (SwDndScroll g) \<Rightarrow>
         let g1 = (if dnd_last_event_time g \<noteq> cv_now cv
                   then g\<lparr>dnd_last_event_time := cv_now cv, dnd_nonzero_start_time := None\<rparr> else g);
             g2 = (if dnd_animation g1 \<noteq> None \<and> cv_gesture_done cv
                   then g1\<lparr>dnd_animation := None\<rparr> else g1)
         in Some (m\<lparr>workspace_switch := Some (SwDndScroll g2)\<rparr>))"

section \<open>Reordering\<close>

definition swap_nth :: "nat \<Rightarrow> nat \<Rightarrow> 'a list \<Rightarrow> 'a list" where
  "swap_nth i j xs = xs[i := xs ! j, j := xs ! i]"

text \<open>The common tail of \<^verbatim>\<open>move_workspace_up\<close> and \<^verbatim>\<open>move_workspace_down\<close> after computing \<^verbatim>\<open>new_idx\<close>.\<close>

definition move_active_to :: "clock_view \<Rightarrow> nat \<Rightarrow> monitor \<Rightarrow> monitor option" where
  "move_active_to cv new_idx m =
    (if new_idx = active_workspace_idx m then Some m
     else if length (workspaces m) \<le> active_workspace_idx m \<or> length (workspaces m) \<le> new_idx then None
     else do {
       m1 \<leftarrow> activate_workspace cv new_idx
              (m\<lparr>workspaces := swap_nth (active_workspace_idx m) new_idx (workspaces m)\<rparr>);
       m2 \<leftarrow> clean_up_workspaces
              (m1\<lparr>workspace_switch := None,
                  previous_workspace_id := previous_workspace_id m,
                  previous_workspace_name := previous_workspace_name m\<rparr>);
       reap_empty_workspaces m2
     })"

definition move_workspace_down :: "clock_view \<Rightarrow> monitor \<Rightarrow> monitor option" where
  "move_workspace_down cv m =
    (if workspaces m = [] then None
     else move_active_to cv (min (active_workspace_idx m + 1) (length (workspaces m) - 1)) m)"

definition move_workspace_up :: "clock_view \<Rightarrow> monitor \<Rightarrow> monitor option" where
  "move_workspace_up cv m = move_active_to cv (active_workspace_idx m - 1) m"

definition move_workspace_to_idx :: "nat \<Rightarrow> nat \<Rightarrow> monitor \<Rightarrow> monitor option" where
  "move_workspace_to_idx old_idx new_idx0 m =
    (if length (workspaces m) \<le> old_idx then Some m
     else
       let new_idx = min new_idx0 (length (workspaces m) - 1);
           active = active_workspace_idx m
       in if old_idx = new_idx then Some m
          else do {
            m1 \<leftarrow> clean_up_workspaces (m\<lparr>
              workspaces := insert_at new_idx (workspaces m ! old_idx) (remove_at old_idx (workspaces m)),
              active_workspace_idx :=
                (if active = old_idx then new_idx
                 else if new_idx \<le> active \<and> active < old_idx then active + 1
                 else if active \<le> new_idx \<and> old_idx < active then active - 1
                 else active),
              workspace_switch := None\<rparr>);
            reap_empty_workspaces m1
          })"

section \<open>The drag-and-drop scroll\<close>

definition swipe_tracker_new :: swipe_tracker where
  "swipe_tracker_new = \<lparr>st_history = [], st_pos = 0\<rparr>"

definition swipe_history_limit :: real where
  "swipe_history_limit = 15 / 100"

definition tracker_push :: "real \<Rightarrow> real \<Rightarrow> swipe_tracker \<Rightarrow> swipe_tracker" where
  "tracker_push delta timestamp t =
    (if st_history t \<noteq> [] \<and> timestamp < snd (last (st_history t)) then t
     else t\<lparr>st_history :=
              dropWhile (\<lambda>ev. \<not> timestamp \<le> snd ev + swipe_history_limit)
                (st_history t @ [(delta, timestamp)]),
            st_pos := st_pos t + delta\<rparr>)"

definition dnd_scroll_gesture_begin :: "clock_view \<Rightarrow> monitor \<Rightarrow> monitor" where
  "dnd_scroll_gesture_begin cv m =
    (case workspace_switch m of
       Some (SwDndScroll _) \<Rightarrow> m
     | _ \<Rightarrow>
         if \<not> overview_open m then m
         else m\<lparr>workspace_switch := Some (SwDndScroll
                  \<lparr>center_idx = active_workspace_idx m, start_idx = cv_render_idx cv,
                   current_idx = cv_render_idx cv, dnd_animation = None,
                   tracker = swipe_tracker_new, dnd_last_event_time = cv_now cv,
                   dnd_nonzero_start_time = None\<rparr>)\<rparr>)"

text \<open>
  The sizes and settings the scroll reads: the overview zoom, the width of the view, the vertical
  extent of the working area, and the \<^verbatim>\<open>dnd-edge-workspace-switch\<close> settings.
\<close>

record scroll_view =
  sv_zoom :: real
  sv_view_w :: real
  sv_area_y :: real
  sv_area_h :: real
  sv_trigger_height :: real
  sv_delay :: real
  sv_max_speed :: real

definition clamp_real :: "real \<Rightarrow> real \<Rightarrow> real \<Rightarrow> real" where
  "clamp_real lo hi x = (if x < lo then lo else if hi < x then hi else x)"

definition scroll_delta :: "scroll_view \<Rightarrow> real \<Rightarrow> real \<Rightarrow> real" where
  "scroll_delta sv px py =
    (let width = sv_view_w sv * sv_zoom sv;
         x = px - (sv_view_w sv - width) / 2;
         height = sv_area_h sv;
         y = clamp_real 0 height (py - sv_area_y sv);
         trigger = clamp_real 0 (height / 2) (sv_trigger_height sv);
         delta = (if x < 0 \<or> width \<le> x then 0
                  else if y < trigger then - (trigger - y)
                  else if height - y < trigger then trigger - (height - y)
                  else 0)
     in if trigger < 1 / 100 then 0 else delta / trigger)"

definition workspace_dnd_edge_scroll_movement :: real where
  "workspace_dnd_edge_scroll_movement = 1500"

definition dnd_scroll_gesture_scroll ::
    "clock_view \<Rightarrow> scroll_view \<Rightarrow> real \<Rightarrow> real \<Rightarrow> real \<Rightarrow> monitor \<Rightarrow> bool \<times> monitor" where
  "dnd_scroll_gesture_scroll cv sv px py speed m =
    (case workspace_switch m of
       Some (SwDndScroll g) \<Rightarrow>
         (let last_time = dnd_last_event_time g;
              delta = scroll_delta sv px py * speed;
              now = cv_now cv;
              g1 = g\<lparr>dnd_last_event_time := now\<rparr>;
              put = (\<lambda>g'. m\<lparr>workspace_switch := Some (SwDndScroll g')\<rparr>)
          in if delta = 0 then (False, put (g1\<lparr>dnd_nonzero_start_time := None\<rparr>))
             else
               let nonzero_start = unwrap_or (dnd_nonzero_start_time g1) now;
                   g2 = g1\<lparr>dnd_nonzero_start_time := Some nonzero_start\<rparr>
               in if max 0 (now - nonzero_start) < sv_delay sv then (True, put g2)
                  else
                    let time_delta = max 0 (now - last_time);
                        t = tracker_push (delta * time_delta * sv_max_speed sv) now (tracker g2);
                        unclamped = start_idx g2 + st_pos t / workspace_dnd_edge_scroll_movement;
                        clamped = clamp_real 0 (real (length (workspaces m) - 1)) unclamped
                    in (True, put (g2\<lparr>tracker := t, start_idx := start_idx g2 + (clamped - unclamped),
                                     current_idx := clamped\<rparr>)))
     | _ \<Rightarrow> (False, m))"

definition dnd_scroll_gesture_end :: "monitor \<Rightarrow> monitor" where
  "dnd_scroll_gesture_end m =
    (case workspace_switch m of
       Some (SwDndScroll g) \<Rightarrow>
         (let new_idx = nat \<lfloor>current_idx g + 1 / 2\<rfloor>
          in m\<lparr>active_workspace_idx := new_idx,
               workspace_switch := Some (SwAnimation (real new_idx) (real new_idx))\<rparr>)
     | _ \<Rightarrow> m)"

section \<open>A monitor's first and last moments\<close>

text \<open>
  \<^verbatim>\<open>Monitor::new\<close>, as in a release build: workspaces that need not be kept, which a debug build
  asserts not to be there, are dropped.
\<close>

definition monitor_new ::
    "nat \<Rightarrow> nat \<Rightarrow> workspace list \<Rightarrow> nat option \<Rightarrow> string option \<Rightarrow> int option \<Rightarrow> monitor" where
  "monitor_new counter output wss0 to_activate initial_name initial_number =
    (let wss = map (\<lambda>ws. ws\<lparr>ws_output := Some output\<rparr>) (filter must_be_kept wss0);
         active = foldl (\<lambda>acc iw. if to_activate = Some (ws_id (snd iw)) then fst iw else acc)
                    0 (enumerate 0 wss);
         first = (case initial_name of
                    Some name \<Rightarrow>
                      (case sway_identity_from_name name of (nm, num) \<Rightarrow>
                         set_sway_identity nm num (workspace_new counter output))
                  | None \<Rightarrow>
                      (case initial_number of
                         Some n \<Rightarrow> set_sway_identity None (Some n) (workspace_new counter output)
                       | None \<Rightarrow> workspace_new counter output));
         wss1 = (if wss = [] then [first] else wss)
     in \<lparr>mon_output = output, workspaces = wss1, sway_workspace_order = map ws_id wss1,
         active_workspace_idx = active, workspace_focus_history = rev (map ws_id wss1),
         previous_workspace_id = None, previous_workspace_name = None, workspace_switch = None,
         overview_open = False,
         id_counter = (if wss = [] then counter + 1 else counter)\<rparr>)"

definition into_workspaces :: "monitor \<Rightarrow> workspace list" where
  "into_workspaces m =
    map (\<lambda>ws. ws\<lparr>ws_output := None\<rparr>)
      (filter (\<lambda>ws. has_windows ws \<or> ws_persistent ws) (workspaces m))"

section \<open>Between outputs\<close>

definition ensure_replacement_workspace ::
    "nat \<Rightarrow> string option \<Rightarrow> int option \<Rightarrow> monitor \<Rightarrow> (nat \<times> monitor) option" where
  "ensure_replacement_workspace moving name number m =
    (case position_by (\<lambda>ws. ws_id ws \<noteq> moving \<and> \<not> has_sway_identity ws \<and> \<not> has_windows ws)
            (workspaces m) of
       Some idx \<Rightarrow>
         Some (ws_id (workspaces m ! idx),
               m\<lparr>workspaces := (workspaces m)[idx := set_sway_identity name number (workspaces m ! idx)]\<rparr>)
     | None \<Rightarrow> add_sway_workspace_at 1 name number m)"

fun rposition_by :: "('a \<Rightarrow> bool) \<Rightarrow> 'a list \<Rightarrow> nat option" where
  "rposition_by P [] = None"
| "rposition_by P (x # xs) =
    (case rposition_by P xs of
       Some i \<Rightarrow> Some (Suc i)
     | None \<Rightarrow> if P x then Some 0 else None)"

text \<open>
  \<^verbatim>\<open>Layout::move_workspace_to_output_by_id\<close> between two different monitors of the layout; \<open>named\<close>
  is whether the command named the old output, \<open>focused\<close> whether the source is the active monitor.
  The global id counter goes from the source to the target and back.
\<close>

definition needs_replacement :: "bool \<Rightarrow> nat \<Rightarrow> workspace \<Rightarrow> monitor \<Rightarrow> bool" where
  "needs_replacement named i ws src \<longleftrightarrow>
    (named \<or> \<not> has_windows ws) \<and>
    length (filter (\<lambda>w. ws_id w = i \<or> must_be_kept w) (workspaces src)) = 1"

definition settle_source :: "bool \<Rightarrow> nat option \<Rightarrow> monitor \<Rightarrow> monitor" where
  "settle_source was_active replacement src =
    (if \<not> was_active then src
     else src\<lparr>active_workspace_idx :=
       unwrap_or (or_else (Option.bind replacement (idx_of_ws src))
                          (rposition_by must_be_kept (workspaces src))) 0\<rparr>)"

text \<open>The source gives up the workspace, with a replacement if it would be left without one.\<close>

definition release_workspace ::
    "bool \<Rightarrow> string option \<times> int option \<Rightarrow> nat \<Rightarrow> monitor \<Rightarrow> (workspace option \<times> monitor) option" where
  "release_workspace named identity i src =
    (case idx_of_ws src i of
       None \<Rightarrow> Some (None, src)
     | Some old_idx \<Rightarrow> do {
         src_active \<leftarrow> active_workspace_ref src;
         (replacement, s1) \<leftarrow>
           (if needs_replacement named i (workspaces src ! old_idx) src
            then map_option (\<lambda>r. (Some (fst r), snd r))
                   (ensure_replacement_workspace i (fst identity) (snd identity) src)
            else Some (None, src));
         case detach_workspace i s1 of
           (None, s2) \<Rightarrow> Some (None, s2)
         | (Some ws, s2) \<Rightarrow> do {
             s3 \<leftarrow> reap_empty_workspaces (settle_source (i = ws_id src_active) replacement s2);
             Some (Some ws, s3)
           }
       })"

text \<open>The target takes it in beside its active workspace.\<close>

definition receive_workspace :: "clock_view \<Rightarrow> workspace \<Rightarrow> bool \<Rightarrow> monitor \<Rightarrow> monitor option" where
  "receive_workspace cv ws activate tgt = do {
     target_active \<leftarrow> active_workspace_ref tgt;
     t1 \<leftarrow> attach_workspace cv ws (active_workspace_idx tgt + 1) activate tgt;
     t2 \<leftarrow> sort_sway_workspaces t1;
     let t3 = (if activate then t2
               else case idx_of_ws t2 (ws_id target_active) of
                      Some idx \<Rightarrow> t2\<lparr>active_workspace_idx := idx\<rparr>
                    | None \<Rightarrow> t2);
     t4 \<leftarrow> clean_up_workspaces t3;
     reap_empty_workspaces t4
   }"

definition move_workspace_to_output ::
    "clock_view \<Rightarrow> bool \<Rightarrow> bool \<Rightarrow> string option \<times> int option \<Rightarrow> nat \<Rightarrow> monitor \<Rightarrow> monitor
     \<Rightarrow> (bool \<times> monitor \<times> monitor) option" where
  "move_workspace_to_output cv named focused identity i src tgt =
    (if idx_of_ws src i = None then Some (False, src, tgt)
     else do {
       src_active \<leftarrow> active_workspace_ref src;
       let activate = (focused \<and> i = ws_id src_active);
       (moved, s3) \<leftarrow> release_workspace named identity i src;
       case moved of
         None \<Rightarrow> Some (False, s3, tgt)
       | Some ws \<Rightarrow> do {
           t1 \<leftarrow> receive_workspace cv ws activate (tgt\<lparr>id_counter := id_counter s3\<rparr>);
           s4 \<leftarrow> clean_up_workspaces s3;
           Some (activate, s4\<lparr>id_counter := id_counter t1\<rparr>, t1)
         }
     })"

text \<open>The monitor's part of \<^verbatim>\<open>Layout::clean_up_removed_window_workspace\<close>, after a window closed.\<close>

definition clean_up_removed_window_workspace :: "nat \<Rightarrow> monitor \<Rightarrow> monitor option" where
  "clean_up_removed_window_workspace source m = do {
     m1 \<leftarrow> consider_destroy_workspace source (m\<lparr>workspace_switch := None\<rparr>);
     m2 \<leftarrow> (if 1 < length (filter (\<lambda>ws. \<not> has_windows ws) (workspaces m1)) then
            (case previous_workspace_id m1 of
               Some p \<Rightarrow> consider_destroy_workspace p m1
             | None \<Rightarrow> Some m1)
          else Some m1);
     reap_empty_workspaces m2
   }"

text \<open>
  The monitor's part of \<^verbatim>\<open>Layout::rename_sway_workspace_by_id\<close>, once the new name is known to be
  free; \<open>declared\<close> is whether the configuration declares it.
\<close>

definition rename_workspace :: "nat \<Rightarrow> string \<Rightarrow> bool \<Rightarrow> monitor \<Rightarrow> monitor option" where
  "rename_workspace i new_name declared m = do {
     idx \<leftarrow> idx_of_ws m i;
     let (nm, num) = sway_identity_from_name new_name;
     let ws = set_persistent declared (set_sway_identity nm num (workspaces m ! idx));
     m1 \<leftarrow> sort_sway_workspaces (m\<lparr>workspaces := (workspaces m)[idx := ws]\<rparr>);
     Some (refresh_previous_workspace_name i m1)
   }"

end
