(* ===== verification/Monitor_Laws.thy ===== *)
theory Monitor_Laws
  imports Monitor "HOL-Library.Multiset"
begin

text \<open>
  The lifecycle laws of a monitor: which monitors are well formed (\<open>mon_ok\<close>), that every operation
  returns on them and keeps them so, what sorting and reaping establish, that sticky windows move
  without loss, and what moving a workspace to another output leaves on both.
\<close>

section \<open>Operations that may panic\<close>

definition returns :: "('a \<Rightarrow> bool) \<Rightarrow> 'a option \<Rightarrow> bool" where
  "returns P r = (case r of None \<Rightarrow> False | Some x \<Rightarrow> P x)"

lemma returns_Some [simp]: "returns P (Some x) \<longleftrightarrow> P x"
  by (simp add: returns_def)

lemma returns_None [simp]: "\<not> returns P None"
  by (simp add: returns_def)

lemma returns_iff: "returns P r \<longleftrightarrow> (\<exists>x. r = Some x \<and> P x)"
  by (cases r) simp_all

lemma returns_bind:
  "returns P r \<Longrightarrow> (\<And>x. P x \<Longrightarrow> returns Q (f x)) \<Longrightarrow> returns Q (Option.bind r f)"
  by (cases r) simp_all

lemma returns_mono: "returns P r \<Longrightarrow> (\<And>x. P x \<Longrightarrow> Q x) \<Longrightarrow> returns Q r"
  by (cases r) simp_all

lemma returns_map_option [simp]: "returns P (map_option f r) \<longleftrightarrow> returns (\<lambda>x. P (f x)) r"
  by (cases r) simp_all

section \<open>Well-formed monitors\<close>

abbreviation ws_ids :: "monitor \<Rightarrow> nat list" where
  "ws_ids m \<equiv> map ws_id (workspaces m)"

definition switch_ok :: "nat \<Rightarrow> workspace_switch option \<Rightarrow> bool" where
  "switch_ok n sw =
    (case sw of None \<Rightarrow> True | Some s \<Rightarrow> 0 \<le> target_idx s \<and> target_idx s \<le> real n - 1)"

text \<open>
  All but the presence of a workspace: the ws_ids are distinct, below the counter, and the sway order
  lists exactly them; the active index and the target of a switch in progress are in range.
\<close>

definition ids_ok :: "monitor \<Rightarrow> bool" where
  "ids_ok m \<longleftrightarrow>
    distinct (ws_ids m) \<and> distinct (sway_workspace_order m) \<and> set (sway_workspace_order m) = set (ws_ids m)
    \<and> (\<forall>i\<in>set (ws_ids m). i < id_counter m)"

definition mon_ok :: "monitor \<Rightarrow> bool" where
  "mon_ok m \<longleftrightarrow>
    ids_ok m \<and> active_workspace_idx m < length (workspaces m)
    \<and> switch_ok (length (workspaces m)) (workspace_switch m)"

definition mon_settled :: "monitor \<Rightarrow> bool" where
  "mon_settled m \<longleftrightarrow> mon_ok m \<and> workspace_switch m = None"

lemma switch_ok_None [simp]: "switch_ok n None"
  by (simp add: switch_ok_def)

lemma mon_settledI: "mon_ok m \<Longrightarrow> mon_settled (m\<lparr>workspace_switch := None\<rparr>)"
  by (simp add: mon_settled_def mon_ok_def ids_ok_def)

lemma mon_settled_ok: "mon_settled m \<Longrightarrow> mon_ok m"
  by (simp add: mon_settled_def)

lemma mon_ok_nonempty: "mon_ok m \<Longrightarrow> workspaces m \<noteq> []"
  by (auto simp: mon_ok_def)

lemma active_workspace_ref_ok:
  "mon_ok m \<Longrightarrow> active_workspace_ref m = Some (workspaces m ! active_workspace_idx m)"
  by (simp add: active_workspace_ref_def mon_ok_def vec_get_def)

lemma idx_of_ws_Some:
  "idx_of_ws m i = Some idx \<Longrightarrow> idx < length (workspaces m) \<and> ws_id (workspaces m ! idx) = i"
  using position_by_Some by (force simp: idx_of_ws_def)

lemma idx_of_ws_None: "idx_of_ws m i = None \<longleftrightarrow> i \<notin> set (ws_ids m)"
  by (auto simp: idx_of_ws_def)

text \<open>
  Fields the invariant does not read may change freely, and so may what a workspace holds and is
  called, as long as the ws_ids stay.
\<close>

lemma mon_ok_frame:
  assumes "mon_ok m" "ws_ids m' = ws_ids m" "sway_workspace_order m' = sway_workspace_order m"
    "id_counter m \<le> id_counter m'" "active_workspace_idx m' < length (workspaces m')"
    "switch_ok (length (workspaces m')) (workspace_switch m')"
  shows "mon_ok m'"
  using assms by (fastforce simp: mon_ok_def ids_ok_def)

section \<open>Vectors\<close>

lemma mset_insert_at [simp]: "mset (insert_at i x xs) = add_mset x (mset xs)"
proof -
  have "mset (take i xs) + mset (drop i xs) = mset xs"
    by (metis append_take_drop_id mset_append)
  then show ?thesis by (simp add: insert_at_def)
qed

lemma mset_remove_at: "i < length xs \<Longrightarrow> add_mset (xs ! i) (mset (remove_at i xs)) = mset xs"
  by (metis (no_types, lifting) id_take_nth_drop mset.simps(2) mset_append remove_at_def
      union_mset_add_mset_right)

lemma map_insert_at [simp]: "map f (insert_at i x xs) = insert_at i (f x) (map f xs)"
  by (simp add: insert_at_def take_map drop_map)

lemma map_remove_at [simp]: "map f (remove_at i xs) = remove_at i (map f xs)"
  by (simp add: remove_at_def take_map drop_map)

section \<open>Sorting\<close>

lemma map_fst_sort_keys: "map fst (sort_keys m) = ws_ids m"
proof -
  have "map fst (sort_keys m) = map ws_id (map snd (enumerate 0 (workspaces m)))"
    unfolding sort_keys_def map_map comp_def by simp
  then show ?thesis by (simp only: map_snd_enumerate)
qed

lemma set_sort_keys: "fst ` set (sort_keys m) = set (ws_ids m)"
  using map_fst_sort_keys [of m] by (metis set_map)

text \<open>The key a workspace is sorted by, read off its identity.\<close>

definition ws_class :: "workspace \<Rightarrow> nat \<times> int" where
  "ws_class ws =
    (case ws_number ws of
       Some n \<Rightarrow> (0, n)
     | None \<Rightarrow> if ws_name ws \<noteq> None then (1, 0) else (2, 0))"

lemma sort_class_nth:
  assumes "i < length (workspaces m)"
  shows "sort_class m (i, workspaces m ! i) = ws_class (workspaces m ! i)"
  using assms
  by (auto simp: sort_class_def ws_class_def has_sway_identity_def sway_workspace_number_def vec_get_def
      split: option.splits)

lemma key_of_sort_keys:
  assumes "distinct (ws_ids m)" "ws \<in> set (workspaces m)"
  shows "key_of (sort_keys m) (ws_id ws) = ws_class ws"
proof -
  obtain i where i: "i < length (workspaces m)" "workspaces m ! i = ws"
    using assms(2) by (auto simp: in_set_conv_nth)
  have "distinct (map fst (sort_keys m))" using assms(1) by (simp add: map_fst_sort_keys)
  moreover have "(ws_id ws, sort_class m (i, ws)) \<in> set (sort_keys m)"
    using i by (force simp: sort_keys_def in_set_enumerate_eq)
  ultimately have "map_of (sort_keys m) (ws_id ws) = Some (sort_class m (i, ws))"
    by (rule map_of_is_SomeI)
  then show ?thesis using sort_class_nth [OF i(1)] i(2) by (simp add: key_of_def)
qed

text \<open>
  Sorting permutes the workspaces and the sway order, leaves the same workspace active, and puts
  the workspaces in order: numbered ones by number, then named ones, then the unidentified, ties
  in the order of creation.
\<close>

definition sort_rank :: "workspace \<Rightarrow> nat \<times> int \<times> nat" where
  "sort_rank ws = (fst (ws_class ws), snd (ws_class ws), ws_id ws)"

definition sorted_from :: "monitor \<Rightarrow> monitor \<Rightarrow> bool" where
  "sorted_from m m' \<longleftrightarrow>
    mset (workspaces m') = mset (workspaces m)
    \<and> mset (sway_workspace_order m') = mset (sway_workspace_order m)
    \<and> sorted (map sort_rank (workspaces m'))
    \<and> active_workspace_idx m' < length (workspaces m')
    \<and> workspaces m' ! active_workspace_idx m' = workspaces m ! active_workspace_idx m
    \<and> workspace_focus_history m' = workspace_focus_history m
    \<and> previous_workspace_id m' = previous_workspace_id m
    \<and> workspace_switch m' = workspace_switch m
    \<and> id_counter m' = id_counter m"

lemma nth_key_eq:
  assumes "distinct (map f xs)" "i < length xs" "y \<in> set xs" "f (xs ! i) = f y"
  shows "xs ! i = y"
  using assms by (metis distinct_map inj_onD nth_mem)

lemma sort_sway_workspaces_sorted_from:
  assumes ids: "distinct (ws_ids m)" "set (sway_workspace_order m) \<subseteq> set (ws_ids m)"
    and act: "active_workspace_idx m < length (workspaces m)"
  shows "returns (sorted_from m) (sort_sway_workspaces m)"
proof -
  define keys where "keys = sort_keys m"
  define srt where "srt = sort_key (\<lambda>ws. (fst (key_of keys (ws_id ws)), snd (key_of keys (ws_id ws)), ws_id ws)) (workspaces m)"
  define a where "a = workspaces m ! active_workspace_idx m"
  have a: "a \<in> set (workspaces m)" using act by (simp add: a_def)
  have s: "mset srt = mset (workspaces m)" "set srt = set (workspaces m)"
    by (simp_all add: srt_def)
  have "ws_id a \<in> ws_id ` set srt" using a s(2) by blast
  then obtain idx where idx: "position_by (\<lambda>ws. ws_id ws = ws_id a) srt = Some idx"
    by (metis (mono_tags, lifting) imageE not_None_eq position_by_None)
  have i: "idx < length srt" "ws_id (srt ! idx) = ws_id a"
    using position_by_Some [OF idx] by simp_all
  have "mset (map ws_id srt) = mset (ws_ids m)" using s(1) by simp
  then have "distinct (map ws_id srt)" using ids(1) by (metis mset_eq_imp_distinct_iff)
  then have nth: "srt ! idx = a" using nth_key_eq [OF _ i(1)] a s(2) i(2) by metis
  have "map sort_rank srt = map (\<lambda>ws. (fst (key_of keys (ws_id ws)), snd (key_of keys (ws_id ws)), ws_id ws)) srt"
    using key_of_sort_keys [OF ids(1)] s(2) by (simp add: sort_rank_def keys_def)
  then have "sorted (map sort_rank srt)" by (simp only: srt_def sorted_sort_key)
  moreover have "filter (\<lambda>i. i \<in> fst ` set keys) (sway_workspace_order m) = sway_workspace_order m"
    using ids(2) by (auto simp: keys_def set_sort_keys intro: filter_True)
  moreover have "active_workspace_ref m = Some a"
    using act by (simp add: active_workspace_ref_def a_def)
  ultimately show ?thesis
    using s(1) i(1) nth idx
    by (simp add: sort_sway_workspaces_def Let_def keys_def [symmetric] srt_def [symmetric]
        sorted_from_def a_def)
qed

lemma sorted_from_length: "sorted_from m m' \<Longrightarrow> length (workspaces m') = length (workspaces m)"
  by (auto simp: sorted_from_def dest: mset_eq_length)

lemma sorted_from_ids_ok:
  assumes "ids_ok m" "sorted_from m m'"
  shows "ids_ok m'"
proof -
  have "mset (ws_ids m') = mset (ws_ids m)" using assms(2) by (simp add: sorted_from_def)
  then have "distinct (ws_ids m') = distinct (ws_ids m)" "set (ws_ids m') = set (ws_ids m)"
    by (metis mset_eq_imp_distinct_iff, metis set_mset_mset)
  moreover have "distinct (sway_workspace_order m') = distinct (sway_workspace_order m)"
    "set (sway_workspace_order m') = set (sway_workspace_order m)"
    using assms(2) unfolding sorted_from_def
    by (metis mset_eq_imp_distinct_iff, metis set_mset_mset)
  moreover have "id_counter m' = id_counter m" using assms(2) by (simp add: sorted_from_def)
  ultimately show ?thesis using assms(1) unfolding ids_ok_def by simp
qed

lemma sort_sway_workspaces_ok:
  assumes "ids_ok m" "active_workspace_idx m < length (workspaces m)"
    "switch_ok (length (workspaces m)) (workspace_switch m)"
  shows "returns (\<lambda>m'. mon_ok m' \<and> sorted_from m m') (sort_sway_workspaces m)"
proof -
  have "returns (sorted_from m) (sort_sway_workspaces m)"
    using sort_sway_workspaces_sorted_from assms(1,2) by (simp add: ids_ok_def)
  then show ?thesis
  proof (rule returns_mono)
    fix m' assume s: "sorted_from m m'"
    have "active_workspace_idx m' < length (workspaces m')" "workspace_switch m' = workspace_switch m"
      using s by (simp_all add: sorted_from_def)
    then show "mon_ok m' \<and> sorted_from m m'"
      using sorted_from_ids_ok [OF assms(1) s] sorted_from_length [OF s] assms(3) s
      by (simp add: mon_ok_def)
  qed
qed

section \<open>Insertion\<close>

lemma insert_ids_ok:
  assumes "ids_ok m" "ws_id ws \<notin> set (ws_ids m)" "ws_id ws < id_counter m'" "id_counter m \<le> id_counter m'"
    "workspaces m' = insert_at idx ws (workspaces m)"
    "distinct (sway_workspace_order m')"
    "set (sway_workspace_order m') = insert (ws_id ws) (set (sway_workspace_order m))"
  shows "ids_ok m'"
  using assms unfolding ids_ok_def by auto

lemma switch_ok_insert:
  assumes "switch_ok n sw"
  shows "switch_ok (Suc n)
    (map_option (\<lambda>sw. if real idx \<le> target_idx sw then switch_offset 1 sw else sw) sw)"
  using assms
  by (auto simp: switch_ok_def target_idx_def switch_offset_def split: option.splits workspace_switch.splits)

lemma insert_new_workspace_at_ok:
  assumes "ids_ok m" "idx \<le> length (workspaces m)" "ws_id ws \<notin> set (ws_ids m)" "ws_id ws < id_counter m"
  shows "returns (\<lambda>m'. ids_ok m' \<and> workspaces m' = insert_at idx ws (workspaces m)
      \<and> active_workspace_idx m' =
          (if idx \<le> active_workspace_idx m then active_workspace_idx m + 1 else active_workspace_idx m)
      \<and> (switch_ok (length (workspaces m)) (workspace_switch m)
           \<longrightarrow> switch_ok (length (workspaces m')) (workspace_switch m'))
      \<and> id_counter m' = id_counter m
      \<and> ws_id ws \<in> set (workspace_focus_history m'))
    (insert_new_workspace_at idx ws m)"
proof -
  define m' where "m' = the (insert_new_workspace_at idx ws m)"
  have m': "insert_new_workspace_at idx ws m = Some m'"
    using assms(2) by (simp add: m'_def insert_new_workspace_at_def)
  have f: "workspaces m' = insert_at idx ws (workspaces m)" "id_counter m' = id_counter m"
    "\<exists>k. sway_workspace_order m' = insert_at k (ws_id ws) (sway_workspace_order m)"
    "workspace_switch m' = map_option
       (\<lambda>sw. if real idx \<le> target_idx sw then switch_offset 1 sw else sw) (workspace_switch m)"
    "active_workspace_idx m' =
       (if idx \<le> active_workspace_idx m then active_workspace_idx m + 1 else active_workspace_idx m)"
    "ws_id ws \<in> set (workspace_focus_history m')"
    using m' assms(2) by (auto simp: insert_new_workspace_at_def)
  have "distinct (sway_workspace_order m')"
    "set (sway_workspace_order m') = insert (ws_id ws) (set (sway_workspace_order m))"
    using f(3) assms(1,3) by (auto simp: ids_ok_def)
  then have "ids_ok m'" using insert_ids_ok [OF assms(1,3)] f(1,2) assms(4) by simp
  then show ?thesis
    using m' f switch_ok_insert [of "length (workspaces m)" "workspace_switch m" idx] by simp
qed

lemma insert_new_workspace_at_mon_ok:
  assumes "mon_ok m" "idx \<le> length (workspaces m)" "ws_id ws \<notin> set (ws_ids m)" "ws_id ws < id_counter m"
  shows "returns (\<lambda>m'. mon_ok m' \<and> workspaces m' = insert_at idx ws (workspaces m)
      \<and> id_counter m' = id_counter m) (insert_new_workspace_at idx ws m)"
proof (rule returns_mono [OF insert_new_workspace_at_ok [OF _ assms(2-4)]])
  show "ids_ok m" using assms(1) by (simp add: mon_ok_def)
qed (use assms(1) in \<open>auto simp: mon_ok_def\<close>)

lemma fresh_ws_id:
  assumes "ids_ok m"
  shows "ids_ok (m\<lparr>id_counter := id_counter m + 1\<rparr>)" "id_counter m \<notin> set (ws_ids m)"
  using assms by (auto simp: ids_ok_def)

lemma mon_ok_bump: "mon_ok m \<Longrightarrow> mon_ok (m\<lparr>id_counter := id_counter m + 1\<rparr>)"
  using fresh_ws_id by (simp add: mon_ok_def)

lemma workspace_new_id [simp]: "ws_id (workspace_new i out) = i"
  by (simp add: workspace_new_def)

lemma set_sway_identity_id [simp]: "ws_id (set_sway_identity nm num ws) = ws_id ws"
  by (simp add: set_sway_identity_def)

lemma add_workspace_at_ok:
  assumes "mon_ok m" "idx \<le> length (workspaces m)"
  shows "returns mon_ok (add_workspace_at idx m)"
  unfolding add_workspace_at_def
proof (rule returns_mono [OF insert_new_workspace_at_mon_ok])
  show "mon_ok (m\<lparr>id_counter := id_counter m + 1\<rparr>)" using assms(1) by (rule mon_ok_bump)
qed (use assms fresh_ws_id(2) in \<open>auto simp: mon_ok_def\<close>)

lemma add_sway_workspace_at_ok:
  assumes "mon_ok m" "idx \<le> length (workspaces m)"
  shows "returns (\<lambda>r. mon_ok (snd r) \<and> fst r = id_counter m
      \<and> workspaces (snd r) = insert_at idx (set_sway_identity name number
           (workspace_new (id_counter m) (mon_output m))) (workspaces m)
      \<and> id_counter (snd r) = id_counter m + 1)
    (add_sway_workspace_at idx name number m)"
proof -
  define ws where "ws = set_sway_identity name number (workspace_new (id_counter m) (mon_output m))"
  have i: "ws_id ws = id_counter m" by (simp add: ws_def)
  have "returns (\<lambda>m'. mon_ok m' \<and> workspaces m' = insert_at idx ws (workspaces m)
      \<and> id_counter m' = id_counter m + 1)
    (insert_new_workspace_at idx ws (m\<lparr>id_counter := id_counter m + 1\<rparr>))"
  proof (rule returns_mono [OF insert_new_workspace_at_mon_ok])
    show "mon_ok (m\<lparr>id_counter := id_counter m + 1\<rparr>)" using assms(1) by (rule mon_ok_bump)
  qed (use assms fresh_ws_id(2) i in \<open>auto simp: mon_ok_def\<close>)
  then obtain m1 where m1: "insert_new_workspace_at idx ws (m\<lparr>id_counter := id_counter m + 1\<rparr>) = Some m1"
    "mon_ok m1" "workspaces m1 = insert_at idx ws (workspaces m)" "id_counter m1 = id_counter m + 1"
    by (auto simp: returns_iff)
  have "id_counter m \<in> set (ws_ids m1)" using m1(3) i by simp
  then have "mon_ok (m1\<lparr>sway_workspace_order := retain_ne (id_counter m) (sway_workspace_order m1) @ [id_counter m]\<rparr>)"
    using m1(2) by (auto simp: mon_ok_def ids_ok_def)
  then show ?thesis
    using m1 i by (simp add: add_sway_workspace_at_def ws_def [symmetric] Let_def)
qed

lemma create_sway_workspace_ok:
  assumes "mon_ok m"
  shows "returns (\<lambda>r. mon_ok (snd r) \<and> fst r < length (workspaces (snd r))
      \<and> workspaces (snd r) ! fst r
          = set_sway_identity name number (workspace_new (id_counter m) (mon_output m)))
    (create_sway_workspace name number m)"
proof -
  define ws where "ws = set_sway_identity name number (workspace_new (id_counter m) (mon_output m))"
  obtain m1 where m1: "add_sway_workspace_at (length (workspaces m) - 1) name number m = Some (ws_id ws, m1)"
    "mon_ok m1" "ws \<in> set (workspaces m1)"
    using add_sway_workspace_at_ok [OF assms, of "length (workspaces m) - 1" name number]
    by (auto simp: returns_iff ws_def)
  obtain m2 where m2: "sort_sway_workspaces m1 = Some m2" "mon_ok m2" "sorted_from m1 m2"
    using sort_sway_workspaces_ok [of m1] m1(2) by (auto simp: returns_iff mon_ok_def)
  have w: "ws \<in> set (workspaces m2)"
    using m1(3) m2(3) by (metis set_mset_mset sorted_from_def)
  then obtain k where k: "idx_of_ws m2 (ws_id ws) = Some k"
    by (metis idx_of_ws_None imageI list.set_map not_None_eq)
  have kk: "k < length (workspaces m2)" "ws_id (workspaces m2 ! k) = ws_id ws"
    using idx_of_ws_Some [OF k] by simp_all
  have "workspaces m2 ! k = ws"
    using nth_key_eq [OF _ kk(1) w kk(2)] m2(2) by (simp add: mon_ok_def ids_ok_def)
  then show ?thesis
    using m1(1) m2 k kk(1) by (simp add: create_sway_workspace_def ws_def [symmetric] Let_def)
qed

section \<open>Destruction\<close>

text \<open>
  What every destruction keeps: nothing is added, every workspace that must be kept and the active
  one survive, and only the list, the order and the index change.
\<close>

definition shrunk :: "monitor \<Rightarrow> monitor \<Rightarrow> bool" where
  "shrunk m m' \<longleftrightarrow>
    set (workspaces m') \<subseteq> set (workspaces m)
    \<and> (\<forall>ws\<in>set (workspaces m). must_be_kept ws \<longrightarrow> ws \<in> set (workspaces m'))
    \<and> active_workspace_idx m' < length (workspaces m')
    \<and> workspaces m' ! active_workspace_idx m' = workspaces m ! active_workspace_idx m
    \<and> ids_ok m'
    \<and> workspace_focus_history m' = workspace_focus_history m
    \<and> previous_workspace_id m' = previous_workspace_id m
    \<and> workspace_switch m' = workspace_switch m
    \<and> id_counter m' = id_counter m"

lemma shrunk_refl: "mon_ok m \<Longrightarrow> shrunk m m"
  by (simp add: shrunk_def mon_ok_def)

lemma shrunk_trans: "shrunk m m1 \<Longrightarrow> shrunk m1 m2 \<Longrightarrow> shrunk m m2"
  unfolding shrunk_def by (intro conjI) (fastforce+)

lemma shrunk_settled: "mon_settled m \<Longrightarrow> shrunk m m' \<Longrightarrow> mon_settled m'"
  by (simp add: mon_settled_def mon_ok_def shrunk_def)

lemma remove_at_nth:
  "i < length xs \<Longrightarrow> j < length xs - 1 \<Longrightarrow> remove_at i xs ! j = (if j < i then xs ! j else xs ! Suc j)"
  by (auto simp: remove_at_def nth_append min_def)

lemma drop_workspace_shrunk:
  assumes "mon_ok m" "idx < length (workspaces m)" "idx \<noteq> active_workspace_idx m"
    "\<not> must_be_kept (workspaces m ! idx)"
  shows "shrunk m (drop_workspace idx m)"
proof -
  let ?ws = "workspaces m" and ?a = "active_workspace_idx m"
  have d: "distinct (ws_ids m)" "distinct ?ws"
    using assms(1) by (auto simp: mon_ok_def ids_ok_def distinct_map)
  have a: "?a < length ?ws" using assms(1) by (simp add: mon_ok_def)
  have s: "set (remove_at idx ?ws) = set ?ws - {?ws ! idx}"
    using d(2) assms(2) by simp
  have si: "set (remove_at idx (ws_ids m)) = set (ws_ids m) - {ws_id (?ws ! idx)}"
    using set_remove_at [OF d(1), of idx] assms(2) by simp
  have "ids_ok (drop_workspace idx m)"
    using assms(1) d(1) si by (auto simp: drop_workspace_def ids_ok_def mon_ok_def)
  moreover have "active_workspace_idx (drop_workspace idx m) < length (workspaces (drop_workspace idx m))"
    using assms(2,3) a by (simp add: drop_workspace_def) linarith
  moreover have "remove_at idx ?ws ! (if idx < ?a then ?a - 1 else ?a) = ?ws ! ?a"
    using assms(2,3) a by (subst remove_at_nth) auto
  ultimately show ?thesis
    using s assms(4) by (auto simp: shrunk_def drop_workspace_def)
qed

text \<open>A settled monitor and a destruction step; iterating one keeps both.\<close>

locale settled_step =
  fixes step :: "nat \<Rightarrow> monitor \<Rightarrow> monitor option"
  assumes step_shrinks: "mon_settled m \<Longrightarrow> returns (shrunk m) (step i m)"
begin

lemma step_then:
  assumes "mon_settled m" "\<And>m'. mon_settled m' \<Longrightarrow> returns (shrunk m') (f m')"
  shows "returns (shrunk m) (Option.bind (step i m) f)"
proof (rule returns_bind [OF step_shrinks [OF assms(1)]])
  fix m' assume s: "shrunk m m'"
  have "returns (shrunk m') (f m')" using assms(2) shrunk_settled [OF assms(1) s] by blast
  then show "returns (shrunk m) (f m')" by (rule returns_mono) (rule shrunk_trans [OF s])
qed

lemma step_opt:
  assumes "mon_settled m"
  shows "returns (shrunk m) (case p of Some i \<Rightarrow> if c i then step i m else Some m | None \<Rightarrow> Some m)"
  using assms step_shrinks [OF assms] shrunk_refl [OF mon_settled_ok [OF assms]]
  by (simp split: option.splits)

end

interpretation destroy: settled_step consider_destroy_workspace
proof
  fix m i assume m: "mon_settled m"
  have ok: "mon_ok m" and sw: "workspace_switch m = None"
    using m by (simp_all add: mon_settled_def)
  show "returns (shrunk m) (consider_destroy_workspace i m)"
  proof (cases "idx_of_ws m i")
    case None
    then show ?thesis using shrunk_refl [OF ok] sw by (simp add: consider_destroy_workspace_def)
  next
    case (Some idx)
    then have "idx < length (workspaces m)" using idx_of_ws_Some by blast
    then show ?thesis
      using Some sw shrunk_refl [OF ok] drop_workspace_shrunk [OF ok, of idx]
      by (simp add: consider_destroy_workspace_def)
  qed
qed

lemma consider_each_shrunk: "mon_settled m \<Longrightarrow> returns (shrunk m) (consider_each is m)"
proof (induction "is" arbitrary: m)
  case Nil
  then show ?case using shrunk_refl mon_settled_ok by simp
next
  case (Cons i "is")
  show ?case unfolding consider_each.simps
    by (rule destroy.step_then [OF Cons.prems]) (rule Cons.IH)
qed

interpretation clean_up: settled_step "\<lambda>_. clean_up_workspaces"
  by unfold_locales (simp add: clean_up_workspaces_def consider_each_shrunk)

text \<open>
  Reaping walks the doomed indices from the last to the first; those still ahead are in range,
  disposable, and with the active workspace they are all that need not be kept.
\<close>

definition reap_inv :: "nat list \<Rightarrow> monitor \<Rightarrow> bool" where
  "reap_inv is m \<longleftrightarrow>
    sorted_wrt (>) is
    \<and> (\<forall>i\<in>set is. i < length (workspaces m) \<and> \<not> must_be_kept (workspaces m ! i))
    \<and> (\<forall>ws\<in>set (workspaces m). must_be_kept ws \<or> ws = workspaces m ! active_workspace_idx m
         \<or> (\<exists>i\<in>set is. workspaces m ! i = ws))"

lemma reap_inv_skip: "reap_inv (active_workspace_idx m # is) m \<Longrightarrow> reap_inv is m"
  by (auto simp: reap_inv_def)

lemma reap_inv_drop:
  assumes "mon_ok m" "reap_inv (i # is) m" "i \<noteq> active_workspace_idx m"
  shows "shrunk m (drop_workspace i m) \<and> reap_inv is (drop_workspace i m)"
proof -
  define m1 where "m1 = drop_workspace i m"
  have i: "i < length (workspaces m)" "\<not> must_be_kept (workspaces m ! i)"
    using assms(2) by (simp_all add: reap_inv_def)
  have s: "shrunk m m1" unfolding m1_def by (rule drop_workspace_shrunk [OF assms(1) i(1) assms(3) i(2)])
  have w1: "workspaces m1 = remove_at i (workspaces m)" by (simp add: m1_def drop_workspace_def)
  have lt: "j < i" if "j \<in> set is" for j using assms(2) that by (simp add: reap_inv_def)
  have same: "workspaces m1 ! j = workspaces m ! j" if "j \<in> set is" for j
    using remove_at_nth [OF i(1), of j] lt [OF that] i(1) w1 by simp
  have act: "workspaces m1 ! active_workspace_idx m1 = workspaces m ! active_workspace_idx m"
    using s by (simp add: shrunk_def)
  have d: "distinct (workspaces m)" using assms(1) by (auto simp: mon_ok_def ids_ok_def distinct_map)
  have sub: "set (workspaces m1) = set (workspaces m) - {workspaces m ! i}"
    using w1 d i(1) by simp
  have "must_be_kept ws \<or> ws = workspaces m1 ! active_workspace_idx m1 \<or> (\<exists>j\<in>set is. workspaces m1 ! j = ws)"
    if "ws \<in> set (workspaces m1)" for ws
  proof -
    have "ws \<in> set (workspaces m)" "ws \<noteq> workspaces m ! i" using that sub by simp_all
    then have "must_be_kept ws \<or> ws = workspaces m ! active_workspace_idx m
        \<or> (\<exists>j\<in>set is. workspaces m ! j = ws)"
      using assms(2) by (auto simp: reap_inv_def)
    then show ?thesis using act same by metis
  qed
  moreover have "j < length (workspaces m1)" if "j \<in> set is" for j
    using lt [OF that] i(1) w1 by simp
  ultimately show ?thesis
    using s same assms(2) by (simp add: reap_inv_def m1_def [symmetric])
qed

definition reaped :: "monitor \<Rightarrow> bool" where
  "reaped m \<longleftrightarrow>
    (\<forall>ws\<in>set (workspaces m). must_be_kept ws \<or> ws = workspaces m ! active_workspace_idx m)"

lemma reap_each_spec:
  assumes "mon_settled m" "reap_inv is m"
  shows "returns (\<lambda>m'. shrunk m m' \<and> reaped m') (reap_each is m)"
  using assms
proof (induction "is" arbitrary: m)
  case Nil
  then show ?case using shrunk_refl mon_settled_ok by (simp add: reap_inv_def reaped_def)
next
  case (Cons i "is")
  show ?case
  proof (cases "i = active_workspace_idx m")
    case True
    then show ?thesis using Cons.IH [OF Cons.prems(1)] reap_inv_skip Cons.prems(2) by simp
  next
    case False
    define m1 where "m1 = drop_workspace i m"
    have s: "shrunk m m1" "reap_inv is m1"
      unfolding m1_def using reap_inv_drop [OF mon_settled_ok [OF Cons.prems(1)] Cons.prems(2) False] by blast+
    have "returns (\<lambda>m'. shrunk m1 m' \<and> reaped m') (reap_each is m1)"
      by (rule Cons.IH [OF shrunk_settled [OF Cons.prems(1) s(1)] s(2)])
    then have "returns (\<lambda>m'. shrunk m m' \<and> reaped m') (reap_each is m1)"
      by (rule returns_mono) (use shrunk_trans [OF s(1)] in blast)
    then show ?thesis using False Cons.prems(2) by (simp add: m1_def reap_inv_def)
  qed
qed

lemma sorted_fst_enumerate_filter: "sorted_wrt (<) (map fst (filter P (enumerate n xs)))"
proof (induction xs arbitrary: n)
  case (Cons x xs)
  have "\<forall>k\<in>set (map fst (filter P (enumerate (Suc n) xs))). n < k"
    by (auto simp: in_set_enumerate_eq)
  then show ?case using Cons.IH [of "Suc n"] by simp
qed simp

lemma reap_inv_doomed:
  "reap_inv (rev (map fst (filter (\<lambda>iw. \<not> must_be_kept (snd iw)) (enumerate 0 (workspaces m))))) m"
proof -
  define ks where "ks = map fst (filter (\<lambda>iw. \<not> must_be_kept (snd iw)) (enumerate 0 (workspaces m)))"
  have "sorted_wrt (<) ks" unfolding ks_def by (rule sorted_fst_enumerate_filter)
  then have "sorted_wrt (>) (rev ks)" by (simp add: sorted_wrt_rev)
  moreover have ks: "set ks = {i. i < length (workspaces m) \<and> \<not> must_be_kept (workspaces m ! i)}"
    by (force simp: ks_def in_set_enumerate_eq image_iff)
  ultimately show ?thesis
    unfolding ks_def [symmetric] reap_inv_def by (auto simp: in_set_conv_nth)
qed

text \<open>
  Reaping an output that has a workspace: nothing that must be kept is lost, the active workspace
  stays active, every other workspace left must be kept, and the list is in sway's order.
\<close>

definition reaped_from :: "monitor \<Rightarrow> monitor \<Rightarrow> bool" where
  "reaped_from m m' \<longleftrightarrow>
    mon_settled m' \<and> reaped m' \<and> sorted (map sort_rank (workspaces m'))
    \<and> set (workspaces m') \<subseteq> set (workspaces m)
    \<and> (\<forall>ws\<in>set (workspaces m). must_be_kept ws \<longrightarrow> ws \<in> set (workspaces m'))
    \<and> workspaces m' ! active_workspace_idx m' = workspaces m ! active_workspace_idx m
    \<and> id_counter m' = id_counter m
    \<and> workspace_focus_history m' = workspace_focus_history m"

lemma idx_of_active:
  assumes "mon_ok m" "a < length (workspaces m)"
  shows "idx_of_ws m (ws_id (workspaces m ! a)) = Some a"
  unfolding idx_of_ws_def
  by (rule position_by_key) (use assms in \<open>simp_all add: mon_ok_def ids_ok_def\<close>)

lemma reap_empty_workspaces_spec:
  assumes "ids_ok m" "active_workspace_idx m < length (workspaces m)"
  shows "returns (reaped_from m) (reap_empty_workspaces m)"
proof -
  define m1 where "m1 = m\<lparr>workspace_switch := None\<rparr>"
  define a where "a = workspaces m ! active_workspace_idx m"
  have st: "mon_settled m1" using assms by (simp add: m1_def mon_settled_def mon_ok_def ids_ok_def)
  obtain m2 where m2: "reap_each (rev (map fst (filter (\<lambda>iw. \<not> must_be_kept (snd iw)) (enumerate 0 (workspaces m1))))) m1 = Some m2"
    "shrunk m1 m2" "reaped m2"
    using reap_each_spec [OF st reap_inv_doomed] by (auto simp: returns_iff)
  have s2: "mon_settled m2" by (rule shrunk_settled [OF st m2(2)])
  have ne: "workspaces m2 \<noteq> []" by (rule mon_ok_nonempty [OF mon_settled_ok [OF s2]])
  obtain m3 where m3: "sort_sway_workspaces m2 = Some m3" "mon_ok m3" "sorted_from m2 m3"
    using sort_sway_workspaces_ok [of m2] s2 by (auto simp: returns_iff mon_settled_def mon_ok_def)
  have same: "set (workspaces m3) = set (workspaces m2)"
    using m3(3) by (metis set_mset_mset sorted_from_def)
  have act3: "workspaces m3 ! active_workspace_idx m3 = a" "active_workspace_idx m3 < length (workspaces m3)"
    using m3(3) m2(2) by (simp_all add: sorted_from_def shrunk_def m1_def a_def)
  have i: "idx_of_ws m3 (ws_id a) = Some (active_workspace_idx m3)"
    using idx_of_active [OF m3(2) act3(2)] act3(1) by simp
  have "active_workspace_ref m = Some a"
    using assms(2) by (simp add: active_workspace_ref_def a_def)
  moreover have "workspaces m \<noteq> []" using assms(2) by auto
  ultimately have eq: "reap_empty_workspaces m = Some m3"
    using m2(1) ne m3(1) i by (simp add: reap_empty_workspaces_def m1_def [symmetric] Let_def)
  have "mon_settled m3" using m3 s2 by (simp add: mon_settled_def sorted_from_def)
  moreover have "reaped m3"
    using m2(2,3) same act3(1) by (simp add: reaped_def shrunk_def m1_def a_def)
  ultimately have "reaped_from m m3"
    unfolding reaped_from_def same using m2(2) m3(3) act3(1)
    by (simp add: sorted_from_def shrunk_def m1_def a_def)
  then show ?thesis using eq by simp
qed

lemma reap_empty_workspaces_ok: "mon_ok m \<Longrightarrow> returns (reaped_from m) (reap_empty_workspaces m)"
  by (rule reap_empty_workspaces_spec) (simp_all add: mon_ok_def)

text \<open>An output that lost its last workspace gets a fresh one.\<close>

lemma reap_empty_monitor:
  assumes "ids_ok m" "workspaces m = []" "workspace_switch m = None"
  shows "returns (\<lambda>m'. mon_settled m' \<and> reaped m'
      \<and> workspaces m' = [workspace_new (id_counter m) (mon_output m)]) (reap_empty_workspaces m)"
proof -
  let ?m = "m\<lparr>id_counter := id_counter m + 1\<rparr>" and ?w = "workspace_new (id_counter m) (mon_output m)"
  obtain m1 where m1: "insert_new_workspace_at 0 ?w ?m = Some m1" "ids_ok m1"
    "workspaces m1 = [?w]"
    using insert_new_workspace_at_ok [of ?m 0 ?w] fresh_ws_id [OF assms(1)] assms(2)
    by (auto simp: returns_iff insert_at_def)
  have "workspace_switch m1 = None"
    using m1(1) assms by (auto simp: insert_new_workspace_at_def)
  then have "mon_settled (m1\<lparr>active_workspace_idx := 0\<rparr>)"
    using m1(2,3) by (simp add: mon_settled_def mon_ok_def ids_ok_def)
  then show ?thesis
    using m1 assms(2)
    by (simp add: reap_empty_workspaces_def fresh_only_def add_workspace_bottom_def add_workspace_at_def reaped_def)
qed

section \<open>Sticky windows\<close>

definition mon_windows :: "monitor \<Rightarrow> nat multiset" where
  "mon_windows m = (\<Sum>ws\<in>#mset (workspaces m). mset (ws_windows ws))"

lemma take_by_key_mset:
  "take_by_key f ks xs = (taken, rest) \<Longrightarrow> mset taken + mset rest = mset xs"
proof (induction ks arbitrary: xs taken rest)
  case (Cons k ks)
  show ?case
  proof (cases "position_by (\<lambda>x. f x = k) xs")
    case None
    then show ?thesis using Cons.IH Cons.prems by (simp del: position_by_None)
  next
    case (Some i)
    obtain t r where tr: "take_by_key f ks (remove_at i xs) = (t, r)" by fastforce
    have "mset t + mset r = mset (remove_at i xs)" by (rule Cons.IH [OF tr])
    then show ?thesis
      using Some tr Cons.prems mset_remove_at [of i xs] position_by_Some [OF Some] by auto
  qed
qed simp

definition entries_windows :: "float_entry list \<Rightarrow> nat multiset" where
  "entries_windows es = mset (map fe_window es)"

definition trees_windows :: "float_tree list \<Rightarrow> nat multiset" where
  "trees_windows ts = mset (concat (map ft_windows ts))"

lemma trees_windows_mset: "mset ts = mset us \<Longrightarrow> trees_windows ts = trees_windows us"
  unfolding trees_windows_def mset_concat map_map sum_mset_sum_list [symmetric] mset_map by simp

lemma entries_windows_mset: "mset es = mset fs \<Longrightarrow> entries_windows es = entries_windows fs"
  by (simp add: entries_windows_def)

lemma ws_windows_mset:
  "mset (ws_windows ws) = mset (ws_tiling ws) + entries_windows (ws_entries ws) + trees_windows (ws_trees ws)"
  by (simp add: ws_windows_def entries_windows_def trees_windows_def)

lemma take_sticky_trees_spec:
  assumes "take_sticky_trees ws = (ts, ws')"
  shows "trees_windows ts + mset (ws_windows ws') = mset (ws_windows ws) \<and> ws_id ws' = ws_id ws"
proof -
  obtain rest where r: "take_by_key ft_root (map ft_root (filter ft_sticky (ws_trees ws))) (ws_trees ws) = (ts, rest)"
    "ws' = ws\<lparr>ws_trees := rest\<rparr>"
    using assms by (auto simp: take_sticky_trees_def Let_def split: prod.splits)
  have "trees_windows (ts @ rest) = trees_windows (ws_trees ws)"
    by (rule trees_windows_mset) (simp add: take_by_key_mset [OF r(1)])
  then show ?thesis using r(2) by (simp add: ws_windows_mset trees_windows_def ac_simps)
qed

lemma take_sticky_tiles_spec:
  assumes "take_sticky_tiles ws = (es, ws')"
  shows "entries_windows es + mset (ws_windows ws') = mset (ws_windows ws) \<and> ws_id ws' = ws_id ws"
proof -
  obtain rest where r: "take_by_key fe_window (map fe_window (filter fe_sticky (ws_entries ws))) (ws_entries ws) = (es, rest)"
    "ws' = ws\<lparr>ws_entries := rest\<rparr>"
    using assms by (auto simp: take_sticky_tiles_def Let_def split: prod.splits)
  have "entries_windows (es @ rest) = entries_windows (ws_entries ws)"
    by (rule entries_windows_mset) (simp add: take_by_key_mset [OF r(1)])
  then show ?thesis using r(2) by (simp add: ws_windows_mset entries_windows_def ac_simps)
qed

lemma fold_add_floating_tree:
  "mset (ws_windows (fold add_floating_tree ts ws)) = trees_windows ts + mset (ws_windows ws)
   \<and> ws_id (fold add_floating_tree ts ws) = ws_id ws"
  by (induction ts arbitrary: ws)
    (simp_all add: add_floating_tree_def ws_windows_mset trees_windows_def ac_simps)

lemma fold_add_sticky_tile:
  "mset (ws_windows (fold add_sticky_tile es ws)) = entries_windows es + mset (ws_windows ws)
   \<and> ws_id (fold add_sticky_tile es ws) = ws_id ws"
  by (induction es arbitrary: ws)
    (simp_all add: add_sticky_tile_def ws_windows_mset entries_windows_def ac_simps)

lemma sum_mset_two_updates:
  fixes f :: "'a \<Rightarrow> 'b multiset"
  assumes "i < length xs" "j < length xs" "i \<noteq> j" "f a + f b = f (xs ! i) + f (xs ! j)"
  shows "(\<Sum>x\<in>#mset (xs[i := a, j := b]). f x) = (\<Sum>x\<in>#mset xs. f x)"
proof -
  define M where "M = mset xs - {#xs ! i#} - {#xs ! j#}"
  have i: "mset xs = add_mset (xs ! i) (mset xs - {#xs ! i#})" using assms(1) by simp
  have "mset (xs[i := a]) = add_mset a (mset xs - {#xs ! i#})" using assms(1) by (rule mset_update)
  moreover have "xs[i := a] ! j = xs ! j" using assms(3) by simp
  ultimately have u: "mset (xs[i := a, j := b]) = add_mset b (add_mset a (mset xs - {#xs ! i#}) - {#xs ! j#})"
    using assms(2) mset_update [of j "xs[i := a]" b] by simp
  have "xs ! j \<in># mset xs - {#xs ! i#}"
  proof -
    have "mset xs = mset (remove_at i xs) + {#xs ! i#}" using mset_remove_at [OF assms(1)] by simp
    then have r: "mset xs - {#xs ! i#} = mset (remove_at i xs)" by simp
    have "remove_at i xs ! (if j < i then j else j - 1) = xs ! j"
      using assms(1-3) by (subst remove_at_nth) auto
    moreover have "(if j < i then j else j - 1) < length (remove_at i xs)" using assms(1-3) by auto
    ultimately have "xs ! j \<in> set (remove_at i xs)" by (metis nth_mem)
    then show ?thesis using r by simp
  qed
  then have "mset xs - {#xs ! i#} = add_mset (xs ! j) M" unfolding M_def by (simp only: insert_DiffM)
  then have "mset (xs[i := a, j := b]) = add_mset b (add_mset a M)"
    "mset xs = add_mset (xs ! i) (add_mset (xs ! j) M)"
    using u i by (simp_all add: add_mset_commute)
  then show ?thesis using assms(4) by (simp add: ac_simps)
qed

text \<open>Moving the sticky windows keeps every id in place and loses no window.\<close>

definition same_places :: "monitor \<Rightarrow> monitor \<Rightarrow> bool" where
  "same_places m m' \<longleftrightarrow>
    ws_ids m' = ws_ids m \<and> mon_windows m' = mon_windows m
    \<and> sway_workspace_order m' = sway_workspace_order m
    \<and> id_counter m' = id_counter m"

lemma move_sticky_same_places:
  assumes "old < length (workspaces m)" "active_workspace_idx m < length (workspaces m)"
  shows "returns (\<lambda>m'. same_places m m' \<and> active_workspace_idx m' = active_workspace_idx m
      \<and> workspace_switch m' = workspace_switch m
      \<and> workspace_focus_history m' = workspace_focus_history m
      \<and> previous_workspace_id m' = previous_workspace_id m)
    (move_sticky_to_active_workspace old m)"
proof (cases "old = active_workspace_idx m")
  case True
  then show ?thesis by (simp add: move_sticky_to_active_workspace_def same_places_def)
next
  case False
  let ?xs = "workspaces m" and ?a = "active_workspace_idx m"
  obtain ts s1 where t: "take_sticky_trees (?xs ! old) = (ts, s1)" by fastforce
  obtain es s2 where e: "take_sticky_tiles s1 = (es, s2)" by fastforce
  define b where "b = fold add_sticky_tile es (fold add_floating_tree ts (?xs ! ?a))"
  have old: "mset (ws_windows (?xs ! old)) = trees_windows ts + (entries_windows es + mset (ws_windows s2))"
    using take_sticky_trees_spec [OF t] take_sticky_tiles_spec [OF e] by simp
  have w: "mset (ws_windows s2) + mset (ws_windows b) = mset (ws_windows (?xs ! old)) + mset (ws_windows (?xs ! ?a))"
    "ws_id s2 = ws_id (?xs ! old)" "ws_id b = ws_id (?xs ! ?a)"
    using take_sticky_trees_spec [OF t] take_sticky_tiles_spec [OF e]
      fold_add_floating_tree [of ts "?xs ! ?a"] fold_add_sticky_tile [of es "fold add_floating_tree ts (?xs ! ?a)"]
    unfolding old by (simp_all add: b_def ac_simps)
  have i: "map ws_id (?xs[old := s2, ?a := b]) = map ws_id ?xs"
    using w(2,3) assms list_update_id [of "ws_ids m" old] list_update_id [of "ws_ids m" ?a]
    by (simp add: map_update)
  have r: "move_sticky_to_active_workspace old m = Some (m\<lparr>workspaces := ?xs[old := s2, ?a := b]\<rparr>)"
    using False assms t e by (simp add: move_sticky_to_active_workspace_def vec_get_def b_def)
  have "mon_windows (m\<lparr>workspaces := ?xs[old := s2, ?a := b]\<rparr>) = mon_windows m"
    unfolding mon_windows_def
    using sum_mset_two_updates [OF assms False, of "\<lambda>ws. mset (ws_windows ws)" s2 b] w(1) by simp
  then show ?thesis using r i by (simp add: same_places_def)
qed

section \<open>Activation\<close>

lemma switch_ok_switch_to:
  "switch_ok n sw \<Longrightarrow> idx < n \<Longrightarrow> switch_ok n (switch_to cv prev idx sw)"
  by (auto simp: switch_to_def switch_ok_def target_idx_def animate_from_def Let_def
      split: option.splits workspace_switch.splits)

text \<open>
  Activating a workspace of the monitor: it becomes active and heads the focus history, the
  workspace left is remembered, and no window is lost to the move of the sticky ones.
\<close>

lemma activate_workspace_ok:
  assumes "mon_ok m" "idx < length (workspaces m)"
  shows "returns (\<lambda>m'. mon_ok m' \<and> same_places m m' \<and> active_workspace_idx m' = idx
      \<and> hd (workspace_focus_history m') = ws_ids m ! idx
      \<and> (active_workspace_idx m \<noteq> idx \<longrightarrow> previous_workspace_id m' = Some (ws_ids m ! active_workspace_idx m))
      \<and> workspace_switch m' = switch_to cv (active_workspace_idx m) idx (workspace_switch m))
    (activate_workspace cv idx m)"
proof -
  have a: "active_workspace_idx m < length (workspaces m)" using assms(1) by (simp add: mon_ok_def)
  obtain m1 where m1: "remember_previous idx m = Some m1" "workspaces m1 = workspaces m"
    "sway_workspace_order m1 = sway_workspace_order m" "active_workspace_idx m1 = active_workspace_idx m"
    "workspace_switch m1 = workspace_switch m" "id_counter m1 = id_counter m"
    "active_workspace_idx m \<noteq> idx \<longrightarrow> previous_workspace_id m1 = Some (ws_ids m ! active_workspace_idx m)"
    using a by (cases "active_workspace_idx m = idx")
      (auto simp: remember_previous_def active_workspace_ref_def vec_get_def)
  define m3 where "m3 = m1\<lparr>active_workspace_idx := idx, workspace_focus_history :=
     ws_id (workspaces m ! idx) # retain_ne (ws_id (workspaces m ! idx)) (workspace_focus_history m1)\<rparr>"
  obtain m4 where m4: "move_sticky_to_active_workspace (active_workspace_idx m) m3 = Some m4"
    "same_places m3 m4" "active_workspace_idx m4 = idx" "workspace_switch m4 = workspace_switch m"
    "workspace_focus_history m4 = workspace_focus_history m3"
    "previous_workspace_id m4 = previous_workspace_id m1"
    using move_sticky_same_places [of "active_workspace_idx m" m3] a assms(2) m1
    by (auto simp: returns_iff m3_def)
  have sp: "same_places m m4"
    using m4(2) m1 by (simp add: same_places_def m3_def mon_windows_def)
  define m5 where "m5 = m4\<lparr>workspace_switch := switch_to cv (active_workspace_idx m) idx (workspace_switch m4)\<rparr>"
  have r: "activate_workspace cv idx m = Some m5"
    using m1 m4(1) assms(2)
    by (simp add: activate_workspace_def m3_def m5_def active_workspace_ref_def vec_get_def Let_def)
  have sp5: "same_places m m5" using sp by (simp add: same_places_def m5_def mon_windows_def)
  have l: "length (workspaces m5) = length (workspaces m)"
    using sp5 by (metis length_map same_places_def)
  have "mon_ok m5"
  proof (rule mon_ok_frame [OF assms(1)])
    show "switch_ok (length (workspaces m5)) (workspace_switch m5)"
      using switch_ok_switch_to [OF _ assms(2)] assms(1) l m4(4) by (simp add: m5_def mon_ok_def)
  qed (use sp5 l assms(2) m4(3) in \<open>simp_all add: same_places_def m5_def\<close>)
  then show ?thesis using r sp5 m4 m1(7) assms(2) by (simp add: m5_def m3_def)
qed

end
