(* ===== verification/Monitor_Lifecycle.thy ===== *)
theory Monitor_Lifecycle
  imports Monitor_Laws
begin

text \<open>
  The operations of a monitor as one transition system: \<open>run_op\<close> runs an operation, \<open>op_ok\<close> is what
  its callers guarantee, and \<open>evolves\<close> is what every one of them ensures: it returns, the monitor
  stays well formed, and no window is lost. Moving a workspace to another output is treated on the
  two monitors together.
\<close>

section \<open>Evolution of one monitor\<close>

definition evolves :: "monitor \<Rightarrow> monitor \<Rightarrow> bool" where
  "evolves m m' \<longleftrightarrow> mon_ok m' \<and> mon_windows m' = mon_windows m \<and> id_counter m \<le> id_counter m'"

lemma evolves_refl: "mon_ok m \<Longrightarrow> evolves m m"
  by (simp add: evolves_def)

lemma evolves_ok: "evolves m m' \<Longrightarrow> mon_ok m'"
  by (simp add: evolves_def)

lemma evolves_trans: "evolves m m1 \<Longrightarrow> evolves m1 m2 \<Longrightarrow> evolves m m2"
  by (simp add: evolves_def)

lemma evolves_bind:
  assumes "returns (evolves m) r" "\<And>m1. mon_ok m1 \<Longrightarrow> returns (evolves m1) (f m1)"
  shows "returns (evolves m) (Option.bind r f)"
proof (rule returns_bind [OF assms(1)])
  fix m1 assume e: "evolves m m1"
  show "returns (evolves m) (f m1)"
    by (rule returns_mono [OF assms(2) [OF evolves_ok [OF e]]]) (rule evolves_trans [OF e])
qed

lemma mon_windows_frame:
  "workspaces m' = workspaces m \<Longrightarrow> mon_windows m' = mon_windows m"
  by (simp add: mon_windows_def)

lemma evolves_frame:
  assumes "mon_ok m" "workspaces m' = workspaces m" "sway_workspace_order m' = sway_workspace_order m"
    "id_counter m' = id_counter m" "active_workspace_idx m' < length (workspaces m)"
    "switch_ok (length (workspaces m)) (workspace_switch m')"
  shows "evolves m m'"
  unfolding evolves_def using mon_ok_frame [OF assms(1), of m'] mon_windows_frame [OF assms(2)] assms by simp

lemma evolves_settle: "mon_ok m \<Longrightarrow> evolves m (m\<lparr>workspace_switch := None\<rparr>)"
  by (rule evolves_frame) (simp_all add: mon_ok_def)

text \<open>A workspace that need not be kept has no window, so destruction loses none.\<close>

lemma mon_windows_set:
  assumes "distinct (workspaces m)"
  shows "mon_windows m = (\<Sum>ws\<in>set (workspaces m). mset (ws_windows ws))"
proof -
  have "mset (workspaces m) = mset_set (set (workspaces m))"
    using assms by (simp add: mset_set_set)
  then show ?thesis unfolding mon_windows_def by (simp only: sum_unfold_sum_mset)
qed

lemma ids_ok_distinct: "ids_ok m \<Longrightarrow> distinct (workspaces m)"
  by (auto simp: ids_ok_def distinct_map)

lemma not_kept_no_windows: "\<not> must_be_kept ws \<Longrightarrow> mset (ws_windows ws) = {#}"
  by (simp add: must_be_kept_def has_windows_def)

lemma kept_windows:
  assumes "ids_ok m" "ids_ok m'" "set (workspaces m') \<subseteq> set (workspaces m)"
    "\<forall>ws\<in>set (workspaces m). must_be_kept ws \<longrightarrow> ws \<in> set (workspaces m')"
  shows "mon_windows m' = mon_windows m"
  unfolding mon_windows_set [OF ids_ok_distinct [OF assms(1)]] mon_windows_set [OF ids_ok_distinct [OF assms(2)]]
proof (rule sum.mono_neutral_left [OF _ assms(3)])
  show "\<forall>ws\<in>set (workspaces m) - set (workspaces m'). mset (ws_windows ws) = {#}"
    using assms(4) not_kept_no_windows by blast
qed simp

lemma shrunk_evolves:
  assumes "mon_settled m" "shrunk m m'"
  shows "evolves m m'"
proof -
  have "mon_ok m'" using shrunk_settled [OF assms] by (rule mon_settled_ok)
  moreover have "mon_windows m' = mon_windows m"
    by (rule kept_windows) (use assms in \<open>simp_all add: shrunk_def mon_settled_def mon_ok_def\<close>)
  ultimately show ?thesis using assms(2) by (simp add: evolves_def shrunk_def)
qed

lemma reaped_from_evolves:
  assumes "ids_ok m" "reaped_from m m'"
  shows "evolves m m'"
proof -
  have "mon_windows m' = mon_windows m"
    by (rule kept_windows)
      (use assms in \<open>simp_all add: reaped_from_def mon_settled_def mon_ok_def\<close>)
  then show ?thesis using assms(2) by (simp add: evolves_def reaped_from_def mon_settled_def)
qed

lemma sorted_from_evolves: "mon_ok m' \<Longrightarrow> sorted_from m m' \<Longrightarrow> evolves m m'"
  by (simp add: evolves_def sorted_from_def mon_windows_def)

section \<open>Each operation\<close>

lemma clean_up_evolves: "mon_settled m \<Longrightarrow> returns (evolves m) (clean_up_workspaces m)"
  by (rule returns_mono [OF clean_up.step_shrinks]) (simp_all add: shrunk_evolves)

lemma consider_destroy_evolves: "mon_settled m \<Longrightarrow> returns (evolves m) (consider_destroy_workspace i m)"
  by (rule returns_mono [OF destroy.step_shrinks]) (simp_all add: shrunk_evolves)

lemma reap_evolves: "mon_ok m \<Longrightarrow> returns (evolves m) (reap_empty_workspaces m)"
  by (rule returns_mono [OF reap_empty_workspaces_ok]) (simp_all add: reaped_from_evolves mon_ok_def)

lemma sort_evolves: "mon_ok m \<Longrightarrow> returns (evolves m) (sort_sway_workspaces m)"
  by (rule returns_mono [OF sort_sway_workspaces_ok]) (simp_all add: sorted_from_evolves mon_ok_def)

lemma activate_evolves:
  "mon_ok m \<Longrightarrow> idx < length (workspaces m) \<Longrightarrow> returns (evolves m) (activate_workspace cv idx m)"
  by (rule returns_mono [OF activate_workspace_ok]) (simp_all add: evolves_def same_places_def)

text \<open>Settling a switch, cleaning up, and whatever follows.\<close>

lemma clean_up_then:
  assumes "mon_settled m" "\<And>m1. mon_settled m1 \<Longrightarrow> returns (evolves m1) (f m1)"
  shows "returns (evolves m) (Option.bind (clean_up_workspaces m) f)"
proof (rule returns_bind [OF clean_up.step_shrinks [OF assms(1)]])
  fix m1 assume s: "shrunk m m1"
  show "returns (evolves m) (f m1)"
    by (rule returns_mono [OF assms(2) [OF shrunk_settled [OF assms(1) s]]])
      (rule evolves_trans [OF shrunk_evolves [OF assms(1) s]])
qed

lemma clean_up_reap_evolves:
  "mon_settled m \<Longrightarrow> returns (evolves m) (Option.bind (clean_up_workspaces m) reap_empty_workspaces)"
  by (rule clean_up_then) (simp_all add: reap_evolves mon_settled_ok)

lemma evolves_from:
  "evolves m m1 \<Longrightarrow> returns (evolves m1) r \<Longrightarrow> returns (evolves m) r"
  by (erule returns_mono) (rule evolves_trans)

lemma insert_evolves_windows:
  "workspaces m' = insert_at idx ws (workspaces m) \<Longrightarrow>
   mon_windows m' = mset (ws_windows ws) + mon_windows m"
  by (simp add: mon_windows_def)

lemma workspace_new_windows [simp]: "ws_windows (workspace_new i out) = []"
  by (simp add: workspace_new_def ws_windows_def)

lemma set_sway_identity_windows [simp]: "ws_windows (set_sway_identity nm num ws) = ws_windows ws"
  by (simp add: set_sway_identity_def ws_windows_def)

lemma add_sway_workspace_at_evolves:
  assumes "mon_ok m" "idx \<le> length (workspaces m)"
  shows "returns (\<lambda>r. evolves m (snd r) \<and> fst r = id_counter m) (add_sway_workspace_at idx name number m)"
  by (rule returns_mono [OF add_sway_workspace_at_ok [OF assms]])
    (auto simp: evolves_def dest: insert_evolves_windows)

lemma create_sway_workspace_evolves:
  assumes "mon_ok m"
  shows "returns (evolves m) (map_option snd (create_sway_workspace name number m))"
proof -
  obtain i m1 where m1: "add_sway_workspace_at (length (workspaces m) - 1) name number m = Some (i, m1)"
    "evolves m m1"
    using add_sway_workspace_at_evolves [OF assms, of "length (workspaces m) - 1" name number]
    by (auto simp: returns_iff)
  obtain m2 where m2: "sort_sway_workspaces m1 = Some m2" "evolves m1 m2"
    using sort_evolves [OF evolves_ok [OF m1(2)]] by (auto simp: returns_iff)
  show ?thesis
    using m1 m2 evolves_trans by (auto simp: create_sway_workspace_def Let_def)
qed

lemma switch_up_evolves:
  assumes "mon_ok m"
  shows "returns (evolves m) (switch_workspace_up cv m)"
proof -
  have l: "active_workspace_idx m < length (workspaces m)" "workspaces m \<noteq> []"
    using assms mon_ok_nonempty by (auto simp: mon_ok_def)
  have "clamp_idx x m < length (workspaces m)" for x
    using l by (simp add: clamp_idx_def) linarith
  then show ?thesis
    unfolding switch_workspace_up_def
    using l activate_evolves [OF assms] by (simp split: option.splits workspace_switch.splits)
qed

lemma switch_down_evolves:
  assumes "mon_ok m"
  shows "returns (evolves m) (switch_workspace_down cv m)"
proof -
  have l: "active_workspace_idx m < length (workspaces m)" "workspaces m \<noteq> []"
    using assms mon_ok_nonempty by (auto simp: mon_ok_def)
  have "clamp_idx x m < length (workspaces m)" for x
    using l by (simp add: clamp_idx_def) linarith
  moreover have "min (active_workspace_idx m + 1) (length (workspaces m) - 1) < length (workspaces m)"
    using l by auto
  ultimately show ?thesis
    unfolding switch_workspace_down_def
    using l activate_evolves [OF assms] by (simp split: option.splits workspace_switch.splits)
qed

lemma switch_up_wrapping_evolves:
  assumes "mon_ok m"
  shows "returns (evolves m) (switch_workspace_up_wrapping cv m)"
proof -
  have "active_workspace_idx m < length (workspaces m)" using assms by (simp add: mon_ok_def)
  then have "(if active_workspace_idx m = 0 then length (workspaces m) - 1 else active_workspace_idx m - 1)
      < length (workspaces m)"
    by auto
  then show ?thesis
    unfolding switch_workspace_up_wrapping_def
    using activate_evolves [OF assms] switch_up_evolves [OF assms] by simp
qed

lemma switch_down_wrapping_evolves:
  assumes "mon_ok m"
  shows "returns (evolves m) (switch_workspace_down_wrapping cv m)"
proof -
  have "(active_workspace_idx m + 1) mod length (workspaces m) < length (workspaces m)"
    using mon_ok_nonempty [OF assms] by simp
  then show ?thesis
    unfolding switch_workspace_down_wrapping_def
    using activate_evolves [OF assms] switch_down_evolves [OF assms] by simp
qed

lemma switch_workspace_evolves:
  assumes "mon_ok m"
  shows "returns (evolves m) (switch_workspace cv idx m)"
proof -
  have "min idx (length (workspaces m) - 1) < length (workspaces m)"
    using mon_ok_nonempty [OF assms] by (simp add: min_less_iff_disj)
  then show ?thesis
    unfolding switch_workspace_def using activate_evolves [OF assms] mon_ok_nonempty [OF assms] by simp
qed

lemma switch_previous_evolves: "mon_ok m \<Longrightarrow> returns (evolves m) (switch_workspace_previous cv m)"
  unfolding switch_workspace_previous_def
  using switch_workspace_evolves evolves_refl by (simp split: option.splits)

lemma back_and_forth_evolves:
  "mon_ok m \<Longrightarrow> returns (evolves m) (switch_workspace_auto_back_and_forth cv idx m)"
  unfolding switch_workspace_auto_back_and_forth_def Let_def
  using switch_workspace_evolves evolves_refl mon_ok_nonempty by (simp split: option.splits)

lemma destroy_opt_then:
  assumes "mon_settled m" "\<And>m1. mon_settled m1 \<Longrightarrow> returns (evolves m1) (f m1)"
  shows "returns (evolves m) (Option.bind
    (case p of Some i \<Rightarrow> if c i then consider_destroy_workspace i m else Some m | None \<Rightarrow> Some m) f)"
proof (rule returns_bind [OF destroy.step_opt [OF assms(1)]])
  fix m1 assume s: "shrunk m m1"
  show "returns (evolves m) (f m1)"
    by (rule evolves_from [OF shrunk_evolves [OF assms(1) s] assms(2) [OF shrunk_settled [OF assms(1) s]]])
qed

lemma finish_switch_evolves:
  assumes "mon_ok m"
  shows "returns (evolves m) (finish_workspace_switch target m)"
proof -
  let ?m1 = "m\<lparr>workspace_switch := None\<rparr>"
  have "returns (evolves m) (Option.bind
      (case previous_workspace_id ?m1 of
         Some p \<Rightarrow> if Some p \<noteq> target then consider_destroy_workspace p ?m1 else Some ?m1
       | None \<Rightarrow> Some ?m1) clean_up_workspaces)"
    by (rule evolves_from [OF evolves_settle [OF assms]
          destroy_opt_then [OF mon_settledI [OF assms] clean_up_evolves]])
  then show ?thesis
    unfolding finish_workspace_switch_def
    using active_workspace_ref_ok [OF assms] evolves_refl [OF assms]
    by (simp add: Let_def cong: if_cong option.case_cong split: option.splits workspace_switch.splits)
qed

lemma advance_evolves:
  assumes "mon_ok m"
  shows "returns (evolves m) (advance_animations cv m)"
proof (cases "workspace_switch m")
  case None
  then show ?thesis using evolves_refl [OF assms] by (simp add: advance_animations_def)
next
  case (Some sw)
  show ?thesis
  proof (cases sw)
    case (SwAnimation f t)
    let ?m1 = "m\<lparr>workspace_switch := None\<rparr>"
    have "returns (evolves m) (Option.bind
        (case previous_workspace_id ?m1 of Some p \<Rightarrow> if True then consider_destroy_workspace p ?m1 else Some ?m1
         | None \<Rightarrow> Some ?m1) (\<lambda>m2. Option.bind (clean_up_workspaces m2) reap_empty_workspaces))"
      by (rule evolves_from [OF evolves_settle [OF assms]
            destroy_opt_then [OF mon_settledI [OF assms] clean_up_reap_evolves]])
    then show ?thesis
      using Some SwAnimation evolves_refl [OF assms]
      by (simp add: advance_animations_def Let_def cong: option.case_cong)
  next
    case (SwDndScroll g)
    have t: "0 \<le> current_idx g" "current_idx g \<le> real (length (workspaces m)) - 1"
      using assms Some SwDndScroll by (simp_all add: mon_ok_def switch_ok_def target_idx_def)
    then show ?thesis
      using Some SwDndScroll assms
      by (auto simp: advance_animations_def Let_def switch_ok_def target_idx_def mon_ok_def
          intro!: evolves_frame [OF assms])
  qed
qed

lemma evolves_perm:
  assumes "mon_ok m" "mset (workspaces m') = mset (workspaces m)"
    "sway_workspace_order m' = sway_workspace_order m" "id_counter m' = id_counter m"
    "active_workspace_idx m' < length (workspaces m')"
    "switch_ok (length (workspaces m')) (workspace_switch m')"
  shows "evolves m m'"
proof -
  have i: "mset (ws_ids m') = mset (ws_ids m)" using assms(2) by simp
  then have "distinct (ws_ids m') = distinct (ws_ids m)" "set (ws_ids m') = set (ws_ids m)"
    by (metis mset_eq_imp_distinct_iff, metis set_mset_mset)
  then have "mon_ok m'"
    using assms unfolding mon_ok_def ids_ok_def by simp
  then show ?thesis using assms(2,4) by (simp add: evolves_def mon_windows_def)
qed

lemma mset_swap_nth:
  "i < length xs \<Longrightarrow> j < length xs \<Longrightarrow> mset (swap_nth i j xs) = mset xs"
  by (simp add: swap_nth_def mset_swap)

lemma length_swap_nth [simp]: "length (swap_nth i j xs) = length xs"
  by (simp add: swap_nth_def)

lemma move_active_to_evolves:
  assumes "mon_ok m" "new_idx < length (workspaces m)"
  shows "returns (evolves m) (move_active_to cv new_idx m)"
proof (cases "new_idx = active_workspace_idx m")
  case True
  then show ?thesis using evolves_refl [OF assms(1)] by (simp add: move_active_to_def)
next
  case False
  have a: "active_workspace_idx m < length (workspaces m)" using assms(1) by (simp add: mon_ok_def)
  let ?m0 = "m\<lparr>workspaces := swap_nth (active_workspace_idx m) new_idx (workspaces m)\<rparr>"
  have e0: "evolves m ?m0"
    by (rule evolves_perm [OF assms(1)])
      (use assms a mset_swap_nth in \<open>simp_all add: mon_ok_def\<close>)
  obtain m1 where m1: "activate_workspace cv new_idx ?m0 = Some m1" "evolves ?m0 m1"
    using activate_evolves [OF evolves_ok [OF e0], of new_idx cv] assms(2) by (auto simp: returns_iff)
  let ?m2 = "m1\<lparr>workspace_switch := None, previous_workspace_id := previous_workspace_id m,
                 previous_workspace_name := previous_workspace_name m\<rparr>"
  have e2: "evolves m1 ?m2"
    by (rule evolves_frame) (use evolves_ok [OF m1(2)] in \<open>simp_all add: mon_ok_def\<close>)
  have "mon_settled ?m2" using evolves_ok [OF e2] by (simp add: mon_settled_def)
  from clean_up_reap_evolves [OF this]
  have "returns (evolves m) (Option.bind (clean_up_workspaces ?m2) reap_empty_workspaces)"
    by (rule evolves_from [OF evolves_trans [OF e0 evolves_trans [OF m1(2) e2]]])
  then show ?thesis using False a assms(2) m1(1) by (simp add: move_active_to_def)
qed

lemma move_workspace_down_evolves: "mon_ok m \<Longrightarrow> returns (evolves m) (move_workspace_down cv m)"
  unfolding move_workspace_down_def
  using move_active_to_evolves [of m "min (active_workspace_idx m + 1) (length (workspaces m) - 1)" cv]
    mon_ok_nonempty [of m]
  by (simp add: min_less_iff_disj)

lemma move_workspace_up_evolves: "mon_ok m \<Longrightarrow> returns (evolves m) (move_workspace_up cv m)"
  unfolding move_workspace_up_def
  by (rule move_active_to_evolves) (simp_all add: mon_ok_def less_imp_diff_less)

lemma move_workspace_to_idx_evolves:
  assumes "mon_ok m"
  shows "returns (evolves m) (move_workspace_to_idx old_idx new_idx0 m)"
proof -
  define new_idx where "new_idx = min new_idx0 (length (workspaces m) - 1)"
  define a where "a = active_workspace_idx m"
  define a' where "a' = (if a = old_idx then new_idx
                 else if new_idx \<le> a \<and> a < old_idx then a + 1
                 else if a \<le> new_idx \<and> old_idx < a then a - 1 else a)"
  define m0 where "m0 = m\<lparr>workspaces := insert_at new_idx (workspaces m ! old_idx) (remove_at old_idx (workspaces m)),
                          active_workspace_idx := a', workspace_switch := None\<rparr>"
  show ?thesis
  proof (cases "length (workspaces m) \<le> old_idx \<or> old_idx = new_idx")
    case True
    then show ?thesis
      using evolves_refl [OF assms] by (auto simp: move_workspace_to_idx_def Let_def new_idx_def)
  next
    case False
    then have o: "old_idx < length (workspaces m)" by simp
    have n: "new_idx < length (workspaces m)" "a < length (workspaces m)"
      using assms o by (auto simp: new_idx_def a_def mon_ok_def)
    then have "a' < length (workspaces m)" using o by (auto simp: a'_def)
    then have "evolves m m0"
      by (intro evolves_perm [OF assms]) (use o mset_remove_at [OF o] in \<open>simp_all add: m0_def\<close>)
    then have "returns (evolves m) (Option.bind (clean_up_workspaces m0) reap_empty_workspaces)"
      by (rule evolves_from) (rule clean_up_reap_evolves, use \<open>evolves m m0\<close> in
        \<open>simp add: mon_settled_def evolves_def m0_def\<close>)
    then show ?thesis
      unfolding move_workspace_to_idx_def Let_def new_idx_def [symmetric] a_def [symmetric]
        a'_def [symmetric] m0_def [symmetric]
      using False by simp
  qed
qed

text \<open>Changing what one workspace is called or holds, its id kept.\<close>

lemma update_workspace_ok:
  assumes "mon_ok m" "idx < length (workspaces m)" "ws_id ws = ws_id (workspaces m ! idx)"
  shows "mon_ok (m\<lparr>workspaces := (workspaces m)[idx := ws]\<rparr>)"
proof (rule mon_ok_frame [OF assms(1)])
  show "ws_ids (m\<lparr>workspaces := (workspaces m)[idx := ws]\<rparr>) = ws_ids m"
    using assms(2,3) list_update_id [of "ws_ids m" idx] by (simp add: map_update)
qed (use assms(1) in \<open>simp_all add: mon_ok_def\<close>)

lemma update_workspace_windows:
  assumes "idx < length (workspaces m)" "ws_windows ws = ws_windows (workspaces m ! idx)"
  shows "mon_windows (m\<lparr>workspaces := (workspaces m)[idx := ws]\<rparr>) = mon_windows m"
proof -
  have "mset (workspaces m) = add_mset (workspaces m ! idx) (mset (workspaces m) - {#workspaces m ! idx#})"
    using assms(1) by simp
  then have "mon_windows m = mset (ws_windows (workspaces m ! idx))
      + (\<Sum>ws\<in>#mset (workspaces m) - {#workspaces m ! idx#}. mset (ws_windows ws))"
    unfolding mon_windows_def by (metis image_mset_add_mset sum_mset.add_mset)
  then show ?thesis using assms by (simp add: mon_windows_def mset_update)
qed

lemma update_workspace_evolves:
  assumes "mon_ok m" "idx < length (workspaces m)" "ws_id ws = ws_id (workspaces m ! idx)"
    "ws_windows ws = ws_windows (workspaces m ! idx)"
  shows "evolves m (m\<lparr>workspaces := (workspaces m)[idx := ws]\<rparr>)"
  using update_workspace_ok [OF assms(1-3)] update_workspace_windows [OF assms(2,4)]
  by (simp add: evolves_def)

lemma identity_changes [simp]:
  "ws_id (unname ws) = ws_id ws" "ws_windows (unname ws) = ws_windows ws"
  "ws_id (set_persistent p ws) = ws_id ws" "ws_windows (set_persistent p ws) = ws_windows ws"
  by (simp_all add: unname_def set_persistent_def ws_windows_def)

lemma unname_evolves:
  assumes "mon_ok m"
  shows "returns (evolves m) (map_option snd (unname_workspace i m))"
proof (cases "idx_of_ws m i")
  case None
  then show ?thesis using evolves_refl [OF assms] by (simp add: unname_workspace_def)
next
  case (Some idx)
  let ?m1 = "m\<lparr>workspaces := (workspaces m)[idx := unname (workspaces m ! idx)]\<rparr>"
  have e: "evolves m ?m1"
    using idx_of_ws_Some [OF Some] by (intro update_workspace_evolves [OF assms]) simp_all
  have "returns (evolves m) (if workspace_switch ?m1 = None then clean_up_workspaces ?m1 else Some ?m1)"
  proof (cases "workspace_switch ?m1 = None")
    case True
    then have "mon_settled ?m1" using evolves_ok [OF e] by (simp add: mon_settled_def)
    then show ?thesis using True evolves_from [OF e clean_up_evolves] by simp
  next
    case False
    show ?thesis by (subst if_not_P [OF False]) (simp add: e)
  qed
  then obtain m2 where "(if workspace_switch ?m1 = None then clean_up_workspaces ?m1 else Some ?m1) = Some m2"
    "evolves m m2"
    by (auto simp only: returns_iff)
  then show ?thesis
    using Some by (simp add: unname_workspace_def Let_def cong: if_cong)
qed

lemma rename_evolves:
  assumes "mon_ok m" "i \<in> set (ws_ids m)"
  shows "returns (evolves m) (rename_workspace i new_name declared m)"
proof -
  obtain idx where idx: "idx_of_ws m i = Some idx" using assms(2) idx_of_ws_None by (metis not_None_eq)
  obtain nm num where n: "sway_identity_from_name new_name = (nm, num)" by fastforce
  let ?m1 = "m\<lparr>workspaces := (workspaces m)[idx :=
    set_persistent declared (set_sway_identity nm num (workspaces m ! idx))]\<rparr>"
  have e: "evolves m ?m1"
    using idx_of_ws_Some [OF idx] by (intro update_workspace_evolves [OF assms(1)]) simp_all
  obtain m2 where m2: "sort_sway_workspaces ?m1 = Some m2" "evolves ?m1 m2"
    using sort_evolves [OF evolves_ok [OF e]] by (auto simp: returns_iff)
  have "evolves m2 (refresh_previous_workspace_name i m2)"
    by (rule evolves_frame)
      (use evolves_ok [OF m2(2)] in \<open>simp_all add: refresh_previous_workspace_name_def mon_ok_def\<close>)
  then have "evolves m (refresh_previous_workspace_name i m2)"
    using evolves_trans [OF e evolves_trans [OF m2(2)]] by blast
  then show ?thesis using idx n m2(1) by (simp add: rename_workspace_def)
qed

section \<open>Workspaces that join\<close>

definition joins :: "workspace list \<Rightarrow> monitor \<Rightarrow> monitor \<Rightarrow> bool" where
  "joins wss m m' \<longleftrightarrow>
    mon_settled m' \<and> mon_windows m' = (\<Sum>ws\<in>#mset wss. mset (ws_windows ws)) + mon_windows m
    \<and> id_counter m \<le> id_counter m'"

definition can_join :: "workspace list \<Rightarrow> monitor \<Rightarrow> bool" where
  "can_join wss m \<longleftrightarrow>
    distinct (map ws_id wss) \<and> set (map ws_id wss) \<inter> set (ws_ids m) = {}
    \<and> (\<forall>ws\<in>set wss. ws_id ws < id_counter m)"

lemma shrunk_joins: "joins wss m m1 \<Longrightarrow> shrunk m1 m2 \<Longrightarrow> joins wss m m2"
  using shrunk_evolves [of m1 m2] shrunk_settled [of m1 m2] by (simp add: joins_def evolves_def)

lemma set_output_windows [simp]: "ws_windows (ws\<lparr>ws_output := out\<rparr>) = ws_windows ws"
  by (simp add: ws_windows_def)

lemma order_insert:
  assumes "ids_ok m" "i \<notin> set (ws_ids m)"
  shows "distinct (insert_at k i (retain_ne i (sway_workspace_order m)))"
    "set (insert_at k i (retain_ne i (sway_workspace_order m))) = insert i (set (sway_workspace_order m))"
  using assms by (auto simp: ids_ok_def)

lemma insert_at_nth:
  "idx \<le> length xs \<Longrightarrow> k < length xs \<Longrightarrow>
   insert_at idx x xs ! (if idx \<le> k then k + 1 else k) = xs ! k"
  by (auto simp: insert_at_def nth_append Suc_diff_le)

lemma insert_at_nth_self: "idx \<le> length xs \<Longrightarrow> insert_at idx x xs ! idx = x"
  by (simp add: insert_at_def nth_append min_def)

lemma active_id_of_activate:
  assumes "mon_ok m" "idx < length (workspaces m)"
  shows "returns (\<lambda>m'. evolves m m' \<and> id_counter m' = id_counter m
      \<and> ws_id (workspaces m' ! active_workspace_idx m') = ws_ids m ! idx) (activate_workspace cv idx m)"
proof (rule returns_mono [OF activate_workspace_ok [OF assms]])
  fix m' assume r: "mon_ok m' \<and> same_places m m' \<and> active_workspace_idx m' = idx
      \<and> hd (workspace_focus_history m') = ws_ids m ! idx
      \<and> (active_workspace_idx m \<noteq> idx \<longrightarrow> previous_workspace_id m' = Some (ws_ids m ! active_workspace_idx m))
      \<and> workspace_switch m' = switch_to cv (active_workspace_idx m) idx (workspace_switch m)"
  have "ws_ids m' = ws_ids m" using r by (simp add: same_places_def)
  then have "ws_id (workspaces m' ! idx) = ws_ids m ! idx"
    using assms(2) by (metis length_map nth_map)
  then show "evolves m m' \<and> id_counter m' = id_counter m
      \<and> ws_id (workspaces m' ! active_workspace_idx m') = ws_ids m ! idx"
    using r by (simp add: evolves_def same_places_def)
qed

lemma insert_attached_ok:
  assumes "mon_ok m" "can_join [ws0] m" "idx \<le> length (workspaces m)"
    and "m1 = (insert_attached idx (ws0\<lparr>ws_output := out\<rparr>) m)\<lparr>workspace_switch := None\<rparr>"
  shows "joins [ws0] m m1 \<and> id_counter m1 = id_counter m \<and> idx < length (workspaces m1)
    \<and> ws_ids m1 ! idx = ws_id ws0
    \<and> ws_id (workspaces m1 ! active_workspace_idx m1) = ws_ids m ! active_workspace_idx m"
proof -
  define ws where "ws = ws0\<lparr>ws_output := out\<rparr>"
  have w: "ws_id ws = ws_id ws0" "ws_windows ws = ws_windows ws0" by (simp_all add: ws_def)
  have m1: "m1 = (insert_attached idx ws m)\<lparr>workspace_switch := None\<rparr>" using assms(4) by (simp only: ws_def)
  have j: "ws_id ws \<notin> set (ws_ids m)" "ws_id ws < id_counter m"
    using assms(2) w(1) by (auto simp: can_join_def)
  have a: "active_workspace_idx m < length (workspaces m)" using assms(1) by (simp add: mon_ok_def)
  have f: "workspaces m1 = insert_at idx ws (workspaces m)" "id_counter m1 = id_counter m"
    "workspace_switch m1 = None"
    "active_workspace_idx m1 = (if idx \<le> active_workspace_idx m then active_workspace_idx m + 1 else active_workspace_idx m)"
    "\<exists>k. sway_workspace_order m1 = insert_at k (ws_id ws) (retain_ne (ws_id ws) (sway_workspace_order m))"
    unfolding m1 insert_attached_def Let_def by auto
  have "ids_ok m1"
    by (rule insert_ids_ok [of m ws m1 idx])
      (use assms(1) j f order_insert [of m "ws_id ws"] in \<open>auto simp: mon_ok_def\<close>)
  then have "mon_settled m1" using a f by (simp add: mon_settled_def mon_ok_def)
  moreover have "mon_windows m1 = mset (ws_windows ws0) + mon_windows m"
    using insert_evolves_windows [OF f(1)] w(2) by simp
  moreover have "ws_id (workspaces m1 ! active_workspace_idx m1) = ws_ids m ! active_workspace_idx m"
    using insert_at_nth [OF assms(3) a, of ws] a f(1,4) by simp
  moreover have "ws_ids m1 ! idx = ws_id ws0"
    using insert_at_nth_self [of idx "ws_ids m" "ws_id ws"] assms(3) w(1) f(1) by simp
  ultimately show ?thesis using f(1,2) assms(3) by (simp add: joins_def)
qed

text \<open>
  Attaching a workspace: it joins with all its windows, it is active exactly when asked to be, and
  otherwise the workspace that was active stays active.
\<close>

lemma attach_workspace_ok:
  assumes "mon_ok m" "can_join [ws0] m"
  shows "returns (\<lambda>m'. joins [ws0] m m' \<and> id_counter m' = id_counter m
      \<and> ws_id (workspaces m' ! active_workspace_idx m')
          = (if activate then ws_id ws0 else ws_ids m ! active_workspace_idx m))
    (attach_workspace cv ws0 idx0 activate m)"
proof -
  define idx where "idx = min idx0 (length (workspaces m))"
  define m0 where "m0 = insert_attached idx (ws0\<lparr>ws_output := Some (mon_output m)\<rparr>) m"
  define m1 where "m1 = m0\<lparr>workspace_switch := None\<rparr>"
  have m1: "joins [ws0] m m1" "id_counter m1 = id_counter m" "idx < length (workspaces m1)"
    "ws_ids m1 ! idx = ws_id ws0"
    "ws_id (workspaces m1 ! active_workspace_idx m1) = ws_ids m ! active_workspace_idx m"
    using insert_attached_ok [OF assms, of idx m1 "Some (mon_output m)"]
    by (auto simp: m1_def m0_def idx_def)
  have s1: "mon_settled m1" using m1(1) by (simp add: joins_def)
  define P where "P = (\<lambda>m'. joins [ws0] m m' \<and> id_counter m' = id_counter m
      \<and> ws_id (workspaces m' ! active_workspace_idx m')
          = (if activate then ws_id ws0 else ws_ids m ! active_workspace_idx m))"
  have "returns (\<lambda>m2. P (m2\<lparr>workspace_switch := None\<rparr>)) (if activate then activate_workspace cv idx m1 else Some m0)"
  proof (cases activate)
    case True
    have "returns (\<lambda>m2. P (m2\<lparr>workspace_switch := None\<rparr>)) (activate_workspace cv idx m1)"
      by (rule returns_mono [OF active_id_of_activate [OF mon_settled_ok [OF s1] m1(3)]])
        (use True m1 mon_settledI in \<open>auto simp: P_def joins_def evolves_def mon_windows_def\<close>)
    then show ?thesis using True by simp
  next
    case False
    then show ?thesis using m1 by (simp add: P_def m1_def)
  qed
  then have "returns P (Option.bind (if activate then activate_workspace cv idx m1 else Some m0)
      (\<lambda>m2. clean_up_workspaces (m2\<lparr>workspace_switch := None\<rparr>)))"
  proof (rule returns_bind)
    fix m2 assume p: "P (m2\<lparr>workspace_switch := None\<rparr>)"
    have "mon_settled (m2\<lparr>workspace_switch := None\<rparr>)" using p by (simp add: P_def joins_def)
    then show "returns P (clean_up_workspaces (m2\<lparr>workspace_switch := None\<rparr>))"
      by (rule returns_mono [OF clean_up.step_shrinks])
        (use p shrunk_joins in \<open>auto simp: P_def shrunk_def\<close>)
  qed
  then show ?thesis
    unfolding attach_workspace_def Let_def idx_def [symmetric] m0_def [symmetric] m1_def [symmetric] P_def .
qed

lemma insert_workspace_ok:
  assumes "mon_ok m" "can_join [ws] m"
  shows "returns (joins [ws] m) (insert_workspace cv ws idx activate m)"
  unfolding insert_workspace_def
proof (rule returns_bind [OF attach_workspace_ok [OF assms]])
  fix m1 assume "joins [ws] m m1 \<and> id_counter m1 = id_counter m
    \<and> ws_id (workspaces m1 ! active_workspace_idx m1)
        = (if activate then ws_id ws else ws_ids m ! active_workspace_idx m)"
  then have j: "joins [ws] m m1" by blast
  then have "mon_settled m1" by (simp add: joins_def)
  then show "returns (joins [ws] m) (clean_up_workspaces m1)"
    by (rule returns_mono [OF clean_up.step_shrinks]) (rule shrunk_joins [OF j])
qed

lemma append_workspaces_ok:
  assumes "mon_ok m" "can_join wss m" "wss \<noteq> []"
  shows "returns (\<lambda>m'. joins wss m m' \<and> workspace_focus_history m' = workspace_focus_history m)
    (append_workspaces wss m)"
proof -
  define wss1 where "wss1 = map (\<lambda>ws. ws\<lparr>ws_output := Some (mon_output m)\<rparr>) wss"
  define m0 where "m0 = m\<lparr>sway_workspace_order := sway_workspace_order m @ map ws_id wss1,
                 workspaces := workspaces m @ wss1\<rparr>"
  define a where "a = workspaces m ! active_workspace_idx m"
  have ai: "active_workspace_idx m < length (workspaces m)" using assms(1) by (simp add: mon_ok_def)
  have i: "map ws_id wss1 = map ws_id wss" by (simp add: wss1_def)
  have m0: "ids_ok m0" "active_workspace_idx m0 < length (workspaces m0)"
    "workspaces m0 ! active_workspace_idx m0 = a"
    using assms(1,2) ai i by (auto simp: m0_def a_def mon_ok_def ids_ok_def can_join_def nth_append)
  have win: "mon_windows m0 = (\<Sum>ws\<in>#mset wss. mset (ws_windows ws)) + mon_windows m"
    by (simp add: m0_def mon_windows_def wss1_def comp_def image_mset.compositionality)
  obtain m1 where m1: "reap_empty_workspaces m0 = Some m1" "reaped_from m0 m1"
    using reap_empty_workspaces_spec [OF m0(1,2)] by (auto simp: returns_iff)
  have s1: "mon_settled m1" "active_workspace_idx m1 < length (workspaces m1)"
    "workspaces m1 ! active_workspace_idx m1 = a"
    using m1(2) m0(3) by (auto simp: reaped_from_def mon_settled_def mon_ok_def)
  have x: "idx_of_ws m1 (ws_id a) = Some (active_workspace_idx m1)"
    using idx_of_active [OF mon_settled_ok [OF s1(1)] s1(2)] s1(3) by simp
  have fix1: "m1\<lparr>active_workspace_idx := active_workspace_idx m1, workspace_switch := None\<rparr> = m1"
    using s1(1) by (simp add: mon_settled_def)
  have j1: "joins wss m m1"
    using reaped_from_evolves [OF m0(1) m1(2)] s1(1) win by (simp add: joins_def evolves_def m0_def)
  have h1: "workspace_focus_history m1 = workspace_focus_history m"
    using m1(2) by (simp add: reaped_from_def m0_def)
  have "active_workspace_ref m = Some a" using ai by (simp add: active_workspace_ref_def a_def)
  then have "append_workspaces wss m = clean_up_workspaces m1"
    using assms(3) m1(1) x fix1
    by (simp add: append_workspaces_def wss1_def [symmetric] m0_def [symmetric] Let_def)
  then show ?thesis
    using returns_mono [OF clean_up.step_shrinks [OF s1(1)]] shrunk_joins [OF j1] h1
    by (fastforce simp: shrunk_def)
qed

lemma window_closed_evolves:
  assumes "mon_ok m"
  shows "returns (evolves m) (clean_up_removed_window_workspace source m)"
proof -
  let ?m0 = "m\<lparr>workspace_switch := None\<rparr>"
  have s0: "mon_settled ?m0" by (rule mon_settledI [OF assms])
  obtain m1 where m1: "consider_destroy_workspace source ?m0 = Some m1" "shrunk ?m0 m1"
    using destroy.step_shrinks [OF s0] by (auto simp: returns_iff)
  have s1: "mon_settled m1" by (rule shrunk_settled [OF s0 m1(2)])
  have e1: "evolves m m1" by (rule evolves_trans [OF evolves_settle [OF assms] shrunk_evolves [OF s0 m1(2)]])
  define c where "c = (1 < length (filter (\<lambda>ws. \<not> has_windows ws) (workspaces m1)))"
  have "returns (evolves m1) (Option.bind
      (case previous_workspace_id m1 of Some p \<Rightarrow> if True then consider_destroy_workspace p m1 else Some m1
       | None \<Rightarrow> Some m1) reap_empty_workspaces)"
    by (rule destroy_opt_then [OF s1]) (simp add: reap_evolves mon_settled_ok)
  moreover have "returns (evolves m1) (reap_empty_workspaces m1)"
    by (rule reap_evolves [OF mon_settled_ok [OF s1]])
  ultimately have "returns (evolves m1) (Option.bind
      (if c then (case previous_workspace_id m1 of Some p \<Rightarrow> consider_destroy_workspace p m1 | None \<Rightarrow> Some m1)
       else Some m1) reap_empty_workspaces)"
    by (cases c) (simp_all cong: option.case_cong)
  then show ?thesis
    using evolves_from [OF e1] m1(1)
    by (simp add: clean_up_removed_window_workspace_def c_def cong: if_cong option.case_cong)
qed

section \<open>The drag-and-drop scroll\<close>

lemma dnd_begin_evolves:
  assumes "mon_ok m" "0 \<le> cv_render_idx cv" "cv_render_idx cv \<le> real (length (workspaces m)) - 1"
  shows "evolves m (dnd_scroll_gesture_begin cv m)"
proof -
  have "evolves m (m\<lparr>workspace_switch := Some (SwDndScroll
                  \<lparr>center_idx = active_workspace_idx m, start_idx = cv_render_idx cv,
                   current_idx = cv_render_idx cv, dnd_animation = None,
                   tracker = swipe_tracker_new, dnd_last_event_time = cv_now cv,
                   dnd_nonzero_start_time = None\<rparr>)\<rparr>)"
    by (rule evolves_frame [OF assms(1)])
      (use assms in \<open>simp_all add: mon_ok_def switch_ok_def target_idx_def\<close>)
  then show ?thesis
    using evolves_refl [OF assms(1)]
    by (simp add: dnd_scroll_gesture_begin_def split: option.splits workspace_switch.splits)
qed

lemma put_gesture_evolves:
  assumes "mon_ok m" "0 \<le> current_idx g" "current_idx g \<le> real (length (workspaces m)) - 1"
  shows "evolves m (m\<lparr>workspace_switch := Some (SwDndScroll g)\<rparr>)"
  by (rule evolves_frame [OF assms(1)])
    (use assms in \<open>simp_all add: mon_ok_def switch_ok_def target_idx_def\<close>)

lemma clamp_real_range: "lo \<le> hi \<Longrightarrow> lo \<le> clamp_real lo hi x \<and> clamp_real lo hi x \<le> hi"
  by (simp add: clamp_real_def)

lemma dnd_scroll_evolves:
  assumes "mon_ok m"
  shows "evolves m (snd (dnd_scroll_gesture_scroll cv sv px py speed m))"
proof (cases "\<exists>g. workspace_switch m = Some (SwDndScroll g)")
  case True
  then obtain g where g: "workspace_switch m = Some (SwDndScroll g)" by blast
  have t: "0 \<le> current_idx g" "current_idx g \<le> real (length (workspaces m)) - 1"
    using assms g by (simp_all add: mon_ok_def switch_ok_def target_idx_def)
  have l: "real (length (workspaces m) - 1) = real (length (workspaces m)) - 1"
    using mon_ok_nonempty [OF assms] by (simp add: of_nat_diff Suc_leI)
  have "0 \<le> real (length (workspaces m)) - 1" using t by linarith
  note c = clamp_real_range [OF this]
  show ?thesis
    unfolding dnd_scroll_gesture_scroll_def Let_def g l
    using put_gesture_evolves [OF assms] t c by simp
next
  case False
  then show ?thesis
    using evolves_refl [OF assms]
    by (auto simp: dnd_scroll_gesture_scroll_def split: option.splits workspace_switch.splits)
qed

lemma dnd_end_evolves:
  assumes "mon_ok m"
  shows "evolves m (dnd_scroll_gesture_end m)"
proof (cases "\<exists>g. workspace_switch m = Some (SwDndScroll g)")
  case True
  then obtain g where g: "workspace_switch m = Some (SwDndScroll g)" by blast
  define k where "k = nat \<lfloor>current_idx g + 1 / 2\<rfloor>"
  have t: "0 \<le> current_idx g" "current_idx g \<le> real (length (workspaces m)) - 1"
    using assms g by (simp_all add: mon_ok_def switch_ok_def target_idx_def)
  have "\<lfloor>current_idx g + 1 / 2\<rfloor> < int (length (workspaces m))"
    using t(2) by (simp add: floor_less_iff)
  then have k: "k < length (workspaces m)" using t by (simp add: k_def)
  have "evolves m (m\<lparr>active_workspace_idx := k, workspace_switch := Some (SwAnimation (real k) (real k))\<rparr>)"
    by (rule evolves_frame [OF assms]) (use k in \<open>simp_all add: switch_ok_def target_idx_def\<close>)
  then show ?thesis using g by (simp add: dnd_scroll_gesture_end_def k_def Let_def)
next
  case False
  then show ?thesis
    using evolves_refl [OF assms]
    by (auto simp: dnd_scroll_gesture_end_def split: option.splits workspace_switch.splits)
qed

section \<open>Workspaces that leave\<close>

lemma detach_workspace_ok:
  assumes "mon_ok m" "i \<in> set (ws_ids m)"
  shows "\<exists>ws m'. detach_workspace i m = (Some (ws\<lparr>ws_output := None\<rparr>), m')
    \<and> ws \<in> set (workspaces m) \<and> ws_id ws = i \<and> ids_ok m'
    \<and> (workspaces m' \<noteq> [] \<longrightarrow> active_workspace_idx m' < length (workspaces m'))
    \<and> workspace_switch m' = None \<and> id_counter m' = id_counter m
    \<and> mset (ws_windows ws) + mon_windows m' = mon_windows m
    \<and> set (ws_ids m') = set (ws_ids m) - {i}"
proof -
  obtain idx where idx: "idx_of_ws m i = Some idx" using assms(2) idx_of_ws_None by (metis not_None_eq)
  let ?xs = "workspaces m"
  have x: "idx < length ?xs" "ws_id (?xs ! idx) = i" using idx_of_ws_Some [OF idx] by simp_all
  define m' where "m' = snd (detach_workspace i m)"
  have f: "detach_workspace i m = (Some ((?xs ! idx)\<lparr>ws_output := None\<rparr>), m')"
    "workspaces m' = remove_at idx ?xs" "sway_workspace_order m' = retain_ne i (sway_workspace_order m)"
    "workspace_switch m' = None" "id_counter m' = id_counter m"
    "active_workspace_idx m' = (if idx \<le> active_workspace_idx m \<and> 0 < active_workspace_idx m
               then active_workspace_idx m - 1 else active_workspace_idx m)"
    using idx by (simp_all add: m'_def detach_workspace_def)
  have d: "distinct (ws_ids m)" using assms(1) by (simp add: mon_ok_def ids_ok_def)
  have si: "set (ws_ids m') = set (ws_ids m) - {i}"
    using set_remove_at [OF d, of idx] x f(2) by simp
  have "ids_ok m'"
    using assms(1) d si f by (auto simp: ids_ok_def mon_ok_def)
  moreover have "workspaces m' \<noteq> [] \<longrightarrow> active_workspace_idx m' < length (workspaces m')"
  proof
    assume "workspaces m' \<noteq> []"
    then have "0 < length ?xs - 1" using f(2) x(1) by (metis length_greater_0_conv length_remove_at)
    then show "active_workspace_idx m' < length (workspaces m')"
      using assms(1) x(1) f(2,6) by (auto simp: mon_ok_def)
  qed
  moreover have "mset (ws_windows (?xs ! idx)) + mon_windows m' = mon_windows m"
  proof -
    have "mset ?xs = add_mset (?xs ! idx) (mset (workspaces m'))"
      using mset_remove_at [OF x(1)] f(2) by simp
    then show ?thesis by (simp add: mon_windows_def)
  qed
  ultimately show ?thesis
    using f x si by (intro exI [of _ "?xs ! idx"] exI [of _ m']) simp
qed

lemma rposition_by_Some: "rposition_by P xs = Some i \<Longrightarrow> i < length xs"
  by (induction xs arbitrary: i) (auto split: option.splits if_splits)

lemma settle_source_ok:
  assumes "workspaces m \<noteq> []" "active_workspace_idx m < length (workspaces m)"
  shows "active_workspace_idx (settle_source b r m) < length (workspaces m)"
proof -
  define o1 where "o1 = or_else (Option.bind r (idx_of_ws m)) (rposition_by must_be_kept (workspaces m))"
  have "unwrap_or o1 0 < length (workspaces m)"
  proof (cases o1)
    case None
    then show ?thesis using assms(1) by simp
  next
    case (Some k)
    then have "(\<exists>i. idx_of_ws m i = Some k) \<or> rposition_by must_be_kept (workspaces m) = Some k"
      unfolding o1_def by (elim or_else_SomeE) (auto simp: bind_eq_Some_conv)
    then show ?thesis using Some idx_of_ws_Some rposition_by_Some by fastforce
  qed
  then show ?thesis using assms(2) by (simp add: settle_source_def o1_def)
qed

lemma settle_source_fields [simp]:
  "workspaces (settle_source b r m) = workspaces m" "sway_workspace_order (settle_source b r m) = sway_workspace_order m"
  "workspace_switch (settle_source b r m) = workspace_switch m" "id_counter (settle_source b r m) = id_counter m"
  "mon_output (settle_source b r m) = mon_output m"
  by (simp_all add: settle_source_def)

lemma reap_after_leaving:
  assumes "ids_ok m" "workspaces m \<noteq> [] \<longrightarrow> active_workspace_idx m < length (workspaces m)"
    "workspace_switch m = None"
  shows "returns (\<lambda>m'. mon_settled m' \<and> mon_windows m' = mon_windows m \<and> id_counter m \<le> id_counter m')
    (reap_empty_workspaces m)"
proof (cases "workspaces m = []")
  case True
  have "returns (\<lambda>m'. mon_settled m' \<and> reaped m'
      \<and> workspaces m' = [workspace_new (id_counter m) (mon_output m)]) (reap_empty_workspaces m)"
    by (rule reap_empty_monitor [OF assms(1) True assms(3)])
  then show ?thesis
  proof (rule returns_mono)
    fix m' assume r: "mon_settled m' \<and> reaped m' \<and> workspaces m' = [workspace_new (id_counter m) (mon_output m)]"
    have "id_counter m < id_counter m'" using r by (auto simp: mon_settled_def mon_ok_def ids_ok_def)
    then show "mon_settled m' \<and> mon_windows m' = mon_windows m \<and> id_counter m \<le> id_counter m'"
      using r True by (simp add: mon_windows_def)
  qed
next
  case False
  show ?thesis
    by (rule returns_mono [OF reap_empty_workspaces_spec [OF assms(1)]])
      (use False assms reaped_from_evolves [OF assms(1)] in \<open>auto simp: reaped_from_def evolves_def\<close>)
qed

lemma ensure_replacement_ok:
  assumes "mon_ok m"
  shows "returns (\<lambda>r. evolves m (snd r) \<and> set (ws_ids m) \<subseteq> set (ws_ids (snd r))
      \<and> (\<forall>ws\<in>set (workspaces m). ws_id ws = i \<longrightarrow> ws \<in> set (workspaces (snd r))))
    (ensure_replacement_workspace i name number m)"
proof (cases "position_by (\<lambda>ws. ws_id ws \<noteq> i \<and> \<not> has_sway_identity ws \<and> \<not> has_windows ws) (workspaces m)")
  case None
  have "1 \<le> length (workspaces m)" using mon_ok_nonempty [OF assms] by (simp add: Suc_leI)
  from add_sway_workspace_at_ok [OF assms this, of name number]
  show ?thesis
    unfolding ensure_replacement_workspace_def None option.case
    by (rule returns_mono) (auto simp: evolves_def dest: insert_evolves_windows)
next
  case (Some idx)
  let ?xs = "workspaces m"
  let ?m1 = "m\<lparr>workspaces := ?xs[idx := set_sway_identity name number (?xs ! idx)]\<rparr>"
  have x: "idx < length ?xs" "ws_id (?xs ! idx) \<noteq> i" using position_by_Some [OF Some] by simp_all
  have e: "evolves m ?m1" by (rule update_workspace_evolves [OF assms x(1)]) simp_all
  have "ws_ids ?m1 = ws_ids m" using x(1) list_update_id [of "ws_ids m" idx] by (simp add: map_update)
  then have "set (ws_ids ?m1) = set (ws_ids m)" by (simp only:)
  moreover have "ws \<in> set (workspaces ?m1)" if w: "ws \<in> set ?xs" "ws_id ws = i" for ws
  proof -
    obtain k where k: "k < length ?xs" "?xs ! k = ws" using w(1) by (auto simp: in_set_conv_nth)
    then have "k \<noteq> idx" using w(2) x(2) by blast
    then have "?xs[idx := set_sway_identity name number (?xs ! idx)] ! k = ws" using k(2) by simp
    moreover have "k < length (?xs[idx := set_sway_identity name number (?xs ! idx)])" using k(1) by simp
    ultimately have "ws \<in> set (?xs[idx := set_sway_identity name number (?xs ! idx)])"
      by (metis nth_mem)
    then show ?thesis by simp
  qed
  ultimately show ?thesis using e Some by (simp add: ensure_replacement_workspace_def)
qed

text \<open>
  A workspace of the monitor can always be released: the monitor stays well formed, with a
  workspace to be active on, and loses exactly the windows that leave.
\<close>

definition releases :: "nat \<Rightarrow> monitor \<Rightarrow> workspace option \<times> monitor \<Rightarrow> bool" where
  "releases i m r \<longleftrightarrow>
    (\<exists>ws m'. r = (Some (ws\<lparr>ws_output := None\<rparr>), m') \<and> ws \<in> set (workspaces m) \<and> ws_id ws = i
       \<and> mon_settled m' \<and> mset (ws_windows ws) + mon_windows m' = mon_windows m
       \<and> id_counter m \<le> id_counter m')"

lemma release_tail:
  assumes "mon_ok s1" "i \<in> set (ws_ids s1)"
  shows "returns (releases i s1) (case detach_workspace i s1 of
           (None, s2) \<Rightarrow> Some (None, s2)
         | (Some ws, s2) \<Rightarrow>
             Option.bind (reap_empty_workspaces (settle_source b r s2)) (\<lambda>s3. Some (Some ws, s3)))"
proof -
  obtain ws s2 where d: "detach_workspace i s1 = (Some (ws\<lparr>ws_output := None\<rparr>), s2)"
    "ws \<in> set (workspaces s1)" "ws_id ws = i" "ids_ok s2"
    "workspaces s2 \<noteq> [] \<longrightarrow> active_workspace_idx s2 < length (workspaces s2)"
    "workspace_switch s2 = None" "id_counter s2 = id_counter s1"
    "mset (ws_windows ws) + mon_windows s2 = mon_windows s1"
    using detach_workspace_ok [OF assms] by blast
  define s2' where "s2' = settle_source b r s2"
  have i: "ids_ok s2'" using d(4) by (simp add: s2'_def ids_ok_def)
  have a: "workspaces s2' \<noteq> [] \<longrightarrow> active_workspace_idx s2' < length (workspaces s2')"
    using d(5) settle_source_ok by (simp add: s2'_def)
  have "workspace_switch s2' = None" using d(6) by (simp add: s2'_def)
  then obtain s3 where s3: "reap_empty_workspaces s2' = Some s3" "mon_settled s3"
    "mon_windows s3 = mon_windows s2'" "id_counter s2' \<le> id_counter s3"
    using reap_after_leaving [OF i a] by (auto simp: returns_iff)
  have "mon_windows s2' = mon_windows s2" by (rule mon_windows_frame) (simp add: s2'_def)
  then have "releases i s1 (Some (ws\<lparr>ws_output := None\<rparr>), s3)"
    unfolding releases_def using d s3
    by (intro exI [of _ ws] exI [of _ s3]) (simp add: s2'_def)
  then show ?thesis using d(1) s3(1) by (simp add: s2'_def)
qed

lemma release_workspace_ok:
  assumes "mon_ok m" "i \<in> set (ws_ids m)"
  shows "returns (releases i m) (release_workspace named identity i m)"
proof -
  obtain idx where idx: "idx_of_ws m i = Some idx" using assms(2) idx_of_ws_None by (metis not_None_eq)
  define start where "start = (if needs_replacement named i (workspaces m ! idx) m
            then map_option (\<lambda>r. (Some (fst r), snd r))
                   (ensure_replacement_workspace i (fst identity) (snd identity) m)
            else Some (None, m))"
  have "returns (\<lambda>r. evolves m (snd r) \<and> set (ws_ids m) \<subseteq> set (ws_ids (snd r))
      \<and> (\<forall>ws\<in>set (workspaces m). ws_id ws = i \<longrightarrow> ws \<in> set (workspaces (snd r)))) start"
    unfolding start_def using ensure_replacement_ok [OF assms(1)] evolves_refl [OF assms(1)] by simp
  then obtain r s1 where s1: "start = Some (r, s1)" "evolves m s1" "set (ws_ids m) \<subseteq> set (ws_ids s1)"
    "\<forall>ws\<in>set (workspaces m). ws_id ws = i \<longrightarrow> ws \<in> set (workspaces s1)"
    by (auto simp: returns_iff)
  have i1: "i \<in> set (ws_ids s1)" using assms(2) s1(3) by blast
  have rel: "releases i m x" if x: "releases i s1 x" for x
  proof -
    obtain ws m' where w: "x = (Some (ws\<lparr>ws_output := None\<rparr>), m')" "ws \<in> set (workspaces s1)" "ws_id ws = i"
      "mon_settled m'" "mset (ws_windows ws) + mon_windows m' = mon_windows s1" "id_counter s1 \<le> id_counter m'"
      using x by (auto simp: releases_def)
    obtain ws' where ws': "ws' \<in> set (workspaces m)" "ws_id ws' = i" using assms(2) by auto
    have "distinct (ws_ids s1)" using s1(2) by (simp add: evolves_def mon_ok_def ids_ok_def)
    then have "ws' = ws" using ws' w(2,3) s1(4) by (metis distinct_map inj_onD)
    then show ?thesis
      unfolding releases_def using w ws' s1(2)
      by (intro exI [of _ ws] exI [of _ m']) (simp add: evolves_def)
  qed
  have "release_workspace named identity i m = (case detach_workspace i s1 of
           (None, s2) \<Rightarrow> Some (None, s2)
         | (Some ws, s2) \<Rightarrow>
             Option.bind (reap_empty_workspaces
               (settle_source (i = ws_id (workspaces m ! active_workspace_idx m)) r s2)) (\<lambda>s3. Some (Some ws, s3)))"
    unfolding release_workspace_def start_def [symmetric] idx option.case
    using s1(1) active_workspace_ref_ok [OF assms(1)] by (simp add: start_def [symmetric])
  then show ?thesis
    using returns_mono [OF release_tail [OF evolves_ok [OF s1(2)] i1] rel] by simp
qed

abbreviation active_id :: "monitor \<Rightarrow> nat" where
  "active_id m \<equiv> ws_id (workspaces m ! active_workspace_idx m)"

lemma joins_evolves: "joins wss m m1 \<Longrightarrow> evolves m1 m2 \<Longrightarrow> mon_settled m2 \<Longrightarrow> joins wss m m2"
  by (simp add: joins_def evolves_def)

lemma receive_workspace_ok:
  assumes "mon_ok m" "can_join [ws] m"
  shows "returns (\<lambda>m'. joins [ws] m m' \<and> reaped m'
      \<and> active_id m' = (if activate then ws_id ws else active_id m)) (receive_workspace cv ws activate m)"
proof -
  have a: "active_workspace_idx m < length (workspaces m)" using assms(1) by (simp add: mon_ok_def)
  obtain t1 where t1: "attach_workspace cv ws (active_workspace_idx m + 1) activate m = Some t1"
    "joins [ws] m t1" "active_id t1 = (if activate then ws_id ws else active_id m)"
    using attach_workspace_ok [OF assms, of activate cv "active_workspace_idx m + 1"] a
    by (auto simp: returns_iff)
  have s1: "mon_settled t1" using t1(2) by (simp add: joins_def)
  obtain t2 where t2: "sort_sway_workspaces t1 = Some t2" "mon_ok t2" "sorted_from t1 t2"
    using sort_sway_workspaces_ok [of t1] s1 by (auto simp: returns_iff mon_settled_def mon_ok_def)
  have s2: "mon_settled t2" using t2 s1 by (simp add: mon_settled_def sorted_from_def)
  have a2: "active_workspace_idx t2 < length (workspaces t2)" "active_id t2 = active_id t1"
    using t2(3) by (simp_all add: sorted_from_def)
  have t3: "(if activate then t2 else case idx_of_ws t2 (active_id m) of
      Some idx \<Rightarrow> t2\<lparr>active_workspace_idx := idx\<rparr> | None \<Rightarrow> t2) = t2"
    using idx_of_active [OF t2(2) a2(1)] a2(2) t1(3) by (cases activate) simp_all
  obtain t4 where t4: "clean_up_workspaces t2 = Some t4" "shrunk t2 t4"
    using clean_up.step_shrinks [OF s2] by (auto simp: returns_iff)
  have s4: "mon_settled t4" by (rule shrunk_settled [OF s2 t4(2)])
  obtain t5 where t5: "reap_empty_workspaces t4 = Some t5" "reaped_from t4 t5"
    using reap_empty_workspaces_ok [OF mon_settled_ok [OF s4]] by (auto simp: returns_iff)
  have "evolves t1 t5"
    using evolves_trans [OF sorted_from_evolves [OF t2(2,3)]
        evolves_trans [OF shrunk_evolves [OF s2 t4(2)] reaped_from_evolves [OF _ t5(2)]]] s4
    by (simp add: mon_settled_def mon_ok_def)
  then have "joins [ws] m t5"
    using joins_evolves [OF t1(2)] t5(2) by (simp add: reaped_from_def)
  moreover have "active_id t5 = active_id t1"
    using t5(2) t4(2) a2(2) by (simp add: reaped_from_def shrunk_def)
  moreover have "receive_workspace cv ws activate m = Some t5"
    using t1(1) t2(1) t3 t4(1) t5(1) active_workspace_ref_ok [OF assms(1)]
    by (simp add: receive_workspace_def Let_def)
  ultimately show ?thesis using t1(3) t5(2) by (simp add: reaped_from_def)
qed

text \<open>
  Moving a workspace to another output: both monitors stay well formed, together they hold the
  same windows, and the target shows the workspace exactly when it was the focused one.
\<close>

lemma move_workspace_to_output_ok:
  assumes "mon_ok src" "mon_ok tgt" "i \<in> set (ws_ids src)" "set (ws_ids src) \<inter> set (ws_ids tgt) = {}"
    "id_counter tgt = id_counter src"
  shows "returns (\<lambda>(activate, src', tgt').
      activate = (focused \<and> i = active_id src) \<and> mon_ok src' \<and> mon_ok tgt'
      \<and> id_counter src' = id_counter tgt'
      \<and> mon_windows src' + mon_windows tgt' = mon_windows src + mon_windows tgt
      \<and> active_id tgt' = (if activate then i else active_id tgt))
    (move_workspace_to_output cv named focused identity i src tgt)"
proof -
  have "releases i src r \<Longrightarrow> \<exists>ws s3. r = (Some ws, s3) \<and> ws_id ws = i \<and> mon_settled s3
      \<and> mset (ws_windows ws) + mon_windows s3 = mon_windows src \<and> id_counter src \<le> id_counter s3" for r
    by (auto simp: releases_def)
  then obtain ws s3 where r: "release_workspace named identity i src = Some (Some ws, s3)" "ws_id ws = i"
    "mon_settled s3" "mset (ws_windows ws) + mon_windows s3 = mon_windows src" "id_counter src \<le> id_counter s3"
    using release_workspace_ok [OF assms(1,3), of named identity] by (metis returns_iff)
  define activate where "activate = (focused \<and> i = active_id src)"
  let ?t = "tgt\<lparr>id_counter := id_counter s3\<rparr>"
  have ok: "mon_ok ?t" by (rule mon_ok_frame [OF assms(2)]) (use assms(2,5) r(5) in \<open>simp_all add: mon_ok_def\<close>)
  have "i < id_counter src" using assms(1,3) by (auto simp: mon_ok_def ids_ok_def)
  then have join: "can_join [ws] ?t" using r(2,5) assms(3,4) by (auto simp: can_join_def)
  obtain t1 where t1: "receive_workspace cv ws activate ?t = Some t1" "joins [ws] ?t t1"
    "active_id t1 = (if activate then i else active_id tgt)"
    using receive_workspace_ok [OF ok join, of activate cv] r(2) by (auto simp: returns_iff)
  obtain s4 where s4: "clean_up_workspaces s3 = Some s4" "evolves s3 s4"
    using clean_up_evolves [OF r(3)] by (auto simp: returns_iff)
  have c: "id_counter s4 = id_counter s3"
    using clean_up.step_shrinks [OF r(3)] s4(1) by (simp add: shrunk_def)
  have t: "mon_ok t1" "id_counter s3 \<le> id_counter t1"
    "mon_windows t1 = mset (ws_windows ws) + mon_windows tgt"
    using t1(2) mon_windows_frame [of ?t tgt] by (simp_all add: joins_def mon_settled_def)
  have "mon_ok (s4\<lparr>id_counter := id_counter t1\<rparr>)"
    by (rule mon_ok_frame [OF evolves_ok [OF s4(2)]])
      (use evolves_ok [OF s4(2)] c t(2) in \<open>simp_all add: mon_ok_def\<close>)
  moreover have "mon_windows (s4\<lparr>id_counter := id_counter t1\<rparr>) = mon_windows s3"
    using s4(2) mon_windows_frame [of "s4\<lparr>id_counter := id_counter t1\<rparr>" s4] by (simp add: evolves_def)
  moreover have "move_workspace_to_output cv named focused identity i src tgt
      = Some (activate, s4\<lparr>id_counter := id_counter t1\<rparr>, t1)"
    unfolding move_workspace_to_output_def
    using assms(3) r(1) t1(1) s4(1) active_workspace_ref_ok [OF assms(1)]
    by (simp add: idx_of_ws_None activate_def Let_def)
  moreover have "mon_windows s3 + mon_windows t1 = mon_windows src + mon_windows tgt"
    using r(4) t(3) by (simp add: ac_simps)
  ultimately show ?thesis using t1(3) t(1) by (simp add: activate_def)
qed

section \<open>Unplugging and plugging in\<close>

text \<open>
  The workspaces a monitor hands over when its output goes away hold all its windows, and a
  monitor made of them holds them all again.
\<close>

lemma filter_kept_windows:
  "(\<Sum>ws\<in>#mset (filter must_be_kept wss). mset (ws_windows ws)) = (\<Sum>ws\<in>#mset wss. mset (ws_windows ws))"
  by (induction wss) (simp_all add: not_kept_no_windows)

lemma map_output_windows:
  "(\<Sum>ws\<in>#mset (map (\<lambda>ws. ws\<lparr>ws_output := out\<rparr>) wss). mset (ws_windows ws))
   = (\<Sum>ws\<in>#mset wss. mset (ws_windows ws))"
  by (induction wss) simp_all

lemma into_workspaces_windows:
  "(\<Sum>ws\<in>#mset (into_workspaces m). mset (ws_windows ws)) = mon_windows m"
  unfolding into_workspaces_def map_output_windows mon_windows_def
  using filter_kept_windows [of "workspaces m"] by (simp add: must_be_kept_def)

lemma monitor_new_windows:
  "mon_windows (monitor_new counter out wss to_activate initial_name initial_number)
   = (\<Sum>ws\<in>#mset wss. mset (ws_windows ws))"
proof -
  define kept where "kept = map (\<lambda>ws. ws\<lparr>ws_output := Some out\<rparr>) (filter must_be_kept wss)"
  have k: "(\<Sum>ws\<in>#mset kept. mset (ws_windows ws)) = (\<Sum>ws\<in>#mset wss. mset (ws_windows ws))"
    unfolding kept_def map_output_windows by (rule filter_kept_windows)
  show ?thesis
    unfolding mon_windows_def monitor_new_def Let_def kept_def [symmetric]
    using k by (cases "kept = []") (auto split: option.splits prod.splits)
qed

lemma unplug_and_plug_in_windows:
  "mon_windows (monitor_new counter out (into_workspaces m) to_activate initial_name initial_number)
   = mon_windows m"
  by (simp only: monitor_new_windows into_workspaces_windows)

text \<open>A workspace still without an identity shows a number no other workspace of the output owns.\<close>

lemma sway_workspace_number_free:
  assumes "index < length (workspaces m)" "\<not> has_sway_identity (workspaces m ! index)"
  shows "\<exists>n. sway_workspace_number m index = Some n \<and> 1 \<le> n \<and> n \<notin> set (numbers_taken m index)"
  using first_free_least [of "numbers_taken m index"] assms
  by (auto simp: sway_workspace_number_def vec_get_def has_sway_identity_def)

section \<open>The transition system\<close>

text \<open>
  The operations the layout calls on one monitor. \<open>OpContents\<close> stands for whatever happens inside a
  workspace: its windows and names change, its id does not.
\<close>

datatype monitor_op =
  OpCreate "string option" "int option"
| OpSwitch clock_view nat
| OpSwitchUp clock_view
| OpSwitchDown clock_view
| OpSwitchUpWrapping clock_view
| OpSwitchDownWrapping clock_view
| OpBackAndForth clock_view nat
| OpPrevious clock_view
| OpFinishSwitch "nat option"
| OpAdvance clock_view
| OpMoveUp clock_view
| OpMoveDown clock_view
| OpMoveToIdx nat nat
| OpUnname nat
| OpRename nat string bool
| OpWindowClosed nat
| OpReap
| OpSort
| OpInsert clock_view workspace nat bool
| OpAppend "workspace list"
| OpReceive clock_view workspace bool
| OpRelease bool "string option \<times> int option" nat
| OpDndBegin clock_view
| OpDndScroll clock_view scroll_view real real real
| OpDndEnd
| OpContents nat workspace

fun run_op :: "monitor_op \<Rightarrow> monitor \<Rightarrow> monitor option" where
  "run_op (OpCreate name number) m = map_option snd (create_sway_workspace name number m)"
| "run_op (OpSwitch cv idx) m = switch_workspace cv idx m"
| "run_op (OpSwitchUp cv) m = switch_workspace_up cv m"
| "run_op (OpSwitchDown cv) m = switch_workspace_down cv m"
| "run_op (OpSwitchUpWrapping cv) m = switch_workspace_up_wrapping cv m"
| "run_op (OpSwitchDownWrapping cv) m = switch_workspace_down_wrapping cv m"
| "run_op (OpBackAndForth cv idx) m = switch_workspace_auto_back_and_forth cv idx m"
| "run_op (OpPrevious cv) m = switch_workspace_previous cv m"
| "run_op (OpFinishSwitch target) m = finish_workspace_switch target m"
| "run_op (OpAdvance cv) m = advance_animations cv m"
| "run_op (OpMoveUp cv) m = move_workspace_up cv m"
| "run_op (OpMoveDown cv) m = move_workspace_down cv m"
| "run_op (OpMoveToIdx old new) m = move_workspace_to_idx old new m"
| "run_op (OpUnname i) m = map_option snd (unname_workspace i m)"
| "run_op (OpRename i name declared) m = rename_workspace i name declared m"
| "run_op (OpWindowClosed i) m = clean_up_removed_window_workspace i m"
| "run_op OpReap m = reap_empty_workspaces m"
| "run_op OpSort m = sort_sway_workspaces m"
| "run_op (OpInsert cv ws idx activate) m = insert_workspace cv ws idx activate m"
| "run_op (OpAppend wss) m = append_workspaces wss m"
| "run_op (OpReceive cv ws activate) m = receive_workspace cv ws activate m"
| "run_op (OpRelease named identity i) m = map_option snd (release_workspace named identity i m)"
| "run_op (OpDndBegin cv) m = Some (dnd_scroll_gesture_begin cv m)"
| "run_op (OpDndScroll cv sv px py speed) m = Some (snd (dnd_scroll_gesture_scroll cv sv px py speed m))"
| "run_op OpDndEnd m = Some (dnd_scroll_gesture_end m)"
| "run_op (OpContents idx ws) m = Some (m\<lparr>workspaces := (workspaces m)[idx := ws]\<rparr>)"

text \<open>
  What the callers guarantee: a workspace that joins has an id of its own, one that is renamed or
  leaves is there, and the rendered index is in the list when a scroll begins.
\<close>

fun op_ok :: "monitor_op \<Rightarrow> monitor \<Rightarrow> bool" where
  "op_ok (OpInsert cv ws idx activate) m = can_join [ws] m"
| "op_ok (OpAppend wss) m = can_join wss m"
| "op_ok (OpReceive cv ws activate) m = can_join [ws] m"
| "op_ok (OpRelease named identity i) m = (i \<in> set (ws_ids m))"
| "op_ok (OpRename i name declared) m = (i \<in> set (ws_ids m))"
| "op_ok (OpDndBegin cv) m =
    (0 \<le> cv_render_idx cv \<and> cv_render_idx cv \<le> real (length (workspaces m)) - 1)"
| "op_ok (OpContents idx ws) m =
    (idx < length (workspaces m) \<and> ws_id ws = ws_id (workspaces m ! idx))"
| "op_ok _ m = True"

text \<open>The windows an operation brings to the monitor and takes from it.\<close>

fun op_brings :: "monitor_op \<Rightarrow> nat multiset" where
  "op_brings (OpInsert cv ws idx activate) = mset (ws_windows ws)"
| "op_brings (OpAppend wss) = (\<Sum>ws\<in>#mset wss. mset (ws_windows ws))"
| "op_brings (OpReceive cv ws activate) = mset (ws_windows ws)"
| "op_brings (OpContents idx ws) = mset (ws_windows ws)"
| "op_brings _ = {#}"

fun op_takes :: "monitor_op \<Rightarrow> monitor \<Rightarrow> nat multiset" where
  "op_takes (OpRelease named identity i) m =
    (\<Sum>ws\<in>#mset (filter (\<lambda>ws. ws_id ws = i) (workspaces m)). mset (ws_windows ws))"
| "op_takes (OpContents idx ws) m = mset (ws_windows (workspaces m ! idx))"
| "op_takes _ m = {#}"

definition accounts :: "monitor_op \<Rightarrow> monitor \<Rightarrow> monitor \<Rightarrow> bool" where
  "accounts oper m m' \<longleftrightarrow>
    mon_ok m' \<and> mon_windows m' + op_takes oper m = mon_windows m + op_brings oper"

lemma evolves_accounts:
  "returns (evolves m) r \<Longrightarrow> op_takes oper m = {#} \<Longrightarrow> op_brings oper = {#} \<Longrightarrow>
   returns (accounts oper m) r"
  by (erule returns_mono) (simp add: evolves_def accounts_def)

lemma joins_accounts:
  "returns (joins wss m) r \<Longrightarrow> op_takes oper m = {#} \<Longrightarrow>
   op_brings oper = (\<Sum>ws\<in>#mset wss. mset (ws_windows ws)) \<Longrightarrow> returns (accounts oper m) r"
  by (erule returns_mono) (simp add: joins_def accounts_def mon_settled_ok ac_simps)

lemma filter_own_id:
  "distinct (map f xs) \<Longrightarrow> x \<in> set xs \<Longrightarrow> filter (\<lambda>y. f y = f x) xs = [x]"
  by (induction xs) (auto simp: filter_empty_conv image_iff)

lemma release_accounts:
  assumes "mon_ok m" "i \<in> set (ws_ids m)"
  shows "returns (accounts (OpRelease named identity i) m) (run_op (OpRelease named identity i) m)"
proof -
  have "releases i m r \<Longrightarrow> accounts (OpRelease named identity i) m (snd r)" for r
  proof -
    assume "releases i m r"
    then obtain ws m' where w: "snd r = m'" "ws \<in> set (workspaces m)" "ws_id ws = i" "mon_settled m'"
      "mset (ws_windows ws) + mon_windows m' = mon_windows m"
      by (auto simp: releases_def)
    have "filter (\<lambda>y. ws_id y = i) (workspaces m) = [ws]"
      using filter_own_id [of ws_id "workspaces m" ws] w(2,3) assms(1) by (simp add: mon_ok_def ids_ok_def)
    then show ?thesis using w by (simp add: accounts_def mon_settled_ok ac_simps)
  qed
  then have "returns (\<lambda>r. accounts (OpRelease named identity i) m (snd r)) (release_workspace named identity i m)"
    by (rule returns_mono [OF release_workspace_ok [OF assms]])
  then show ?thesis by simp
qed

lemma contents_accounts:
  assumes "mon_ok m" "idx < length (workspaces m)" "ws_id ws = ws_id (workspaces m ! idx)"
  shows "returns (accounts (OpContents idx ws) m) (run_op (OpContents idx ws) m)"
proof -
  define M where "M = mset (workspaces m) - {#workspaces m ! idx#}"
  have "mset (workspaces m) = add_mset (workspaces m ! idx) M" using assms(2) by (simp add: M_def)
  moreover have "mset ((workspaces m)[idx := ws]) = add_mset ws M"
    using assms(2) by (simp add: mset_update M_def)
  ultimately show ?thesis
    using update_workspace_ok [OF assms] by (simp add: accounts_def mon_windows_def ac_simps)
qed

lemmas op_evolves =
  create_sway_workspace_evolves switch_workspace_evolves switch_up_evolves switch_down_evolves
  switch_up_wrapping_evolves switch_down_wrapping_evolves back_and_forth_evolves switch_previous_evolves
  finish_switch_evolves advance_evolves move_workspace_up_evolves move_workspace_down_evolves
  move_workspace_to_idx_evolves unname_evolves window_closed_evolves reap_evolves sort_evolves

lemma append_any_ok:
  assumes "mon_ok m" "can_join wss m"
  shows "returns (accounts (OpAppend wss) m) (append_workspaces wss m)"
proof (cases "wss = []")
  case True
  then show ?thesis using assms(1) by (simp add: append_workspaces_def accounts_def)
next
  case False
  have "returns (joins wss m) (append_workspaces wss m)"
    by (rule returns_mono [OF append_workspaces_ok [OF assms False]]) simp
  then show ?thesis by (rule joins_accounts) simp_all
qed

lemma run_op_accounts:
  assumes "mon_ok m" "op_ok oper m"
  shows "returns (accounts oper m) (run_op oper m)"
proof (cases oper)
  case (OpCreate name number)
  then show ?thesis
    using evolves_accounts [OF create_sway_workspace_evolves [OF assms(1)], of oper name number] by simp
next
  case (OpUnname i)
  then show ?thesis using evolves_accounts [OF unname_evolves [OF assms(1)], of oper i] by simp
next
  case (OpRename i name declared)
  then show ?thesis using evolves_accounts [OF rename_evolves [OF assms(1)]] assms(2) by simp
next
  case (OpInsert cv ws idx activate)
  then show ?thesis using joins_accounts [OF insert_workspace_ok [OF assms(1)]] assms(2) by simp
next
  case (OpAppend wss)
  then show ?thesis using append_any_ok [OF assms(1)] assms(2) by simp
next
  case (OpReceive cv ws activate)
  then have "can_join [ws] m" using assms(2) by simp
  then have "returns (joins [ws] m) (receive_workspace cv ws activate m)"
    by (rule returns_mono [OF receive_workspace_ok [OF assms(1)]]) blast
  then show ?thesis using OpReceive joins_accounts by simp
next
  case (OpRelease named identity i)
  then show ?thesis using release_accounts [OF assms(1)] assms(2) by simp
next
  case (OpDndBegin cv)
  then show ?thesis
    using dnd_begin_evolves [OF assms(1)] assms(2) by (simp add: evolves_def accounts_def)
next
  case (OpDndScroll cv sv px py speed)
  then show ?thesis
    using dnd_scroll_evolves [OF assms(1)] by (simp add: evolves_def accounts_def)
next
  case OpDndEnd
  then show ?thesis using dnd_end_evolves [OF assms(1)] by (simp add: evolves_def accounts_def)
next
  case (OpContents idx ws)
  then show ?thesis using contents_accounts [OF assms(1)] assms(2) by simp
qed (simp_all add: evolves_accounts op_evolves [OF assms(1)])

section \<open>Reachable monitors\<close>

inductive monitor_reachable :: "monitor \<Rightarrow> bool" where
  start: "distinct (map ws_id wss) \<Longrightarrow> \<forall>ws\<in>set wss. ws_id ws < counter \<Longrightarrow>
    monitor_reachable (monitor_new counter output wss to_activate initial_name initial_number)"
| step: "monitor_reachable m \<Longrightarrow> op_ok oper m \<Longrightarrow> run_op oper m = Some m' \<Longrightarrow> monitor_reachable m'"

lemma foldl_pick_bound:
  assumes "acc < n" "\<forall>iw\<in>set iws. fst iw < n"
  shows "foldl (\<lambda>acc iw. if P iw then fst iw else acc) acc iws < n"
  using assms by (induction iws arbitrary: acc) auto

lemma monitor_new_ok:
  assumes "distinct (map ws_id wss)" "\<forall>ws\<in>set wss. ws_id ws < counter"
  shows "mon_ok (monitor_new counter output wss to_activate initial_name initial_number)"
proof -
  define kept where "kept = map (\<lambda>ws. ws\<lparr>ws_output := Some output\<rparr>) (filter must_be_kept wss)"
  have i: "map ws_id kept = map ws_id (filter must_be_kept wss)" by (simp add: kept_def)
  have d: "distinct (map ws_id kept)" unfolding i using assms(1) by (rule distinct_map_filter)
  have c: "\<forall>ws\<in>set kept. ws_id ws < counter" using assms(2) by (auto simp: kept_def)
  show ?thesis
  proof (cases "kept = []")
    case True
    then show ?thesis
      by (auto simp: monitor_new_def Let_def kept_def [symmetric] mon_ok_def ids_ok_def
          split: option.splits prod.splits)
  next
    case False
    have "foldl (\<lambda>acc iw. if to_activate = Some (ws_id (snd iw)) then fst iw else acc) 0 (enumerate 0 kept)
        < length kept"
      by (rule foldl_pick_bound) (use False in \<open>auto simp: in_set_enumerate_eq\<close>)
    then show ?thesis
      using False d c
      by (simp add: monitor_new_def Let_def kept_def [symmetric] mon_ok_def ids_ok_def)
  qed
qed

lemma monitor_reachable_ok: "monitor_reachable m \<Longrightarrow> mon_ok m"
proof (induction rule: monitor_reachable.induct)
  case (start wss counter)
  then show ?case by (rule monitor_new_ok)
next
  case (step m oper m')
  then show ?case using run_op_accounts [of m oper] by (simp add: accounts_def)
qed

section \<open>An example\<close>

definition still :: clock_view where
  "still = \<lparr>cv_render_idx = 0, cv_gesture_value = 0, cv_switch_done = True, cv_gesture_done = True, cv_now = 0\<rparr>"

definition demo_workspace :: "nat \<Rightarrow> int \<Rightarrow> nat list \<Rightarrow> float_entry list \<Rightarrow> workspace" where
  "demo_workspace i n tiled floating =
    (workspace_new i 0)\<lparr>ws_number := Some n, ws_tiling := tiled, ws_entries := floating\<rparr>"

definition demo_monitor :: monitor where
  "demo_monitor = monitor_new 10 0
     [demo_workspace 1 5 [100] [\<lparr>fe_window = 101, fe_sticky = True, fe_normal = True\<rparr>],
      demo_workspace 2 9 [200] []] (Some 1) None None"

lemma demo_reachable: "monitor_reachable demo_monitor"
  unfolding demo_monitor_def
  by (rule monitor_reachable.start) (simp_all add: demo_workspace_def)

section \<open>What the focus history and a switch in progress miss\<close>

text \<open>
  Appending workspaces, as when their output is unplugged, never enters them into the focus
  history, which the replies that describe the output list its workspaces from.
\<close>

lemma appended_missing_from_history:
  "returns (\<lambda>m'. 7 \<in> set (ws_ids m') \<and> 7 \<notin> set (workspace_focus_history m'))
    (append_workspaces [demo_workspace 7 3 [300] []] demo_monitor)"
  by code_simp

text \<open>A workspace that left and comes back inactive is then in the history twice.\<close>

lemma reattached_twice_in_history:
  assumes "mon_ok m" "can_join [ws] m" "ws_id ws \<in> set (workspace_focus_history m)"
  shows "returns (\<lambda>m'. \<not> distinct (workspace_focus_history m')) (attach_workspace cv ws idx0 False m)"
proof -
  define m1 where "m1 = (insert_attached (min idx0 (length (workspaces m)))
      (ws\<lparr>ws_output := Some (mon_output m)\<rparr>) m)\<lparr>workspace_switch := None\<rparr>"
  have "mon_settled m1"
    using insert_attached_ok [OF assms(1,2) _ m1_def] by (simp add: joins_def)
  moreover have "\<not> distinct (workspace_focus_history m1)"
    using assms(3) by (simp add: m1_def insert_attached_def Let_def)
  ultimately have "returns (\<lambda>m'. \<not> distinct (workspace_focus_history m')) (clean_up_workspaces m1)"
    by (intro returns_mono [OF clean_up.step_shrinks]) (simp_all add: shrunk_def)
  then show ?thesis by (simp add: attach_workspace_def m1_def Let_def)
qed

text \<open>
  Sorting moves the active workspace without retargeting a switch in progress: with workspaces 5
  and 9 and the switch to 5 still running, creating workspace 3 leaves 5 active at index 1 while the
  switch keeps aiming at index 0, which is now workspace 3.
\<close>

lemma sort_leaves_switch_behind:
  "returns (\<lambda>m'. active_id m' = 1 \<and> active_workspace_idx m' = 1
      \<and> map_option target_idx (workspace_switch m') = Some 0)
    (do { m1 \<leftarrow> switch_workspace still 1 demo_monitor;
          m2 \<leftarrow> switch_workspace still 0 m1;
          run_op (OpCreate None (Some 3)) m2 })"
  by code_simp

end
