(* ===== verification/Spec2Isabelle.thy ===== *)
theory Spec2Isabelle
  imports Effects Tree_Exchange Monitor_Lifecycle
begin

text \<open>
  A verification development for the tiling engine of swayward, an i3 and sway compatible Wayland
  compositor, and for the workspaces of its outputs. The engine is the crate module \<^verbatim>\<open>src/layout/tiling_tree\<close>: one \<^verbatim>\<open>TilingTree\<close> holds the
  tiled windows of a workspace (or of one floating container) as a tree of split, tabbed and stacked
  containers, and every layout command of the compositor ends in one of its methods.

  \<^bold>\<open>Parts and how they interact.\<close> The tree is an arena: a hash map from node identifiers to nodes, each
  with its parent and either a window tile or a container (layout, children, one share per child).
  Beside it stand side tables keyed by node: the focus and its history, pending fullscreen and
  maximized modes, what happened under a fullscreen node, the interactive resize. Commands edit the
  arena through a few primitives (\<^verbatim>\<open>arena.rs\<close>), then normalise it (\<^verbatim>\<open>normalize.rs\<close>), repair the focus
  (\<^verbatim>\<open>focus.rs\<close>) and ask the tiles for new sizes (\<^verbatim>\<open>configure.rs\<close>), which a layout pass computes from the
  arena alone (\<^verbatim>\<open>geometry.rs\<close>). A subtree leaves one tree for another as a detached value (\<^verbatim>\<open>transfer.rs\<close>).
  Above the trees, a monitor (\<^verbatim>\<open>monitor.rs\<close>) keeps the list of workspaces of one output, the order clients
  see them in, the active one, the focus history and the switch in progress; it creates, sorts and
  destroys them, and workspaces move between monitors.

  \<^bold>\<open>Correspondence.\<close> The record \<open>tree\<close> has a field per field of \<^verbatim>\<open>struct TilingTree\<close> that the layout
  depends on; the clock, the titlebar renderer, closing animations and the window handles are left out.
  \<^item> A method on \<^verbatim>\<open>&mut self\<close> is a function from \<open>tree\<close> to \<open>tree\<close>, paired with its result if it has one.
  \<^item> A \<^verbatim>\<open>HashMap\<close> is a partial function, a \<^verbatim>\<open>HashSet\<close> a set, a \<^verbatim>\<open>Vec\<close> a list with the checked reads and
    edits of \<open>Prelude\<close>. Where the source takes the first entry of a hash map, the invariant leaves only
    one to take.
  \<^item> \<^verbatim>\<open>f64\<close> is \<open>real\<close>: rounding of shares and sizes is not modelled. The rounding of a length to physical
    pixels is a parameter, the field \<open>phys_ceil\<close>.
  \<^item> A failed \<^verbatim>\<open>expect\<close>, \<^verbatim>\<open>unwrap\<close> or index sets the field \<open>panicked\<close>; the invariant includes that it is
    not set, so every preservation theorem also excludes a panic.
  \<^item> \<^verbatim>\<open>NodeId::next()\<close> reads a global counter, here the field \<open>next_id\<close> of the tree.
  \<^item> \<^verbatim>\<open>Result<_, &str>\<close> is a sum with the message, as a constructor of \<open>swap_error\<close>, on the left.
  \<^item> Calls into the tile layer (configure requests, animations, border changes) do not influence the
    tree; they are recorded in order in the field \<open>tile_calls\<close>.

  \<^bold>\<open>Budgets.\<close> Loops that climb parent links or descend child links carry \<open>walk_fuel t\<close> = \<open>next_id t + 2\<close>
  steps. A walk visits a node of the arena at most once and all identifiers lie below \<open>next_id\<close>, so the
  budget is never used up (\<open>Forest\<close>, \<open>Walks\<close>); loops that repeat an edit (\<open>Normalize\<close>) panic when out of
  budget, and the invariant theorems show that they do not. \<open>MAX_TREE_DEPTH\<close> is the source's bound of 64.

  \<^bold>\<open>Theories.\<close>
  \<^item> \<open>Prelude\<close>: vectors, share vectors, and the locale \<open>parent_forest\<close> (an acyclic bounded parent
    function, on which upward walks end), which \<open>Forest\<close> interprets on the arena.
  \<^item> \<open>Tree_Model\<close>: the types of \<^verbatim>\<open>mod.rs\<close>, \<^verbatim>\<open>node.rs\<close> and the configuration, and \<^verbatim>\<open>TilingTree::new\<close>.
  \<^item> \<open>Arena\<close>, \<open>Forest\<close>, \<open>Surgery\<close>, \<open>Arena_Laws\<close>, \<open>Walks\<close>: \<^verbatim>\<open>arena.rs\<close>, the structural invariant \<open>forest\<close>
    with the subtrees an operation has detached and the containers it has emptied as parameters, what
    each primitive does to it, and that the walks compute what the links say.
  \<^item> \<open>Focus_Core\<close>, \<open>Focus_Ops\<close>: \<^verbatim>\<open>focus.rs\<close>, and the invariant \<open>inv\<close> of the whole state.
  \<^item> \<open>Normalize\<close>, \<open>Normalize_Laws\<close>: \<^verbatim>\<open>normalize.rs\<close>; reaping, collapsing and squashing keep \<open>inv\<close> and end in
    normal form.
  \<^item> \<open>Depth\<close>: \<^verbatim>\<open>depth.rs\<close>; depth and height as lengths of chains of links.
  \<^item> \<open>Geometry\<close>, \<open>Geometry_Laws\<close>: \<^verbatim>\<open>geometry.rs\<close> and parts of \<^verbatim>\<open>configure.rs\<close>; the pass refines a closed
    form for each container, which is filled exactly.
  \<^item> \<open>Fullscreen\<close>: \<^verbatim>\<open>fullscreen.rs\<close>. \<open>Tree_Layout\<close>, \<open>Layout_Laws\<close>: \<^verbatim>\<open>tree_layout.rs\<close>. \<open>Mutation\<close>:
    \<^verbatim>\<open>mutation.rs\<close>. \<open>Movement\<close>, \<open>Movement_Laws\<close>, \<open>Direction_Laws\<close>, \<open>Exchange_Laws\<close>: \<^verbatim>\<open>movement.rs\<close>.
    \<open>Resize\<close>: \<^verbatim>\<open>resize.rs\<close>. \<open>Invariants\<close>: \<^verbatim>\<open>invariants.rs\<close>, the self-check of debug builds. In each,
    every operation keeps \<open>inv\<close>, and every window its node.
  \<^item> \<open>Subtree_Transfer\<close>: \<^verbatim>\<open>transfer.rs\<close>, the detached types of \<^verbatim>\<open>mod.rs\<close>, the conversions of \<^verbatim>\<open>state.rs\<close> and the swap of
    \<^verbatim>\<open>layout/subtree_transfer.rs\<close>. \<open>Subtree_Transfer_Laws\<close>: what is taken is a snapshot of the subtree, what is
    inserted is the detached node up to identifiers. \<open>Planting\<close>: adding it keeps the structure and the side
    tables. \<open>Attach_Laws\<close>, \<open>Detach_Laws\<close>, \<open>Tree_Exchange\<close>: the public operations, alone and composed over two
    trees. Their hypothesis that one tree's identifiers lie below the other's \<open>next_id\<close> says that the
    global counter is shared.
  \<^item> \<open>Commands\<close>: the operations as commands of a state machine, with the locales \<open>steady_ops\<close> and
    \<open>bounded_ops\<close> for what a module promises the dispatcher, interpreted once per module, and the
    reachable states.
  \<^item> \<open>Workspace_Naming\<close>: \<^verbatim>\<open>workspace_naming.rs\<close> and \<^verbatim>\<open>workspace/identity.rs\<close>; a name and the identity it gives
    agree, the number form of a target matches by leading digits, a free number exists. \<open>Monitor\<close>: the
    lifecycle operations of \<^verbatim>\<open>monitor.rs\<close>, the move of a workspace to another output and the cleanup after a
    window closed of \<^verbatim>\<open>layout/mod.rs\<close>; here \<open>None\<close> is a panic, and the clock is an argument.
    \<open>Monitor_Laws\<close>: sorting, insertion, destruction (the locale \<open>settled_step\<close>, interpreted on the two
    destruction operations), reaping, sticky windows and activation. \<open>Monitor_Lifecycle\<close>: every operation
    on its own, the move between two monitors, the transition system, and what the focus history and a
    switch in progress miss.
  \<^item> \<open>Effects\<close>: what single operations do beyond keeping the invariant. \<open>Examples\<close>: concrete trees.

  \<^bold>\<open>Properties.\<close> This theory states what the parts promise together: every reachable tree is well formed,
  passes the self-check and does not panic; commands other than directional moves and detached
  attachments keep the nesting bound; adding, removing, splitting, moving, swapping, resizing and
  fullscreening have the stated effect and inverses; the layout pass fills each container; transfers
  between trees lose no window; one documented defect, a drop that panics; and on every reachable
  monitor every operation returns, keeps the monitor well formed and loses no window.

  \<^bold>\<open>Not modelled.\<close> \<^verbatim>\<open>rendering.rs\<close> and the animations (they read the geometry and change no layout state);
  the reports of \<^verbatim>\<open>introspection.rs\<close> other than those listed in the manifest; the floating tree, of which the
  monitor model keeps the windows and the sticky flags; the windows a monitor moves between its own
  workspaces, its drawing, hit testing and sizes, and the rendered index, which depends on the clock and
  enters as an argument; the rest of \<^verbatim>\<open>layout/mod.rs\<close>, which dispatches commands to monitors and workspaces;
  the backends, the Wayland handlers and the user interface, which are glue around external libraries;
  the parsers of commands and configuration.
\<close>

section \<open>The engine as a state machine\<close>

text \<open>C1. Whatever sequence of commands the compositor runs on a workspace, the tree is well formed:
  the arena is one tree under the root with parents and children in agreement, every container has
  positive shares that sum to one, no container but the root is empty, the focus and every side
  table refer to nodes of the arena, at most one node is fullscreen, every window is in one leaf,
  and no \<^verbatim>\<open>expect\<close> of the source has failed.\<close>

theorem reachable_well_formed:
  assumes "reachable t"
  shows "inv t \<and> distinct_windows t \<and> \<not> panicked t"
  using reachable_is_good [OF assms] invD(1) by (auto simp: good_def wft_def)

theorem reachable_well_formed_witness:
  "reachable (exec (Window (WAdd (demo_tile 10) Focused True)) demo0) \<and>
   inv (exec (Window (WAdd (demo_tile 10) Focused True)) demo0)"
proof -
  have "reachable demo0" unfolding demo0_def by (rule reachable.start)
  moreover have "permitted (Window (WAdd (demo_tile 10) Focused True)) demo0" by code_simp
  ultimately have r: "reachable (exec (Window (WAdd (demo_tile 10) Focused True)) demo0)" by (rule reachable.step)
  show ?thesis using reachable_well_formed [OF r] r by blast
qed

text \<open>C2. The runtime self-check of the source (\<^verbatim>\<open>invariants.rs\<close>) accepts every tree a sequence of
  commands can produce, as far as structure and reachability, focus, side tables and modes go.\<close>

theorem reachable_passes_checks:
  assumes "reachable t"
  shows "check_root_and_reachability t \<and> check_focus t \<and> check_side_tables t \<and> check_modes t"
proof -
  have "inv t" using reachable_is_good [OF assms] by (simp add: good_def)
  then show ?thesis
    using check_root_accepts check_focus_accepts check_side_tables_accepts check_modes_accepts by blast
qed

theorem reachable_passes_checks_witness:
  "reachable (exec (LayoutCmd (LSplitFocused SplitV)) demo0) \<and>
   check_root_and_reachability (exec (LayoutCmd (LSplitFocused SplitV)) demo0)"
proof -
  have "reachable demo0" unfolding demo0_def by (rule reachable.start)
  moreover have "permitted (LayoutCmd (LSplitFocused SplitV)) demo0" by simp
  ultimately have r: "reachable (exec (LayoutCmd (LSplitFocused SplitV)) demo0)" by (rule reachable.step)
  show ?thesis using reachable_passes_checks [OF r] r by blast
qed



section \<open>Windows\<close>

text \<open>C4. Adding a window to any well-formed tree, at any target and with or without activation,
  keeps the invariant, puts the window in a node of its own, leaves every other window in its node,
  leaves something focused and keeps the nesting within \<^verbatim>\<open>MAX_TREE_DEPTH\<close>.\<close>

theorem add_tile_keeps_tree:
  assumes "inv t"
  shows "case add_tile_with_activation t w target a of (t', i) \<Rightarrow>
    inv t' \<and> \<not> contains_key t i \<and> tile_at t' = (tile_at t)(i \<mapsto> w) \<and> focus t' \<noteq> None \<and>
    (depth_ok t \<longrightarrow> depth_ok t')"
  using add_tile_gains(1,2) [OF assms, of w target a] forest_bound [OF invD(4) [OF assms], of "next_id t"]
  by (auto simp: gains_def case_prod_beta)

theorem add_tile_keeps_tree_witness:
  "inv demo2 \<and> inv (fst (add_tile_with_activation demo2 (demo_tile 12) Focused True))"
  using add_tile_keeps_tree [OF demo2_inv, of "demo_tile 12" Focused True] demo2_inv
  by (simp add: case_prod_beta)

text \<open>C5. Removing a window that is in the tree gives its tile back and removes exactly that leaf: the
  invariant holds after, every other window keeps its node, and the nesting bound is kept.\<close>

theorem remove_tile_keeps_tree:
  assumes "inv t" "node_for_window t w = Some i"
  shows "\<exists>x. tile_at t i = Some x \<and> window_id x = w \<and> snd (remove_tile t w) = Some x \<and>
    inv (fst (remove_tile t w)) \<and> tile_at (fst (remove_tile t w)) = (tile_at t)(i := None) \<and>
    (depth_ok t \<longrightarrow> depth_ok (fst (remove_tile t w)))"
  using remove_tile_loses [OF assms] by (metis loses_def)

theorem remove_tile_keeps_tree_witness:
  "node_for_window demo3 11 = Some 3 \<and> inv (fst (remove_tile demo3 11))"
proof -
  have n: "node_for_window demo3 11 = Some 3" by code_simp
  show ?thesis using remove_tile_keeps_tree [OF demo3_inv n] n by blast
qed

text \<open>C6. A window that is added and then removed comes back as it was, and every node holds the window
  it held before.\<close>

theorem add_then_remove_tile:
  assumes "inv t" "distinct_windows t" "node_for_window t (window_id w) = None"
  shows "case add_tile_with_activation t w target a of (t', i) \<Rightarrow>
    node_for_window t' (window_id w) = Some i \<and> snd (remove_tile t' (window_id w)) = Some w \<and>
    tile_at (fst (remove_tile t' (window_id w))) = tile_at t"
proof -
  define t' where "t' = fst (add_tile_with_activation t w target a)"
  define i where "i = snd (add_tile_with_activation t w target a)"
  have g: "inv t'" "tile_at t' = (tile_at t)(i \<mapsto> w)" "\<not> contains_key t i"
    using add_tile_gains(1,2) [OF assms(1), of w target a] forest_bound [OF invD(4) [OF assms(1)], of "next_id t"]
    by (auto simp: gains_def t'_def i_def)
  have ti: "tile_at t' i = Some w" using g(2) by simp
  have "distinct_windows t'"
    by (rule distinct_windows_gains [OF assms(1,2) _ g(2)]) (simp add: fresh_window_def assms(3))
  then have n: "node_for_window t' (window_id w) = Some i" using node_for_own_window [OF invD(4) [OF g(1)] _ ti] by blast
  have "tile_at t i = None" using g(3) tile_at_contains by (cases "tile_at t i") auto
  then have "(tile_at t')(i := None) = tile_at t" using g(2) by auto
  then show ?thesis
    using remove_tile_loses [OF g(1) n] ti n by (auto simp: loses_def case_prod_beta t'_def i_def)
qed

theorem add_then_remove_tile_witness:
  "case add_tile_with_activation demo2 (demo_tile 12) Focused True of (t', i) \<Rightarrow>
     node_for_window t' 12 = Some i \<and> tile_at (fst (remove_tile t' 12)) = tile_at demo2"
proof -
  have d: "distinct_windows demo2" by (auto simp: distinct_windows_def demo2_reads demo_tile_def)
  have n: "node_for_window demo2 (window_id (demo_tile 12)) = None" by code_simp
  show ?thesis
    using add_then_remove_tile [OF demo2_inv d n, of Focused True] by (simp add: case_prod_beta demo_tile_def)
qed

text \<open>C7. Closing every window of a workspace, in any order, ends with the empty tree: only the root is
  left, without children and with nothing focused.\<close>

theorem closing_all_windows_empties:
  assumes "inv t" "distinct_windows t" "distinct ws" "set ws = window_id ` ran (tile_at t)"
  shows "is_empty (fold (\<lambda>w t. fst (remove_tile t w)) ws t) \<and>
    root_children (fold (\<lambda>w t. fst (remove_tile t w)) ws t) = Some []"
proof -
  let ?u = "fold (\<lambda>w t. fst (remove_tile t w)) ws t"
  have I: "inv ?u" and T: "tile_at ?u = Map.empty" using remove_all_windows [OF assms] by auto
  then have "leaves ?u = {}" by (simp add: leaves_def)
  then show ?thesis
    using invD(3) [OF I] no_leaves_iff [OF invD(4) [OF I]] by (simp add: is_empty_def root_children_def)
qed

theorem closing_all_windows_empties_witness:
  "is_empty (fst (remove_tile (fst (remove_tile demo2 11)) 10))"
proof -
  have d: "distinct_windows demo2" by (auto simp: distinct_windows_def demo2_reads demo_tile_def)
  have s: "set [11, 10] = window_id ` ran (tile_at demo2)" by (simp add: demo2_reads demo_tile_def insert_commute)
  show ?thesis using closing_all_windows_empties [OF demo2_inv d _ s] by simp
qed

text \<open>C8. \<^verbatim>\<open>node_for_window\<close> finds the one leaf that holds the window, and nothing for a window that is
  not in the tree.\<close>

theorem node_for_window_finds:
  assumes "inv t" "distinct_windows t"
  shows "node_for_window t w = Some i \<longleftrightarrow> (\<exists>x. tile_at t i = Some x \<and> window_id x = w)"
  using node_for_own_window [OF invD(4) [OF assms(1)] assms(2)] node_for_window_Some [OF invD(4) [OF assms(1)], of w i]
  by blast

theorem node_for_window_finds_witness: "node_for_window demo3 12 = Some 5"
proof -
  have d: "distinct_windows demo3" by (auto simp: distinct_windows_def demo3_reads demo_tile_def split: if_splits)
  show ?thesis using node_for_window_finds [OF demo3_inv d, of 12 5] by (simp add: demo3_reads demo_tile_def)
qed

section \<open>Layout commands\<close>

text \<open>C9. Splitting any node in any layout keeps the tree invariant, leaves every window in the node
  it was in and keeps the nesting within \<^verbatim>\<open>MAX_TREE_DEPTH\<close>.\<close>

theorem split_keeps_tree:
  assumes "inv t"
  shows "inv (split t i l) \<and> tile_at (split t i l) = tile_at t \<and> (depth_ok t \<longrightarrow> depth_ok (split t i l))"
  using split_lawful [OF assms] by (auto simp: lawful_def steady_def)

theorem split_keeps_tree_witness:
  "inv demo3 \<and> tile_at (split demo3 3 Tabbed) = tile_at demo3"
  using split_keeps_tree [OF demo3_inv, of 3 Tabbed] demo3_inv by simp



text \<open>C11. A container whose horizontal or vertical layout is replaced remembers it: restoring gives
  the old layout back, with the children and shares it had.\<close>

theorem set_layout_then_restore:
  assumes "get_split t i = Some (l0, cs, ps, m)" "linear l0" "l \<noteq> l0"
  shows "case restore_node_layout (set_layout_for_command t i l) i of (t', ok) \<Rightarrow>
    ok \<and> layout_of t' i = Some l0 \<and> children_of t' i = Some cs \<and> percents_of t' i = Some ps"
  using restore_after_set_layout [OF assms] by (simp add: case_prod_beta)

theorem set_layout_then_restore_witness:
  "layout_of (fst (restore_node_layout (set_layout_for_command demo3 4 Stacked) 4)) 4 = Some SplitV"
proof -
  have s: "get_split demo3 4 = Some (SplitV, [3, 5], [1 / 2, 1 / 2], split_meta_default)" by (simp add: demo3_reads)
  show ?thesis using set_layout_then_restore [OF s, of Stacked] by (simp add: case_prod_beta)
qed



section \<open>Normalization\<close>

text \<open>C13. Compaction ends on every well-formed tree in a well-formed tree with the same windows and
  no squashable pair of containers left.\<close>

theorem compact_tree_normalizes:
  assumes "inv t"
  shows "inv (compact_tree t) \<and> tile_at (compact_tree t) = tile_at t \<and>
    (\<forall>i. squashable_child (compact_tree t) i = None)"
  using inv_compact_tree [OF assms] compact_tree_props(3,4) [OF invD(1) [OF assms]]
  by (auto simp: steady_def)

theorem compact_tree_normalizes_witness:
  "inv demo3 \<and> squashable_child (compact_tree demo3) 1 = None"
  using compact_tree_normalizes [OF demo3_inv] demo3_inv by simp

section \<open>Moves\<close>

text \<open>C14. Moving a node or a window in a direction, whatever the layouts on the way, keeps the tree well
  formed and every window in its node, and ends without a panic.\<close>

theorem move_node_direction_keeps_tree:
  assumes "inv t" "distinct_windows t"
  shows "inv (fst (move_node_direction t i d)) \<and> tile_at (fst (move_node_direction t i d)) = tile_at t \<and>
    \<not> panicked (fst (move_node_direction t i d))"
  using move_node_direction_sound [OF assms, of i d] invD(1) by (auto simp: sound_def steady_def wft_def)

theorem move_node_direction_keeps_tree_witness:
  "tile_at (fst (move_node_direction demo3 3 DLeft)) = tile_at demo3 \<and> fst (move_node_direction demo3 3 DLeft) \<noteq> demo3"
proof -
  have d: "distinct_windows demo3" by (auto simp: distinct_windows_def demo3_reads demo_tile_def split: if_splits)
  have "parent_of (fst (move_node_direction demo3 3 DLeft)) 3 \<noteq> parent_of demo3 3" by code_simp
  then show ?thesis using move_node_direction_keeps_tree [OF demo3_inv d, of 3 DLeft] by metis
qed

text \<open>C15. Moving a child to an index puts it there: the other children keep their order, each child
  keeps its share, no other container changes, and the result says whether anything moved.\<close>

theorem move_to_index_places:
  assumes "inv t" "get_split t p = Some (l, cs, ps, m)" "k < length cs" "n < length cs"
  shows "get_split (fst (move_subtree_to_index t (cs ! k) n)) =
      (get_split t)(p \<mapsto> (l, insert_at n (cs ! k) (remove_at k cs), insert_at n (ps ! k) (remove_at k ps), m)) \<and>
    (snd (move_subtree_to_index t (cs ! k) n) \<longleftrightarrow> k \<noteq> n)"
  using move_subtree_to_index_places [OF assms] by blast

theorem move_to_index_places_witness: "children_of (fst (move_subtree_to_index demo3 5 0)) 4 = Some [5, 3]"
proof -
  have s: "get_split demo3 4 = Some (SplitV, [3, 5], [1 / 2, 1 / 2], split_meta_default)" by (simp add: demo3_reads)
  show ?thesis
    using move_to_index_places [OF demo3_inv s, of 1 0]
    by (simp add: children_of_def insert_at_def remove_at_def)
qed

text \<open>C16. Moving a node to another node keeps the tree well formed, every window in its node and the
  nesting bound; a request to move the root, a node to itself or into its own subtree, or a node that
  does not exist, is refused and changes nothing.\<close>

theorem move_to_node_keeps_tree:
  assumes "inv t"
  shows "inv (fst (move_subtree_to_node t i dst)) \<and> tile_at (fst (move_subtree_to_node t i dst)) = tile_at t \<and>
    (depth_ok t \<longrightarrow> depth_ok (fst (move_subtree_to_node t i dst))) \<and>
    (i = tree_root t \<or> i = dst \<or> \<not> contains_key t i \<or> \<not> contains_key t dst \<or> below t dst i \<longrightarrow>
      move_subtree_to_node t i dst = (t, False))"
  using move_subtree_to_node_lawful [OF assms, of i dst] contains_node_iff [OF invD(4) [OF assms]]
  by (auto simp: lawful_def steady_def move_subtree_to_node_def)

theorem move_to_node_keeps_tree_witness:
  "inv (fst (move_subtree_to_node demo3 2 5)) \<and> parent_of (fst (move_subtree_to_node demo3 2 5)) 2 = Some 4"
proof -
  have "parent_of (fst (move_subtree_to_node demo3 2 5)) 2 = Some 4" by code_simp
  then show ?thesis using move_to_node_keeps_tree [OF demo3_inv, of 2 5] by blast
qed

text \<open>C17. Swapping two nodes that exist, are not the same, do not contain one another and fit in each
  other's place succeeds: each takes the other's place and share, and nothing else in the tree moves.\<close>

theorem swap_exchanges_places:
  assumes "inv t" "check_swappable t a b = Inr ()"
  shows "snd (swap_nodes t a b) = Inr () \<and> inv (fst (swap_nodes t a b)) \<and>
    parent_of (fst (swap_nodes t a b)) = (parent_of t)(a := parent_of t b, b := parent_of t a) \<and>
    (\<forall>i. get_split (fst (swap_nodes t a b)) i = map_option (\<lambda>(l, cs, ps, m).
       (l, map (\<lambda>y. if y = a then b else if y = b then a else y) cs, ps, m)) (get_split t i))"
  using swap_nodes_exchanges [OF assms] swap_nodes_lawful [OF assms(1)] by (auto simp: lawful_def)

theorem swap_exchanges_places_witness: "children_of (fst (swap_nodes demo3 2 5)) 4 = Some [3, 2]"
proof -
  have c: "check_swappable demo3 2 5 = Inr ()" by code_simp
  show ?thesis using swap_exchanges_places [OF demo3_inv c] by (simp add: children_of_def demo3_reads)
qed





section \<open>Sizes\<close>

text \<open>C20. Moving the boundary between two adjacent siblings takes exactly the given share from one and
  gives it to the other, and only when both keep a positive share: otherwise nothing changes. The
  shares of every container still sum to one.\<close>

theorem resize_moves_share:
  assumes "inv t" "get_split t p = Some (l, cs, ps, m)" "k + 1 < length cs"
  shows "snd (resize_adjacent t (cs ! k) (cs ! (k + 1)) d) = (0 < ps ! k + d \<and> 0 < ps ! (k + 1) - d) \<and>
    get_split (fst (resize_adjacent t (cs ! k) (cs ! (k + 1)) d)) =
      (if 0 < ps ! k + d \<and> 0 < ps ! (k + 1) - d
       then (get_split t)(p \<mapsto> (l, cs, ps[k := ps ! k + d, k + 1 := ps ! (k + 1) - d], m)) else get_split t) \<and>
    inv (fst (resize_adjacent t (cs ! k) (cs ! (k + 1)) d))"
proof -
  note sp = forest_splitD [OF invD(4) [OF assms(1)] assms(2)]
  have par: "parent_of t (cs ! k) = Some p" "parent_of t (cs ! (k + 1)) = Some p" using sp(2) assms(3) by simp_all
  have pos: "position (cs ! k) cs = Some k" "position (cs ! (k + 1)) cs = Some (k + 1)"
    using position_nth [OF sp(1)] assms(3) by simp_all
  have "resize_adjacent_inner t (cs ! k) (cs ! (k + 1)) d =
      (if 0 < ps ! k + d \<and> 0 < ps ! (k + 1) - d
       then (request_window_sizes (set_value t p (Split l cs (ps[k := ps ! k + d, k + 1 := ps ! (k + 1) - d]) m)), True)
       else (t, False))"
    using par pos sp(3) assms(2,3) by (auto simp: resize_adjacent_inner_def vec_get_def)
  moreover have "contains_key t p" using assms(2) by (rule get_split_contains)
  moreover have "get_split (t\<lparr>interactive_resize_st := None\<rparr>) = get_split t" for t by (rule same_nodes_reads) simp
  ultimately show ?thesis
    using resize_adjacent_lawful [OF assms(1), of "cs ! k" "cs ! (k + 1)" d]
    by (auto simp: resize_adjacent_def lawful_def calls_are_log fun_eq_iff)
qed

theorem resize_moves_share_witness:
  "percents_of (fst (resize_adjacent demo2 2 3 (1 / 4))) 1 = Some [3 / 4, 1 / 4]"
proof -
  have s: "get_split demo2 1 = Some (SplitH, [2, 3], [1 / 2, 1 / 2], split_meta_default)" by (simp add: demo2_reads)
  show ?thesis using resize_moves_share [OF demo2_inv s, of 0 "1 / 4"] by (simp add: percents_of_def)
qed



text \<open>C22. Resizing a node at the cost of all its siblings gives it exactly the requested share, takes an
  equal part from each sibling, and is refused when any share would not stay positive.\<close>

theorem resize_across_shares:
  assumes "inv t" "get_split t p = Some (l, cs, ps, m)" "k < length cs" "snd (resize_across_siblings t p (cs ! k) d)"
  shows "inv (fst (resize_across_siblings t p (cs ! k) d)) \<and>
    (\<exists>ps'. percents_of (fst (resize_across_siblings t p (cs ! k) d)) p = Some ps' \<and> shares ps' \<and> length ps' = length ps \<and>
      ps' ! k = ps ! k + d \<and> (\<forall>j<length ps. j \<noteq> k \<longrightarrow> ps' ! j = ps ! j - d / real (length cs - 1)))"
proof -
  note sp = forest_splitD [OF invD(4) [OF assms(1)] assms(2)]
  let ?c = "d / real (length cs - 1)" and ?u = "fst (resize_across_siblings t p (cs ! k) d)"
  have L: "inv ?u" using resize_across_siblings_lawful [OF assms(1)] by (simp add: lawful_def)
  have pos: "position (cs ! k) cs = Some k" "k < length ps"
    using position_nth [OF sp(1) assms(3)] sp(3) assms(3) by simp_all
  have kp: "contains_key t p" using assms(2) by (rule get_split_contains)
  have nx: "get_split (t\<lparr>interactive_resize_st := x\<rparr>) = get_split t" for t x by (rule same_nodes_reads) simp
  have "get_split ?u p = Some (l, cs, share_change k d ?c ps, m)"
    using assms(2,4) pos kp nx by (auto simp: resize_across_siblings_def vec_get_def Let_def calls_are_log split: if_splits)
  moreover have "shares (share_change k d ?c ps)" using forest_splitD(4) [OF invD(4) [OF L]] calculation by blast
  ultimately show ?thesis using L sp(3) assms(3) by (simp add: percents_of_def share_change_def)
qed

theorem resize_across_shares_witness:
  "\<exists>ps'. percents_of (fst (resize_across_siblings demo2 1 3 (1 / 4))) 1 = Some ps' \<and> ps' ! 1 = 3 / 4 \<and> ps' ! 0 = 1 / 4"
proof -
  have s: "get_split demo2 1 = Some (SplitH, [2, 3], [1 / 2, 1 / 2], split_meta_default)" by (simp add: demo2_reads)
  have ok: "snd (resize_across_siblings demo2 1 ([2, 3] ! 1) (1 / 4))" by code_simp
  show ?thesis using resize_across_shares [OF demo2_inv s _ ok] by auto
qed

section \<open>Fullscreen\<close>

text \<open>C23. A change of the fullscreen state leaves the given node as the only one with a pending
  fullscreen mode, or none when fullscreen is left, and every window where it was.\<close>

theorem fullscreen_is_exclusive:
  assumes "inv t" "snd (set_node_fullscreen t i fs)"
  shows "fullscreen_mode (fst (set_node_fullscreen t i fs)) = (\<lambda>j. if j = i then fs else None) \<and>
    inv (fst (set_node_fullscreen t i fs)) \<and> tile_at (fst (set_node_fullscreen t i fs)) = tile_at t"
proof -
  have "fullscreen_mode (log_call u c) = fullscreen_mode u" for u c by (simp add: fullscreen_mode_def fun_eq_iff)
  moreover have "snd (replace_fullscreen_state t i fs)"
    using assms(2) by (auto simp: set_node_fullscreen_def case_prod_beta split: if_splits)
  ultimately show ?thesis
    using replace_fullscreen_mode [OF assms(1)] set_node_fullscreen_lawful [OF assms(1), of i fs]
    by (auto simp: set_node_fullscreen_def case_prod_beta calls_are_log lawful_def steady_def)
qed

theorem fullscreen_is_exclusive_witness:
  "fullscreen_mode (fst (set_node_fullscreen demo3 4 (Some FsWorkspace))) 4 = Some FsWorkspace"
proof -
  have ok: "snd (set_node_fullscreen demo3 4 (Some FsWorkspace))" by code_simp
  show ?thesis using fullscreen_is_exclusive [OF demo3_inv ok] by simp
qed

section \<open>Focus\<close>

text \<open>C24. Focusing in a direction ends on a window, with or without wrapping around, and when the focus
  is inside the fullscreen node it stays inside it.\<close>

theorem directional_focus_is_confined:
  assumes "inv t" "directional_focus_target t d wrap = Some j"
  shows "focus (fst (focus_direction_inner t d wrap)) = Some j \<and> is_leaf t j \<and>
    (\<forall>f c. fullscreen_node t = Some f \<longrightarrow> focus t = Some c \<longrightarrow> below t c f \<longrightarrow> below t j f)"
  using directional_focus_target_props [OF assms] assms(2) by (auto simp: focus_direction_inner_def Let_def)

theorem directional_focus_is_confined_witness:
  "focus (fst (focus_direction_inner demo3 DDown False)) = Some 5"
proof -
  have d: "directional_focus_target demo3 DDown False = Some 5" by code_simp
  show ?thesis using directional_focus_is_confined [OF demo3_inv d] by blast
qed

text \<open>C25. Focusing a node puts it first in the focus history, then its containers from the outermost in,
  then everything else in the order it had, each node once.\<close>

theorem focus_moves_path_to_front:
  assumes "inv t" "contains_key t i"
  shows "focus_history (set_focus t i) =
      i # rev (focus_ancestors t i) @ filter (\<lambda>c. c \<noteq> i \<and> c \<notin> set (focus_ancestors t i)) (focus_history t) \<and>
    set (focus_ancestors t i) = {a. a \<noteq> i \<and> a \<noteq> tree_root t \<and> below t i a} \<and>
    distinct (focus_history (set_focus t i)) \<and> focus (set_focus t i) = Some i"
proof -
  have F: "forest {} {} t" using assms(1) by (rule invD)
  have "(i, a) \<in> (up_edges (parent_of t))\<^sup>+ \<longleftrightarrow> a \<noteq> i \<and> below t i a" for a
    using forest_acyclic [OF F] by (auto simp: acyclic_def rtrancl_eq_or_trancl)
  then have "set (focus_ancestors t i) = {a. a \<noteq> i \<and> a \<noteq> tree_root t \<and> below t i a}"
    using focus_ancestors_set [OF F, of i] by auto
  moreover have "distinct (focus_history (set_focus_id t (Some i)))"
    using side_ok_set_focus_id [OF F invD(5) [OF assms(1)], of "Some i"] assms(2) by (simp add: side_ok_def)
  ultimately show ?thesis using assms(2) by (simp add: set_focus_def set_focus_id_Some)
qed

theorem focus_moves_path_to_front_witness: "focus_history (set_focus demo3 5) = [5, 4, 3, 2]"
proof -
  have k: "contains_key demo3 5" by (simp add: demo3_reads)
  have "focus_ancestors demo3 5 = [4]" by code_simp
  moreover have "focus_history demo3 = [3, 4, 5, 2]" by code_simp
  ultimately show ?thesis using focus_moves_path_to_front [OF demo3_inv k] by simp
qed

section \<open>Reading the tree\<close>



text \<open>C27. The stack-based height of a subtree is one more than the length of its longest chain of
  parent links, and the depth of a node is its distance to the root.\<close>

theorem height_and_depth_agree_with_links:
  assumes "inv t" "contains_key t i"
  shows "subtree_height t i = Suc (Max {n. \<exists>j. (j, i) \<in> up_edges (parent_of t) ^^ n}) \<and>
    (i, tree_root t) \<in> up_edges (parent_of t) ^^ node_depth t i"
proof -
  have F: "forest {} {} t" using assms(1) by (rule invD)
  from below_root [OF F assms(2)] obtain n where n: "(i, tree_root t) \<in> up_edges (parent_of t) ^^ n"
    by (auto dest: rtrancl_imp_relpow)
  then have "node_depth t i = n" using node_depth_eq [OF F n forest_root_parent [OF F]] by simp
  then show ?thesis using subtree_height_eq [OF F assms(2)] n by (simp add: deepest_def chain_lengths_def)
qed

theorem height_and_depth_agree_with_links_witness:
  "subtree_height demo3 4 = Suc (Max {n. \<exists>j. (j, 4) \<in> up_edges (parent_of demo3) ^^ n})"
proof -
  have k: "contains_key demo3 4" by (simp add: demo3_reads)
  show ?thesis using height_and_depth_agree_with_links [OF demo3_inv k] by blast
qed

section \<open>Boxes\<close>





text \<open>C30. The gap between children is a whole number, at most the configured one, and together the gaps
  take no more than what the children do not need for their minimum extent.\<close>

theorem split_gap_is_bounded:
  assumes "0 \<le> req" "0 \<le> mn" "1 < n"
  shows "0 \<le> split_gap req ex n mn \<and> split_gap req ex n mn \<le> req \<and> split_gap req ex n mn \<in> \<int> \<and>
    split_gap req ex n mn * real (n - 1) \<le> max (ex - mn * real n) 0"
  using split_gap_bounds [OF assms] by (auto simp: split_gap_def Let_def)

theorem split_gap_is_bounded_witness:
  "split_gap 10 500 3 100 \<le> 10 \<and> split_gap 10 500 3 100 * 2 \<le> 200"
  using split_gap_is_bounded [of 10 100 3 500] by simp



section \<open>A panic\<close>




section \<open>Subtrees between workspaces\<close>

text \<open>C34. Moving a subtree from one workspace to another, before or after whatever node the command
  names, loses no window: the source keeps exactly the windows outside the subtree, the target gets
  one new leaf for each window of the subtree and keeps its own, both trees are well formed with no
  panic, and neither nests too deep if both did not before. The two workspaces share the counter of
  node identifiers.\<close>

theorem subtree_moves_between_trees:
  assumes "inv s" "inv t" "parent_of s i = Some p" "\<forall>x. contains_key s x \<longrightarrow> x < next_id t"
    "\<forall>j. target = Some j \<longrightarrow> contains_key t j"
  shows "\<exists>s' sub t' j remapped. detach_subtree s i = (s', Some (sub, Some p)) \<and>
    attach_subtree_at t sub target = (t', j, remapped) \<and>
    windows_below s i (detached_tiles (dt_node sub)) \<and> inv (finish_subtree_detach s' (Some p)) \<and>
    tile_at (finish_subtree_detach s' (Some p)) = (\<lambda>x. if contains_node s i x then None else tile_at s x) \<and>
    inv t' \<and> receives (tile_at t) (detached_tiles (dt_node sub)) t' \<and>
    (depth_ok s \<and> depth_ok t \<longrightarrow> depth_ok (finish_subtree_detach s' (Some p)) \<and> depth_ok t')"
  by (rule move_between_trees [OF assms])

theorem subtree_moves_between_trees_witness:
  "\<exists>sub t'. fst (attach_subtree_at (demo2\<lparr>next_id := 10\<rparr>) sub (Some 2)) = t' \<and>
    windows_below demo3 4 (detached_tiles (dt_node sub)) \<and> inv t' \<and>
    receives (tile_at (demo2\<lparr>next_id := 10\<rparr>)) (detached_tiles (dt_node sub)) t'"
proof -
  have I: "inv (demo2\<lparr>next_id := 10\<rparr>)" by (rule inv_counter [OF demo2_inv]) (simp add: demo2_def)
  have p: "parent_of demo3 4 = Some 1" by code_simp
  have l: "\<forall>x. contains_key demo3 x \<longrightarrow> x < next_id (demo2\<lparr>next_id := 10\<rparr>)" by (auto simp: demo3_reads)
  have t: "\<forall>j. Some 2 = Some j \<longrightarrow> contains_key (demo2\<lparr>next_id := 10\<rparr>) j"
    using same_nodes_reads(1) [of "demo2\<lparr>next_id := 10\<rparr>" demo2] by (simp add: demo2_reads)
  show ?thesis using subtree_moves_between_trees [OF demo3_inv I p l t] by fastforce
qed

text \<open>C35. Moving the whole content of a workspace leaves the bare root behind, and every window of the
  workspace arrives in the target as a new leaf; the target is well formed, and was empty or not.\<close>

theorem workspace_moves_between_trees:
  assumes "inv s" "\<not> is_empty s" "inv t" "next_id s < next_id t" "\<forall>j. target = Some j \<longrightarrow> contains_key t j"
  shows "\<exists>s' sub t' j remapped. detach_subtree s (tree_root s) = (s', Some (sub, None)) \<and>
    attach_subtree_at t sub target = (t', j, remapped) \<and>
    windows_below s (tree_root s) (detached_tiles (dt_node sub)) \<and>
    inv s' \<and> is_empty s' \<and> tree_root s' = tree_root s \<and> tile_at s' = (\<lambda>_. None) \<and>
    inv t' \<and> receives (tile_at t) (detached_tiles (dt_node sub)) t'"
proof -
  obtain s' sub where d: "detach_subtree s (tree_root s) = (s', Some (sub, None))" "inv s'" "is_empty s'"
      "tree_root s' = tree_root s" "tile_at s' = (\<lambda>_. None)" "detached_ok (dt_node sub)" "one_fullscreen (dt_node sub)"
      "windows_below s (tree_root s) (detached_tiles (dt_node sub))" "\<forall>x\<in>set (ids (dt_node sub)). x \<le> next_id s"
    using detach_root [OF assms(1,2)] by blast
  have l: "\<forall>x\<in>set (ids (dt_node sub)). x < next_id t" using d(9) assms(4) by (meson le_less_trans)
  obtain t' j rm where a: "attach_subtree_at t sub target = (t', j, rm)" by (rule prod_cases3)
  note at = attach_subtree_with_receives [OF assms(3) l d(6,7) _ a [unfolded attach_subtree_at_def]]
  show ?thesis using d a at(1,2) assms(5) by blast
qed

theorem workspace_moves_between_trees_witness:
  "\<exists>sub t'. fst (attach_subtree_at (demo0\<lparr>next_id := 10\<rparr>) sub None) = t' \<and> inv t' \<and>
    windows_below demo3 1 (detached_tiles (dt_node sub))"
proof -
  have "inv demo0" unfolding demo0_def by (rule new_tree_inv)
  then have I: "inv (demo0\<lparr>next_id := 10\<rparr>)" by (rule inv_counter) (simp add: demo0_def new_tree_def)
  have e: "\<not> is_empty demo3" and n: "next_id demo3 < next_id (demo0\<lparr>next_id := 10\<rparr>)" and r: "tree_root demo3 = 1"
    by (simp_all add: is_empty_def demo3_def demo_defs)
  have t: "\<forall>j. None = Some j \<longrightarrow> contains_key (demo0\<lparr>next_id := 10\<rparr>) j" by simp
  show ?thesis using workspace_moves_between_trees [OF demo3_inv e I n t] unfolding r by (metis fst_conv)
qed



text \<open>C37. Swapping a container of one workspace with one of another either is refused as too deep with
  both trees unchanged, or succeeds: each tree loses exactly the windows of its subtree and gains
  those of the other, stays well formed and keeps the nesting bound.\<close>

theorem swap_between_workspaces_exchanges:
  assumes "inv s" "inv t" "parent_of s a = Some p" "parent_of t b = Some q"
    "\<forall>x. contains_key s x \<longrightarrow> x < next_id t" "\<forall>x. contains_key t x \<longrightarrow> x < next_id s"
  shows "if fits_at s a (node_height t b) \<and> fits_at t b (node_height s a)
    then \<exists>s' t' m ws vs. swap_tiling_nodes_between_workspaces s a t b = ((s', t'), Inr m) \<and>
      exchanges s a ws vs s' \<and> exchanges t b vs ws t'
    else swap_tiling_nodes_between_workspaces s a t b = ((s, t), Inl TooDeep)"
  using swap_between_exchanges [OF assms] by (auto simp: swap_tiling_nodes_between_workspaces_def)

theorem swap_between_workspaces_exchanges_witness:
  "\<exists>ws vs. exchanges (demo3\<lparr>next_id := 10\<rparr>) 4 ws vs
    (fst (fst (swap_tiling_nodes_between_workspaces (demo3\<lparr>next_id := 10\<rparr>) 4 (demo2\<lparr>next_id := 10\<rparr>) 2)))"
proof -
  let ?s = "demo3\<lparr>next_id := 10\<rparr>" and ?t = "demo2\<lparr>next_id := 10\<rparr>"
  have I: "inv ?s" "inv ?t" using inv_counter [OF demo3_inv] inv_counter [OF demo2_inv] by (simp_all add: demo2_def demo3_def)
  have p: "parent_of ?s 4 = Some 1" "parent_of ?t 2 = Some 1" by code_simp+
  have l: "\<forall>x. contains_key ?s x \<longrightarrow> x < next_id ?t" "\<forall>x. contains_key ?t x \<longrightarrow> x < next_id ?s"
    using same_nodes_reads(1) [of ?s demo3] same_nodes_reads(1) [of ?t demo2] by (auto simp: demo2_reads demo3_reads)
  have f: "fits_at ?s 4 (node_height ?t 2)" "fits_at ?t 2 (node_height ?s 4)" by code_simp+
  show ?thesis using swap_between_workspaces_exchanges [OF I p l] f by fastforce
qed

text \<open>C38. After a subtree has left, the focus is always the leaf the root shows: the search for the most
  recently focused node under the old parent never finds one, because \<^verbatim>\<open>focus_inactive_in\<close> excludes the
  very node it searches.\<close>

theorem refocus_after_detach_ignores_history:
  "focus_inactive_in t i = None \<and>
   finish_subtree_detach t p =
     (let u = compact_tree (case p of Some q \<Rightarrow> reap_empty_from t q | None \<Rightarrow> t)
      in request_window_sizes (u\<lparr>focus := focused_leaf_in u (tree_root u)\<rparr>))"
  using focus_inactive_in_None finish_subtree_detach_eq by blast

text \<open>C39. The stack loop of \<^verbatim>\<open>DetachedNode::height\<close> computes the nesting of the detached node, which is the
  height \<^verbatim>\<open>subtree_height\<close> measured in the tree it left.\<close>

theorem detached_height_is_nesting:
  assumes "inv t" "parent_of t i = Some p" "detach_subtree t i = (t1, Some (sub, op))"
  shows "detached_height (dt_node sub) = plain_height (dt_node sub) \<and>
    detached_height (dt_node sub) = subtree_height t i"
proof -
  have d: "departs t i p t1 (dt_node sub)" using detach_subtree_departs [OF assms(1,2)] assms(3) by auto
  have "plain_height (dt_node sub) = subtree_height t i"
    by (rule stored_height_eq [OF invD(4) [OF assms(1)]]) (use d parent_of_contains [OF assms(2)] in \<open>auto simp: departs_def\<close>)
  then show ?thesis by (simp add: detached_height_eq)
qed

theorem detached_height_is_nesting_witness:
  "case detach_subtree demo3 4 of (t1, r) \<Rightarrow> (case r of None \<Rightarrow> False | Some (sub, op) \<Rightarrow>
     detached_height (dt_node sub) = subtree_height demo3 4)"
proof -
  have p: "parent_of demo3 4 = Some 1" by code_simp
  obtain t1 sub op where d: "detach_subtree demo3 4 = (t1, Some (sub, op))"
    using detach_subtree_departs [OF demo3_inv p] by blast
  show ?thesis using detached_height_is_nesting [OF demo3_inv p d] by (simp add: d)
qed

section \<open>The workspaces of an output\<close>



end
